(* ===== verification/Poker_Prelude.thy ===== *)
theory Poker_Prelude
  imports Main "HOL-Library.Word" "HOL-Library.Multiset"
begin

text \<open>
  Shared vocabulary of the development.

  \<^item> A C routine that updates shared memory is a \<^emph>\<open>crashable program\<close>
    (type \<open>prog\<close>): it maps the memory to the list of memories that exist after each
    of its assignments and to an outcome.  The list is what a process that dies inside
    the routine can leave behind; the outcome is a returned value, a dereferenced null
    pointer (\<open>Fault\<close>), a thread that waits for ever (\<open>Blocked\<close>), or a process that
    ends itself as \<^verbatim>\<open>err_abort\<close> does (\<open>Exited\<close>).
  \<^item> \<open>chl\<close> is the corresponding Hoare triple with a crash condition, and the rules
    below decompose it along the structure of a program.
  \<^item> Generic facts on lists used by the event lists of several components.
\<close>

named_theorems prog_rules \<open>structural rules of the crash Hoare triple\<close>
named_theorems prog_defs \<open>definitions of the program constructors, for evaluation\<close>

section \<open>Integers of C\<close>

text \<open>What an \<^verbatim>\<open>int\<close> of 32 bits in two's complement holds when \<open>n\<close> is put into it.\<close>

definition c_int :: "int \<Rightarrow> int" where
  "c_int n = sint (word_of_int n :: 32 word)"

lemma c_int_same: "- (2 ^ 31) \<le> n \<Longrightarrow> n < 2 ^ 31 \<Longrightarrow> c_int n = n"
  by (simp add: c_int_def signed_of_int signed_take_bit_int_eq_self)

lemma c_int_range: "- (2 ^ 31) \<le> c_int n" "c_int n < 2 ^ 31"
  using sint_ge [of "word_of_int n :: 32 word"] sint_lt [of "word_of_int n :: 32 word"] by (simp_all add: c_int_def)

lemma c_int_mod: "c_int n mod 2 ^ 32 = n mod 2 ^ 32"
proof -
  have "take_bit 32 (signed_take_bit 31 n) = take_bit 32 n"
  proof (rule bit_eqI)
    fix k
    show "bit (take_bit 32 (signed_take_bit 31 n)) k = bit (take_bit 32 n) k"
      by (cases "k = 31") (auto simp: bit_simps min_def)
  qed
  then show ?thesis by (simp add: c_int_def signed_of_int take_bit_eq_mod)
qed

lemma c_int_eq_iff: "c_int m = c_int n \<longleftrightarrow> m mod 2 ^ 32 = n mod 2 ^ 32"
proof
  assume "c_int m = c_int n"
  then show "m mod 2 ^ 32 = n mod 2 ^ 32" by (metis c_int_mod)
next
  assume "m mod 2 ^ 32 = n mod 2 ^ 32"
  then have "word_of_int m = (word_of_int n :: 32 word)" by (simp add: word_of_int_eq_iff take_bit_eq_mod)
  then show "c_int m = c_int n" by (simp add: c_int_def)
qed

lemma c_int_add: "c_int (c_int m + n) = c_int (m + n)"
  unfolding c_int_eq_iff by (metis c_int_mod mod_add_left_eq)

section \<open>Crashable programs\<close>

datatype ('a, 's) outcome = Done 'a 's | Blocked 's | Exited 's | Fault

type_synonym ('s, 'a) prog = "'s \<Rightarrow> 's list \<times> ('a, 's) outcome"

definition ret :: "'a \<Rightarrow> ('s, 'a) prog" where
  [prog_defs]: "ret a s = ([], Done a s)"

definition fault :: "('s, 'a) prog" where
  [prog_defs]: "fault s = ([], Fault)"

definition blocked :: "('s, 'a) prog" where
  [prog_defs]: "blocked s = ([], Blocked s)"

definition exited :: "('s, 'a) prog" where
  [prog_defs]: "exited s = ([], Exited s)"

text \<open>One C assignment to shared memory; the memory it leaves is a crash point.\<close>

definition store :: "('s \<Rightarrow> 's) \<Rightarrow> ('s, unit) prog" where
  [prog_defs]: "store f s = ([f s], Done () (f s))"

text \<open>Reading memory into a local variable: no crash point.\<close>

definition load :: "('s \<Rightarrow> 'b) \<Rightarrow> ('b \<Rightarrow> ('s, 'a) prog) \<Rightarrow> ('s, 'a) prog" where
  [prog_defs]: "load f k s = k (f s) s"

definition bind :: "('s, 'a) prog \<Rightarrow> ('a \<Rightarrow> ('s, 'b) prog) \<Rightarrow> ('s, 'b) prog" where
  [prog_defs]: "bind m k s =
     (case m s of
        (l, Done a t) \<Rightarrow> (case k a t of (l', r) \<Rightarrow> (l @ l', r))
      | (l, Blocked t) \<Rightarrow> (l, Blocked t)
      | (l, Exited t) \<Rightarrow> (l, Exited t)
      | (l, Fault) \<Rightarrow> (l, Fault))"

abbreviation bindp :: "('s, 'a) prog \<Rightarrow> ('a \<Rightarrow> ('s, 'b) prog) \<Rightarrow> ('s, 'b) prog" where
  "bindp \<equiv> bind"

definition andthen :: "('s, 'a) prog \<Rightarrow> ('s, 'b) prog \<Rightarrow> ('s, 'b) prog" where
  [prog_defs]: "andthen m n = bind m (\<lambda>_. n)"

definition cond :: "('s \<Rightarrow> bool) \<Rightarrow> ('s, 'a) prog \<Rightarrow> ('s, 'a) prog \<Rightarrow> ('s, 'a) prog" where
  [prog_defs]: "cond b m n s = (if b s then m s else n s)"

text \<open>A pointer that must not be null: the dereference faults when it is.\<close>

definition deref :: "('s \<Rightarrow> 'p option) \<Rightarrow> ('p \<Rightarrow> ('s, 'a) prog) \<Rightarrow> ('s, 'a) prog" where
  [prog_defs]: "deref f k s = (case f s of None \<Rightarrow> fault s | Some p \<Rightarrow> k p s)"

text \<open>A sequence of statements followed by the rest of the routine.\<close>

primrec block :: "('s, unit) prog list \<Rightarrow> ('s, 'a) prog \<Rightarrow> ('s, 'a) prog" where
  "block [] k = k"
| "block (m # ms) k = andthen m (block ms k)"

declare block.simps [prog_defs]

abbreviation skip :: "('s, unit) prog" where
  "skip \<equiv> ret ()"

definition whenp :: "('s \<Rightarrow> bool) \<Rightarrow> ('s, unit) prog \<Rightarrow> ('s, unit) prog" where
  [prog_defs]: "whenp b m = cond b m skip"

section \<open>Hoare triples with a crash condition\<close>

definition chl ::
  "('s \<Rightarrow> bool) \<Rightarrow> ('s, 'a) prog \<Rightarrow> ('a \<Rightarrow> 's \<Rightarrow> bool) \<Rightarrow> ('s \<Rightarrow> bool) \<Rightarrow> bool" where
  "chl P m Q C \<longleftrightarrow>
     (\<forall>s. P s \<longrightarrow>
        (\<forall>t \<in> set (fst (m s)). C t) \<and> (\<exists>a t. snd (m s) = Done a t \<and> Q a t))"

lemma chlI:
  assumes "\<And>s. P s \<Longrightarrow> \<exists>l a t. m s = (l, Done a t) \<and> Q a t \<and> (\<forall>t \<in> set l. C t)"
  shows "chl P m Q C"
  unfolding chl_def using assms by fastforce

lemma chlD:
  assumes "chl P m Q C" and "P s"
  obtains l a t where "m s = (l, Done a t)" and "Q a t" and "\<forall>t \<in> set l. C t"
  using assms unfolding chl_def by (cases "m s") auto

lemma chl_ret [prog_rules]: "(\<And>s. P s \<Longrightarrow> Q a s) \<Longrightarrow> chl P (ret a) Q C"
  by (simp add: chl_def ret_def)

lemma chl_store [prog_rules]:
  "(\<And>s. P s \<Longrightarrow> C (f s)) \<Longrightarrow> (\<And>s. P s \<Longrightarrow> Q () (f s)) \<Longrightarrow> chl P (store f) Q C"
  by (simp add: chl_def store_def)

lemma chl_load: "(\<And>x. chl (\<lambda>s. P s \<and> f s = x) (k x) Q C) \<Longrightarrow> chl P (load f k) Q C"
  by (simp add: chl_def load_def)

lemma chl_bind:
  assumes m: "chl P m R C" and k: "\<And>a. chl (R a) (k a) Q C"
  shows "chl P (bind m k) Q C"
proof (rule chlI)
  fix s assume "P s"
  with m obtain l a t where 1: "m s = (l, Done a t)" "R a t" "\<forall>u \<in> set l. C u"
    by (rule chlD)
  from k 1(2) obtain l' b u where 2: "k a t = (l', Done b u)" "Q b u" "\<forall>v \<in> set l'. C v"
    by (rule chlD)
  from 1 2 show "\<exists>l a t. bind m k s = (l, Done a t) \<and> Q a t \<and> (\<forall>t \<in> set l. C t)"
    by (auto simp: bind_def)
qed

lemma chl_andthen: "chl P m (\<lambda>_. R) C \<Longrightarrow> chl R n Q C \<Longrightarrow> chl P (andthen m n) Q C"
  unfolding andthen_def by (rule chl_bind)

lemma chl_cond [prog_rules]:
  "chl (\<lambda>s. P s \<and> b s) m Q C \<Longrightarrow> chl (\<lambda>s. P s \<and> \<not> b s) n Q C \<Longrightarrow> chl P (cond b m n) Q C"
  by (auto simp: chl_def cond_def)

lemma chl_deref:
  "(\<And>s. P s \<Longrightarrow> f s \<noteq> None) \<Longrightarrow> (\<And>p. chl (\<lambda>s. P s \<and> f s = Some p) (k p) Q C)
   \<Longrightarrow> chl P (deref f k) Q C"
  by (fastforce simp: chl_def deref_def)

lemma chl_pre: "chl P' m Q C \<Longrightarrow> (\<And>s. P s \<Longrightarrow> P' s) \<Longrightarrow> chl P m Q C"
  unfolding chl_def by blast

lemma chl_conseq:
  "chl P' m Q' C' \<Longrightarrow> (\<And>s. P s \<Longrightarrow> P' s) \<Longrightarrow> (\<And>a s. Q' a s \<Longrightarrow> Q a s)
   \<Longrightarrow> (\<And>s. C' s \<Longrightarrow> C s) \<Longrightarrow> chl P m Q C"
  unfolding chl_def by blast

lemma chl_False [simp]: "chl (\<lambda>_. False) m Q C"
  by (simp add: chl_def)

lemma chl_exI: "(\<And>x. chl (P x) m Q C) \<Longrightarrow> chl (\<lambda>s. \<exists>x. P x s) m Q C"
  by (auto simp: chl_def)

text \<open>
  One assignment at the head of a routine, from a fully known memory: the memory it leaves
  satisfies the crash condition, and the rest of the routine starts from it.
\<close>

lemma chl_store_then:
  "C (f s0) \<Longrightarrow> chl (\<lambda>s. s = f s0) n Q C \<Longrightarrow> chl (\<lambda>s. s = s0) (andthen (store f) n) Q C"
  by (auto intro!: chl_andthen [where R = "\<lambda>s. s = f s0"] chl_store)

lemma chl_load_at: "chl (\<lambda>s. s = s0) (k (f s0)) Q C \<Longrightarrow> chl (\<lambda>s. s = s0) (load f k) Q C"
  by (auto simp: chl_def load_def)

lemma chl_cond_at:
  "chl (\<lambda>s. s = s0) (if b s0 then m else n) Q C \<Longrightarrow> chl (\<lambda>s. s = s0) (cond b m n) Q C"
  by (auto simp: chl_def cond_def)

lemma chl_deref_at:
  "f s0 = Some p \<Longrightarrow> chl (\<lambda>s. s = s0) (k p) Q C \<Longrightarrow> chl (\<lambda>s. s = s0) (deref f k) Q C"
  by (auto simp: chl_def deref_def)

lemma chl_ret_at: "Q a s0 \<Longrightarrow> chl (\<lambda>s. s = s0) (ret a) Q C"
  by (simp add: chl_def ret_def)

lemma chl_bind_at:
  "chl (\<lambda>s. s = s0) m R C \<Longrightarrow> (\<And>a t. R a t \<Longrightarrow> chl (\<lambda>s. s = t) (k a) Q C)
   \<Longrightarrow> chl (\<lambda>s. s = s0) (bind m k) Q C"
  by (rule chl_bind [where R = R]) (auto simp: chl_def)

lemma chl_at_iff: "chl P m Q C \<longleftrightarrow> (\<forall>s0. P s0 \<longrightarrow> chl (\<lambda>s. s = s0) m Q C)"
  by (auto simp: chl_def)

section \<open>Lists\<close>

lemma last_take_nth: "0 < n \<Longrightarrow> n \<le> length xs \<Longrightarrow> last (take n xs) = xs ! (n - 1)"
  by (subst last_conv_nth) auto

lemma filter_take_drop_len:
  "length (filter P xs) = length (filter P (take n xs)) + length (filter P (drop n xs))"
  by (metis append_take_drop_id filter_append length_append)

end
