(* ===== verification/Et_Memory.thy ===== *)
theory Et_Memory
  imports Poker_Prelude
begin

text \<open>
  The shared memory of an ET (event transfer) system: the structures of
  \<^verbatim>\<open>src/src/external/et/src/libsrc/et.h\<close> and \<^verbatim>\<open>et_private.h\<close> as records, the
  memory as one record \<open>et_mem\<close>, and one updater per kind of C assignment.

  Conventions.  A C \<^verbatim>\<open>int\<close> that counts, numbers or flags something is an \<open>int\<close>: every
  such value of these structures is bounded by the configuration, so the 32-bit range is
  never left.  The \<^verbatim>\<open>uint64_t\<close> statistics are 64-bit words and wrap around.  An event
  pointer is the position of the event in the event array (\<open>None\<close> is \<^verbatim>\<open>NULL\<close>): the
  macros \<^verbatim>\<open>ET_PEVENT2USR\<close> and \<^verbatim>\<open>ET_PEVENT2ET\<close> only translate such a position between the
  address spaces of two processes, and are the identity on positions.  A station is
  reached by its number, as in the source.  A mutex is the flag that it is held.
\<close>

section \<open>Constants\<close>

abbreviation (input) "ET_OK \<equiv> (0 :: int)"
abbreviation (input) "ET_ERROR \<equiv> (- 1 :: int)"
abbreviation (input) "ET_ERROR_TOOMANY \<equiv> (- 2 :: int)"
abbreviation (input) "ET_ERROR_EXISTS \<equiv> (- 3 :: int)"
abbreviation (input) "ET_ERROR_WAKEUP \<equiv> (- 4 :: int)"
abbreviation (input) "ET_ERROR_TIMEOUT \<equiv> (- 5 :: int)"
abbreviation (input) "ET_ERROR_EMPTY \<equiv> (- 6 :: int)"
abbreviation (input) "ET_ERROR_BUSY \<equiv> (- 7 :: int)"
abbreviation (input) "ET_ERROR_DEAD \<equiv> (- 8 :: int)"
abbreviation (input) "ET_ERROR_CLOSED \<equiv> (- 18 :: int)"
abbreviation (input) "ET_ERROR_NOMEM \<equiv> (- 14 :: int)"

abbreviation (input) "ET_GRANDCENTRAL \<equiv> (0 :: int)"
abbreviation (input) "ET_STATION_UNUSED \<equiv> (0 :: int)"
abbreviation (input) "ET_STATION_CREATING \<equiv> (1 :: int)"
abbreviation (input) "ET_STATION_IDLE \<equiv> (2 :: int)"
abbreviation (input) "ET_STATION_ACTIVE \<equiv> (3 :: int)"
abbreviation (input) "ET_STATION_USER_MULTI \<equiv> (0 :: int)"
abbreviation (input) "ET_STATION_USER_SINGLE \<equiv> (1 :: int)"
abbreviation (input) "ET_STATION_NONBLOCKING \<equiv> (0 :: int)"
abbreviation (input) "ET_STATION_BLOCKING \<equiv> (1 :: int)"
abbreviation (input) "ET_STATION_SELECT_ALL \<equiv> (1 :: int)"
abbreviation (input) "ET_STATION_SELECT_MATCH \<equiv> (2 :: int)"
abbreviation (input) "ET_STATION_SELECT_USER \<equiv> (3 :: int)"
abbreviation (input) "ET_STATION_SELECT_RROBIN \<equiv> (4 :: int)"
abbreviation (input) "ET_STATION_SELECT_EQUALCUE \<equiv> (5 :: int)"
abbreviation (input) "ET_STATION_RESTORE_OUT \<equiv> (0 :: int)"
abbreviation (input) "ET_STATION_RESTORE_IN \<equiv> (1 :: int)"
abbreviation (input) "ET_STATION_RESTORE_GC \<equiv> (2 :: int)"
abbreviation (input) "ET_STATION_RESTORE_REDIST \<equiv> (3 :: int)"
abbreviation (input) "ET_STATION_SERIAL \<equiv> (0 :: int)"
abbreviation (input) "ET_STATION_PARALLEL \<equiv> (1 :: int)"
abbreviation (input) "ET_STATION_CUE \<equiv> (10 :: int)"
abbreviation (input) "ET_STATION_PRESCALE \<equiv> (1 :: int)"
abbreviation (input) "ET_STATION_SELECT_INTS \<equiv> (6 :: nat)"

abbreviation (input) "ET_LOW \<equiv> (0 :: int)"
abbreviation (input) "ET_HIGH \<equiv> (1 :: int)"
abbreviation (input) "ET_SYS \<equiv> (- 1 :: int)"
abbreviation (input) "ET_END \<equiv> (- 1 :: int)"
abbreviation (input) "ET_NEWHEAD \<equiv> (- 2 :: int)"
abbreviation (input) "ET_EVENT_NORMAL \<equiv> (0 :: int)"
abbreviation (input) "ET_EVENT_TEMP \<equiv> (1 :: int)"
abbreviation (input) "ET_EVENT_USED \<equiv> (0 :: int)"
abbreviation (input) "ET_EVENT_NEW \<equiv> (1 :: int)"
abbreviation (input) "ET_SLEEP \<equiv> (0 :: int)"
abbreviation (input) "ET_TIMED \<equiv> (1 :: int)"
abbreviation (input) "ET_ASYNC \<equiv> (2 :: int)"
abbreviation (input) "ET_DATA_OK \<equiv> (0 :: int)"
abbreviation (input) "ET_DATA_CORRUPT \<equiv> (1 :: int)"
abbreviation (input) "ET_DATA_POSSIBLY_CORRUPT \<equiv> (2 :: int)"
abbreviation (input) "ET_STRUCT_NEW \<equiv> (0 :: int)"
abbreviation (input) "ET_STRUCT_OK \<equiv> (1 :: int)"
abbreviation (input) "ET_ATT_CONTINUE \<equiv> (0 :: int)"
abbreviation (input) "ET_ATT_QUIT \<equiv> (1 :: int)"
abbreviation (input) "ET_ATT_UNBLOCKED \<equiv> (0 :: int)"
abbreviation (input) "ET_ATT_BLOCKED \<equiv> (1 :: int)"
abbreviation (input) "ET_ATT_UNUSED \<equiv> (0 :: int)"
abbreviation (input) "ET_ATT_ACTIVE \<equiv> (1 :: int)"
abbreviation (input) "ET_ATT_NOSLEEP \<equiv> (0 :: int)"
abbreviation (input) "ET_PROC_CLOSED \<equiv> (0 :: int)"
abbreviation (input) "ET_PROC_ETDEAD \<equiv> (0 :: int)"
abbreviation (input) "ET_THREAD_KEEP \<equiv> (0 :: int)"
abbreviation (input) "ET_THREAD_KILL \<equiv> (1 :: int)"
abbreviation (input) "ET_ATTACHMENTS_MAX \<equiv> (110 :: int)"
abbreviation (input) "ET_REMOTE \<equiv> (0 :: int)"
abbreviation (input) "ET_LOCAL \<equiv> (1 :: int)"
abbreviation (input) "ET_LOCAL_NOSHARE \<equiv> (2 :: int)"
abbreviation (input) "ET_STATNAME_LENGTH \<equiv> (48 :: nat)"
abbreviation (input) "ET_FIX_READ \<equiv> (0 :: int)"
abbreviation (input) "ET_FIX_DUMP \<equiv> (1 :: int)"
abbreviation (input) "ET_FILENAME_LENGTH \<equiv> (100 :: nat)"
abbreviation (input) "ET_FUNCNAME_LENGTH \<equiv> (48 :: nat)"

section \<open>Structures\<close>

type_synonym eptr = "nat option"
type_synonym et_stat_id = int
type_synonym et_att_id = int
type_synonym et_proc_id = int

record et_event =
  e_next :: eptr
  e_length :: "64 word"
  e_memsize :: "64 word"
  e_pointer :: "64 word"
  e_modify :: int
  e_priority :: int
  e_owner :: int
  e_temp :: int
  e_age :: int
  e_datastatus :: int
  e_byteorder :: "32 word"
  e_group :: int
  e_place :: int
  e_control :: "int list"
  e_filename :: string

record et_stat_config =
  c_init :: int
  c_flow_mode :: int
  c_user_mode :: int
  c_restore_mode :: int
  c_block_mode :: int
  c_prescale :: int
  c_cue :: int
  c_select_mode :: int
  c_select :: "int list"
  c_fname :: string
  c_lib :: string
  c_classs :: string

record et_stat_data =
  d_status :: int
  d_pid_create :: int
  d_nattachments :: int
  d_att :: "int \<Rightarrow> int"

record et_list =
  l_cnt :: int
  l_lasthigh :: int
  l_events_try :: "64 word"
  l_events_in :: "64 word"
  l_events_out :: "64 word"
  l_firstevent :: eptr
  l_lastevent :: eptr
  l_mutex :: bool

record et_fixin =
  fi_first :: eptr
  fi_eventsin :: "64 word"
  fi_start :: int
  fi_cnt :: int
  fi_num :: int
  fi_call :: int

record et_fixout =
  fo_start :: int
  fo_cnt :: int
  fo_num :: int

record et_fix =
  f_in :: et_fixin
  f_out :: et_fixout

record et_station =
  s_num :: et_stat_id
  s_conductor :: int
  s_next :: et_stat_id
  s_prev :: et_stat_id
  s_nextparallel :: et_stat_id
  s_prevparallel :: et_stat_id
  s_waslast :: int
  s_name :: string
  s_mutex :: bool
  s_fix :: et_fix
  s_data :: et_stat_data
  s_config :: et_stat_config
  s_list_in :: et_list
  s_list_out :: et_list

record et_attach =
  a_num :: et_att_id
  a_proc :: et_proc_id
  a_stat :: et_stat_id
  a_status :: int
  a_blocked :: int
  a_quit :: int
  a_sleep :: int
  a_events_put :: "64 word"
  a_events_get :: "64 word"
  a_events_dump :: "64 word"
  a_events_make :: "64 word"
  a_pid :: int

record et_proc =
  pr_num :: et_proc_id
  pr_att :: "int \<Rightarrow> et_att_id"
  pr_nattachments :: int
  pr_status :: int
  pr_et_status :: int
  pr_heartbeat :: "32 word"
  pr_pid :: int

record et_sys_config =
  y_event_size :: "64 word"
  y_init :: int
  y_nevents :: int
  y_ntemps :: int
  y_nstations :: int
  y_nprocesses :: int
  y_nattachments :: int
  y_groupCount :: int
  y_groups :: "int list"
  y_filename :: string
  y_port :: int
  y_serverport :: int
  y_tcpSendBufSize :: int
  y_tcpRecvBufSize :: int
  y_tcpNoDelay :: int
  y_bcastaddrs :: "string list"
  y_mcastaddrs :: "string list"

record et_system =
  sy_heartbeat :: "32 word"
  sy_nstations :: int
  sy_ntemps :: int
  sy_nprocesses :: int
  sy_nattachments :: int
  sy_stat_head :: et_stat_id
  sy_stat_tail :: et_stat_id
  sy_proc :: "int \<Rightarrow> et_proc"
  sy_attach :: "int \<Rightarrow> et_attach"
  sy_config :: et_sys_config

text \<open>A list of events is the input or the output list of a station.\<close>

datatype listref = ListIn et_stat_id | ListOut et_stat_id

text \<open>What a routine asks of the operating system, in order.\<close>

datatype os_call = CondSignal listref | CondBroadcast listref
  | Unlink string | TempRemove string | Munmap string

record et_mem =
  m_sys :: et_system
  m_stats :: "et_stat_id \<Rightarrow> et_station"
  m_events :: "nat \<Rightarrow> et_event"
  m_histogram :: "int \<Rightarrow> int"
  m_cleanup :: int
  m_os :: "os_call list"

type_synonym 'a cmd = "(et_mem, 'a) prog"

section \<open>Reading and updating shared memory\<close>

fun glist :: "listref \<Rightarrow> et_mem \<Rightarrow> et_list" where
  "glist (ListIn st) s = s_list_in (m_stats s st)"
| "glist (ListOut st) s = s_list_out (m_stats s st)"

fun stat_of :: "listref \<Rightarrow> et_stat_id" where
  "stat_of (ListIn st) = st"
| "stat_of (ListOut st) = st"

definition gfix :: "et_stat_id \<Rightarrow> et_mem \<Rightarrow> et_fix" where
  "gfix st s = s_fix (m_stats s st)"

definition nevents :: "et_mem \<Rightarrow> int" where
  "nevents s = y_nevents (sy_config (m_sys s))"

definition upd_event :: "nat \<Rightarrow> (et_event \<Rightarrow> et_event) \<Rightarrow> et_mem \<Rightarrow> et_mem" where
  "upd_event e f s = s\<lparr>m_events := (m_events s)(e := f (m_events s e))\<rparr>"

definition upd_station :: "et_stat_id \<Rightarrow> (et_station \<Rightarrow> et_station) \<Rightarrow> et_mem \<Rightarrow> et_mem" where
  "upd_station st f s = s\<lparr>m_stats := (m_stats s)(st := f (m_stats s st))\<rparr>"

fun upd_list :: "listref \<Rightarrow> (et_list \<Rightarrow> et_list) \<Rightarrow> et_mem \<Rightarrow> et_mem" where
  "upd_list (ListIn st) f s = upd_station st (s_list_in_update f) s"
| "upd_list (ListOut st) f s = upd_station st (s_list_out_update f) s"

definition upd_fixin :: "et_stat_id \<Rightarrow> (et_fixin \<Rightarrow> et_fixin) \<Rightarrow> et_mem \<Rightarrow> et_mem" where
  "upd_fixin st f s = upd_station st (s_fix_update (f_in_update f)) s"

definition upd_fixout :: "et_stat_id \<Rightarrow> (et_fixout \<Rightarrow> et_fixout) \<Rightarrow> et_mem \<Rightarrow> et_mem" where
  "upd_fixout st f s = upd_station st (s_fix_update (f_out_update f)) s"

definition upd_attach :: "et_att_id \<Rightarrow> (et_attach \<Rightarrow> et_attach) \<Rightarrow> et_mem \<Rightarrow> et_mem" where
  "upd_attach a f s = s\<lparr>m_sys := (m_sys s)\<lparr>sy_attach :=
     (sy_attach (m_sys s))(a := f (sy_attach (m_sys s) a))\<rparr>\<rparr>"

definition upd_os :: "os_call \<Rightarrow> et_mem \<Rightarrow> et_mem" where
  "upd_os c s = s\<lparr>m_os := m_os s @ [c]\<rparr>"

definition upd_hist :: "int \<Rightarrow> et_mem \<Rightarrow> et_mem" where
  "upd_hist i s = s\<lparr>m_histogram := (m_histogram s)(i := m_histogram s i + 1)\<rparr>"

text \<open>Each updater changes what it names and nothing else.\<close>

named_theorems mem_simps \<open>what reading memory after an update returns\<close>

lemma upd_list_unfold:
  "upd_list r f s = upd_station (stat_of r)
     (case r of ListIn _ \<Rightarrow> s_list_in_update f | ListOut _ \<Rightarrow> s_list_out_update f) s"
  by (cases r) simp_all

lemma m_events_upd [mem_simps]:
  "m_events (upd_event e f s) = (m_events s)(e := f (m_events s e))"
  "m_events (upd_station st g s) = m_events s"
  "m_events (upd_list r h s) = m_events s"
  "m_events (upd_fixin st i s) = m_events s"
  "m_events (upd_fixout st j s) = m_events s"
  "m_events (upd_attach a k s) = m_events s"
  "m_events (upd_os c s) = m_events s"
  "m_events (upd_hist n s) = m_events s"
  by (simp_all add: upd_event_def upd_station_def upd_list_unfold upd_fixin_def upd_fixout_def
      upd_attach_def upd_os_def upd_hist_def)

lemma glist_upd [mem_simps]:
  "glist q (upd_event e f s) = glist q s"
  "glist q (upd_list r h s) = (if q = r then h (glist q s) else glist q s)"
  "glist q (upd_fixin st i s) = glist q s"
  "glist q (upd_fixout st j s) = glist q s"
  "glist q (upd_attach a k s) = glist q s"
  "glist q (upd_os c s) = glist q s"
  "glist q (upd_hist n s) = glist q s"
  by (cases q; cases r; simp add: upd_event_def upd_station_def upd_list_unfold upd_fixin_def
      upd_fixout_def upd_attach_def upd_os_def upd_hist_def)+

lemma gfix_upd [mem_simps]:
  "gfix st (upd_event e f s) = gfix st s"
  "gfix st (upd_list r h s) = gfix st s"
  "gfix st (upd_fixin st' i s) = (if st = st' then f_in_update i (gfix st s) else gfix st s)"
  "gfix st (upd_fixout st' j s) = (if st = st' then f_out_update j (gfix st s) else gfix st s)"
  "gfix st (upd_attach a k s) = gfix st s"
  "gfix st (upd_os c s) = gfix st s"
  "gfix st (upd_hist n s) = gfix st s"
  by (cases r; simp add: gfix_def upd_event_def upd_station_def upd_list_unfold upd_fixin_def
      upd_fixout_def upd_attach_def upd_os_def upd_hist_def)+

lemma m_sys_upd [mem_simps]:
  "m_sys (upd_event e f s) = m_sys s"
  "m_sys (upd_station st g s) = m_sys s"
  "m_sys (upd_list r h s) = m_sys s"
  "m_sys (upd_fixin st i s) = m_sys s"
  "m_sys (upd_fixout st j s) = m_sys s"
  "m_sys (upd_os c s) = m_sys s"
  "m_sys (upd_hist n s) = m_sys s"
  by (simp_all add: upd_event_def upd_station_def upd_list_unfold upd_fixin_def upd_fixout_def
      upd_os_def upd_hist_def)

lemma attach_upd [mem_simps]:
  "sy_attach (m_sys (upd_attach a k s)) = (sy_attach (m_sys s))(a := k (sy_attach (m_sys s) a))"
  by (simp add: upd_attach_def)

lemma nevents_upd [mem_simps]:
  "nevents (upd_event e f s) = nevents s"
  "nevents (upd_station st g s) = nevents s"
  "nevents (upd_list r h s) = nevents s"
  "nevents (upd_fixin st i s) = nevents s"
  "nevents (upd_fixout st j s) = nevents s"
  "nevents (upd_attach a k s) = nevents s"
  "nevents (upd_os c s) = nevents s"
  "nevents (upd_hist n s) = nevents s"
  by (simp_all add: nevents_def mem_simps) (simp add: upd_attach_def)

lemma m_os_upd [mem_simps]:
  "m_os (upd_event e f s) = m_os s"
  "m_os (upd_station st g s) = m_os s"
  "m_os (upd_list r h s) = m_os s"
  "m_os (upd_fixin st i s) = m_os s"
  "m_os (upd_fixout st j s) = m_os s"
  "m_os (upd_attach a k s) = m_os s"
  "m_os (upd_os c s) = m_os s @ [c]"
  "m_os (upd_hist n s) = m_os s"
  by (simp_all add: upd_event_def upd_station_def upd_list_unfold upd_fixin_def upd_fixout_def
      upd_attach_def upd_os_def upd_hist_def)

declare mem_simps [simp]
declare glist.simps [simp del] upd_list.simps [simp del]

section \<open>Event lists in memory\<close>

text \<open>
  The linked lists of ET are delimited by their count: the \<^verbatim>\<open>next\<close> field of the last
  event is never cleared and may hold anything.  \<open>chain h p xs\<close> says that from the
  pointer \<open>p\<close> the events \<open>xs\<close> are reached one after the other.
\<close>

fun chain :: "(nat \<Rightarrow> et_event) \<Rightarrow> eptr \<Rightarrow> nat list \<Rightarrow> bool" where
  "chain h p [] = True"
| "chain h p (x # xs) = (p = Some x \<and> chain h (e_next (h x)) xs)"

text \<open>The pointer that follows a chain.\<close>

definition chain_end :: "(nat \<Rightarrow> et_event) \<Rightarrow> eptr \<Rightarrow> nat list \<Rightarrow> eptr" where
  "chain_end h p xs = (if xs = [] then p else e_next (h (last xs)))"

lemma chain_end_simps [simp]:
  "chain_end h p [] = p"
  "chain_end h p (x # xs) = chain_end h (e_next (h x)) xs"
  "chain_end h p (xs @ [x]) = e_next (h x)"
  by (simp_all add: chain_end_def)

lemma chain_append [simp]:
  "chain h p (xs @ ys) \<longleftrightarrow> chain h p xs \<and> chain h (chain_end h p xs) ys"
  by (induction xs arbitrary: p) auto

lemma chain_cong:
  "(\<And>x. x \<in> set (butlast xs) \<Longrightarrow> e_next (h' x) = e_next (h x)) \<Longrightarrow> chain h' p xs = chain h p xs"
proof (induction xs arbitrary: p)
  case Nil
  then show ?case by simp
next
  case (Cons x xs)
  show ?case
  proof (cases "xs = []")
    case True
    then show ?thesis by simp
  next
    case False
    with Cons.prems have "e_next (h' x) = e_next (h x)"
      and "\<And>y. y \<in> set (butlast xs) \<Longrightarrow> e_next (h' y) = e_next (h y)"
      by auto
    with Cons.IH show ?thesis by simp
  qed
qed

lemma chain_upd_notin:
  "x \<notin> set (butlast xs) \<Longrightarrow> chain (h(x := v)) p xs = chain h p xs"
  by (rule chain_cong) auto

lemma chain_upd_same_next:
  "e_next v = e_next (h x) \<Longrightarrow> chain (h(x := v)) p xs = chain h p xs"
  by (rule chain_cong) auto

lemma chain_first: "chain h p xs \<Longrightarrow> xs \<noteq> [] \<Longrightarrow> p = Some (hd xs)"
  by (cases xs) auto

lemma chain_nth_next:
  "chain h p xs \<Longrightarrow> Suc i < length xs \<Longrightarrow> e_next (h (xs ! i)) = Some (xs ! Suc i)"
proof (induction xs arbitrary: p i)
  case Nil
  then show ?case by simp
next
  case (Cons x xs)
  then show ?case by (cases i; cases xs) auto
qed

lemma distinct_last_notin_butlast: "distinct xs \<Longrightarrow> xs \<noteq> [] \<Longrightarrow> last xs \<notin> set (butlast xs)"
  by (metis append_butlast_last_id distinct_butlast not_distinct_conv_prefix)

text \<open>
  The events that a list holds: \<open>l_cnt\<close> events from \<open>l_firstevent\<close> on.
\<close>

fun walk :: "(nat \<Rightarrow> et_event) \<Rightarrow> nat \<Rightarrow> eptr \<Rightarrow> nat list" where
  "walk h 0 p = []"
| "walk h (Suc n) None = []"
| "walk h (Suc n) (Some x) = x # walk h n (e_next (h x))"

definition content :: "et_mem \<Rightarrow> listref \<Rightarrow> nat list" where
  "content s r = walk (m_events s) (nat (l_cnt (glist r s))) (l_firstevent (glist r s))"

lemma walk_chain: "chain h p xs \<Longrightarrow> walk h (length xs) p = xs"
  by (induction xs arbitrary: p) auto

lemma chain_walk: "length (walk h n p) = n \<Longrightarrow> chain h p (walk h n p)"
  by (induction h n p rule: walk.induct) auto

end
