(* ===== verification/Et_StationLists.thy ===== *)
theory Et_StationLists
  imports Et_Memory
begin

text \<open>
  Reading from and writing to the event lists of a station
  (\<^verbatim>\<open>src/src/external/et/src/libsrc/et_readwrite.c\<close>): \<^verbatim>\<open>et_station_write\<close>,
  \<^verbatim>\<open>et_station_nwrite\<close>, \<^verbatim>\<open>et_station_nwriteNoPri\<close>, \<^verbatim>\<open>et_station_read\<close>,
  \<^verbatim>\<open>et_station_nread\<close>, \<^verbatim>\<open>et_station_nread_group\<close>, \<^verbatim>\<open>et_station_dump\<close> and
  \<^verbatim>\<open>et_station_ndump\<close>, each as the sequence of its assignments to shared memory.

  An array of event pointers with its length is a list.  Messages to the log are left
  out.  \<^verbatim>\<open>pthread_cond_wait\<close> and \<^verbatim>\<open>pthread_cond_timedwait\<close> take their behaviour from a
  list of \<open>wake\<close>s: each is the status of one return from the wait and what the other
  threads did to the memory while the mutex was released.  A wait for which the list has
  no entry left never returns.
\<close>

section \<open>Assignments\<close>

abbreviation "set_first r p \<equiv> store (upd_list r (l_firstevent_update (\<lambda>_. p)))"
abbreviation "set_last r p \<equiv> store (upd_list r (l_lastevent_update (\<lambda>_. p)))"
abbreviation "set_next e p \<equiv> store (upd_event e (e_next_update (\<lambda>_. p)))"
abbreviation "set_owner e a \<equiv> store (upd_event e (e_owner_update (\<lambda>_. a)))"
abbreviation "add_cnt r n \<equiv> store (upd_list r (l_cnt_update (\<lambda>c. c + n)))"
abbreviation "add_lasthigh r n \<equiv> store (upd_list r (l_lasthigh_update (\<lambda>c. c + n)))"
abbreviation "signal r \<equiv> store (upd_os (CondSignal r))"
abbreviation "broadcast r \<equiv> store (upd_os (CondBroadcast r))"

abbreviation first_of :: "listref \<Rightarrow> et_mem \<Rightarrow> eptr" where
  "first_of r s \<equiv> l_firstevent (glist r s)"

abbreviation last_of :: "listref \<Rightarrow> et_mem \<Rightarrow> eptr" where
  "last_of r s \<equiv> l_lastevent (glist r s)"

abbreviation cnt_of :: "listref \<Rightarrow> et_mem \<Rightarrow> int" where
  "cnt_of r s \<equiv> l_cnt (glist r s)"

abbreviation next_of :: "nat \<Rightarrow> et_mem \<Rightarrow> eptr" where
  "next_of e s \<equiv> e_next (m_events s e)"

abbreviation pri_of :: "nat \<Rightarrow> et_mem \<Rightarrow> int" where
  "pri_of e s \<equiv> e_priority (m_events s e)"

section \<open>Locks\<close>

definition et_llist_lock :: "listref \<Rightarrow> unit cmd" where
  "et_llist_lock r = cond (\<lambda>s. l_mutex (glist r s)) blocked
     (store (upd_list r (l_mutex_update (\<lambda>_. True))))"

definition et_llist_unlock :: "listref \<Rightarrow> unit cmd" where
  "et_llist_unlock r = store (upd_list r (l_mutex_update (\<lambda>_. False)))"

section \<open>Writing to the output list\<close>

text \<open>\<open>step_next n p\<close> follows \<open>n\<close> links from \<open>p\<close>: the loop that finds the last high
  priority event.\<close>

fun step_next :: "nat \<Rightarrow> nat \<Rightarrow> nat cmd" where
  "step_next 0 p = ret p"
| "step_next (Suc n) p = deref (next_of p) (step_next n)"

definition find_lasthigh :: "listref \<Rightarrow> nat option cmd" where
  "find_lasthigh r = cond (\<lambda>s. l_lasthigh (glist r s) \<noteq> 0)
     (load (\<lambda>s. nat (l_lasthigh (glist r s)) - 1)
        (\<lambda>n. deref (first_of r) (\<lambda>p. bind (step_next n p) (\<lambda>q. ret (Some q)))))
     (ret None)"

text \<open>Linking a high priority event behind the last high priority one.\<close>

definition link_high :: "listref \<Rightarrow> nat \<Rightarrow> nat option \<Rightarrow> unit cmd" where
  "link_high r e lasthigh =
     (case lasthigh of
        None \<Rightarrow> load (first_of r) (\<lambda>f. block [set_next e f, set_first r (Some e)] skip)
      | Some lh \<Rightarrow>
          cond (\<lambda>s. last_of r s = Some lh)
            (block [set_next lh (Some e), set_last r (Some e)] skip)
            (load (next_of lh) (\<lambda>n. block [set_next e n, set_next lh (Some e)] skip)))"

text \<open>The repair information recorded before the list is touched.\<close>

definition open_fixout :: "et_stat_id \<Rightarrow> int \<Rightarrow> unit cmd" where
  "open_fixout st num =
     block [whenp (\<lambda>s. cnt_of (ListOut st) s = 0) (set_first (ListOut st) None),
            load (cnt_of (ListOut st)) (\<lambda>c. store (upd_fixout st (fo_cnt_update (\<lambda>_. c)))),
            store (upd_fixout st (fo_num_update (\<lambda>_. num))),
            store (upd_fixout st (fo_start_update (\<lambda>n. n + 1)))] skip"

definition close_fixout :: "et_stat_id \<Rightarrow> unit cmd" where
  "close_fixout st =
     block [store (upd_fixout st (fo_start_update (\<lambda>n. n - 1))),
            et_llist_unlock (ListOut st), signal (ListOut st)] skip"

definition et_station_write :: "et_stat_id \<Rightarrow> nat \<Rightarrow> int cmd" where
  "et_station_write st e = (let r = ListOut st in
     andthen (et_llist_lock r)
      (cond (\<lambda>s. cnt_of r s \<ge> nevents s) (andthen (et_llist_unlock r) (ret ET_ERROR))
        (block
          [open_fixout st 1,
           cond (\<lambda>s. cnt_of r s = 0)
            (block [set_first r (Some e), set_last r (Some e),
                    whenp (\<lambda>s. pri_of e s = ET_HIGH)
                      (store (upd_list r (l_lasthigh_update (\<lambda>_. 1))))] skip)
            (cond (\<lambda>s. pri_of e s = ET_LOW)
              (deref (last_of r) (\<lambda>p. block [set_next p (Some e), set_last r (Some e)] skip))
              (bind (find_lasthigh r)
                (\<lambda>lh. block [link_high r e lh, add_lasthigh r 1] skip))),
           set_owner e ET_SYS, add_cnt r 1, close_fixout st] (ret ET_OK))))"

text \<open>
  The loop of \<^verbatim>\<open>et_station_nwrite\<close>, with its local variables \<^verbatim>\<open>pe_last_USR\<close> and
  \<^verbatim>\<open>pe_lasthigh\<close>.
\<close>

fun nwrite_loop :: "listref \<Rightarrow> nat \<Rightarrow> nat option \<Rightarrow> nat list \<Rightarrow> unit cmd" where
  "nwrite_loop r pl lh [] = skip"
| "nwrite_loop r pl lh (e # es) =
     cond (\<lambda>s. pri_of e s = ET_LOW)
       (block [set_next pl (Some e), set_last r (Some e), set_owner e ET_SYS, add_cnt r 1]
          (nwrite_loop r e lh es))
       (case lh of
          None \<Rightarrow> load (first_of r) (\<lambda>f.
            block [set_next e f, set_first r (Some e), add_lasthigh r 1,
                   set_owner e ET_SYS, add_cnt r 1] (nwrite_loop r pl (Some e) es))
        | Some h \<Rightarrow>
            if h = pl then
              block [set_next pl (Some e), set_last r (Some e), add_lasthigh r 1,
                     set_owner e ET_SYS, add_cnt r 1] (nwrite_loop r e (Some e) es)
            else load (next_of h) (\<lambda>n.
              block [set_next e n, set_next h (Some e), add_lasthigh r 1,
                     set_owner e ET_SYS, add_cnt r 1] (nwrite_loop r pl (Some e) es)))"

definition et_station_nwrite :: "et_stat_id \<Rightarrow> nat list \<Rightarrow> int cmd" where
  "et_station_nwrite st pe = (let r = ListOut st; num = int (length pe) in
     case pe of [] \<Rightarrow> ret ET_OK
     | e0 # es \<Rightarrow>
       andthen (et_llist_lock r)
        (cond (\<lambda>s. num > nevents s - cnt_of r s)
          (andthen (et_llist_unlock r) (ret ET_ERROR))
          (block
            [open_fixout st num,
             cond (\<lambda>s. cnt_of r s = 0)
              (block [set_first r (Some e0), set_last r (Some e0), set_owner e0 ET_SYS]
                (load (\<lambda>s. pri_of e0 s = ET_HIGH) (\<lambda>high.
                  block [whenp (\<lambda>_. high) (store (upd_list r (l_lasthigh_update (\<lambda>_. 1)))),
                         add_cnt r 1]
                    (nwrite_loop r e0 (if high then Some e0 else None) es))))
              (bind (find_lasthigh r)
                (\<lambda>lh. deref (last_of r) (\<lambda>p. nwrite_loop r p lh (e0 # es)))),
             close_fixout st] (ret ET_OK))))"

fun nwriteNoPri_loop :: "listref \<Rightarrow> nat \<Rightarrow> nat list \<Rightarrow> unit cmd" where
  "nwriteNoPri_loop r pl [] = skip"
| "nwriteNoPri_loop r pl (e # es) =
     block [set_next pl (Some e), set_last r (Some e), set_owner e ET_SYS, add_cnt r 1]
       (nwriteNoPri_loop r e es)"

definition et_station_nwriteNoPri :: "et_stat_id \<Rightarrow> nat list \<Rightarrow> int cmd" where
  "et_station_nwriteNoPri st pe = (let r = ListOut st; num = int (length pe) in
     case pe of [] \<Rightarrow> ret ET_OK
     | e0 # es \<Rightarrow>
       andthen (et_llist_lock r)
        (cond (\<lambda>s. num > nevents s - cnt_of r s)
          (andthen (et_llist_unlock r) (ret ET_ERROR))
          (block
            [open_fixout st num,
             cond (\<lambda>s. cnt_of r s = 0)
              (block [set_first r (Some e0), set_last r (Some e0), set_owner e0 ET_SYS,
                      add_cnt r 1] (nwriteNoPri_loop r e0 es))
              (deref (last_of r) (\<lambda>p. nwriteNoPri_loop r p (e0 # es))),
             close_fixout st] (ret ET_OK))))"

section \<open>Reading from the input list\<close>

text \<open>
  One return from a condition wait: its status (0, \<^verbatim>\<open>ETIMEDOUT\<close> or another error number)
  and the work of the other threads meanwhile.
\<close>

type_synonym wake = "int \<times> (et_mem \<Rightarrow> et_mem)"

abbreviation (input) "ETIMEDOUT \<equiv> (110 :: int)"

definition cond_wait :: "listref \<Rightarrow> (et_mem \<Rightarrow> et_mem) \<Rightarrow> unit cmd" where
  "cond_wait r env =
     block [et_llist_unlock r, store env, store (upd_list r (l_mutex_update (\<lambda>_. True)))] skip"

abbreviation "set_blocked att v \<equiv> store (upd_attach att (a_blocked_update (\<lambda>_. v)))"

abbreviation quitting :: "et_att_id \<Rightarrow> et_mem \<Rightarrow> bool" where
  "quitting att s \<equiv> a_quit (sy_attach (m_sys s) att) = ET_ATT_QUIT"

definition quit_read :: "listref \<Rightarrow> et_att_id \<Rightarrow> int cmd" where
  "quit_read r att =
     block [et_llist_unlock r, store (upd_attach att (a_quit_update (\<lambda>_. ET_ATT_CONTINUE)))]
       (ret ET_ERROR_WAKEUP)"

fun wait_loop :: "bool \<Rightarrow> listref \<Rightarrow> et_att_id \<Rightarrow> wake list \<Rightarrow> int cmd" where
  "wait_loop timed r att [] =
     cond (\<lambda>s. cnt_of r s < 1) (andthen (set_blocked att ET_ATT_BLOCKED) blocked) (ret ET_OK)"
| "wait_loop timed r att ((status, env) # ws) =
     cond (\<lambda>s. cnt_of r s < 1)
       (block [set_blocked att ET_ATT_BLOCKED, cond_wait r env,
               set_blocked att ET_ATT_UNBLOCKED]
         (if timed \<and> status = ETIMEDOUT then
            andthen (et_llist_unlock r) (ret ET_ERROR_TIMEOUT)
          else if status \<noteq> 0 then (if timed then ret ET_ERROR else exited)
          else cond (quitting att) (quit_read r att) (wait_loop timed r att ws)))
       (ret ET_OK)"

text \<open>
  The part that \<^verbatim>\<open>et_station_read\<close> and \<^verbatim>\<open>et_station_nread\<close> share: obtain the mutex of the
  input list and an event to read, according to the mode.
\<close>

definition count_hist :: "et_stat_id \<Rightarrow> unit cmd" where
  "count_hist st = whenp (\<lambda>_. st = ET_GRANDCENTRAL)
     (load (cnt_of (ListIn st)) (\<lambda>c. store (upd_hist c)))"

definition read_begin :: "et_stat_id \<Rightarrow> int \<Rightarrow> et_att_id \<Rightarrow> wake list \<Rightarrow> int cmd" where
  "read_begin st mode att ws = (let r = ListIn st in
     if mode = ET_SLEEP then
       block [et_llist_lock r, count_hist st] (wait_loop False r att ws)
     else if mode = ET_TIMED then
       block [et_llist_lock r, count_hist st] (wait_loop True r att ws)
     else if mode = ET_ASYNC then
       cond (\<lambda>s. l_mutex (glist r s)) (ret ET_ERROR_BUSY)
         (andthen (et_llist_lock r)
           (cond (quitting att) (quit_read r att)
             (andthen (count_hist st)
               (cond (\<lambda>s. cnt_of r s < 1)
                 (andthen (et_llist_unlock r) (ret ET_ERROR_EMPTY))
                 (ret ET_OK)))))
     else ret ET_ERROR)"

abbreviation "set_fixin st f \<equiv> store (upd_fixin st f)"

definition open_fixin_read :: "et_stat_id \<Rightarrow> int \<Rightarrow> unit cmd" where
  "open_fixin_read st num =
     block [load (cnt_of (ListIn st)) (\<lambda>c. set_fixin st (fi_cnt_update (\<lambda>_. c))),
            set_fixin st (fi_num_update (\<lambda>_. num)),
            set_fixin st (fi_call_update (\<lambda>_. ET_FIX_READ)),
            load (first_of (ListIn st)) (\<lambda>p. set_fixin st (fi_first_update (\<lambda>_. p)))] skip"

text \<open>\<^verbatim>\<open>et_station_nread\<close> and \<^verbatim>\<open>et_station_nread_group\<close> record the number first.\<close>

definition open_fixin_nread :: "et_stat_id \<Rightarrow> int \<Rightarrow> unit cmd" where
  "open_fixin_nread st num =
     block [set_fixin st (fi_num_update (\<lambda>_. num)),
            load (cnt_of (ListIn st)) (\<lambda>c. set_fixin st (fi_cnt_update (\<lambda>_. c))),
            set_fixin st (fi_call_update (\<lambda>_. ET_FIX_READ)),
            load (first_of (ListIn st)) (\<lambda>p. set_fixin st (fi_first_update (\<lambda>_. p)))] skip"

definition et_station_read ::
  "et_stat_id \<Rightarrow> int \<Rightarrow> et_att_id \<Rightarrow> wake list \<Rightarrow> (int \<times> nat list) cmd" where
  "et_station_read st mode att ws = (let r = ListIn st in
     bind (read_begin st mode att ws) (\<lambda>status.
       if status \<noteq> ET_OK then ret (status, [])
       else andthen (open_fixin_read st 1)
         (deref (first_of r) (\<lambda>p.
           block [load (next_of p) (set_first r), set_owner p att, add_cnt r (- 1),
                  set_fixin st (fi_first_update (\<lambda>_. None)), et_llist_unlock r]
             (ret (ET_OK, [p]))))))"

fun nread_loop :: "et_att_id \<Rightarrow> nat \<Rightarrow> nat \<Rightarrow> nat list cmd" where
  "nread_loop att 0 p = ret []"
| "nread_loop att (Suc n) p =
     deref (next_of p) (\<lambda>q. andthen (set_owner q att)
       (bind (nread_loop att n q) (\<lambda>qs. ret (q # qs))))"

definition et_station_nread ::
  "et_stat_id \<Rightarrow> int \<Rightarrow> et_att_id \<Rightarrow> wake list \<Rightarrow> int \<Rightarrow> (int \<times> nat list) cmd" where
  "et_station_nread st mode att ws num0 = (let r = ListIn st in
     if num0 < 1 then ret (ET_OK, [])
     else bind (read_begin st mode att ws) (\<lambda>status.
       if status \<noteq> ET_OK then ret (status, [])
       else load (\<lambda>s. if num0 > cnt_of r s then cnt_of r s else num0) (\<lambda>num.
         andthen (open_fixin_nread st num)
          (deref (first_of r) (\<lambda>p0. andthen (set_owner p0 att)
            (bind (nread_loop att (nat num - 1) p0) (\<lambda>ps.
              block [load (next_of (last (p0 # ps))) (set_first r), add_cnt r (- num),
                     set_fixin st (fi_first_update (\<lambda>_. None)), et_llist_unlock r]
                (ret (ET_OK, p0 # ps)))))))))"

section \<open>Reading one group of events\<close>

text \<open>
  The scan of \<^verbatim>\<open>et_station_nread_group\<close>: \<open>k\<close> events are left to look at, \<open>idx\<close> are
  taken, \<open>prev\<close> and \<open>pev\<close> are the pointers of the source.
\<close>

fun group_scan ::
  "listref \<Rightarrow> et_att_id \<Rightarrow> int \<Rightarrow> int \<Rightarrow> nat \<Rightarrow> int \<Rightarrow> nat option \<Rightarrow> eptr \<Rightarrow> nat list cmd" where
  "group_scan r att g num 0 idx prev pev = ret []"
| "group_scan r att g num (Suc k) idx prev pev =
     deref (\<lambda>_. pev) (\<lambda>p.
       cond (\<lambda>s. e_group (m_events s p) \<noteq> g)
         (load (next_of p) (group_scan r att g num k idx (Some p)))
         (block
           [set_owner p att,
            load (next_of p) (\<lambda>n.
              case prev of None \<Rightarrow> set_first r n | Some q \<Rightarrow> set_next q n),
            whenp (\<lambda>s. last_of r s = Some p) (set_last r prev)]
           (if idx + 1 \<ge> num then ret [p]
            else load (next_of p) (\<lambda>n.
              bind (group_scan r att g num k (idx + 1) prev n) (\<lambda>qs. ret (p # qs))))))"

definition group_take ::
  "et_stat_id \<Rightarrow> et_att_id \<Rightarrow> int \<Rightarrow> int \<Rightarrow> nat list cmd" where
  "group_take st att g num = (let r = ListIn st in
     andthen (open_fixin_nread st num)
      (load (cnt_of r) (\<lambda>c. load (first_of r) (\<lambda>f.
        bind (group_scan r att g num (nat c) 0 None f) (\<lambda>evs.
          block [add_cnt r (- int (length evs)),
                 set_fixin st (fi_first_update (\<lambda>_. None)), et_llist_unlock r]
            (ret evs))))))"

text \<open>
  The outer loop for the modes that wait.  \<open>scan\<close> is the source's \<^verbatim>\<open>scanList\<close>; the list is
  locked when the loop is entered.
\<close>

function group_loop ::
  "bool \<Rightarrow> et_stat_id \<Rightarrow> et_att_id \<Rightarrow> int \<Rightarrow> int \<Rightarrow> bool \<Rightarrow> wake list \<Rightarrow> (int \<times> nat list) cmd"
where
  "group_loop timed st att g num True ws = (let r = ListIn st in
     cond (\<lambda>s. cnt_of r s < 1)
      (case ws of
         [] \<Rightarrow> andthen (set_blocked att ET_ATT_BLOCKED) blocked
       | (status, env) # ws' \<Rightarrow>
          block [set_blocked att ET_ATT_BLOCKED, cond_wait r env,
                 set_blocked att ET_ATT_UNBLOCKED]
           (if timed \<and> status = ETIMEDOUT then
              andthen (et_llist_unlock r) (ret (ET_ERROR_TIMEOUT, []))
            else if status \<noteq> 0 then (if timed then ret (ET_ERROR, []) else exited)
            else cond (quitting att)
              (bind (quit_read r att) (\<lambda>c. ret (c, [])))
              (group_loop timed st att g num True ws')))
      (load (\<lambda>s. if num > cnt_of r s then cnt_of r s else num) (\<lambda>n.
        bind (group_take st att g n) (\<lambda>evs.
          if evs = [] then andthen (et_llist_lock r) (group_loop timed st att g n False ws)
          else ret (ET_OK, evs)))))"
| "group_loop timed st att g num False ws = (let r = ListIn st in
     case ws of
       [] \<Rightarrow> andthen (set_blocked att ET_ATT_BLOCKED) blocked
     | (status, env) # ws' \<Rightarrow>
        block [set_blocked att ET_ATT_BLOCKED, cond_wait r env,
               set_blocked att ET_ATT_UNBLOCKED]
         (if timed \<and> status = ETIMEDOUT then
            andthen (et_llist_unlock r) (ret (ET_ERROR_TIMEOUT, []))
          else if status \<noteq> 0 then (if timed then ret (ET_ERROR, []) else exited)
          else cond (quitting att)
            (bind (quit_read r att) (\<lambda>c. ret (c, [])))
            (group_loop timed st att g num True ws')))"
  by pat_completeness auto
termination
  by (relation "measure (\<lambda>(timed, st, att, g, num, scan, ws). 2 * length ws + (if scan then 1 else 0))")
    auto

definition et_station_nread_group ::
  "et_stat_id \<Rightarrow> int \<Rightarrow> et_att_id \<Rightarrow> wake list \<Rightarrow> int \<Rightarrow> int \<Rightarrow> (int \<times> nat list) cmd" where
  "et_station_nread_group st mode att ws num0 g = (let r = ListIn st in
     if num0 < 1 then ret (ET_OK, [])
     else if mode = ET_SLEEP \<or> mode = ET_TIMED then
       block [et_llist_lock r, count_hist st]
         (group_loop (mode = ET_TIMED) st att g num0 True ws)
     else bind (read_begin st mode att ws) (\<lambda>status.
       if status \<noteq> ET_OK then ret (status, [])
       else load (\<lambda>s. if num0 > cnt_of r s then cnt_of r s else num0) (\<lambda>num.
         bind (group_take st att g num) (\<lambda>evs. ret (ET_OK, evs)))))"

section \<open>Dumping into the input list of GrandCentral\<close>

definition open_fixin_dump :: "int \<Rightarrow> unit cmd" where
  "open_fixin_dump num = (let st = ET_GRANDCENTRAL; r = ListIn st in
     block [whenp (\<lambda>s. cnt_of r s = 0) (set_first r None),
            load (\<lambda>s. l_events_in (glist r s)) (\<lambda>n. set_fixin st (fi_eventsin_update (\<lambda>_. n))),
            load (cnt_of r) (\<lambda>c. set_fixin st (fi_cnt_update (\<lambda>_. c))),
            set_fixin st (fi_num_update (\<lambda>_. num)),
            set_fixin st (fi_call_update (\<lambda>_. ET_FIX_DUMP)),
            set_fixin st (fi_start_update (\<lambda>n. n + 1))] skip)"

definition close_fixin_dump :: "unit cmd" where
  "close_fixin_dump = (let st = ET_GRANDCENTRAL; r = ListIn st in
     block [set_fixin st (fi_start_update (\<lambda>n. n - 1)), et_llist_unlock r, signal r] skip)"

definition et_station_dump :: "nat \<Rightarrow> int cmd" where
  "et_station_dump e = (let r = ListIn ET_GRANDCENTRAL in
     andthen (et_llist_lock r)
      (cond (\<lambda>s. cnt_of r s \<ge> nevents s) (andthen (et_llist_unlock r) (ret ET_ERROR))
        (block
          [open_fixin_dump 1,
           cond (\<lambda>s. cnt_of r s = 0) (set_first r (Some e))
             (deref (last_of r) (\<lambda>p. set_next p (Some e))),
           set_last r (Some e), set_owner e ET_SYS, add_cnt r 1,
           store (upd_list r (l_events_in_update (\<lambda>n. n + 1))),
           close_fixin_dump] (ret ET_OK))))"

definition et_station_ndump :: "nat list \<Rightarrow> int cmd" where
  "et_station_ndump pe = (let r = ListIn ET_GRANDCENTRAL; num = int (length pe) in
     case pe of [] \<Rightarrow> ret ET_OK
     | e0 # es \<Rightarrow>
       andthen (et_llist_lock r)
        (cond (\<lambda>s. num > nevents s - cnt_of r s)
          (andthen (et_llist_unlock r) (ret ET_ERROR))
          (block
            [open_fixin_dump num,
             cond (\<lambda>s. cnt_of r s = 0)
              (block [set_first r (Some e0), set_last r (Some e0), set_owner e0 ET_SYS,
                      add_cnt r 1] (nwriteNoPri_loop r e0 es))
              (deref (last_of r) (\<lambda>p. nwriteNoPri_loop r p (e0 # es))),
             close_fixin_dump] (ret ET_OK))))"

end
