(* ===== verification/Et_PriorityOrder.thy ===== *)
theory Et_PriorityOrder
  imports Et_Memory
begin

text \<open>
  The order that the priority of events imposes on an output list: high priority events
  before low priority ones, each class first come first served.  \<open>ins\<close> says where one
  event goes; \<open>foldl_ins\<close> gives the list after a whole write.
\<close>

abbreviation high :: "(nat \<Rightarrow> et_event) \<Rightarrow> nat \<Rightarrow> bool" where
  "high h e \<equiv> e_priority (h e) = ET_HIGH"

text \<open>Where a write puts an event.\<close>

definition highs :: "(nat \<Rightarrow> bool) \<Rightarrow> nat list \<Rightarrow> nat list" where
  "highs hi xs = filter hi xs"
definition lows :: "(nat \<Rightarrow> bool) \<Rightarrow> nat list \<Rightarrow> nat list" where
  "lows hi xs = filter (\<lambda>x. \<not> hi x) xs"

definition ins :: "(nat \<Rightarrow> bool) \<Rightarrow> nat list \<Rightarrow> nat \<Rightarrow> nat list" where
  "ins hi xs e = (if hi e then highs hi xs @ e # lows hi xs else xs @ [e])"

definition pri_sorted :: "(nat \<Rightarrow> bool) \<Rightarrow> nat list \<Rightarrow> bool" where
  "pri_sorted hi xs \<longleftrightarrow> sorted_wrt (\<lambda>a b. hi b \<longrightarrow> hi a) xs"

lemma pri_sorted_split: "pri_sorted hi xs \<Longrightarrow> highs hi xs @ lows hi xs = xs"
  unfolding pri_sorted_def highs_def lows_def
proof (induction xs)
  case Nil
  then show ?case by simp
next
  case (Cons x xs)
  show ?case
  proof (cases "hi x")
    case True
    with Cons show ?thesis by simp
  next
    case False
    with Cons.prems have "\<forall>y \<in> set xs. \<not> hi y" by auto
    then have "filter hi xs = []" and "filter (\<lambda>x. \<not> hi x) xs = xs"
      by (auto simp: filter_empty_conv intro: filter_True)
    with False show ?thesis by simp
  qed
qed

lemma highs_simps [simp]:
  "highs hi [] = []" "highs hi (x # xs) = (if hi x then x # highs hi xs else highs hi xs)"
  "highs hi (xs @ ys) = highs hi xs @ highs hi ys" 
  "highs hi (highs hi xs) = highs hi xs" "highs hi (lows hi xs) = []"
  by (auto simp: highs_def lows_def filter_empty_conv)

lemma lows_simps [simp]:
  "lows hi [] = []" "lows hi (x # xs) = (if hi x then lows hi xs else x # lows hi xs)"
  "lows hi (xs @ ys) = lows hi xs @ lows hi ys" 
  "lows hi (highs hi xs) = []" "lows hi (lows hi xs) = lows hi xs"
  by (auto simp: highs_def lows_def filter_empty_conv)

lemma set_highs_lows [simp]: "set (highs hi xs) = {x \<in> set xs. hi x}" "set (lows hi xs) = {x \<in> set xs. \<not> hi x}"
  by (auto simp: highs_def lows_def)

lemma pri_sorted_ins: "pri_sorted hi xs \<Longrightarrow> pri_sorted hi (ins hi xs e)"
  by (auto simp: pri_sorted_def ins_def sorted_wrt_append highs_def lows_def sorted_wrt_filter)

lemma ins_split: "highs hi (ins hi xs e) = highs hi (xs @ [e])" "lows hi (ins hi xs e) = lows hi (xs @ [e])"
  by (auto simp: ins_def)

lemma foldl_ins_split:
  "highs hi (foldl (ins hi) xs es) = highs hi (xs @ es)"
  "lows hi (foldl (ins hi) xs es) = lows hi (xs @ es)"
  by (induction es arbitrary: xs) (auto simp: ins_split)

lemma pri_sorted_foldl: "pri_sorted hi xs \<Longrightarrow> pri_sorted hi (foldl (ins hi) xs es)"
  by (induction es arbitrary: xs) (auto simp: pri_sorted_ins)

theorem foldl_ins: "pri_sorted hi xs \<Longrightarrow>
  foldl (ins hi) xs es = highs hi xs @ highs hi es @ lows hi xs @ lows hi es"
  using pri_sorted_split [OF pri_sorted_foldl, of hi xs es]
  by (simp add: foldl_ins_split)

lemma mset_hl: "mset (highs hi xs) + mset (lows hi xs) = mset xs"
  by (simp add: highs_def lows_def)

lemma mset_ins: "mset (ins hi xs e) = mset xs + {#e#}"
  using mset_hl [of hi xs] by (simp add: ins_def)

lemma mset_foldl_ins: "mset (foldl (ins hi) xs es) = mset xs + mset es"
  by (induction es arbitrary: xs) (auto simp: mset_ins)

end
