(* ===== verification/Et_ListFacts.thy ===== *)
theory Et_ListFacts
  imports Et_Memory
begin

text \<open>
  What the routines on event lists share: how one link assignment changes a chain, the
  frame of an operation on one list (\<open>frame r E s t\<close>: from \<open>s\<close> to \<open>t\<close> only the list \<open>r\<close>,
  the repair record of its station, and the links and owners of the events \<open>E\<close> changed),
  and the predicate that memory holds a given list of events (\<open>ev_list\<close>).
\<close>

section \<open>Chains under assignment\<close>

lemma chain_snoc_upd:
  assumes "chain h p ys" and "ys \<noteq> []" and "distinct ys"
  shows "chain (h(last ys := e_next_update (\<lambda>_. Some e) (h (last ys)))) p (ys @ [e])"
  using assms by (simp add: chain_upd_notin distinct_last_notin_butlast chain_end_def)

lemma chain_push_upd:
  assumes "chain h p ys" and "e \<notin> set ys"
  shows "chain (h(e := e_next_update (\<lambda>_. p) (h e))) (Some e) (e # ys)"
proof -
  have "e \<notin> set (butlast ys)" using assms(2) by (auto dest: in_set_butlastD)
  with assms(1) show ?thesis by (simp add: chain_upd_notin)
qed

lemma chain_insert_upd:
  assumes "chain h p (as @ bs)" and "as \<noteq> []" and "distinct (as @ bs)" and "e \<notin> set (as @ bs)"
  defines "h1 \<equiv> h(e := e_next_update (\<lambda>_. e_next (h (last as))) (h e))"
  shows "chain (h1(last as := e_next_update (\<lambda>_. Some e) (h1 (last as)))) p (as @ e # bs)"
proof -
  let ?h2 = "h1(last as := e_next_update (\<lambda>_. Some e) (h1 (last as)))"
  from assms have a: "chain ?h2 p as"
    by (subst chain_cong [where h = h]) (auto simp: h1_def distinct_last_notin_butlast dest: in_set_butlastD)
  have b: "chain ?h2 (e_next (h (last as))) bs"
  proof (subst chain_cong [where h = h])
    show "chain h (e_next (h (last as))) bs"
      using assms(1,2) by (simp add: chain_end_def)
    fix x assume "x \<in> set (butlast bs)"
    then have "x \<in> set bs" by (rule in_set_butlastD)
    with assms(2-4) have "x \<noteq> e" and "x \<noteq> last as" by (auto simp: disjoint_iff)
    then show "e_next (?h2 x) = e_next (h x)" by (simp add: h1_def)
  qed
  from assms(2,4) have ne: "last as \<noteq> e" by auto
  show ?thesis using a b ne assms(2) by (simp add: chain_end_def h1_def)
qed

definition link_eq :: "et_event \<Rightarrow> et_event \<Rightarrow> bool" where
  "link_eq a b \<longleftrightarrow> e_next_update (\<lambda>_. None) (e_owner_update (\<lambda>_. 0) a)
     = e_next_update (\<lambda>_. None) (e_owner_update (\<lambda>_. 0) b)"

lemma link_eq_simps [simp]:
  "link_eq a a"
  "link_eq a (e_next_update f b) = link_eq a b"
  "link_eq a (e_owner_update g b) = link_eq a b"
  by (simp_all add: link_eq_def)

lemma link_eq_priority: "link_eq a b \<Longrightarrow> e_priority b = e_priority a"
  by (cases a; cases b; simp add: link_eq_def)

definition frame :: "listref \<Rightarrow> nat set \<Rightarrow> et_mem \<Rightarrow> et_mem \<Rightarrow> bool" where
  "frame r E s t \<longleftrightarrow> (\<forall>q. q \<noteq> r \<longrightarrow> glist q t = glist q s)
     \<and> (\<forall>st. st \<noteq> stat_of r \<longrightarrow> gfix st t = gfix st s)
     \<and> (\<forall>e. e \<notin> E \<longrightarrow> m_events t e = m_events s e)
     \<and> (\<forall>e. link_eq (m_events s e) (m_events t e)) \<and> m_sys t = m_sys s"

lemma frame_refl [simp]: "frame r E s s"
  by (simp add: frame_def)

lemma frame_upd:
  "frame r E s t \<Longrightarrow> e \<in> E \<Longrightarrow> frame r E s (upd_event e (e_next_update f) t)"
  "frame r E s t \<Longrightarrow> e \<in> E \<Longrightarrow> frame r E s (upd_event e (e_owner_update g) t)"
  "frame r E s t \<Longrightarrow> frame r E s (upd_list r h t)"
  "frame r E s t \<Longrightarrow> st = stat_of r \<Longrightarrow> frame r E s (upd_fixin st i t)"
  "frame r E s t \<Longrightarrow> st = stat_of r \<Longrightarrow> frame r E s (upd_fixout st j t)"
  "frame r E s t \<Longrightarrow> frame r E s (upd_os c t)"
  by (auto simp: frame_def mem_simps)

lemma frame_pri: "frame r E s t \<Longrightarrow> e_priority (m_events t e) = e_priority (m_events s e)"
  by (simp add: frame_def link_eq_priority)

lemma frame_high: "frame r E s t \<Longrightarrow> (\<lambda>e. e_priority (m_events t e) = ET_HIGH) = (\<lambda>e. e_priority (m_events s e) = ET_HIGH)"
  by (simp add: frame_pri fun_eq_iff)

section \<open>Changing the owner of a run of events\<close>

definition own_by :: "int \<Rightarrow> nat list \<Rightarrow> et_mem \<Rightarrow> et_mem" where
  "own_by a ys = fold (\<lambda>e. upd_event e (e_owner_update (\<lambda>_. a))) ys"

lemma own_by_simps [simp]:
  "own_by a [] s = s"
  "own_by a (e # ys) s = own_by a ys (upd_event e (e_owner_update (\<lambda>_. a)) s)"
  by (simp_all add: own_by_def)

lemma own_by_snoc: "own_by a (ys @ [e]) s = upd_event e (e_owner_update (\<lambda>_. a)) (own_by a ys s)"
  by (simp add: own_by_def)

lemma own_by_mem [simp]:
  "glist q (own_by a ys s) = glist q s"
  "gfix st (own_by a ys s) = gfix st s"
  "m_sys (own_by a ys s) = m_sys s"
  "nevents (own_by a ys s) = nevents s"
  by (induction ys arbitrary: s) simp_all

lemma m_events_own_by:
  "m_events (own_by a ys s) e =
     (if e \<in> set ys then e_owner_update (\<lambda>_. a) (m_events s e) else m_events s e)"
  by (induction ys arbitrary: s) auto

lemma own_by_fields [simp]:
  "e_next (m_events (own_by a ys s) e) = e_next (m_events s e)"
  "e_priority (m_events (own_by a ys s) e) = e_priority (m_events s e)"
  "e_owner (m_events (own_by a ys s) e) = (if e \<in> set ys then a else e_owner (m_events s e))"
  by (simp_all add: m_events_own_by)

lemma chain_own_by [simp]: "chain (m_events (own_by a ys s)) p xs = chain (m_events s) p xs"
  by (rule chain_cong) simp

lemma frame_own_by: "frame r E s t \<Longrightarrow> set ys \<subseteq> E \<Longrightarrow> frame r E s (own_by a ys t)"
  by (induction ys arbitrary: t) (auto intro: frame_upd)

section \<open>A list of events that belong to the system\<close>

definition ev_list :: "et_mem \<Rightarrow> listref \<Rightarrow> nat list \<Rightarrow> bool" where
  "ev_list s r xs \<longleftrightarrow>
     l_cnt (glist r s) = int (length xs)
   \<and> chain (m_events s) (l_firstevent (glist r s)) xs
   \<and> (xs \<noteq> [] \<longrightarrow> l_lastevent (glist r s) = Some (last xs)) \<and> distinct xs
   \<and> (\<forall>e \<in> set xs. e_owner (m_events s e) = ET_SYS)"

lemma ev_list_content: "ev_list s r xs \<Longrightarrow> content s r = xs"
  by (auto simp: ev_list_def content_def walk_chain)

lemma ev_list_unique: "ev_list s r xs \<Longrightarrow> ev_list s r ys \<Longrightarrow> xs = ys"
  by (metis ev_list_content)

end
