(* ===== verification/Et_StationWrite.thy ===== *)
theory Et_StationWrite
  imports Et_StationLists Et_PriorityOrder Et_ListFacts
begin

text \<open>
  Correctness of writing to an output list, at every assignment.  \<open>out_ok\<close> is the
  invariant of an output list, \<open>write_stage\<close> describes the memory between two
  assignments of a write, and \<open>et_station_nwrite_chl\<close> states that the whole routine
  returns the list with the events put in by priority, and that a process that dies
  anywhere inside it leaves one of these memories behind.
\<close>

definition write_stage :: "et_mem \<Rightarrow> et_stat_id \<Rightarrow> nat list \<Rightarrow> nat list \<Rightarrow> nat \<Rightarrow> nat \<Rightarrow> et_mem \<Rightarrow> bool" where
  "write_stage s0 st xs es k p t \<longleftrightarrow>
    (let r = ListOut st; hi = high (m_events s0); ys = foldl (ins hi) xs (take k es) in
       p \<le> 1 \<and> p \<le> k \<and> k \<le> length es \<and> frame r (set xs \<union> set es) s0 t
     \<and> gfix st t = (gfix st s0)\<lparr>f_out := \<lparr>fo_start = 1, fo_cnt = int (length xs), fo_num = int (length es)\<rparr>\<rparr>
     \<and> l_mutex (glist r t)
     \<and> cnt_of r t = int (length xs + k) - int p
     \<and> (ys = [] \<longrightarrow> first_of r t = None)
     \<and> chain (m_events t) (first_of r t) ys
     \<and> (0 < cnt_of r t \<longrightarrow> last_of r t = Some (last ys))
     \<and> (p = 0 \<longrightarrow> l_lasthigh (glist r t) = int (length (highs hi ys)))
     \<and> (\<forall>e \<in> set xs \<union> set (take (k - p) es). e_owner (m_events t e) = ET_SYS)
     \<and> (\<forall>e \<in> set (drop k es). e_owner (m_events t e) = e_owner (m_events s0 e)))"

definition write_pre :: "et_mem \<Rightarrow> nat list \<Rightarrow> nat list \<Rightarrow> bool" where
  "write_pre s0 xs es \<longleftrightarrow> distinct (xs @ es) \<and> pri_sorted (high (m_events s0)) xs
     \<and> (\<forall>e \<in> set xs \<union> set es. pri_of e s0 \<in> {ET_LOW, ET_HIGH})"

lemma foldl_ins_distinct:
  assumes "distinct (xs @ es)" shows "distinct (foldl (ins hi) xs (take k es))"
proof -
  have "distinct (xs @ take k es)" using assms by (metis append_take_drop_id distinct_append append.assoc)
  moreover have "mset (foldl (ins hi) xs (take k es)) = mset (xs @ take k es)" by (simp add: mset_foldl_ins)
  ultimately show ?thesis by (metis mset_eq_imp_distinct_iff)
qed

lemma set_foldl_ins: "set (foldl (ins hi) xs es) = set xs \<union> set es"
  by (metis mset_foldl_ins set_mset_mset set_mset_union)

lemma length_foldl_ins: "length (foldl (ins hi) xs es) = length xs + length es"
  by (metis mset_foldl_ins size_mset size_union)

lemma length_ins: "length (ins hi xs e) = Suc (length xs)"
  by (metis mset_ins size_mset size_union size_single Suc_eq_plus1)

lemma ins_ne [simp]: "ins hi xs e \<noteq> []"
  by (simp add: ins_def)

definition lasth :: "(nat \<Rightarrow> bool) \<Rightarrow> nat list \<Rightarrow> nat option" where
  "lasth hi ys = (if highs hi ys = [] then None else Some (last (highs hi ys)))"

lemma notin_take: "distinct es \<Longrightarrow> k < length es \<Longrightarrow> es ! k \<notin> set (take k es)"
  by (metis id_take_nth_drop not_distinct_conv_prefix distinct_append append_Cons)

lemma write_stage_fresh:
  assumes "write_pre s0 xs es" and "k < length es"
  shows "es ! k \<notin> set (foldl (ins hi) xs (take k es))"
proof -
  from assms have "es ! k \<notin> set xs" "distinct es" by (auto simp: write_pre_def)
  with assms(2) show ?thesis by (auto simp: set_foldl_ins notin_take)
qed

text \<open>Setting the link of the event being added, or of the last event, changes nothing yet.\<close>

lemma write_stage_link:
  assumes pre: "write_pre s0 xs es" and st: "write_stage s0 st xs es k 0 s" and k: "k < length es"
    and e: "e = es ! k \<or> e = last (foldl (ins (high (m_events s0))) xs (take k es)) \<and> 0 < cnt_of (ListOut st) s"
  shows "write_stage s0 st xs es k 0 (upd_event e (e_next_update (\<lambda>_. v)) s)"
proof -
  let ?ys = "foldl (ins (high (m_events s0))) xs (take k es)"
  have ys: "length ?ys = length xs + k" using k by (simp add: length_foldl_ins)
  have d: "distinct ?ys" using pre by (intro foldl_ins_distinct) (simp add: write_pre_def)
  have "e \<notin> set (butlast ?ys)"
  proof (cases "e = es ! k")
    case True
    with write_stage_fresh [OF pre k] show ?thesis by (auto dest: in_set_butlastD)
  next
    case False
    with e have "0 < cnt_of (ListOut st) s" and "e = last ?ys" by auto
    moreover from this st have "?ys \<noteq> []" using ys by (auto simp: write_stage_def Let_def)
    ultimately show ?thesis using d by (simp add: distinct_last_notin_butlast)
  qed
  moreover have "e \<in> set xs \<union> set es"
  proof (cases "e = es ! k")
    case False
    with e st ys have "e = last ?ys" "?ys \<noteq> []" by (auto simp: write_stage_def Let_def)
    then have "e \<in> set ?ys" by simp
    then show ?thesis by (auto simp: set_foldl_ins dest: in_set_takeD)
  qed (use k in simp)
  ultimately show ?thesis
    using st by (auto simp: write_stage_def Let_def mem_simps chain_upd_notin intro!: frame_upd)
qed

lemma take_Suc_snoc: "k < length es \<Longrightarrow> take (Suc k) es = take k es @ [es ! k]"
  by (rule take_Suc_conv_app_nth)

text \<open>The event is linked in: it is in the list, not yet counted.\<close>

lemma write_stage_insert:
  assumes "write_stage s0 st xs es k 0 s" and k: "k < length es"
    and "frame (ListOut st) (set xs \<union> set es) s0 t"
    and "gfix st t = gfix st s" and "l_mutex (glist (ListOut st) t)"
    and "cnt_of (ListOut st) t = cnt_of (ListOut st) s"
    and "\<And>x. e_owner (m_events t x) = e_owner (m_events s x)"
    and "chain (m_events t) (first_of (ListOut st) t)
           (ins (high (m_events s0)) (foldl (ins (high (m_events s0))) xs (take k es)) (es ! k))"
    and "0 < cnt_of (ListOut st) t \<Longrightarrow> last_of (ListOut st) t = Some (last
           (ins (high (m_events s0)) (foldl (ins (high (m_events s0))) xs (take k es)) (es ! k)))"
  shows "write_stage s0 st xs es (Suc k) 1 t"
  using assms by (auto simp: write_stage_def Let_def take_Suc_snoc Cons_nth_drop_Suc [symmetric])

lemma write_stage_owner:
  assumes "write_stage s0 st xs es (Suc k) 1 s" and k: "k < length es" and "write_pre s0 xs es"
  shows "write_stage s0 st xs es (Suc k) 1 (upd_event (es ! k) (e_owner_update (\<lambda>_. ET_SYS)) s)"
proof -
  from assms(3) have d: "distinct es" by (simp add: write_pre_def)
  then have "es ! k \<notin> set (drop (Suc k) es)"
    using k by (metis id_take_nth_drop distinct_append distinct.simps(2))
  with assms show ?thesis
    by (auto simp: write_stage_def Let_def mem_simps chain_upd_same_next intro!: frame_upd)
qed

lemma write_stage_lasthigh:
  "write_stage s0 st xs es (Suc k) 1 s
   \<Longrightarrow> write_stage s0 st xs es (Suc k) 1 (upd_list (ListOut st) (l_lasthigh_update f) s)"
  by (auto simp: write_stage_def Let_def mem_simps intro!: frame_upd)

lemma write_stage_count:
  assumes "write_stage s0 st xs es (Suc k) 1 s" and k: "k < length es"
    and "e_owner (m_events s (es ! k)) = ET_SYS" and "last_of (ListOut st) s = Some (last (foldl (ins (high (m_events s0))) xs (take (Suc k) es)))"
    and "l_lasthigh (glist (ListOut st) s)
         = int (length (highs (high (m_events s0)) (foldl (ins (high (m_events s0))) xs (take (Suc k) es))))"
  shows "write_stage s0 st xs es (Suc k) 0 (upd_list (ListOut st) (l_cnt_update (\<lambda>c. c + 1)) s)"
  using assms by (auto simp: write_stage_def Let_def mem_simps take_Suc_snoc intro!: frame_upd)

abbreviation wlist :: "et_mem \<Rightarrow> nat list \<Rightarrow> nat list \<Rightarrow> nat \<Rightarrow> nat list" where
  "wlist s0 xs es k \<equiv> foldl (ins (high (m_events s0))) xs (take k es)"

abbreviation write_mid :: "et_mem \<Rightarrow> et_stat_id \<Rightarrow> nat list \<Rightarrow> nat list \<Rightarrow> et_mem \<Rightarrow> bool" where
  "write_mid s0 st xs es t \<equiv> \<exists>k p. write_stage s0 st xs es k p t"

text \<open>
  The end of every branch of the loop: ownership and count.
\<close>

lemma write_finish_event:
  assumes pre: "write_pre s0 xs es" and k: "k < length es"
    and st: "write_stage s0 st xs es (Suc k) 1 s"
    and "last_of (ListOut st) s = Some (last (wlist s0 xs es (Suc k)))"
    and "l_lasthigh (glist (ListOut st) s)
         = int (length (highs (high (m_events s0)) (wlist s0 xs es (Suc k))))"
    and cont: "\<And>t. write_stage s0 st xs es (Suc k) 0 t \<Longrightarrow>
      chl (\<lambda>u. u = t) m Q (write_mid s0 st xs es)"
  shows "chl (\<lambda>u. u = s) (block [set_owner (es ! k) ET_SYS, add_cnt (ListOut st) 1] m)
           Q (write_mid s0 st xs es)"
proof -
  let ?s1 = "upd_event (es ! k) (e_owner_update (\<lambda>_. ET_SYS)) s"
  let ?s2 = "upd_list (ListOut st) (l_cnt_update (\<lambda>c. c + 1)) ?s1"
  have 1: "write_stage s0 st xs es (Suc k) 1 ?s1"
    using st k pre by (rule write_stage_owner)
  have 2: "write_stage s0 st xs es (Suc k) 0 ?s2"
    using 1 k by (rule write_stage_count) (use assms(4,5) in simp_all)
  show ?thesis
    unfolding block.simps
    by (intro chl_store_then) (use 1 2 cont [OF 2] in blast)+
qed

lemma highs_wlist_Suc:
  "k < length es \<Longrightarrow> highs hi (foldl (ins hi) xs (take (Suc k) es)) =
     highs hi (foldl (ins hi) xs (take k es)) @ (if hi (es ! k) then [es ! k] else [])"
  by (simp add: take_Suc_snoc ins_split)

lemma drop_ConsD:
  assumes "drop k es = e # rest"
  shows "k < length es" and "es ! k = e" and "drop (Suc k) es = rest"
proof -
  show k: "k < length es" using assms by (metis drop_eq_Nil list.distinct(1) not_le)
  with assms show "es ! k = e" and "drop (Suc k) es = rest"
    by (metis Cons_nth_drop_Suc list.inject)+
qed

lemma wlist_Suc: "k < length es \<Longrightarrow>
   wlist s0 xs es (Suc k) = ins (high (m_events s0)) (wlist s0 xs es k) (es ! k)"
  by (simp add: take_Suc_snoc)

lemma lasth_Suc: "k < length es \<Longrightarrow>
   lasth hi (foldl (ins hi) xs (take (Suc k) es)) =
     (if hi (es ! k) then Some (es ! k) else lasth hi (foldl (ins hi) xs (take k es)))"
  by (simp add: lasth_def highs_wlist_Suc)

text \<open>Appending at the end, for a low priority event or when every event is of high priority.\<close>

lemma write_append_chl:
  assumes pre: "write_pre s0 xs es" and k: "k < length es"
    and st: "write_stage s0 st xs es k 0 s" and pos: "0 < cnt_of (ListOut st) s"
    and app: "wlist s0 xs es (Suc k) = wlist s0 xs es k @ [es ! k]"
    and cont: "\<And>t. write_stage s0 st xs es (Suc k) 1 t \<Longrightarrow>
      last_of (ListOut st) t = Some (last (wlist s0 xs es (Suc k))) \<Longrightarrow>
      l_lasthigh (glist (ListOut st) t) = int (length (highs (high (m_events s0)) (wlist s0 xs es k))) \<Longrightarrow>
      0 < cnt_of (ListOut st) t \<Longrightarrow>
      chl (\<lambda>u. u = t) m Q (write_mid s0 st xs es)"
  shows "chl (\<lambda>t. t = s) (block [set_next (last (wlist s0 xs es k)) (Some (es ! k)),
            set_last (ListOut st) (Some (es ! k))] m) Q (write_mid s0 st xs es)"
proof -
  let ?r = "ListOut st" and ?ys = "wlist s0 xs es k"
  let ?s1 = "upd_event (last ?ys) (e_next_update (\<lambda>_. Some (es ! k))) s"
  let ?s2 = "upd_list ?r (l_lastevent_update (\<lambda>_. Some (es ! k))) ?s1"
  have 1: "write_stage s0 st xs es k 0 ?s1"
    using pre st k by (rule write_stage_link) (use pos in simp)
  have ne: "?ys \<noteq> []" and d: "distinct ?ys" and ch: "chain (m_events s) (first_of ?r s) ?ys"
    and fr: "frame ?r (set xs \<union> set es) s0 ?s1"
    using st pos k foldl_ins_distinct [of xs es "high (m_events s0)" k] pre 1 length_foldl_ins [of "high (m_events s0)" xs "take k es"]
    by (auto simp: write_stage_def Let_def write_pre_def)
  have 2: "write_stage s0 st xs es (Suc k) 1 ?s2"
    using st k
  proof (rule write_stage_insert)
    show "frame ?r (set xs \<union> set es) s0 ?s2" using fr by (rule frame_upd)
    show "chain (m_events ?s2) (first_of ?r ?s2) (ins (high (m_events s0)) ?ys (es ! k))"
      using chain_snoc_upd [OF ch ne d, of "es ! k"] app by (simp add: wlist_Suc k)
  qed (use st app in \<open>simp_all add: write_stage_def Let_def wlist_Suc k\<close>)
  show ?thesis
    unfolding block.simps
  proof (intro chl_store_then)
    show "chl (\<lambda>u. u = ?s2) m Q (write_mid s0 st xs es)"
      using 2 by (rule cont) (use st app pos in \<open>simp_all add: write_stage_def Let_def\<close>)
  qed (use 1 2 in blast)+
qed

lemma write_stageD:
  assumes "write_stage s0 st xs es k 0 s" and "write_pre s0 xs es"
  shows "chain (m_events s) (first_of (ListOut st) s) (wlist s0 xs es k)"
    and "distinct (wlist s0 xs es k)"
    and "frame (ListOut st) (set xs \<union> set es) s0 s"
    and "gfix st s = (gfix st s0)\<lparr>f_out := \<lparr>fo_start = 1, fo_cnt = int (length xs), fo_num = int (length es)\<rparr>\<rparr>"
    and "l_mutex (glist (ListOut st) s)"
    and "k \<le> length es"
    and "cnt_of (ListOut st) s = int (length (wlist s0 xs es k))"
    and "0 < cnt_of (ListOut st) s \<Longrightarrow> last_of (ListOut st) s = Some (last (wlist s0 xs es k))"
    and "l_lasthigh (glist (ListOut st) s)
         = int (length (highs (high (m_events s0)) (wlist s0 xs es k)))"
    and "pri_sorted (high (m_events s0)) (wlist s0 xs es k)"
  using assms foldl_ins_distinct [of xs es "high (m_events s0)" k]
  by (auto simp: write_stage_def Let_def write_pre_def length_foldl_ins min_def pri_sorted_foldl)

lemma last_lows: "pri_sorted hi ys \<Longrightarrow> lows hi ys \<noteq> [] \<Longrightarrow> last (lows hi ys) = last ys"
  by (metis last_appendR pri_sorted_split)

lemma last_highs: "pri_sorted hi ys \<Longrightarrow> lows hi ys = [] \<Longrightarrow> highs hi ys = ys"
  by (metis append_Nil2 pri_sorted_split)

text \<open>A high priority event in front of low priority ones.\<close>

lemma write_push_chl:
  assumes pre: "write_pre s0 xs es" and k: "k < length es"
    and st: "write_stage s0 st xs es k 0 s" and pos: "0 < cnt_of (ListOut st) s"
    and hi: "high (m_events s0) (es ! k)" and nohigh: "highs (high (m_events s0)) (wlist s0 xs es k) = []"
    and cont: "\<And>t. write_stage s0 st xs es (Suc k) 1 t \<Longrightarrow>
      last_of (ListOut st) t = Some (last (wlist s0 xs es (Suc k))) \<Longrightarrow>
      l_lasthigh (glist (ListOut st) t) = int (length (highs (high (m_events s0)) (wlist s0 xs es k))) \<Longrightarrow>
      0 < cnt_of (ListOut st) t \<Longrightarrow>
      chl (\<lambda>u. u = t) m Q (write_mid s0 st xs es)"
    and f: "f = first_of (ListOut st) s"
  shows "chl (\<lambda>t. t = s) (block [set_next (es ! k) f, set_first (ListOut st) (Some (es ! k))] m)
     Q (write_mid s0 st xs es)"
proof -
  let ?r = "ListOut st" and ?hi = "high (m_events s0)" and ?ys = "wlist s0 xs es k" and ?e = "es ! k"
  let ?s1 = "upd_event ?e (e_next_update (\<lambda>_. f)) s"
  let ?s2 = "upd_list ?r (l_firstevent_update (\<lambda>_. Some ?e)) ?s1"
  note D = write_stageD [OF st pre]
  have 1: "write_stage s0 st xs es k 0 ?s1"
    using pre st k by (rule write_stage_link) simp
  have ys: "lows ?hi ?ys = ?ys" "?ys \<noteq> []"
    using nohigh pri_sorted_split [OF D(10)] pos D(7) by auto
  then have zs: "wlist s0 xs es (Suc k) = ?e # ?ys"
    using hi nohigh by (simp add: wlist_Suc k ins_def)
  have 2: "write_stage s0 st xs es (Suc k) 1 ?s2"
    using st k
  proof (rule write_stage_insert)
    show "frame ?r (set xs \<union> set es) s0 ?s2" using D(3) k by (intro frame_upd) auto
    show "chain (m_events ?s2) (first_of ?r ?s2) (ins ?hi ?ys ?e)"
      using chain_push_upd [OF D(1) write_stage_fresh [OF pre k]] zs f
      by (simp add: wlist_Suc [OF k, symmetric])
  qed (use D pos ys zs in \<open>simp_all add: wlist_Suc [OF k, symmetric]\<close>)
  show ?thesis
    unfolding block.simps
  proof (intro chl_store_then)
    show "chl (\<lambda>u. u = ?s2) m Q (write_mid s0 st xs es)"
      using 2 by (rule cont) (use D pos ys zs in simp_all)
  qed (use 1 2 in blast)+
qed

text \<open>A high priority event between the high and the low priority ones.\<close>

lemma write_insert_chl:
  assumes pre: "write_pre s0 xs es" and k: "k < length es"
    and st: "write_stage s0 st xs es k 0 s" and pos: "0 < cnt_of (ListOut st) s"
    and hi: "high (m_events s0) (es ! k)"
    and lh: "lasth (high (m_events s0)) (wlist s0 xs es k) = Some h" and "h \<noteq> last (wlist s0 xs es k)"
    and cont: "\<And>t. write_stage s0 st xs es (Suc k) 1 t \<Longrightarrow>
      last_of (ListOut st) t = Some (last (wlist s0 xs es (Suc k))) \<Longrightarrow>
      l_lasthigh (glist (ListOut st) t) = int (length (highs (high (m_events s0)) (wlist s0 xs es k))) \<Longrightarrow>
      0 < cnt_of (ListOut st) t \<Longrightarrow>
      chl (\<lambda>u. u = t) m Q (write_mid s0 st xs es)"
    and n: "n = next_of h s"
  shows "chl (\<lambda>t. t = s) (block [set_next (es ! k) n, set_next h (Some (es ! k))] m)
     Q (write_mid s0 st xs es)"
proof -
  let ?r = "ListOut st" and ?hi = "high (m_events s0)" and ?ys = "wlist s0 xs es k" and ?e = "es ! k"
  let ?s1 = "upd_event ?e (e_next_update (\<lambda>_. n)) s"
  let ?s2 = "upd_event h (e_next_update (\<lambda>_. Some ?e)) ?s1"
  note D = write_stageD [OF st pre]
  have 1: "write_stage s0 st xs es k 0 ?s1"
    using pre st k by (rule write_stage_link) simp
  from lh have hs: "highs ?hi ?ys \<noteq> []" "h = last (highs ?hi ?ys)" by (auto simp: lasth_def split: if_splits)
  have split: "?ys = highs ?hi ?ys @ lows ?hi ?ys" using pri_sorted_split [OF D(10)] by simp
  have ls: "lows ?hi ?ys \<noteq> []"
    using assms(7) hs last_highs [OF D(10)] by auto
  have zs: "wlist s0 xs es (Suc k) = highs ?hi ?ys @ ?e # lows ?hi ?ys"
    using hi by (simp add: wlist_Suc k ins_def)
  have hin: "h \<in> set ?ys" using hs by (metis last_in_set set_highs_lows(1) mem_Collect_eq)
  have hne: "h \<noteq> ?e" using hin write_stage_fresh [OF pre k] by auto
  have 2: "write_stage s0 st xs es (Suc k) 1 ?s2"
    using st k
  proof (rule write_stage_insert)
    show "frame ?r (set xs \<union> set es) s0 ?s2" using D(3) k hin
      by (intro frame_upd) (auto simp: set_foldl_ins dest: in_set_takeD)
    have "chain (m_events s) (first_of ?r s) (highs ?hi ?ys @ lows ?hi ?ys)"
      using D(1) split by simp
    moreover have "distinct (highs ?hi ?ys @ lows ?hi ?ys)" using D(2) split by simp
    moreover have "?e \<notin> set (highs ?hi ?ys @ lows ?hi ?ys)"
      using write_stage_fresh [OF pre k] split by simp
    ultimately have "chain (((m_events s)(?e := e_next_update (\<lambda>_. next_of (last (highs ?hi ?ys)) s) (m_events s ?e)))
        (last (highs ?hi ?ys) := e_next_update (\<lambda>_. Some ?e) (((m_events s)(?e := e_next_update
          (\<lambda>_. next_of (last (highs ?hi ?ys)) s) (m_events s ?e))) (last (highs ?hi ?ys)))))
        (first_of ?r s) (highs ?hi ?ys @ ?e # lows ?hi ?ys)"
      using hs(1) by (intro chain_insert_upd)
    then show "chain (m_events ?s2) (first_of ?r ?s2) (ins ?hi ?ys ?e)"
      using zs hs(2) n by (simp add: wlist_Suc [OF k, symmetric] del: chain_append)
  qed (use D pos ls zs last_lows [OF D(10)] in \<open>simp_all add: wlist_Suc [OF k, symmetric]\<close>)
  show ?thesis
    unfolding block.simps
  proof (intro chl_store_then)
    show "chl (\<lambda>u. u = ?s2) m Q (write_mid s0 st xs es)"
      using 2 by (rule cont) (use D pos ls zs last_lows [OF D(10)] in simp_all)
  qed (use 1 2 in blast)+
qed

lemma block_append: "block (as @ bs) k = block as (block bs k)"
  by (induction as) simp_all

lemma block_split:
  "block [a, b, c, d] k = block [a, b] (block [c, d] k)"
  "block [a, b, c, d, e] k = block [a, b] (andthen c (block [d, e] k))"
  by simp_all

lemma write_count_high:
  assumes "write_stage s0 st xs es (Suc k) 1 t" 
    and "chl (\<lambda>u. u = upd_list (ListOut st) (l_lasthigh_update (\<lambda>c. c + n)) t) m Q (write_mid s0 st xs es)"
  shows "chl (\<lambda>u. u = t) (andthen (add_lasthigh (ListOut st) n) m) Q (write_mid s0 st xs es)"
  using write_stage_lasthigh [OF assms(1)] by (intro chl_store_then assms(2)) blast

lemma lasth_lows:
  assumes "pri_sorted hi ys" and "lasth hi ys = Some (last ys)"
  shows "lows hi ys = []"
proof (rule ccontr)
  assume ne: "lows hi ys \<noteq> []"
  then have "last ys \<in> set (lows hi ys)" using assms(1) by (metis last_in_set last_lows)
  moreover have "last ys \<in> set (highs hi ys)"
    using assms(2) last_in_set [of "highs hi ys"] by (auto simp: lasth_def split: if_splits)
  ultimately show False by simp
qed

text \<open>
  One round of the loop, in the form that the induction needs: whatever follows is only
  started from a memory in which the event is linked in, counted and owned by the system.
\<close>

lemma write_finish_high:
  assumes pre: "write_pre s0 xs es" and k: "k < length es" and hi: "high (m_events s0) (es ! k)"
    and st: "write_stage s0 st xs es (Suc k) 1 t"
    and la: "last_of (ListOut st) t = Some (last (wlist s0 xs es (Suc k)))"
    and lh: "l_lasthigh (glist (ListOut st) t)
      = int (length (highs (high (m_events s0)) (wlist s0 xs es k)))"
    and cont: "\<And>t. write_stage s0 st xs es (Suc k) 0 t \<Longrightarrow>
      chl (\<lambda>u. u = t) m Q (write_mid s0 st xs es)"
  shows "chl (\<lambda>u. u = t) (block [add_lasthigh (ListOut st) 1, set_owner (es ! k) ET_SYS,
      add_cnt (ListOut st) 1] m) Q (write_mid s0 st xs es)"
proof -
  let ?t = "upd_list (ListOut st) (l_lasthigh_update (\<lambda>c. c + 1)) t"
  have 1: "write_stage s0 st xs es (Suc k) 1 ?t" using st by (rule write_stage_lasthigh)
  have "chl (\<lambda>u. u = ?t) (block [set_owner (es ! k) ET_SYS, add_cnt (ListOut st) 1] m) Q
      (write_mid s0 st xs es)"
    using pre k 1 by (rule write_finish_event)
      (use la lh hi cont in \<open>simp_all add: highs_wlist_Suc [OF k] del: take_Suc_snoc\<close>)
  with 1 show ?thesis unfolding block.simps(2) [of "add_lasthigh (ListOut st) 1"]
    by (intro chl_store_then) blast+
qed

lemma nwrite_low_chl:
  assumes pre: "write_pre s0 xs es" and k: "k < length es"
    and st: "write_stage s0 st xs es k 0 s" and pos: "0 < cnt_of (ListOut st) s"
    and low: "pri_of (es ! k) s = ET_LOW"
    and cont: "\<And>t. write_stage s0 st xs es (Suc k) 0 t \<Longrightarrow>
      chl (\<lambda>u. u = t) (nwrite_loop (ListOut st) (last (wlist s0 xs es (Suc k)))
        (lasth (high (m_events s0)) (wlist s0 xs es (Suc k))) rest) Q (write_mid s0 st xs es)"
  shows "chl (\<lambda>t. t = s) (nwrite_loop (ListOut st) (last (wlist s0 xs es k))
     (lasth (high (m_events s0)) (wlist s0 xs es k)) (es ! k # rest)) Q (write_mid s0 st xs es)"
proof -
  let ?r = "ListOut st" and ?hi = "high (m_events s0)"
  let ?ys = "wlist s0 xs es k" and ?zs = "wlist s0 xs es (Suc k)" and ?e = "es ! k"
  note D = write_stageD [OF st pre]
  from low frame_pri [OF D(3), of ?e]
  have zs: "?zs = ?ys @ [?e]" "lasth ?hi ?zs = lasth ?hi ?ys" "highs ?hi ?zs = highs ?hi ?ys"
    by (simp_all add: wlist_Suc [OF k] ins_def lasth_def highs_wlist_Suc [OF k])
  let ?m = "nwrite_loop ?r (last ?zs) (lasth ?hi ?zs) rest"
  have "chl (\<lambda>t. t = s) (block [set_next (last ?ys) (Some ?e), set_last ?r (Some ?e)]
      (block [set_owner ?e ET_SYS, add_cnt ?r 1] ?m)) Q (write_mid s0 st xs es)"
    using pre k st pos zs(1)
  proof (rule write_append_chl)
    fix t assume "write_stage s0 st xs es (Suc k) 1 t" "last_of ?r t = Some (last ?zs)"
      "l_lasthigh (glist ?r t) = int (length (highs ?hi ?ys))"
    then show "chl (\<lambda>u. u = t) (block [set_owner ?e ET_SYS, add_cnt ?r 1] ?m) Q (write_mid s0 st xs es)"
      using zs(3) cont by (intro write_finish_event [OF pre k]) simp_all
  qed
  with low zs show ?thesis by (auto intro!: chl_cond_at)
qed

lemma nwrite_high_chl:
  assumes pre: "write_pre s0 xs es" and k: "k < length es"
    and st: "write_stage s0 st xs es k 0 s" and pos: "0 < cnt_of (ListOut st) s"
    and nlow: "pri_of (es ! k) s \<noteq> ET_LOW"
    and cont: "\<And>t. write_stage s0 st xs es (Suc k) 0 t \<Longrightarrow>
      chl (\<lambda>u. u = t) (nwrite_loop (ListOut st) (last (wlist s0 xs es (Suc k)))
        (lasth (high (m_events s0)) (wlist s0 xs es (Suc k))) rest) Q (write_mid s0 st xs es)"
  shows "chl (\<lambda>t. t = s) (nwrite_loop (ListOut st) (last (wlist s0 xs es k))
     (lasth (high (m_events s0)) (wlist s0 xs es k)) (es ! k # rest)) Q (write_mid s0 st xs es)"
proof -
  let ?r = "ListOut st" and ?hi = "high (m_events s0)"
  let ?ys = "wlist s0 xs es k" and ?zs = "wlist s0 xs es (Suc k)" and ?e = "es ! k"
  note D = write_stageD [OF st pre]
  have h: "?hi ?e" using pre k nlow frame_pri [OF D(3), of ?e] by (auto simp: write_pre_def)
  have lz: "lasth ?hi ?zs = Some ?e" using h by (simp add: lasth_Suc [OF k])
  let ?m = "nwrite_loop ?r (last ?zs) (lasth ?hi ?zs) rest"
  let ?C = "write_mid s0 st xs es" and ?f = "block [add_lasthigh ?r 1, set_owner ?e ET_SYS, add_cnt ?r 1] ?m"
  have fin: "chl (\<lambda>u. u = t) ?f Q ?C"
    if "write_stage s0 st xs es (Suc k) 1 t" "last_of ?r t = Some (last ?zs)"
      "l_lasthigh (glist ?r t) = int (length (highs ?hi ?ys))" for t
    using write_finish_high [OF pre k h that cont] .
  consider (none) "highs ?hi ?ys = []" | (all) "lasth ?hi ?ys = Some (last ?ys)"
    | (some) h where "lasth ?hi ?ys = Some h" "h \<noteq> last ?ys"
    by (cases "highs ?hi ?ys = []"; cases "last (highs ?hi ?ys) = last ?ys")
      (simp_all add: lasth_def)
  then show ?thesis
  proof cases
    case none
    with pri_sorted_split [OF D(10)] D(7) pos have "?ys \<noteq> []" by auto
    with none h have zs: "last ?zs = last ?ys"
      using pri_sorted_split [OF D(10)] by (simp add: wlist_Suc [OF k] ins_def)
    have "chl (\<lambda>t. t = s) (block [set_next ?e (first_of ?r s), set_first ?r (Some ?e)] ?f) Q ?C"
      by (rule write_push_chl [OF pre k st pos h none fin refl])
    with none nlow zs lz show ?thesis by (auto intro!: chl_cond_at chl_load_at simp: lasth_def)
  next
    case all
    with D(10) have zs: "?zs = ?ys @ [?e]"
      using h by (simp add: wlist_Suc [OF k] ins_def last_highs lasth_lows)
    have "chl (\<lambda>t. t = s) (block [set_next (last ?ys) (Some ?e), set_last ?r (Some ?e)] ?f) Q ?C"
      using pre k st pos zs fin by (rule write_append_chl)
    with all nlow zs lz show ?thesis by (auto intro!: chl_cond_at)
  next
    case some
    then have ls: "lows ?hi ?ys \<noteq> []"
      using last_highs [OF D(10)] by (auto simp: lasth_def split: if_splits)
    then have zs: "last ?zs = last ?ys"
      using h last_lows [OF D(10)] by (simp add: wlist_Suc [OF k] ins_def)
    have "chl (\<lambda>t. t = s) (block [set_next ?e (next_of h s), set_next h (Some ?e)] ?f) Q ?C"
      by (rule write_insert_chl [OF pre k st pos \<open>?hi ?e\<close> some fin refl])
    with some nlow zs lz show ?thesis by (auto intro!: chl_cond_at chl_load_at)
  qed
qed

lemma nwrite_loop_chl:
  assumes pre: "write_pre s0 xs es"
    and st: "write_stage s0 st xs es k 0 s" and pos: "0 < cnt_of (ListOut st) s"
    and "drop k es = rest"
  shows "chl (\<lambda>t. t = s)
     (nwrite_loop (ListOut st) (last (wlist s0 xs es k)) (lasth (high (m_events s0)) (wlist s0 xs es k)) rest)
     (\<lambda>_ t. write_stage s0 st xs es (length es) 0 t) (write_mid s0 st xs es)"
  using st pos assms(4)
proof (induction rest arbitrary: k s)
  case Nil
  then have "k = length es" by (auto simp: write_stage_def Let_def)
  with Nil show ?case by (auto intro: chl_ret_at)
next
  case (Cons e rest)
  note k = drop_ConsD(1) [OF Cons.prems(3)] and e = drop_ConsD(2) [OF Cons.prems(3)]
  have "chl (\<lambda>u. u = t) (nwrite_loop (ListOut st) (last (wlist s0 xs es (Suc k)))
      (lasth (high (m_events s0)) (wlist s0 xs es (Suc k))) rest)
    (\<lambda>_ t. write_stage s0 st xs es (length es) 0 t) (write_mid s0 st xs es)"
    if "write_stage s0 st xs es (Suc k) 0 t" for t
    using that by (rule Cons.IH)
      (use that drop_ConsD(3) [OF Cons.prems(3)] in \<open>simp_all add: write_stage_def Let_def\<close>)
  then show ?case
    using nwrite_low_chl [OF pre k Cons.prems(1,2)] nwrite_high_chl [OF pre k Cons.prems(1,2)] e
    by blast
qed

definition out_list :: "et_mem \<Rightarrow> et_stat_id \<Rightarrow> nat list \<Rightarrow> bool" where
  "out_list s st xs \<longleftrightarrow> (let r = ListOut st in
     cnt_of r s = int (length xs) \<and> chain (m_events s) (first_of r s) xs
   \<and> (xs \<noteq> [] \<longrightarrow> last_of r s = Some (last xs)) \<and> distinct xs
   \<and> pri_sorted (high (m_events s)) xs
   \<and> l_lasthigh (glist r s) = int (length (highs (high (m_events s)) xs))
   \<and> (\<forall>e \<in> set xs. pri_of e s \<in> {ET_LOW, ET_HIGH} \<and> e_owner (m_events s e) = ET_SYS))"

definition out_ok :: "et_mem \<Rightarrow> et_stat_id \<Rightarrow> nat list \<Rightarrow> bool" where
  "out_ok s st xs \<longleftrightarrow> out_list s st xs \<and> \<not> l_mutex (glist (ListOut st) s)
     \<and> fo_start (f_out (gfix st s)) = 0"

definition write_args :: "et_mem \<Rightarrow> nat list \<Rightarrow> nat list \<Rightarrow> bool" where
  "write_args s xs es \<longleftrightarrow> distinct es \<and> set xs \<inter> set es = {}
     \<and> (\<forall>e \<in> set es. pri_of e s \<in> {ET_LOW, ET_HIGH})"

definition write_rest :: "et_mem \<Rightarrow> et_stat_id \<Rightarrow> nat list \<Rightarrow> nat list \<Rightarrow> nat \<Rightarrow> et_mem \<Rightarrow> bool" where
  "write_rest s0 st xs es k t \<longleftrightarrow> frame (ListOut st) (set xs \<union> set es) s0 t
     \<and> f_in (gfix st t) = f_in (gfix st s0)
     \<and> (\<forall>e \<in> set (drop k es). e_owner (m_events t e) = e_owner (m_events s0 e))"

text \<open>What a writer that dies leaves behind.\<close>

definition write_crash :: "et_mem \<Rightarrow> et_stat_id \<Rightarrow> nat list \<Rightarrow> nat list \<Rightarrow> et_mem \<Rightarrow> bool" where
  "write_crash s0 st xs es t \<longleftrightarrow>
     (\<exists>k \<in> {0, length es}. fo_start (f_out (gfix st t)) = 0 \<and> out_list t st (wlist s0 xs es k)
        \<and> write_rest s0 st xs es k t)
   \<or> write_mid s0 st xs es t"

lemma write_pre_out: "out_list s st xs \<Longrightarrow> write_args s xs es \<Longrightarrow> write_pre s xs es"
  by (auto simp: out_list_def write_args_def write_pre_def Let_def)

lemma open_fixout_chl:
  assumes ok: "out_list s st xs" and fix0: "fo_start (f_out (gfix st s)) = 0"
    and args: "write_args s0 xs es" and fr: "write_rest s0 st xs es 0 s"
    and mutex: "l_mutex (glist (ListOut st) s)"
  shows "chl (\<lambda>t. t = s) (open_fixout st (int (length es)))
     (\<lambda>_ t. write_stage s0 st xs es 0 0 t) (write_crash s0 st xs es)"
proof -
  let ?r = "ListOut st"
  let ?s1 = "if xs = [] then upd_list ?r (l_firstevent_update (\<lambda>_. None)) s else s"
  let ?s2 = "upd_fixout st (fo_cnt_update (\<lambda>_. int (length xs))) ?s1"
  let ?s3 = "upd_fixout st (fo_num_update (\<lambda>_. int (length es))) ?s2"
  let ?s4 = "upd_fixout st (fo_start_update (\<lambda>n. n + 1)) ?s3"
  have h: "high (m_events s) = high (m_events s0)" using fr frame_high unfolding write_rest_def by blast
  have c: "cnt_of ?r s = int (length xs)" using ok by (simp add: out_list_def Let_def)
  have q: "write_crash s0 st xs es u" if "u \<in> {?s1, ?s2, ?s3}" for u
  proof -
    from that ok fix0 fr have "fo_start (f_out (gfix st u)) = 0 \<and> out_list u st (wlist s0 xs es 0)
        \<and> write_rest s0 st xs es 0 u"
      by (cases "xs = []") (auto simp: out_list_def write_rest_def Let_def intro!: frame_upd)
    then show ?thesis by (auto simp: write_crash_def)
  qed
  have g: "gfix st ?s4 = (gfix st s0)\<lparr>f_out :=
      \<lparr>fo_start = 1, fo_cnt = int (length xs), fo_num = int (length es)\<rparr>\<rparr>"
    using fix0 fr by (cases "xs = []") (simp_all add: write_rest_def)
  have 4: "write_stage s0 st xs es 0 0 ?s4"
    using ok fr mutex g
    by (cases "xs = []") (simp_all add: write_stage_def out_list_def write_rest_def Let_def h frame_upd)
  from 4 have 5: "write_crash s0 st xs es ?s4" unfolding write_crash_def by blast
  have q1: "write_crash s0 st xs es ?s1" and q2: "write_crash s0 st xs es ?s2"
    and q3: "write_crash s0 st xs es ?s3"
    by (rule q, blast)+
  have c1: "cnt_of ?r ?s1 = int (length xs)" using c by (cases "xs = []") simp_all
  have "chl (\<lambda>t. t = ?s1) (load (cnt_of ?r) (\<lambda>c. store (upd_fixout st (fo_cnt_update (\<lambda>_. c)))))
     (\<lambda>_ t. t = ?s2) (write_crash s0 st xs es)"
    by (rule chl_load_at, rule chl_store, unfold c1) (use q2 in blast)+
  moreover have "chl (\<lambda>t. t = s) (whenp (\<lambda>s. cnt_of ?r s = 0) (set_first ?r None))
     (\<lambda>_ t. t = ?s1) (write_crash s0 st xs es)"
    by (cases "xs = []")
      (use c q1 in \<open>simp_all add: chl_def whenp_def cond_def store_def ret_def\<close>)
  moreover have "chl (\<lambda>t. t = ?s2) (block [store (upd_fixout st (fo_num_update (\<lambda>_. int (length es)))),
     store (upd_fixout st (fo_start_update (\<lambda>n. n + 1)))] skip)
     (\<lambda>_ t. write_stage s0 st xs es 0 0 t) (write_crash s0 st xs es)"
    unfolding block.simps by (intro chl_store_then chl_ret_at) (use q3 4 5 in blast)+
  ultimately show ?thesis
    unfolding open_fixout_def block.simps by (blast intro: chl_andthen)
qed

lemma close_fixout_chl:
  assumes pre: "write_pre s0 xs es" and st: "write_stage s0 st xs es (length es) 0 s"
  shows "chl (\<lambda>t. t = s) (close_fixout st)
     (\<lambda>_ t. out_ok t st (wlist s0 xs es (length es)) \<and> write_rest s0 st xs es (length es) t)
     (write_crash s0 st xs es)"
proof -
  let ?r = "ListOut st" and ?ys = "wlist s0 xs es (length es)"
  let ?s1 = "upd_fixout st (fo_start_update (\<lambda>n. n - 1)) s"
  let ?s2 = "upd_list ?r (l_mutex_update (\<lambda>_. False)) ?s1"
  let ?s3 = "upd_os (CondSignal ?r) ?s2"
  note D = write_stageD [OF st pre]
  have p: "\<And>e. pri_of e s = pri_of e s0" using D(3) by (rule frame_pri)
  have own: "\<forall>e \<in> set xs \<union> set es. e_owner (m_events s e) = ET_SYS"
    using st by (simp add: write_stage_def Let_def)
  have ne: "last_of ?r s = Some (last ?ys)" if "?ys \<noteq> []"
    using D(7,8) that by (metis of_nat_0_less_iff length_greater_0_conv)
  have q: "fo_start (f_out (gfix st u)) = 0 \<and> out_list u st ?ys \<and> write_rest s0 st xs es (length es) u"
    if "u \<in> {?s1, ?s2, ?s3}" for u
    using that D p own ne pre
    by (auto simp: out_list_def write_rest_def Let_def write_pre_def set_foldl_ins intro!: frame_upd)
  then have c: "write_crash s0 st xs es u" if "u \<in> {?s1, ?s2, ?s3}" for u
    using that unfolding write_crash_def by blast
  show ?thesis
    unfolding close_fixout_def block.simps et_llist_unlock_def
  proof (intro chl_store_then chl_ret_at)
    show "out_ok ?s3 st ?ys \<and> write_rest s0 st xs es (length es) ?s3"
      using q [of ?s3] by (simp add: out_ok_def)
  qed (use c in blast)+
qed

lemma step_next_eq:
  "chain (m_events s) p xs \<Longrightarrow> i + n < length xs \<Longrightarrow> step_next n (xs ! i) s = ([], Done (xs ! (i + n)) s)"
proof (induction n arbitrary: i)
  case 0
  then show ?case by (simp add: ret_def)
next
  case (Suc n)
  then have "e_next (m_events s (xs ! i)) = Some (xs ! Suc i)" by (simp add: chain_nth_next)
  with Suc.IH [of "Suc i"] Suc.prems show ?case by (simp add: deref_def)
qed

lemma find_lasthigh_eq:
  assumes ch: "chain (m_events s) (first_of r s) xs" and srt: "pri_sorted hi xs"
    and lh: "l_lasthigh (glist r s) = int (length (highs hi xs))"
  shows "find_lasthigh r s = ([], Done (lasth hi xs) s)"
proof (cases "highs hi xs = []")
  case True
  with lh show ?thesis by (simp add: find_lasthigh_def cond_def ret_def lasth_def)
next
  case False
  let ?n = "length (highs hi xs) - 1"
  have split: "xs = highs hi xs @ lows hi xs" using pri_sorted_split [OF srt] by simp
  have len: "?n < length xs" using False split by (metis diff_less length_append length_greater_0_conv less_one trans_less_add1)
  have nth: "xs ! ?n = last (highs hi xs)" using False split
    by (metis diff_less last_conv_nth length_greater_0_conv less_one nth_append)
  from len have ne: "xs \<noteq> []" by auto
  then have f: "first_of r s = Some (xs ! 0)" using chain_first [OF ch] by (simp add: hd_conv_nth)
  have "step_next ?n (xs ! 0) s = ([], Done (xs ! ?n) s)"
    using step_next_eq [OF ch, of 0 ?n] len by simp
  with False lh f nth show ?thesis
    by (simp add: find_lasthigh_def cond_def load_def deref_def bind_def ret_def lasth_def nat_diff_distrib)
qed

text \<open>Writing the first events into an empty list.\<close>

lemma write_empty_chl:
  assumes pre: "write_pre s0 [] es" and st: "write_stage s0 st [] es 0 0 s" and es: "es = e0 # rest"
    and cont: "\<And>t. write_stage s0 st [] es (Suc 0) 0 t \<Longrightarrow>
      chl (\<lambda>u. u = t) (m (high (m_events s0) e0)) Q (write_mid s0 st [] es)"
  shows "chl (\<lambda>t. t = s) (block [set_first (ListOut st) (Some e0), set_last (ListOut st) (Some e0), set_owner e0 ET_SYS]
      (load (\<lambda>s. pri_of e0 s = ET_HIGH) (\<lambda>hb.
        block [whenp (\<lambda>_. hb) (store (upd_list (ListOut st) (l_lasthigh_update (\<lambda>_. 1)))),
               add_cnt (ListOut st) 1] (m hb)))) Q (write_mid s0 st [] es)"
proof -
  let ?r = "ListOut st"
  define hb where "hb = high (m_events s0) e0"
  let ?s1 = "upd_list ?r (l_firstevent_update (\<lambda>_. Some e0)) s"
  let ?s2 = "upd_list ?r (l_lastevent_update (\<lambda>_. Some e0)) ?s1"
  let ?s3 = "upd_event e0 (e_owner_update (\<lambda>_. ET_SYS)) ?s2"
  let ?s4 = "if hb then upd_list ?r (l_lasthigh_update (\<lambda>_. 1)) ?s3 else ?s3"
  let ?s5 = "upd_list ?r (l_cnt_update (\<lambda>c. c + 1)) ?s4"
  note D = write_stageD [OF st pre]
  have k: "0 < length es" and e0: "es ! 0 = e0" using es by auto
  have w1: "wlist s0 [] es (Suc 0) = [e0]" using es by (simp add: ins_def)
  have st1: "write_stage s0 st [] es (Suc 0) 1 u" if "u \<in> {?s1, ?s2}" for u
    using st k by (rule write_stage_insert) (use that D e0 in \<open>auto simp: ins_def intro!: frame_upd\<close>)
  have 3: "write_stage s0 st [] es (Suc 0) 1 ?s3"
    using write_stage_owner [OF st1 k pre, of ?s2] e0 by simp
  then have 4: "write_stage s0 st [] es (Suc 0) 1 ?s4"
    by (cases hb) (auto simp: write_stage_lasthigh [simplified])
  then have m4: "write_mid s0 st [] es ?s4" by blast
  have 5: "write_stage s0 st [] es (Suc 0) 0 ?s5"
    using 4 k by (rule write_stage_count) (use e0 w1 hb_def D in \<open>auto simp: es ins_def\<close>)
  have "chl (\<lambda>t. t = ?s3) (whenp (\<lambda>_. hb) (store (upd_list ?r (l_lasthigh_update (\<lambda>_. 1)))))
     (\<lambda>_ t. t = ?s4) (write_mid s0 st [] es)"
    by (cases hb) (use m4 in \<open>simp_all add: chl_def whenp_def cond_def store_def ret_def\<close>)
  moreover have "chl (\<lambda>t. t = ?s4) (andthen (add_cnt ?r 1) (m hb)) Q (write_mid s0 st [] es)"
    by (rule chl_store_then) (use 5 cont [OF 5, folded hb_def] in blast)+
  ultimately have "chl (\<lambda>t. t = ?s3) (block [whenp (\<lambda>_. hb)
      (store (upd_list ?r (l_lasthigh_update (\<lambda>_. 1)))), add_cnt ?r 1] (m hb)) Q (write_mid s0 st [] es)"
    unfolding block.simps by (rule chl_andthen)
  moreover have "pri_of e0 ?s3 = ET_HIGH \<longleftrightarrow> hb"
    using frame_pri [OF D(3), of e0] by (simp add: hb_def)
  ultimately have "chl (\<lambda>t. t = ?s3) (load (\<lambda>s. pri_of e0 s = ET_HIGH) (\<lambda>hb. block [whenp (\<lambda>_. hb)
      (store (upd_list ?r (l_lasthigh_update (\<lambda>_. 1)))), add_cnt ?r 1] (m hb))) Q (write_mid s0 st [] es)"
    by (intro chl_load_at) simp
  moreover have "write_mid s0 st [] es ?s1" "write_mid s0 st [] es ?s2" "write_mid s0 st [] es ?s3"
    using st1 3 by blast+
  ultimately show ?thesis
    unfolding block.simps(2) [of "set_first ?r (Some e0)"] block.simps(2) [of "set_last ?r (Some e0)"]
      block.simps(2) [of "set_owner e0 ET_SYS"] block.simps(1)
    by (intro chl_store_then)
qed

lemma write_stage_pos: "write_stage s0 st xs es (Suc k) 0 t \<Longrightarrow> 0 < cnt_of (ListOut st) t"
  by (simp add: write_stage_def Let_def)

lemma write_crash_mid: "write_mid s0 st xs es t \<Longrightarrow> write_crash s0 st xs es t"
  by (simp add: write_crash_def)

lemma chl_weaken_crash: "chl P m Q C \<Longrightarrow> (\<And>s. C s \<Longrightarrow> C' s) \<Longrightarrow> chl P m Q C'"
  by (blast intro: chl_conseq)


text \<open>The body of \<^verbatim>\<open>et_station_nwrite\<close> between opening and closing the repair record.\<close>

definition nwrite_body :: "listref \<Rightarrow> nat \<Rightarrow> nat list \<Rightarrow> unit cmd" where
  "nwrite_body r e0 rest = cond (\<lambda>s. cnt_of r s = 0)
      (block [set_first r (Some e0), set_last r (Some e0), set_owner e0 ET_SYS]
        (load (\<lambda>s. pri_of e0 s = ET_HIGH) (\<lambda>high.
          block [whenp (\<lambda>_. high) (store (upd_list r (l_lasthigh_update (\<lambda>_. 1)))), add_cnt r 1]
            (nwrite_loop r e0 (if high then Some e0 else None) rest))))
      (bind (find_lasthigh r) (\<lambda>lh. deref (last_of r) (\<lambda>p. nwrite_loop r p lh (e0 # rest))))"

lemma nwrite_body_chl:
  assumes pre: "write_pre s0 xs es" and st: "write_stage s0 st xs es 0 0 s" and es: "es = e0 # rest"
  shows "chl (\<lambda>t. t = s) (nwrite_body (ListOut st) e0 rest)
     (\<lambda>_ t. write_stage s0 st xs es (length es) 0 t) (write_mid s0 st xs es)"
proof (cases "xs = []")
  case True
  note D = write_stageD [OF st pre]
  have "chl (\<lambda>u. u = t) (nwrite_loop (ListOut st) e0 (if high (m_events s0) e0 then Some e0 else None) rest)
      (\<lambda>_ t. write_stage s0 st [] es (length es) 0 t) (write_mid s0 st [] es)"
    if "write_stage s0 st [] es (Suc 0) 0 t" for t
    using nwrite_loop_chl [OF pre [unfolded True] that write_stage_pos [OF that], of rest] es
    by (cases "high (m_events s0) e0") (simp_all add: ins_def lasth_def)
  with pre st es True have "chl (\<lambda>t. t = s) (block [set_first (ListOut st) (Some e0), set_last (ListOut st) (Some e0), set_owner e0 ET_SYS]
      (load (\<lambda>s. pri_of e0 s = ET_HIGH) (\<lambda>high.
          block [whenp (\<lambda>_. high) (store (upd_list (ListOut st) (l_lasthigh_update (\<lambda>_. 1)))), add_cnt (ListOut st) 1]
            (nwrite_loop (ListOut st) e0 (if high then Some e0 else None) rest))))
     (\<lambda>_ t. write_stage s0 st [] es (length es) 0 t) (write_mid s0 st [] es)"
    by (intro write_empty_chl) simp_all
  with D(7) True show ?thesis
    unfolding nwrite_body_def by (intro chl_cond_at) simp
next
  case False
  note D = write_stageD [OF st pre]
  have pos: "0 < cnt_of (ListOut st) s" using D(7) False by simp
  have f: "find_lasthigh (ListOut st) s = ([], Done (lasth (high (m_events s0)) xs) s)"
    using D by (intro find_lasthigh_eq) simp_all
  have "chl (\<lambda>t. t = s) (nwrite_loop (ListOut st) (last xs) (lasth (high (m_events s0)) xs) es)
     (\<lambda>_ t. write_stage s0 st xs es (length es) 0 t) (write_mid s0 st xs es)"
    using nwrite_loop_chl [OF pre st pos, of es] by simp
  moreover have "last_of (ListOut st) s = Some (last xs)" using D(8) pos by simp
  ultimately have d: "chl (\<lambda>t. t = s) (deref (last_of (ListOut st))
      (\<lambda>p. nwrite_loop (ListOut st) p (lasth (high (m_events s0)) xs) es))
     (\<lambda>_ t. write_stage s0 st xs es (length es) 0 t) (write_mid s0 st xs es)"
    by (intro chl_deref_at)
  have "chl (\<lambda>t. t = s) (bind (find_lasthigh (ListOut st)) (\<lambda>lh. deref (last_of (ListOut st))
      (\<lambda>p. nwrite_loop (ListOut st) p lh es)))
     (\<lambda>_ t. write_stage s0 st xs es (length es) 0 t) (write_mid s0 st xs es)"
  proof (rule chl_bind_at)
    show "chl (\<lambda>t. t = s) (find_lasthigh (ListOut st))
      (\<lambda>lh t. lh = lasth (high (m_events s0)) xs \<and> t = s) (write_mid s0 st xs es)"
      by (simp add: chl_def f)
  qed (use d in blast)
  with pos es show ?thesis
    unfolding nwrite_body_def by (intro chl_cond_at) simp
qed

lemma et_station_nwrite_chl:
  assumes ok: "out_ok s st xs" and args: "write_args s xs es"
    and room: "int (length xs + length es) \<le> nevents s"
  shows "chl (\<lambda>t. t = s) (et_station_nwrite st es)
     (\<lambda>r t. r = ET_OK \<and> out_ok t st (wlist s xs es (length es)) \<and> write_rest s st xs es (length es) t)
     (write_crash s st xs es)"
proof (cases es)
  case Nil
  with ok show ?thesis by (simp add: et_station_nwrite_def chl_ret_at write_rest_def)
next
  case (Cons e0 rest)
  let ?r = "ListOut st"
  let ?s1 = "upd_list ?r (l_mutex_update (\<lambda>_. True)) s"
  have out: "out_list s st xs" and fix0: "fo_start (f_out (gfix st s)) = 0" using ok by (auto simp: out_ok_def)
  have pre: "write_pre s xs es" using out args by (rule write_pre_out)
  have o1: "out_list ?s1 st xs" using out by (simp add: out_list_def Let_def)
  have r1: "write_rest s st xs es 0 ?s1" by (simp add: write_rest_def frame_upd)
  have c: "cnt_of ?r ?s1 = int (length xs)" using o1 by (simp add: out_list_def Let_def)
  have cr1: "write_crash s st xs es ?s1" using o1 r1 fix0 by (auto simp: write_crash_def)
  have "chl (\<lambda>t. t = ?s1) (open_fixout st (int (length es)))
     (\<lambda>_ t. write_stage s st xs es 0 0 t) (write_crash s st xs es)"
    using o1 _ args r1 by (rule open_fixout_chl) (use fix0 in simp_all)
  moreover have "chl (write_stage s st xs es 0 0) (nwrite_body ?r e0 rest)
     (\<lambda>_ t. write_stage s st xs es (length es) 0 t) (write_crash s st xs es)"
    unfolding chl_at_iff [of "write_stage s st xs es 0 0"]
    using nwrite_body_chl [OF pre _ Cons] by (blast intro: chl_weaken_crash write_crash_mid)
  moreover have "chl (write_stage s st xs es (length es) 0) (andthen (close_fixout st) (ret ET_OK))
     (\<lambda>r t. r = ET_OK \<and> out_ok t st (wlist s xs es (length es)) \<and> write_rest s st xs es (length es) t)
     (write_crash s st xs es)"
    unfolding chl_at_iff [of "write_stage s st xs es (length es) 0"]
    using close_fixout_chl [OF pre] by (blast intro: chl_andthen chl_ret)
  ultimately have "chl (\<lambda>t. t = ?s1) (block [open_fixout st (int (length es)), nwrite_body ?r e0 rest, close_fixout st] (ret ET_OK))
     (\<lambda>r t. r = ET_OK \<and> out_ok t st (wlist s xs es (length es)) \<and> write_rest s st xs es (length es) t)
     (write_crash s st xs es)"
    unfolding block.simps by (blast intro: chl_andthen)
  moreover have "\<not> int (length es) > nevents ?s1 - cnt_of ?r ?s1" using room c by simp
  ultimately have "chl (\<lambda>t. t = ?s1) (cond (\<lambda>s. int (length es) > nevents s - cnt_of ?r s)
      (andthen (et_llist_unlock ?r) (ret ET_ERROR))
      (block [open_fixout st (int (length es)), nwrite_body ?r e0 rest, close_fixout st] (ret ET_OK)))
     (\<lambda>r t. r = ET_OK \<and> out_ok t st (wlist s xs es (length es)) \<and> write_rest s st xs es (length es) t)
     (write_crash s st xs es)"
    by (intro chl_cond_at) simp
  moreover have "chl (\<lambda>t. t = s) (et_llist_lock ?r) (\<lambda>_ t. t = ?s1) (write_crash s st xs es)"
    unfolding et_llist_lock_def by (rule chl_cond_at) (use ok cr1 in \<open>auto simp: out_ok_def intro!: chl_store\<close>)
  ultimately show ?thesis
    unfolding et_station_nwrite_def Let_def Cons nwrite_body_def list.case
    by (intro chl_andthen)
qed

end
