(* ===== verification/Et_Repair.thy ===== *)
theory Et_Repair
  imports Et_StationWrite
begin

text \<open>
  The repair of event lists after a process died inside one of the routines of
  \<^verbatim>\<open>et_readwrite.c\<close>: \<^verbatim>\<open>et_repair_outputlist\<close>, \<^verbatim>\<open>et_repair_inputlist\<close>,
  \<^verbatim>\<open>et_repair_gcinputlist\<close>, \<^verbatim>\<open>et_repair_station\<close> and \<^verbatim>\<open>et_repair_gc\<close>, and the proof that
  the repair of a station undoes any crash of a write.
\<close>

section \<open>Repairing an output list\<close>

text \<open>The walk over the list: at most \<open>n\<close> events, up to the last one.\<close>

fun repair_out_walk :: "nat \<Rightarrow> eptr \<Rightarrow> eptr \<Rightarrow> int \<Rightarrow> int \<Rightarrow> (int \<times> int \<times> int) cmd" where
  "repair_out_walk 0 lst pe cn lasthigh = ret (ET_ERROR, cn, lasthigh)"
| "repair_out_walk (Suc n) lst pe cn lasthigh = deref (\<lambda>_. pe) (\<lambda>e.
     andthen (set_owner e ET_SYS)
      (load (\<lambda>s. if pri_of e s = ET_HIGH then lasthigh + 1 else lasthigh) (\<lambda>lh.
        if lst = Some e then ret (ET_OK, cn + 1, lh)
        else load (next_of e) (\<lambda>q. repair_out_walk n lst q (cn + 1) lh))))"

definition et_repair_outputlist :: "et_stat_id \<Rightarrow> int cmd" where
  "et_repair_outputlist st = (let r = ListOut st; reset = store (upd_fixout st (fo_start_update (\<lambda>_. 0))) in
     load (\<lambda>s. f_out (gfix st s)) (\<lambda>fx.
       cond (\<lambda>s. fo_start fx = 0) (ret ET_OK)
       (cond (\<lambda>s. cnt_of r s = fo_cnt fx + fo_num fx) (andthen reset (ret ET_OK))
       (cond (\<lambda>s. cnt_of r s = 0 \<and> first_of r s = None) (andthen reset (ret ET_OK))
       (andthen (whenp (\<lambda>s. cnt_of r s = 0 \<and> first_of r s \<noteq> None)
                  (load (first_of r) (\<lambda>f. set_last r f)))
         (load (first_of r) (\<lambda>f. load (last_of r) (\<lambda>l.
           bind (repair_out_walk (nat (fo_cnt fx + fo_num fx)) l f 0 0) (\<lambda>(err, cn, lasthigh).
             block [store (upd_list r (l_cnt_update (\<lambda>_. cn))),
                    store (upd_list r (l_lasthigh_update (\<lambda>_. lasthigh))),
                    reset, signal r] (ret err))))))))))"

section \<open>Repairing an input list\<close>

text \<open>
  The walk of \<^verbatim>\<open>et_repair_inputlist\<close> stops at the last event only; if that is never
  reached, or a null link is followed, there is no result.
\<close>

partial_function (option) repair_in_walk :: "eptr \<Rightarrow> eptr \<Rightarrow> int \<Rightarrow> et_mem \<Rightarrow> (int \<times> et_mem) option" where
  "repair_in_walk lst pe cn s =
     (case pe of None \<Rightarrow> None
      | Some e \<Rightarrow> (let t = upd_event e (e_owner_update (\<lambda>_. ET_SYS)) s in
          if lst = Some e then Some (cn + 1, t)
          else repair_in_walk lst (next_of e t) (cn + 1) t))"

declare repair_in_walk.simps [code]

definition run_repair_in_walk :: "eptr \<Rightarrow> eptr \<Rightarrow> int cmd" where
  "run_repair_in_walk lst pe s =
     (case repair_in_walk lst pe 0 s of None \<Rightarrow> ([], Blocked s) | Some (c, t) \<Rightarrow> ([t], Done c t))"

definition et_repair_inputlist :: "et_stat_id \<Rightarrow> int cmd" where
  "et_repair_inputlist st = (let r = ListIn st; reset = set_fixin st (fi_first_update (\<lambda>_. None)) in
     load (\<lambda>s. f_in (gfix st s)) (\<lambda>fx.
       if fi_first fx = None then ret ET_OK
       else cond (\<lambda>s. cnt_of r s = fi_cnt fx - fi_num fx) (andthen reset (ret ET_OK))
        (andthen (set_first r (fi_first fx))
          (load (last_of r) (\<lambda>l. bind (run_repair_in_walk l (fi_first fx)) (\<lambda>cn.
            block [store (upd_list r (l_cnt_update (\<lambda>_. cn))), reset] (ret ET_OK)))))))"

fun repair_gc_walk :: "nat \<Rightarrow> eptr \<Rightarrow> eptr \<Rightarrow> int \<Rightarrow> (int \<times> int) cmd" where
  "repair_gc_walk 0 lst pe cn = ret (ET_ERROR, cn)"
| "repair_gc_walk (Suc n) lst pe cn = deref (\<lambda>_. pe) (\<lambda>e.
     andthen (set_owner e ET_SYS)
      (if lst = Some e then ret (ET_OK, cn + 1)
       else load (next_of e) (\<lambda>q. repair_gc_walk n lst q (cn + 1))))"

definition et_repair_gcinputlist :: "int cmd" where
  "et_repair_gcinputlist = (let st = ET_GRANDCENTRAL; r = ListIn st;
       reset = set_fixin st (fi_start_update (\<lambda>_. 0)) in
     load (\<lambda>s. f_in (gfix st s)) (\<lambda>fx.
       if fi_start fx = 0 then ret ET_OK
       else cond (\<lambda>s. cnt_of r s = fi_cnt fx + fi_num fx) (andthen reset (ret ET_OK))
       (cond (\<lambda>s. cnt_of r s = 0 \<and> first_of r s = None) (andthen reset (ret ET_OK))
       (andthen (whenp (\<lambda>s. cnt_of r s = 0 \<and> first_of r s \<noteq> None)
                  (load (first_of r) (\<lambda>f. set_last r f)))
         (load (first_of r) (\<lambda>f. load (last_of r) (\<lambda>l.
           bind (repair_gc_walk (nat (fi_cnt fx + fi_num fx)) l f 0) (\<lambda>(err, cn).
             block [store (upd_list r (l_cnt_update (\<lambda>_. cn))),
                    whenp (\<lambda>s. fi_eventsin fx = l_events_in (glist r s))
                      (store (upd_list r (l_events_in_update
                         (\<lambda>n. n + word_of_int cn - word_of_int (fi_cnt fx))))),
                    reset] (ret err)))))))))"

section \<open>Repairing a station\<close>

text \<open>
  A mutex that is found held for two seconds counts as abandoned by a dead process:
  \<^verbatim>\<open>et_mutex_locked\<close> is the flag of the mutex.
\<close>

definition et_repair_station :: "et_stat_id \<Rightarrow> int cmd" where
  "et_repair_station st =
     cond (\<lambda>s. l_mutex (glist (ListIn st) s))
       (bind (et_repair_inputlist st) (\<lambda>status.
          if status = ET_ERROR then ret status
          else andthen (et_llist_unlock (ListIn st)) (ret ET_OK)))
     (cond (\<lambda>s. l_mutex (glist (ListOut st) s))
       (bind (et_repair_outputlist st) (\<lambda>status.
          if status = ET_ERROR then ret status
          else andthen (et_llist_unlock (ListOut st)) (ret ET_OK)))
       (ret ET_OK))"

definition et_repair_gc :: "int cmd" where
  "et_repair_gc = (let r = ListIn ET_GRANDCENTRAL in
     cond (\<lambda>s. l_mutex (glist r s))
       (bind (load (\<lambda>s. fi_call (f_in (gfix ET_GRANDCENTRAL s))) (\<lambda>call.
                if call = ET_FIX_DUMP then et_repair_gcinputlist
                else et_repair_inputlist ET_GRANDCENTRAL))
         (\<lambda>status. if status = ET_ERROR then ret status
           else andthen (et_llist_unlock r) (ret ET_OK)))
       (ret ET_OK))"

section \<open>A writer may die anywhere\<close>

lemma repair_out_walk_eq:
  "chain (m_events s) p ys \<Longrightarrow> ys \<noteq> [] \<Longrightarrow> distinct ys \<Longrightarrow> lst = Some (last ys) \<Longrightarrow> length ys \<le> n \<Longrightarrow>
   \<exists>l. repair_out_walk n lst p c lh s = (l, Done (ET_OK, c + int (length ys),
     lh + int (length (highs (high (m_events s)) ys))) (own_by ET_SYS ys s))"
proof (induction ys arbitrary: n p c lh s)
  case Nil
  then show ?case by simp
next
  case (Cons e ys)
  from Cons.prems obtain n' where n: "n = Suc n'" by (cases n) auto
  let ?t = "upd_event e (e_owner_update (\<lambda>_. ET_SYS)) s"
  let ?lh = "if pri_of e s = ET_HIGH then lh + 1 else lh"
  show ?case
  proof (cases "ys = []")
    case True
    with Cons.prems n show ?thesis
      by (auto simp: deref_def andthen_def bind_def store_def load_def ret_def)
  next
    case False
    have hi: "high (m_events ?t) = high (m_events s)" by auto
    have "chain (m_events ?t) (next_of e ?t) ys"
      using Cons.prems(1) by (simp add: chain_upd_same_next)
    moreover have "length ys \<le> n'" "distinct ys" "lst = Some (last ys)"
      using Cons.prems n False by simp_all
    ultimately have "\<exists>l. repair_out_walk n' lst (next_of e ?t) (c + 1) ?lh ?t = (l, Done (ET_OK,
        c + 1 + int (length ys), ?lh + int (length (highs (high (m_events ?t)) ys))) (own_by ET_SYS ys ?t))"
      using False Cons.IH by blast
    then obtain l where "repair_out_walk n' lst (next_of e s) (c + 1) ?lh ?t = (l, Done (ET_OK,
        c + 1 + int (length ys), ?lh + int (length (highs (high (m_events s)) ys))) (own_by ET_SYS ys ?t))"
      unfolding hi by auto
    moreover have "lst \<noteq> Some e" using Cons.prems(3,4) False by auto
    ultimately show ?thesis using Cons.prems(1) n
      by (auto simp: deref_def andthen_def bind_def store_def load_def ret_def split: if_splits)
  qed
qed


lemma write_stage_list:
  assumes pre: "write_pre s0 xs es" and st: "write_stage s0 st xs es k p t"
  defines "ys \<equiv> wlist s0 xs es k" and "r \<equiv> ListOut st"
  shows "length ys = length xs + k" and "distinct ys" and "chain (m_events t) (first_of r t) ys"
    and "pri_sorted (high (m_events t)) ys" and "high (m_events t) = high (m_events s0)"
    and "\<forall>e \<in> set ys. pri_of e t \<in> {ET_LOW, ET_HIGH}"
    and "frame r (set xs \<union> set es) s0 t" and "set ys \<subseteq> set xs \<union> set es"
    and "write_rest s0 st xs es k t" and "k \<le> length es" and "p \<le> 1" and "p \<le> k"
    and "cnt_of r t = int (length ys) - int p"
    and "ys = [] \<Longrightarrow> first_of r t = None"
    and "0 < cnt_of r t \<Longrightarrow> last_of r t = Some (last ys)"
    and "f_out (gfix st t) = \<lparr>fo_start = 1, fo_cnt = int (length xs), fo_num = int (length es)\<rparr>"
proof -
  show fr: "frame r (set xs \<union> set es) s0 t" using st by (simp add: write_stage_def Let_def r_def)
  show h: "high (m_events t) = high (m_events s0)" using fr by (rule frame_high)
  show sub: "set ys \<subseteq> set xs \<union> set es"
    by (auto simp: ys_def set_foldl_ins dest: in_set_takeD)
  show "\<forall>e \<in> set ys. pri_of e t \<in> {ET_LOW, ET_HIGH}"
    using sub pre fr by (auto simp: write_pre_def frame_pri)
  show "distinct ys" unfolding ys_def using pre by (intro foldl_ins_distinct) (simp add: write_pre_def)
  show "pri_sorted (high (m_events t)) ys"
    unfolding h ys_def using pre by (intro pri_sorted_foldl) (simp add: write_pre_def)
  show len: "length ys = length xs + k"
    using st by (simp add: ys_def length_foldl_ins write_stage_def Let_def)
  then show "cnt_of r t = int (length ys) - int p"
    using st by (simp add: write_stage_def Let_def r_def)
qed (use st in \<open>simp_all add: write_stage_def write_rest_def Let_def ys_def r_def\<close>)

lemma write_stage_out_list:
  assumes pre: "write_pre s0 xs es" and st: "write_stage s0 st xs es k 0 t"
  shows "out_list t st (wlist s0 xs es k)"
proof -
  note W = write_stage_list [OF pre st]
  have "\<forall>e \<in> set xs \<union> set (take k es). e_owner (m_events t e) = ET_SYS"
    using st by (simp add: write_stage_def Let_def)
  moreover have "l_lasthigh (glist (ListOut st) t)
      = int (length (highs (high (m_events s0)) (wlist s0 xs es k)))"
    using st by (simp add: write_stage_def Let_def)
  moreover have "last_of (ListOut st) t = Some (last (wlist s0 xs es k))" if "wlist s0 xs es k \<noteq> []"
    using that W(13,15) by simp
  ultimately show ?thesis
    using W by (auto simp: out_list_def Let_def set_foldl_ins)
qed

text \<open>Repair of a list that holds events, at any stage of a write.\<close>

lemma repair_list_walk:
  assumes pre: "write_pre s0 xs es" and st: "write_stage s0 st xs es k p t"
    and ne: "wlist s0 xs es k \<noteq> []"
    and more: "cnt_of (ListOut st) t \<noteq> int (length xs) + int (length es)"
  shows "\<exists>l u. et_repair_outputlist st t = (l, Done ET_OK u)
     \<and> out_list u st (wlist s0 xs es k) \<and> write_rest s0 st xs es k u
     \<and> fo_start (f_out (gfix st u)) = 0 \<and> l_mutex (glist (ListOut st) u) = l_mutex (glist (ListOut st) t)"
proof -
  let ?r = "ListOut st" and ?ys = "wlist s0 xs es k"
  note W = write_stage_list [OF pre st]
  let ?t1 = "if cnt_of ?r t = 0 then upd_list ?r (l_lastevent_update (\<lambda>_. first_of ?r t)) t else t"
  have first: "first_of ?r t = Some (hd ?ys)" using W(3) ne by (rule chain_first)
  have last1: "last_of ?r ?t1 = Some (last ?ys)"
  proof (cases "cnt_of ?r t = 0")
    case True
    moreover have "length ?ys \<noteq> 0" using ne by simp
    ultimately have "length ?ys = 1" using W(11,13) by linarith
    then have "last ?ys = hd ?ys" by (metis One_nat_def length_0_conv length_Suc_conv last_ConsL list.sel(1))
    with True first show ?thesis by simp
  next
    case False
    moreover have "0 < length ?ys" using ne by simp
    ultimately have "0 < cnt_of ?r t" using W(11,13) by linarith
    with W(15) False show ?thesis by simp
  qed
  have t1: "m_events ?t1 = m_events t" "first_of ?r ?t1 = first_of ?r t" "gfix st ?t1 = gfix st t"
    "m_sys ?t1 = m_sys t" "l_mutex (glist ?r ?t1) = l_mutex (glist ?r t)"
    by (cases "cnt_of ?r t = 0"; simp)+
  have fr1: "frame ?r (set xs \<union> set es) s0 ?t1" using W(7) by (auto intro: frame_upd)
  let ?n = "nat (int (length xs) + int (length es))"
  have "length ?ys \<le> ?n" using W(1,10) by simp
  moreover have "chain (m_events ?t1) (first_of ?r t) ?ys" using W(3) t1(1) by simp
  ultimately obtain l where walk: "repair_out_walk ?n (last_of ?r ?t1) (first_of ?r t) 0 0 ?t1 =
     (l, Done (ET_OK, int (length ?ys), int (length (highs (high (m_events ?t1)) ?ys))) (own_by ET_SYS ?ys ?t1))"
    using repair_out_walk_eq [of ?t1 "first_of ?r t" ?ys "last_of ?r ?t1" ?n 0 0] ne W(2) last1 by auto
  let ?u = "upd_os (CondSignal ?r) (upd_fixout st (fo_start_update (\<lambda>_. 0))
     (upd_list ?r (l_lasthigh_update (\<lambda>_. int (length (highs (high (m_events t)) ?ys))))
       (upd_list ?r (l_cnt_update (\<lambda>_. int (length ?ys))) (own_by ET_SYS ?ys ?t1))))"
  have "first_of ?r t \<noteq> None" using first by simp
  then have "\<exists>l. et_repair_outputlist st t = (l, Done ET_OK ?u)"
    using walk W(16) more t1 
    by (auto simp: et_repair_outputlist_def Let_def load_def cond_def whenp_def andthen_def bind_def store_def ret_def)
  moreover have "out_list ?u st ?ys"
    using W(2-6) t1 last1 by (auto simp: out_list_def Let_def)
  moreover have "frame ?r (set xs \<union> set es) s0 ?u" using fr1 W(8) by (intro frame_upd frame_own_by) auto
  moreover have "set ?ys \<inter> set (drop k es) = {}" 
    using pre set_take_disj_set_drop_if_distinct [of es k k] by (auto simp: set_foldl_ins write_pre_def dest: in_set_dropD)
  ultimately show ?thesis using W(9) t1 by (fastforce simp: write_rest_def)
qed

lemma et_repair_outputlist_mid:
  assumes pre: "write_pre s0 xs es" and st: "write_stage s0 st xs es k p t"
  shows "\<exists>l u. et_repair_outputlist st t = (l, Done ET_OK u)
     \<and> out_list u st (wlist s0 xs es k) \<and> write_rest s0 st xs es k u
     \<and> fo_start (f_out (gfix st u)) = 0 \<and> l_mutex (glist (ListOut st) u) = l_mutex (glist (ListOut st) t)"
proof -
  let ?r = "ListOut st"
  note W = write_stage_list [OF pre st]
  have quick: ?thesis
    if "p = 0" and "cnt_of ?r t = int (length xs) + int (length es) \<or> cnt_of ?r t = 0 \<and> first_of ?r t = None"
  proof -
    let ?u = "upd_fixout st (fo_start_update (\<lambda>_. 0)) t"
    have "out_list t st (wlist s0 xs es k)" using pre st that(1) by (intro write_stage_out_list) simp_all
    then have "out_list ?u st (wlist s0 xs es k)" by (simp add: out_list_def Let_def)
    moreover have "write_rest s0 st xs es k ?u" using W(9) by (simp add: write_rest_def frame_upd)
    moreover have "\<exists>l. et_repair_outputlist st t = (l, Done ET_OK ?u)"
      using that(2) W(16)
      by (auto simp: et_repair_outputlist_def Let_def load_def cond_def andthen_def bind_def store_def ret_def)
    ultimately show ?thesis by auto
  qed
  show ?thesis
  proof (cases "wlist s0 xs es k = []")
    case True
    with W(1,12,13,14) show ?thesis by (intro quick) auto
  next
    case False
    show ?thesis
    proof (cases "cnt_of ?r t = int (length xs) + int (length es)")
      case True
      with W(1,10,11,13) show ?thesis by (intro quick) auto
    next
      case more: False
      show ?thesis using pre st False more by (rule repair_list_walk)
    qed
  qed
qed

text \<open>
  The claim of the source: if a write crashes anywhere, the repair returns the station to a
  self-consistent state.  The output list then holds the first \<open>k\<close> events of the write,
  for some \<open>k\<close>, and the others still have the owner they had.
\<close>

lemma et_repair_station_after_write:
  assumes ok: "out_ok s st xs" and args: "write_args s xs es"
    and inlist: "\<not> l_mutex (glist (ListIn st) s)" and t: "write_crash s st xs es t"
  shows "\<exists>l u k. et_repair_station st t = (l, Done ET_OK u) \<and> k \<le> length es
     \<and> out_ok u st (wlist s xs es k) \<and> write_rest s st xs es k u"
proof -
  let ?r = "ListOut st"
  have pre: "write_pre s xs es" using ok args by (auto simp: out_ok_def intro: write_pre_out)
  have inl: "\<not> l_mutex (glist (ListIn st) t)" if "frame ?r (set xs \<union> set es) s t"
    using that inlist by (simp add: frame_def)
  have unlock: "out_list v st ys \<Longrightarrow> write_rest s st xs es k v \<Longrightarrow> fo_start (f_out (gfix st v)) = 0 \<Longrightarrow>
      out_ok (upd_list ?r (l_mutex_update (\<lambda>_. False)) v) st ys
      \<and> write_rest s st xs es k (upd_list ?r (l_mutex_update (\<lambda>_. False)) v)" for v ys k
    by (simp add: out_ok_def out_list_def write_rest_def Let_def frame_upd)
  show ?thesis
    using t unfolding write_crash_def
  proof (elim disjE bexE conjE)
    fix k assume k: "k \<in> {0, length es}" "fo_start (f_out (gfix st t)) = 0"
      "out_list t st (wlist s xs es k)" "write_rest s st xs es k t"
    show ?thesis
    proof (cases "l_mutex (glist ?r t)")
      case True
      let ?u = "upd_list ?r (l_mutex_update (\<lambda>_. False)) t"
      have "\<not> l_mutex (glist (ListIn st) t)" using k(4) inl by (simp add: write_rest_def)
      with True k(2) have "et_repair_station st t = ([?u], Done ET_OK ?u)"
        by (simp add: et_repair_station_def et_repair_outputlist_def Let_def cond_def bind_def load_def
            ret_def andthen_def et_llist_unlock_def store_def)
      moreover have "k \<le> length es" using k(1) by auto
      ultimately show ?thesis using unlock [OF k(3,4,2)] by blast
    next
      case False
      with k inl show ?thesis
        by (intro exI [of _ "[]"] exI [of _ t] exI [of _ k])
          (auto simp: et_repair_station_def cond_def ret_def out_ok_def write_rest_def)
    qed
  next
    assume "write_mid s st xs es t"
    then obtain k p where st: "write_stage s st xs es k p t" by blast
    then have m: "l_mutex (glist ?r t)" "k \<le> length es" "frame ?r (set xs \<union> set es) s t"
      by (simp_all add: write_stage_def Let_def)
    from et_repair_outputlist_mid [OF pre st] obtain l u where
      u: "et_repair_outputlist st t = (l, Done ET_OK u)" "out_list u st (wlist s xs es k)"
        "write_rest s st xs es k u" "fo_start (f_out (gfix st u)) = 0" by blast
    show ?thesis
      using unlock [OF u(2-4)] m inl u(1)
      by (intro exI [of _ "l @ [upd_list ?r (l_mutex_update (\<lambda>_. False)) u]"]
          exI [of _ "upd_list ?r (l_mutex_update (\<lambda>_. False)) u"] exI [of _ k])
        (auto simp: et_repair_station_def cond_def bind_def ret_def andthen_def et_llist_unlock_def store_def)
  qed
qed

end
