(* ===== verification/Et_StationRead.thy ===== *)
theory Et_StationRead
  imports Et_StationLists Et_ListFacts
begin

text \<open>
  Correctness of reading from an input list, at every assignment.  \<open>in_ok\<close> is the
  invariant of an input list, \<open>read_stage\<close> describes the memory between two assignments of
  a read, and \<open>et_station_read_chl\<close> and \<open>et_station_nread_chl\<close> state that the routines
  take the events at the head of the list in their order, and that a reader that dies
  anywhere inside them leaves one of these memories behind.
\<close>

section \<open>The invariant of an input list and the memory inside a read\<close>

definition in_ok :: "et_mem \<Rightarrow> et_stat_id \<Rightarrow> nat list \<Rightarrow> bool" where
  "in_ok s st xs \<longleftrightarrow> ev_list s (ListIn st) xs \<and> \<not> l_mutex (glist (ListIn st) s)
     \<and> fi_first (f_in (gfix st s)) = None \<and> fi_start (f_in (gfix st s)) = 0"

text \<open>What reading from the input list of \<open>st\<close> leaves alone, with \<open>ys\<close> taken by \<open>att\<close>.\<close>

definition read_rest :: "et_mem \<Rightarrow> et_stat_id \<Rightarrow> nat list \<Rightarrow> nat list \<Rightarrow> et_att_id \<Rightarrow> et_mem \<Rightarrow> bool" where
  "read_rest s0 st xs ys att t \<longleftrightarrow> frame (ListIn st) (set xs) s0 t
     \<and> f_out (gfix st t) = f_out (gfix st s0)
     \<and> fi_start (f_in (gfix st t)) = 0
     \<and> (\<forall>e \<in> set ys. e_owner (m_events t e) = att)"

text \<open>
  Between two assignments of a read of \<open>n\<close> events: \<open>k\<close> of them have their new owner,
  \<open>moved\<close> says that the first event pointer has been moved, \<open>counted\<close> that the count has
  been lowered.
\<close>

definition read_stage :: "et_mem \<Rightarrow> et_stat_id \<Rightarrow> nat list \<Rightarrow> nat \<Rightarrow> et_att_id \<Rightarrow> nat \<Rightarrow> bool \<Rightarrow> bool \<Rightarrow> et_mem \<Rightarrow> bool" where
  "read_stage s0 st xs n att k moved counted t \<longleftrightarrow> (let r = ListIn st in
     0 < n \<and> n \<le> length xs \<and> k \<le> n \<and> (counted \<longrightarrow> moved \<and> k = n) \<and> distinct xs
   \<and> read_rest s0 st xs (take k xs) att t
   \<and> l_mutex (glist r t)
   \<and> fi_first (f_in (gfix st t)) = Some (hd xs)
   \<and> fi_cnt (f_in (gfix st t)) = int (length xs) \<and> fi_num (f_in (gfix st t)) = int n
   \<and> fi_call (f_in (gfix st t)) = ET_FIX_READ
   \<and> chain (m_events t) (Some (hd xs)) xs \<and> last_of r t = Some (last xs)
   \<and> first_of r t = (if moved then e_next (m_events t (xs ! (n - 1))) else Some (hd xs))
   \<and> cnt_of r t = int (length xs) - (if counted then int n else 0)
   \<and> (\<forall>e \<in> set (drop k xs). e_owner (m_events t e) = ET_SYS))"

definition read_crash :: "et_mem \<Rightarrow> et_stat_id \<Rightarrow> nat list \<Rightarrow> nat \<Rightarrow> et_att_id \<Rightarrow> et_mem \<Rightarrow> bool" where
  "read_crash s0 st xs n att t \<longleftrightarrow>
     (\<exists>k \<in> {0, n}. fi_first (f_in (gfix st t)) = None \<and> ev_list t (ListIn st) (drop k xs)
        \<and> read_rest s0 st xs (take k xs) att t)
   \<or> (\<exists>k moved counted. read_stage s0 st xs n att k moved counted t)"

lemma read_stage_own:
  assumes st: "read_stage s0 st xs n att k m False s" and k: "k < n"
  shows "read_stage s0 st xs n att (Suc k) m False (upd_event (xs ! k) (e_owner_update (\<lambda>_. att)) s)"
proof -
  let ?t = "upd_event (xs ! k) (e_owner_update (\<lambda>_. att)) s"
  have len: "k < length xs" and d: "distinct xs" using st k by (simp_all add: read_stage_def Let_def)
  have tk: "take (Suc k) xs = take k xs @ [xs ! k]" using len by (rule take_Suc_conv_app_nth)
  have dr: "drop k xs = xs ! k # drop (Suc k) xs" using len by (rule Cons_nth_drop_Suc [symmetric])
  have "distinct (drop k xs)" using d by simp
  then have nin: "xs ! k \<notin> set (drop (Suc k) xs)" unfolding dr by simp
  have "chain (m_events ?t) p xs = chain (m_events s) p xs" for p
    by (simp add: chain_upd_same_next)
  moreover have "read_rest s0 st xs (take (Suc k) xs) att ?t"
    using st len unfolding tk by (auto simp: read_stage_def read_rest_def Let_def intro!: frame_upd)
  moreover have "\<forall>e \<in> set (drop (Suc k) xs). e_owner (m_events ?t e) = ET_SYS"
    using st nin by (auto simp: read_stage_def Let_def dr)
  moreover have "e_next (m_events ?t x) = e_next (m_events s x)" for x by simp
  ultimately show ?thesis using st k by (simp add: read_stage_def Let_def)
qed

lemma nread_loop_chl:
  assumes st: "read_stage s0 st xs n att (Suc i) False False s" and "Suc i + m \<le> n"
  shows "chl (\<lambda>t. t = s) (nread_loop att m (xs ! i))
     (\<lambda>ps t. ps = take m (drop (Suc i) xs) \<and> read_stage s0 st xs n att (Suc i + m) False False t)
     (read_crash s0 st xs n att)"
  using assms
proof (induction m arbitrary: i s)
  case 0
  then show ?case by (simp add: chl_ret_at)
next
  case (Suc m)
  let ?q = "xs ! Suc i" and ?t = "upd_event (xs ! Suc i) (e_owner_update (\<lambda>_. att)) s"
  from Suc.prems have len: "Suc i < length xs" by (simp add: read_stage_def Let_def)
  have ch: "chain (m_events s) (Some (hd xs)) xs"
    using Suc.prems by (simp add: read_stage_def Let_def)
  have nx: "next_of (xs ! i) s = Some ?q" using ch len by (rule chain_nth_next)
  have t: "read_stage s0 st xs n att (Suc (Suc i)) False False ?t"
    using Suc.prems by (intro read_stage_own) simp_all
  have "chl (\<lambda>u. u = ?t) (bind (nread_loop att m ?q) (\<lambda>qs. ret (?q # qs)))
     (\<lambda>ps u. ps = take (Suc m) (drop (Suc i) xs) \<and> read_stage s0 st xs n att (Suc i + Suc m) False False u)
     (read_crash s0 st xs n att)"
  proof (rule chl_bind_at)
    show "chl (\<lambda>u. u = ?t) (nread_loop att m ?q)
       (\<lambda>ps u. ps = take m (drop (Suc (Suc i)) xs) \<and> read_stage s0 st xs n att (Suc (Suc i) + m) False False u)
       (read_crash s0 st xs n att)"
      using t by (rule Suc.IH) (use Suc.prems in simp)
  qed (use len in \<open>auto intro!: chl_ret_at simp: Cons_nth_drop_Suc [symmetric]\<close>)
  moreover have "read_crash s0 st xs n att ?t" using t unfolding read_crash_def by blast
  ultimately show ?case
    using nx by (auto intro!: chl_deref_at chl_store_then)
qed


definition nread_body :: "et_stat_id \<Rightarrow> et_att_id \<Rightarrow> int \<Rightarrow> (int \<times> nat list) cmd" where
  "nread_body st att num = (let r = ListIn st in
     andthen (open_fixin_nread st num)
      (deref (first_of r) (\<lambda>p0. andthen (set_owner p0 att)
        (bind (nread_loop att (nat num - 1) p0) (\<lambda>ps.
          block [load (next_of (last (p0 # ps))) (set_first r), add_cnt r (- num),
                 set_fixin st (fi_first_update (\<lambda>_. None)), et_llist_unlock r]
            (ret (ET_OK, p0 # ps)))))))"

lemma ev_list_drop:
  assumes "chain (m_events s) (Some (hd xs)) xs" and "last_of r s = Some (last xs)" and "distinct xs"
    and "0 < n" and "n \<le> length xs"
    and "first_of r s = e_next (m_events s (xs ! (n - 1)))" and "cnt_of r s = int (length xs) - int n"
    and "\<forall>e \<in> set (drop n xs). e_owner (m_events s e) = ET_SYS"
  shows "ev_list s r (drop n xs)"
proof -
  have "chain (m_events s) (Some (hd xs)) (take n xs @ drop n xs)" using assms(1) by simp
  moreover have "last (take n xs) = xs ! (n - 1)" using assms(4,5) by (rule last_take_nth)
  moreover have "take n xs \<noteq> []" using assms(4,5) by auto
  ultimately have "chain (m_events s) (first_of r s) (drop n xs)"
    using assms(6) by (simp add: chain_end_def del: append_take_drop_id)
  moreover have "last (drop n xs) = last xs" if "drop n xs \<noteq> []" using that by simp
  ultimately show ?thesis using assms by (auto simp: ev_list_def)
qed

lemma open_fixin_nread_chl:
  assumes ev: "ev_list s (ListIn st) xs" and ne: "xs \<noteq> []" and n: "0 < n" "n \<le> length xs"
    and rest: "read_rest s0 st xs [] att s" and mutex: "l_mutex (glist (ListIn st) s)"
    and fix0: "fi_first (f_in (gfix st s)) = None"
  shows "chl (\<lambda>t. t = s) (open_fixin_nread st (int n))
     (\<lambda>_ t. read_stage s0 st xs n att 0 False False t) (read_crash s0 st xs n att)"
proof -
  let ?r = "ListIn st"
  let ?s1 = "upd_fixin st (fi_num_update (\<lambda>_. int n)) s"
  let ?s2 = "upd_fixin st (fi_cnt_update (\<lambda>_. cnt_of ?r ?s1)) ?s1"
  let ?s3 = "upd_fixin st (fi_call_update (\<lambda>_. ET_FIX_READ)) ?s2"
  let ?s4 = "upd_fixin st (fi_first_update (\<lambda>_. first_of ?r ?s3)) ?s3"
  have q: "read_crash s0 st xs n att u" if "u \<in> {?s1, ?s2, ?s3}" for u
  proof -
    have "fi_first (f_in (gfix st u)) = None \<and> ev_list u ?r (drop 0 xs)
        \<and> read_rest s0 st xs (take 0 xs) att u"
      using that fix0 ev rest by (auto simp: ev_list_def read_rest_def intro!: frame_upd)
    then show ?thesis unfolding read_crash_def by blast
  qed
  have "first_of ?r s = Some (hd xs)" using ev ne by (auto simp: ev_list_def intro: chain_first)
  then have 4: "read_stage s0 st xs n att 0 False False ?s4"
    using ev ne n rest mutex by (auto simp: read_stage_def ev_list_def read_rest_def Let_def intro!: frame_upd)
  then have c4: "read_crash s0 st xs n att ?s4" unfolding read_crash_def by blast
  have a: "chl (\<lambda>t. t = ?s1) (load (cnt_of ?r) (\<lambda>c. set_fixin st (fi_cnt_update (\<lambda>_. c))))
      (\<lambda>_ t. t = ?s2) (read_crash s0 st xs n att)"
    by (rule chl_load_at, rule chl_store) (use q in blast)+
  have b: "chl (\<lambda>t. t = ?s3) (load (first_of ?r) (\<lambda>p. set_fixin st (fi_first_update (\<lambda>_. p))))
      (\<lambda>_ t. t = ?s4) (read_crash s0 st xs n att)"
    by (rule chl_load_at, rule chl_store) (use c4 in blast)+
  have c: "chl (\<lambda>t. t = ?s4) skip (\<lambda>_ t. read_stage s0 st xs n att 0 False False t) (read_crash s0 st xs n att)"
    using 4 by (rule chl_ret_at)
  have d: "chl (\<lambda>t. t = ?s2) (andthen (set_fixin st (fi_call_update (\<lambda>_. ET_FIX_READ)))
      (andthen (load (first_of ?r) (\<lambda>p. set_fixin st (fi_first_update (\<lambda>_. p)))) skip))
      (\<lambda>_ t. read_stage s0 st xs n att 0 False False t) (read_crash s0 st xs n att)"
    by (rule chl_store_then) (use q chl_andthen [OF b c] in blast)+
  show ?thesis
    unfolding open_fixin_nread_def block.simps
    by (rule chl_store_then) (use q chl_andthen [OF a d] in blast)+
qed

lemma nread_body_chl:
  assumes ev: "ev_list s (ListIn st) xs" and ne: "xs \<noteq> []" and n: "0 < n" "n \<le> length xs"
    and rest: "read_rest s0 st xs [] att s" and mutex: "l_mutex (glist (ListIn st) s)"
    and fix0: "fi_first (f_in (gfix st s)) = None"
  shows "chl (\<lambda>t. t = s) (nread_body st att (int n))
     (\<lambda>c t. c = (ET_OK, take n xs) \<and> in_ok t st (drop n xs) \<and> read_rest s0 st xs (take n xs) att t)
     (read_crash s0 st xs n att)"
proof -
  let ?r = "ListIn st" and ?C = "read_crash s0 st xs n att"
  let ?Q = "\<lambda>c t. c = (ET_OK, take n xs) \<and> in_ok t st (drop n xs) \<and> read_rest s0 st xs (take n xs) att t"
  have x0: "xs ! 0 = hd xs" "xs ! 0 # take (n - 1) (drop (Suc 0) xs) = take n xs"
    using ne n by (cases xs; cases n; simp)+
  have close: "chl (\<lambda>u. u = t) (block [load (next_of (xs ! (n - 1))) (set_first ?r), add_cnt ?r (- int n),
          set_fixin st (fi_first_update (\<lambda>_. None)), et_llist_unlock ?r] (ret (ET_OK, take n xs))) ?Q ?C"
    if t: "read_stage s0 st xs n att n False False t" for t
  proof -
    let ?t1 = "upd_list ?r (l_firstevent_update (\<lambda>_. next_of (xs ! (n - 1)) t)) t"
    let ?t2 = "upd_list ?r (l_cnt_update (\<lambda>c. c + - int n)) ?t1"
    let ?t3 = "upd_fixin st (fi_first_update (\<lambda>_. None)) ?t2"
    let ?t4 = "upd_list ?r (l_mutex_update (\<lambda>_. False)) ?t3"
    have 1: "read_stage s0 st xs n att n True False ?t1" and 2: "read_stage s0 st xs n att n True True ?t2"
      using t by (auto simp: read_stage_def read_rest_def Let_def intro!: frame_upd)
    have rr: "read_rest s0 st xs (take n xs) att ?t3" "read_rest s0 st xs (take n xs) att ?t4"
      using t by (auto simp: read_stage_def read_rest_def Let_def intro!: frame_upd)
    have ev3: "ev_list ?t3 ?r (drop n xs)"
      using t n by (intro ev_list_drop) (auto simp: read_stage_def Let_def)
    then have ok: "in_ok ?t4 st (drop n xs)" using rr(1) by (simp add: in_ok_def ev_list_def read_rest_def)
    have 3: "?C ?t3" and 4: "?C ?t4"
      using ev3 ok rr by (auto simp: read_crash_def in_ok_def)
    have a: "chl (\<lambda>u. u = t) (load (next_of (xs ! (n - 1))) (set_first ?r)) (\<lambda>_ u. u = ?t1) ?C"
      by (rule chl_load_at, rule chl_store) (use 1 in \<open>auto simp: read_crash_def\<close>)
    have b: "chl (\<lambda>u. u = ?t1) (block [add_cnt ?r (- int n), set_fixin st (fi_first_update (\<lambda>_. None)),
        et_llist_unlock ?r] (ret (ET_OK, take n xs))) ?Q ?C"
      unfolding block.simps et_llist_unlock_def
    proof (intro chl_store_then chl_ret_at conjI refl)
      show "?C ?t2" using 2 unfolding read_crash_def by blast
    qed (use 3 4 ok rr in simp_all)
    show ?thesis unfolding block.simps(2) [of "load _ _"] by (rule chl_andthen [OF a b])
  qed
  have "chl (\<lambda>u. u = t) (deref (first_of ?r) (\<lambda>p0. andthen (set_owner p0 att)
        (bind (nread_loop att (nat (int n) - 1) p0) (\<lambda>ps.
          block [load (next_of (last (p0 # ps))) (set_first ?r), add_cnt ?r (- int n),
                 set_fixin st (fi_first_update (\<lambda>_. None)), et_llist_unlock ?r]
            (ret (ET_OK, p0 # ps)))))) ?Q ?C"
    if t: "read_stage s0 st xs n att 0 False False t" for t
  proof -
    let ?t1 = "upd_event (xs ! 0) (e_owner_update (\<lambda>_. att)) t"
    have f: "first_of ?r t = Some (xs ! 0)" using t x0 by (simp add: read_stage_def Let_def)
    have 1: "read_stage s0 st xs n att (Suc 0) False False ?t1" using t n(1) by (rule read_stage_own)
    have l: "last (take n xs) = xs ! (n - 1)" using n by (rule last_take_nth)
    have "chl (\<lambda>u. u = ?t1) (bind (nread_loop att (n - 1) (xs ! 0)) (\<lambda>ps.
          block [load (next_of (last (xs ! 0 # ps))) (set_first ?r), add_cnt ?r (- int n),
                 set_fixin st (fi_first_update (\<lambda>_. None)), et_llist_unlock ?r]
            (ret (ET_OK, xs ! 0 # ps)))) ?Q ?C"
    proof (rule chl_bind_at)
      show "chl (\<lambda>u. u = ?t1) (nread_loop att (n - 1) (xs ! 0))
        (\<lambda>ps u. ps = take (n - 1) (drop (Suc 0) xs) \<and> read_stage s0 st xs n att (Suc 0 + (n - 1)) False False u) ?C"
        using 1 by (rule nread_loop_chl) (use n in simp)
    next
      fix ps u
      assume R: "ps = take (n - 1) (drop (Suc 0) xs)
        \<and> read_stage s0 st xs n att (Suc 0 + (n - 1)) False False u"
      then have ps: "xs ! 0 # ps = take n xs" and u: "read_stage s0 st xs n att n False False u"
        using x0(2) n by auto
      show "chl (\<lambda>v. v = u) (block [load (next_of (last (xs ! 0 # ps))) (set_first ?r), add_cnt ?r (- int n),
          set_fixin st (fi_first_update (\<lambda>_. None)), et_llist_unlock ?r] (ret (ET_OK, xs ! 0 # ps))) ?Q ?C"
        unfolding ps l using u by (rule close)
    qed
    moreover have "?C ?t1" using 1 unfolding read_crash_def by blast
    ultimately show ?thesis using f by (intro chl_deref_at chl_store_then) simp_all
  qed
  then show ?thesis
    unfolding nread_body_def Let_def
    by (intro chl_andthen [OF open_fixin_nread_chl [OF assms]]) (auto simp: chl_at_iff [of "read_stage _ _ _ _ _ _ _ _"])
qed

lemma repair_unlock:
  assumes "ev_list u (ListIn st) ys" and "read_rest s st xs zs att u" and "fi_first (f_in (gfix st u)) = None"
  shows "in_ok (upd_list (ListIn st) (l_mutex_update (\<lambda>_. False)) u) st ys"
    and "read_rest s st xs zs att (upd_list (ListIn st) (l_mutex_update (\<lambda>_. False)) u)"
  using assms by (auto simp: in_ok_def ev_list_def read_rest_def intro!: frame_upd)

section \<open>Waiting for events\<close>

lemma frame_hist: "frame r E s t \<Longrightarrow> frame r E s (upd_hist c t)"
  by (simp add: frame_def)

lemma read_begin_modes:
  "read_begin st ET_SLEEP att ws
     = block [et_llist_lock (ListIn st), count_hist st] (wait_loop False (ListIn st) att ws)"
  "read_begin st ET_TIMED att ws
     = block [et_llist_lock (ListIn st), count_hist st] (wait_loop True (ListIn st) att ws)"
  "read_begin st ET_ASYNC att ws
     = cond (\<lambda>s. l_mutex (glist (ListIn st) s)) (ret ET_ERROR_BUSY)
         (andthen (et_llist_lock (ListIn st))
           (cond (quitting att) (quit_read (ListIn st) att)
             (andthen (count_hist st)
               (cond (\<lambda>s. cnt_of (ListIn st) s < 1)
                 (andthen (et_llist_unlock (ListIn st)) (ret ET_ERROR_EMPTY))
                 (ret ET_OK)))))"
  by (simp_all add: read_begin_def Let_def)

lemma read_begin_chl:
  assumes ok: "in_ok s st xs" and ne: "xs \<noteq> []" 
    and mode: "mode = ET_SLEEP \<or> mode = ET_TIMED \<or> mode = ET_ASYNC \<and> \<not> quitting att s"
  shows "chl (\<lambda>t. t = s) (read_begin st mode att ws)
     (\<lambda>c t. c = ET_OK \<and> ev_list t (ListIn st) xs \<and> read_rest s st xs [] att t
        \<and> l_mutex (glist (ListIn st) t) \<and> fi_first (f_in (gfix st t)) = None)
     (read_crash s st xs n att)"
proof -
  let ?r = "ListIn st" and ?C = "read_crash s st xs n att"
  let ?s1 = "upd_list ?r (l_mutex_update (\<lambda>_. True)) s"
  let ?s2 = "if st = ET_GRANDCENTRAL then upd_hist (cnt_of ?r s) ?s1 else ?s1"
  have ev: "ev_list s ?r xs" and mx: "\<not> l_mutex (glist ?r s)" using ok by (simp_all add: in_ok_def)
  have cnt: "0 < cnt_of ?r s" using ev ne by (simp add: ev_list_def)
  have good: "ev_list u ?r xs \<and> read_rest s st xs [] att u \<and> fi_first (f_in (gfix st u)) = None
      \<and> l_mutex (glist ?r u) \<and> 0 < cnt_of ?r u \<and> (quitting att u \<longleftrightarrow> quitting att s)" if "u \<in> {?s1, ?s2}" for u
    using that ok cnt by (cases "st = ET_GRANDCENTRAL")
      (auto simp: in_ok_def ev_list_def read_rest_def intro!: frame_upd frame_hist)
  have C: "?C ?s1" "?C ?s2" using good [of ?s1] good [of ?s2] by (auto simp: read_crash_def)
  have lock: "chl (\<lambda>t. t = s) (et_llist_lock ?r) (\<lambda>_ t. t = ?s1) ?C"
    unfolding et_llist_lock_def by (rule chl_cond_at) (use mx C in \<open>simp add: chl_def store_def\<close>)
  have hist: "chl (\<lambda>t. t = ?s1) (count_hist st) (\<lambda>_ t. t = ?s2) ?C"
    using C by (cases "st = ET_GRANDCENTRAL")
      (simp_all add: chl_def count_hist_def whenp_def cond_def load_def store_def ret_def)
  have wait: "chl (\<lambda>t. t = ?s2) (wait_loop tm ?r att ws) (\<lambda>c t. c = ET_OK \<and> t = ?s2) ?C" for tm
    using good [of ?s2] by (cases "(tm, ?r, att, ws)" rule: wait_loop.cases)
      (auto intro!: chl_cond_at chl_ret_at)
  have fin: "c = ET_OK \<and> t = ?s2 \<Longrightarrow> c = ET_OK \<and> ev_list t ?r xs \<and> read_rest s st xs [] att t
        \<and> l_mutex (glist ?r t) \<and> fi_first (f_in (gfix st t)) = None" for c t
    using good [of ?s2] by simp
  have waits: "chl (\<lambda>t. t = s) (block [et_llist_lock ?r, count_hist st] (wait_loop tm ?r att ws))
      (\<lambda>c t. c = ET_OK \<and> t = ?s2) ?C" for tm
    unfolding block.simps by (rule chl_andthen [OF lock chl_andthen [OF hist wait]])
  have "chl (\<lambda>t. t = ?s2) (cond (\<lambda>s. cnt_of ?r s < 1) (andthen (et_llist_unlock ?r) (ret ET_ERROR_EMPTY)) (ret ET_OK))
      (\<lambda>c t. c = ET_OK \<and> t = ?s2) ?C"
    using good [of ?s2] by (intro chl_cond_at) (simp add: chl_ret_at)
  then have asy: "chl (\<lambda>t. t = ?s1) (andthen (count_hist st) (cond (\<lambda>s. cnt_of ?r s < 1)
      (andthen (et_llist_unlock ?r) (ret ET_ERROR_EMPTY)) (ret ET_OK))) (\<lambda>c t. c = ET_OK \<and> t = ?s2) ?C"
    by (rule chl_andthen [OF hist])
  have async: "chl (\<lambda>t. t = s) (cond (\<lambda>s. l_mutex (glist ?r s)) (ret ET_ERROR_BUSY)
         (andthen (et_llist_lock ?r)
           (cond (quitting att) (quit_read ?r att)
             (andthen (count_hist st)
               (cond (\<lambda>s. cnt_of ?r s < 1)
                 (andthen (et_llist_unlock ?r) (ret ET_ERROR_EMPTY))
                 (ret ET_OK)))))) (\<lambda>c t. c = ET_OK \<and> t = ?s2) ?C" if nq: "\<not> quitting att s"
  proof (rule chl_cond_at, unfold if_not_P [OF mx], rule chl_andthen [OF lock], rule chl_cond_at)
    have "\<not> quitting att ?s1" using good [of ?s1] nq by blast
    then show "chl (\<lambda>t. t = ?s1) (if quitting att ?s1 then quit_read ?r att
             else andthen (count_hist st)
               (cond (\<lambda>s. cnt_of ?r s < 1)
                 (andthen (et_llist_unlock ?r) (ret ET_ERROR_EMPTY))
                 (ret ET_OK))) (\<lambda>c t. c = ET_OK \<and> t = ?s2) ?C"
      using asy by (simp only: if_False)
  qed
  with waits have "chl (\<lambda>t. t = s) (read_begin st mode att ws) (\<lambda>c t. c = ET_OK \<and> t = ?s2) ?C"
    using mode by (elim disjE conjE) (simp_all only: read_begin_modes simp_thms)
  then show ?thesis by (rule chl_conseq) (assumption | erule fin)+
qed

lemma et_station_nread_chl:
  assumes ok: "in_ok s st xs" and ne: "xs \<noteq> []" and num: "1 \<le> num"
    and mode: "mode = ET_SLEEP \<or> mode = ET_TIMED \<or> mode = ET_ASYNC \<and> \<not> quitting att s"
  defines "n \<equiv> min (nat num) (length xs)"
  shows "chl (\<lambda>t. t = s) (et_station_nread st mode att ws num)
     (\<lambda>c t. c = (ET_OK, take n xs) \<and> in_ok t st (drop n xs) \<and> read_rest s st xs (take n xs) att t)
     (read_crash s st xs n att)"
proof -
  let ?r = "ListIn st" and ?C = "read_crash s st xs n att"
  have n: "0 < n" "n \<le> length xs" using ne num by (simp_all add: n_def)
  have body: "chl (\<lambda>u. u = t) (if c \<noteq> ET_OK then ret (c, [])
       else load (\<lambda>s. if num > cnt_of ?r s then cnt_of ?r s else num) (nread_body st att))
     (\<lambda>c t. c = (ET_OK, take n xs) \<and> in_ok t st (drop n xs) \<and> read_rest s st xs (take n xs) att t) ?C"
    if "c = ET_OK \<and> ev_list t ?r xs \<and> read_rest s st xs [] att t
        \<and> l_mutex (glist ?r t) \<and> fi_first (f_in (gfix st t)) = None" for c t
  proof -
    have "(if num > cnt_of ?r t then cnt_of ?r t else num) = int n"
      using that num by (auto simp: ev_list_def n_def)
    moreover have "chl (\<lambda>u. u = t) (nread_body st att (int n))
      (\<lambda>c t. c = (ET_OK, take n xs) \<and> in_ok t st (drop n xs) \<and> read_rest s st xs (take n xs) att t) ?C"
      using that ne n by (intro nread_body_chl) simp_all
    ultimately show ?thesis using that by (auto intro!: chl_load_at)
  qed
  have "et_station_nread st mode att ws num = bind (read_begin st mode att ws) (\<lambda>c.
      if c \<noteq> ET_OK then ret (c, [])
      else load (\<lambda>s. if num > cnt_of ?r s then cnt_of ?r s else num) (nread_body st att))"
    unfolding et_station_nread_def nread_body_def [abs_def] Let_def using num by simp
  then show ?thesis
    using chl_bind_at [OF read_begin_chl [OF ok ne mode, where n = n] body] by simp
qed

section \<open>Reading one event\<close>

lemma open_fixin_read_chl:
  assumes ev: "ev_list s (ListIn st) xs" and ne: "xs \<noteq> []"
    and rest: "read_rest s0 st xs [] att s" and mutex: "l_mutex (glist (ListIn st) s)"
    and fix0: "fi_first (f_in (gfix st s)) = None"
  shows "chl (\<lambda>t. t = s) (open_fixin_read st 1)
     (\<lambda>_ t. read_stage s0 st xs 1 att 0 False False t) (read_crash s0 st xs 1 att)"
proof -
  let ?r = "ListIn st" and ?C = "read_crash s0 st xs 1 att"
  let ?s1 = "upd_fixin st (fi_cnt_update (\<lambda>_. cnt_of ?r s)) s"
  let ?s2 = "upd_fixin st (fi_num_update (\<lambda>_. 1)) ?s1"
  let ?s3 = "upd_fixin st (fi_call_update (\<lambda>_. ET_FIX_READ)) ?s2"
  let ?s4 = "upd_fixin st (fi_first_update (\<lambda>_. first_of ?r ?s3)) ?s3"
  have q: "?C u" if "u \<in> {?s1, ?s2, ?s3}" for u
  proof -
    have "fi_first (f_in (gfix st u)) = None \<and> ev_list u ?r (drop 0 xs)
        \<and> read_rest s0 st xs (take 0 xs) att u"
      using that fix0 ev rest by (auto simp: ev_list_def read_rest_def intro!: frame_upd)
    then show ?thesis unfolding read_crash_def by blast
  qed
  have "first_of ?r s = Some (hd xs)" using ev ne by (auto simp: ev_list_def intro: chain_first)
  moreover have "Suc 0 \<le> length xs" using ne by (cases xs) simp_all
  ultimately have 4: "read_stage s0 st xs 1 att 0 False False ?s4"
    using ev ne rest mutex by (auto simp: read_stage_def ev_list_def read_rest_def Let_def intro!: frame_upd)
  then have c4: "?C ?s4" unfolding read_crash_def by blast
  have a: "chl (\<lambda>t. t = s) (load (cnt_of ?r) (\<lambda>c. set_fixin st (fi_cnt_update (\<lambda>_. c))))
      (\<lambda>_ t. t = ?s1) ?C"
    by (rule chl_load_at, rule chl_store) (use q in blast)+
  have b: "chl (\<lambda>t. t = ?s3) (load (first_of ?r) (\<lambda>p. set_fixin st (fi_first_update (\<lambda>_. p))))
      (\<lambda>_ t. t = ?s4) ?C"
    by (rule chl_load_at, rule chl_store) (use c4 in blast)+
  have c: "chl (\<lambda>t. t = ?s4) skip (\<lambda>_ t. read_stage s0 st xs 1 att 0 False False t) ?C"
    using 4 by (rule chl_ret_at)
  have d: "chl (\<lambda>t. t = ?s1) (andthen (set_fixin st (fi_num_update (\<lambda>_. 1)))
      (andthen (set_fixin st (fi_call_update (\<lambda>_. ET_FIX_READ)))
      (andthen (load (first_of ?r) (\<lambda>p. set_fixin st (fi_first_update (\<lambda>_. p)))) skip)))
      (\<lambda>_ t. read_stage s0 st xs 1 att 0 False False t) ?C"
    by (intro chl_store_then) (use q chl_andthen [OF b c] in blast)+
  show ?thesis
    unfolding open_fixin_read_def block.simps by (rule chl_andthen [OF a d])
qed

lemma read_stage_counted:
  "read_stage s0 st xs n att n True False t \<Longrightarrow>
   read_stage s0 st xs n att n True True (upd_list (ListIn st) (l_cnt_update (\<lambda>c. c + - int n)) t)"
  by (auto simp: read_stage_def read_rest_def Let_def intro!: frame_upd)

lemma read_stage_taken:
  assumes "read_stage s0 st xs n att n True True t"
  shows "ev_list (upd_fixin st f t) (ListIn st) (drop n xs)"
    and "read_rest s0 st xs (take n xs) att (upd_fixin st (fi_first_update g) t)"
proof -
  show "ev_list (upd_fixin st f t) (ListIn st) (drop n xs)"
    using assms by (intro ev_list_drop) (auto simp: read_stage_def Let_def)
  show "read_rest s0 st xs (take n xs) att (upd_fixin st (fi_first_update g) t)"
    using assms by (auto simp: read_stage_def read_rest_def Let_def intro!: frame_upd)
qed

definition read_body :: "et_stat_id \<Rightarrow> et_att_id \<Rightarrow> (int \<times> nat list) cmd" where
  "read_body st att = (let r = ListIn st in
     andthen (open_fixin_read st 1)
       (deref (first_of r) (\<lambda>p.
         block [load (next_of p) (set_first r), set_owner p att, add_cnt r (- 1),
                set_fixin st (fi_first_update (\<lambda>_. None)), et_llist_unlock r]
           (ret (ET_OK, [p])))))"

lemma read_body_chl:
  assumes ev: "ev_list s (ListIn st) xs" and ne: "xs \<noteq> []"
    and rest: "read_rest s0 st xs [] att s" and mutex: "l_mutex (glist (ListIn st) s)"
    and fix0: "fi_first (f_in (gfix st s)) = None"
  shows "chl (\<lambda>t. t = s) (read_body st att)
     (\<lambda>c t. c = (ET_OK, [hd xs]) \<and> in_ok t st (tl xs) \<and> read_rest s0 st xs [hd xs] att t)
     (read_crash s0 st xs 1 att)"
proof -
  let ?r = "ListIn st" and ?C = "read_crash s0 st xs 1 att"
  let ?Q = "\<lambda>c t. c = (ET_OK, [hd xs]) \<and> in_ok t st (tl xs) \<and> read_rest s0 st xs [hd xs] att t"
  have xs: "xs ! 0 = hd xs" "take 1 xs = [hd xs]" "drop 1 xs = tl xs" "hd xs \<in> set xs"
    using ne by (cases xs; simp)+
  have body: "chl (\<lambda>u. u = t) (deref (first_of ?r) (\<lambda>p.
         block [load (next_of p) (set_first ?r), set_owner p att, add_cnt ?r (- 1),
                set_fixin st (fi_first_update (\<lambda>_. None)), et_llist_unlock ?r]
           (ret (ET_OK, [p])))) ?Q ?C"
    if t: "read_stage s0 st xs 1 att 0 False False t" for t
  proof (rule chl_deref_at)
    show "first_of ?r t = Some (hd xs)" using t by (simp add: read_stage_def Let_def)
    let ?t1 = "upd_list ?r (l_firstevent_update (\<lambda>_. next_of (hd xs) t)) t"
    let ?t2 = "upd_event (hd xs) (e_owner_update (\<lambda>_. att)) ?t1"
    let ?t3 = "upd_list ?r (l_cnt_update (\<lambda>c. c + - 1)) ?t2"
    let ?t4 = "upd_fixin st (fi_first_update (\<lambda>_. None)) ?t3"
    let ?t5 = "upd_list ?r (l_mutex_update (\<lambda>_. False)) ?t4"
    have 1: "read_stage s0 st xs 1 att 0 True False ?t1"
      using t xs(1) by (auto simp: read_stage_def read_rest_def Let_def intro!: frame_upd)
    have 2: "read_stage s0 st xs 1 att 1 True False ?t2"
      using read_stage_own [OF 1] xs(1) by simp
    have 3: "read_stage s0 st xs 1 att 1 True True ?t3"
      using read_stage_counted [OF 2] by simp
    have ev4: "ev_list ?t4 ?r (drop 1 xs)" and rr: "read_rest s0 st xs (take 1 xs) att ?t4"
      using read_stage_taken [OF 3] by blast+
    then have rr5: "read_rest s0 st xs (take 1 xs) att ?t5"
      by (auto simp: read_rest_def intro!: frame_upd)
    have ok: "in_ok ?t5 st (drop 1 xs)" 
      using repair_unlock(1) [OF ev4 rr] by simp
    have 4: "?C ?t4"
      unfolding read_crash_def using ev4 rr by (intro disjI1 bexI [of _ 1]) simp_all
    have 5: "?C ?t5"
      unfolding read_crash_def using ok rr5 by (intro disjI1 bexI [of _ 1]) (simp_all add: in_ok_def)
    have C: "?C ?t1" "?C ?t2" "?C ?t3" using 1 2 3 unfolding read_crash_def by blast+
    have a: "chl (\<lambda>u. u = t) (load (next_of (hd xs)) (set_first ?r)) (\<lambda>_ u. u = ?t1) ?C"
      by (rule chl_load_at, rule chl_store) (use C in blast)+
    have b: "chl (\<lambda>u. u = ?t1) (block [set_owner (hd xs) att, add_cnt ?r (- 1),
        set_fixin st (fi_first_update (\<lambda>_. None)), et_llist_unlock ?r] (ret (ET_OK, [hd xs]))) ?Q ?C"
      unfolding block.simps et_llist_unlock_def
      by (intro chl_store_then chl_ret_at) (use C 4 5 ok rr5 in \<open>simp_all only: xs(2,3) simp_thms\<close>)
    show "chl (\<lambda>u. u = t) (block [load (next_of (hd xs)) (set_first ?r), set_owner (hd xs) att,
        add_cnt ?r (- 1), set_fixin st (fi_first_update (\<lambda>_. None)), et_llist_unlock ?r]
        (ret (ET_OK, [hd xs]))) ?Q ?C"
      unfolding block.simps(2) [of "load _ _"] by (rule chl_andthen [OF a b])
  qed
  show ?thesis
    unfolding read_body_def Let_def
    by (rule chl_andthen [OF open_fixin_read_chl [OF assms]])
      (use body in \<open>auto simp: chl_at_iff [of "read_stage _ _ _ _ _ _ _ _"]\<close>)
qed

lemma et_station_read_chl:
  assumes ok: "in_ok s st xs" and ne: "xs \<noteq> []"
    and mode: "mode = ET_SLEEP \<or> mode = ET_TIMED \<or> mode = ET_ASYNC \<and> \<not> quitting att s"
  shows "chl (\<lambda>t. t = s) (et_station_read st mode att ws)
     (\<lambda>c t. c = (ET_OK, [hd xs]) \<and> in_ok t st (tl xs) \<and> read_rest s st xs [hd xs] att t)
     (read_crash s st xs 1 att)"
proof -
  let ?r = "ListIn st" and ?C = "read_crash s st xs 1 att"
  let ?Q = "\<lambda>c t. c = (ET_OK, [hd xs]) \<and> in_ok t st (tl xs) \<and> read_rest s st xs [hd xs] att t"
  have body: "chl (\<lambda>u. u = t) (if c \<noteq> ET_OK then ret (c, []) else read_body st att) ?Q ?C"
    if "c = ET_OK \<and> ev_list t ?r xs \<and> read_rest s st xs [] att t
        \<and> l_mutex (glist ?r t) \<and> fi_first (f_in (gfix st t)) = None" for c t
  proof -
    have "chl (\<lambda>u. u = t) (read_body st att) ?Q ?C" using that ne by (intro read_body_chl) simp_all
    then show ?thesis using that by simp
  qed
  have "et_station_read st mode att ws = bind (read_begin st mode att ws) (\<lambda>c.
      if c \<noteq> ET_OK then ret (c, []) else read_body st att)"
    unfolding et_station_read_def read_body_def [abs_def] Let_def by (rule refl)
  then show ?thesis
    using chl_bind_at [OF read_begin_chl [OF ok ne mode, where n = 1] body] by simp
qed

end
