(* ===== verification/Et_ReadRepair.thy ===== *)
theory Et_ReadRepair
  imports Et_Repair Et_StationRead
begin

text \<open>
  A reader may die anywhere: \<^verbatim>\<open>et_repair_station\<close>, and \<^verbatim>\<open>et_repair_gc\<close> for the input list
  of GrandCentral, bring an input list back to a state in which either none or all of the
  events of the interrupted read are taken.
\<close>

lemma repair_in_walk_chain:
  assumes "chain (m_events s) p xs" and "xs \<noteq> []" and "distinct xs"
  shows "repair_in_walk (Some (last xs)) p c s = Some (c + int (length xs), own_by ET_SYS xs s)"
  using assms
proof (induction xs arbitrary: p c s)
  case (Cons x xs)
  let ?t = "upd_event x (e_owner_update (\<lambda>_. ET_SYS)) s"
  show ?case
  proof (cases "xs = []")
    case True
    with Cons.prems show ?thesis by (simp add: repair_in_walk.simps)
  next
    case False
    with Cons.prems have "last xs \<noteq> x" by auto
    moreover have "chain (m_events ?t) (e_next (m_events s x)) xs"
      using Cons.prems by (simp add: chain_upd_same_next)
    ultimately have "repair_in_walk (Some (last xs)) (e_next (m_events s x)) (c + 1) ?t
        = Some (c + 1 + int (length xs), own_by ET_SYS xs ?t)"
      using Cons.prems(3) False by (intro Cons.IH) (assumption | force)+
    with \<open>last xs \<noteq> x\<close> Cons.prems False show ?thesis
      by (subst repair_in_walk.simps) (simp add: Let_def)
  qed
qed simp

lemma et_repair_inputlist_stage:
  assumes st: "read_stage s0 st xs n att k moved counted t"
  defines "j \<equiv> if counted then n else 0"
  shows "\<exists>l u. et_repair_inputlist st t = (l, Done ET_OK u) \<and> ev_list u (ListIn st) (drop j xs)
     \<and> read_rest s0 st xs (take j xs) att u \<and> fi_first (f_in (gfix st u)) = None"
proof -
  let ?r = "ListIn st" and ?reset = "upd_fixin st (fi_first_update (\<lambda>_. None))"
  have n: "0 < n" "n \<le> length xs" and rr: "read_rest s0 st xs (take k xs) att t"
    and c: "chain (m_events t) (Some (hd xs)) xs" and l: "last_of ?r t = Some (last xs)"
    and fx: "fi_first (f_in (gfix st t)) = Some (hd xs)" "fi_cnt (f_in (gfix st t)) = int (length xs)"
      "fi_num (f_in (gfix st t)) = int n" and d: "distinct xs"
    using st by (simp_all add: read_stage_def Let_def)
  show ?thesis
  proof (cases counted)
    case True
    then have cnt: "cnt_of ?r t = int (length xs) - int n" and kn: "k = n"
      using st by (auto simp: read_stage_def Let_def)
    have "et_repair_inputlist st t = ([?reset t], Done ET_OK (?reset t))"
      using cnt fx by (simp add: et_repair_inputlist_def Let_def prog_defs)
    moreover have "ev_list (?reset t) ?r (drop n xs)"
      using st True kn n by (intro ev_list_drop) (auto simp: read_stage_def Let_def)
    moreover have "read_rest s0 st xs (take n xs) att (?reset t)"
      using rr kn by (auto simp: read_rest_def intro!: frame_upd)
    ultimately show ?thesis using True by (simp add: j_def)
  next
    case False
    then have cnt: "cnt_of ?r t = int (length xs)" using st by (simp add: read_stage_def Let_def)
    let ?t1 = "upd_list ?r (l_firstevent_update (\<lambda>_. Some (hd xs))) t"
    let ?t2 = "own_by ET_SYS xs ?t1"
    let ?t3 = "upd_list ?r (l_cnt_update (\<lambda>_. int (length xs))) ?t2"
    have "xs \<noteq> []" using n by auto
    then have "repair_in_walk (Some (last xs)) (Some (hd xs)) 0 ?t1 = Some (int (length xs), ?t2)"
      using c d by (subst repair_in_walk_chain) simp_all
    then have "et_repair_inputlist st t = ([?t1, ?t2, ?t3, ?reset ?t3], Done ET_OK (?reset ?t3))"
      using cnt fx l n by (simp add: et_repair_inputlist_def run_repair_in_walk_def Let_def prog_defs)
    moreover have "ev_list (?reset ?t3) ?r xs"
      using c l d by (auto simp: ev_list_def)
    moreover have "read_rest s0 st xs [] att (?reset ?t3)"
      using rr by (auto simp: read_rest_def intro!: frame_upd frame_own_by)
    ultimately show ?thesis using False by (auto simp: j_def)
  qed
qed

definition read_done :: "et_mem \<Rightarrow> et_stat_id \<Rightarrow> nat list \<Rightarrow> nat \<Rightarrow> et_att_id \<Rightarrow> et_mem \<Rightarrow> bool" where
  "read_done s st xs n att u \<longleftrightarrow> (\<exists>k \<in> {0, n}. in_ok u st (drop k xs) \<and> read_rest s st xs (take k xs) att u)"

lemma read_crash_cases:
  assumes "read_crash s st xs n att t"
  obtains
    (unlocked) k where "k \<in> {0, n}" "\<not> l_mutex (glist (ListIn st) t)"
      "in_ok t st (drop k xs)" "read_rest s st xs (take k xs) att t"
  | (idle) k where "k \<in> {0, n}" "l_mutex (glist (ListIn st) t)" "fi_first (f_in (gfix st t)) = None"
      "ev_list t (ListIn st) (drop k xs)" "read_rest s st xs (take k xs) att t"
  | (inside) k moved counted where "l_mutex (glist (ListIn st) t)" "read_stage s st xs n att k moved counted t"
  using assms unfolding read_crash_def
proof (elim disjE)
  assume "\<exists>k \<in> {0, n}. fi_first (f_in (gfix st t)) = None \<and> ev_list t (ListIn st) (drop k xs)
      \<and> read_rest s st xs (take k xs) att t"
  then obtain k where k: "k \<in> {0, n}" "fi_first (f_in (gfix st t)) = None"
    "ev_list t (ListIn st) (drop k xs)" "read_rest s st xs (take k xs) att t" by blast
  show thesis
  proof (cases "l_mutex (glist (ListIn st) t)")
    case True
    then show thesis using k idle by blast
  next
    case False
    then have "in_ok t st (drop k xs)" using k by (simp add: in_ok_def read_rest_def)
    with k False unlocked show thesis by blast
  qed
next
  assume "\<exists>k moved counted. read_stage s st xs n att k moved counted t"
  then obtain k moved counted where st: "read_stage s st xs n att k moved counted t" by blast
  then have "l_mutex (glist (ListIn st) t)" by (simp add: read_stage_def Let_def)
  with st show thesis using inside by blast
qed

text \<open>
  After the repair of the input list by any routine that only repairs what is recorded,
  and the release of its mutex.
\<close>

lemma et_repair_inputlist_crash:
  assumes t: "read_crash s st xs n att t" and m: "l_mutex (glist (ListIn st) t)"
  shows "\<exists>l u. et_repair_inputlist st t = (l, Done ET_OK u)
     \<and> read_done s st xs n att (upd_list (ListIn st) (l_mutex_update (\<lambda>_. False)) u)"
  using t
proof (cases rule: read_crash_cases)
  case (idle k)
  then have "et_repair_inputlist st t = ([], Done ET_OK t)"
    by (simp add: et_repair_inputlist_def Let_def prog_defs)
  with idle repair_unlock show ?thesis unfolding read_done_def by blast
next
  case (inside k moved counted)
  define j where "j = (if counted then n else 0)"
  from et_repair_inputlist_stage [OF inside(2)] obtain l u where
    u: "et_repair_inputlist st t = (l, Done ET_OK u)" "ev_list u (ListIn st) (drop j xs)"
      "read_rest s st xs (take j xs) att u" "fi_first (f_in (gfix st u)) = None"
    unfolding j_def by blast
  have "j \<in> {0, n}" by (simp add: j_def)
  with u(1) repair_unlock [OF u(2-4)] show ?thesis unfolding read_done_def by blast
qed (use m in simp)

lemma et_repair_station_read_lemma:
  assumes t: "read_crash s st xs n att t" and out: "\<not> l_mutex (glist (ListOut st) s)"
  shows "\<exists>l u. et_repair_station st t = (l, Done ET_OK u) \<and> read_done s st xs n att u"
proof (cases "l_mutex (glist (ListIn st) t)")
  case True
  with et_repair_inputlist_crash [OF t] obtain l u where
    "et_repair_inputlist st t = (l, Done ET_OK u)"
    "read_done s st xs n att (upd_list (ListIn st) (l_mutex_update (\<lambda>_. False)) u)" by blast
  with True show ?thesis by (simp add: et_repair_station_def et_llist_unlock_def prog_defs)
next
  case False
  have fr: "\<not> l_mutex (glist (ListOut st) t)" if "read_rest s st xs ys att t" for ys
    using that out by (simp add: read_rest_def frame_def)
  from t False show ?thesis
    by (cases rule: read_crash_cases)
      (use fr in \<open>auto simp: et_repair_station_def prog_defs read_done_def\<close>)
qed

lemma et_repair_gc_read_lemma:
  assumes t: "read_crash s ET_GRANDCENTRAL xs n att t"
  shows "\<exists>l u. et_repair_gc t = (l, Done ET_OK u) \<and> read_done s ET_GRANDCENTRAL xs n att u"
proof (cases "l_mutex (glist (ListIn ET_GRANDCENTRAL) t)")
  case m: True
  show ?thesis
  proof (cases "fi_call (f_in (gfix ET_GRANDCENTRAL t)) = ET_FIX_DUMP")
    case False
    from et_repair_inputlist_crash [OF t m] obtain l u where
      "et_repair_inputlist ET_GRANDCENTRAL t = (l, Done ET_OK u)"
      "read_done s ET_GRANDCENTRAL xs n att (upd_list (ListIn ET_GRANDCENTRAL) (l_mutex_update (\<lambda>_. False)) u)"
      by blast
    with m False show ?thesis by (simp add: et_repair_gc_def Let_def et_llist_unlock_def prog_defs)
  next
    case call: True
    from t m show ?thesis
    proof (cases rule: read_crash_cases)
      case (idle k)
      then have "et_repair_gcinputlist t = ([], Done ET_OK t)"
        by (simp add: et_repair_gcinputlist_def Let_def prog_defs read_rest_def)
      with m call idle repair_unlock [OF idle(4,5,3)] show ?thesis
        by (auto simp add: et_repair_gc_def Let_def et_llist_unlock_def prog_defs read_done_def)
    next
      case (inside k moved counted)
      with call show ?thesis by (simp add: read_stage_def Let_def)
    qed simp
  qed
next
  case False
  from t False show ?thesis
    by (cases rule: read_crash_cases) (auto simp: et_repair_gc_def Let_def prog_defs read_done_def)
qed

end
