(* ===== verification/Et_Llist.thy ===== *)
theory Et_Llist
  imports Et_StationLists Et_PriorityOrder Et_ListFacts "HOL-Library.Monad_Syntax"
begin

text \<open>
  The list routines of the ET system process (\<^verbatim>\<open>et_llist_read\<close>, \<^verbatim>\<open>et_llist_write_gc\<close> and
  \<^verbatim>\<open>et_llist_write\<close> of \<^verbatim>\<open>et_readwrite.c\<close>), with which the conductor of a station moves
  events.  They run with the mutex of the list held by the caller and nobody repairs them,
  so they are functions on the memory; \<open>None\<close> is a null pointer that is followed.
\<close>

section \<open>The routines\<close>

abbreviation put_next :: "nat \<Rightarrow> eptr \<Rightarrow> et_mem \<Rightarrow> et_mem" where
  "put_next e p \<equiv> upd_event e (e_next_update (\<lambda>_. p))"
abbreviation put_first :: "listref \<Rightarrow> eptr \<Rightarrow> et_mem \<Rightarrow> et_mem" where
  "put_first r p \<equiv> upd_list r (l_firstevent_update (\<lambda>_. p))"
abbreviation put_last :: "listref \<Rightarrow> eptr \<Rightarrow> et_mem \<Rightarrow> et_mem" where
  "put_last r p \<equiv> upd_list r (l_lastevent_update (\<lambda>_. p))"

text \<open>\<^verbatim>\<open>pe[i] = pe[i-1]->next\<close> for \<open>n\<close> events.\<close>

fun follow :: "nat \<Rightarrow> eptr \<Rightarrow> et_mem \<Rightarrow> nat list option" where
  "follow 0 p s = Some []"
| "follow (Suc n) None s = None"
| "follow (Suc n) (Some e) s = do { es \<leftarrow> follow n (next_of e s) s; Some (e # es) }"

definition et_llist_read :: "listref \<Rightarrow> et_mem \<Rightarrow> ((int \<times> nat list) \<times> et_mem) option" where
  "et_llist_read r s = (let cn = cnt_of r s in
     if cn = 0 then Some ((ET_ERROR, []), s)
     else do { pe \<leftarrow> follow (nat cn) (first_of r s) s;
               Some ((cn, pe), upd_list r (\<lambda>l. l\<lparr>l_firstevent := None, l_cnt := 0, l_lasthigh := 0,
                 l_events_out := l_events_out l + word_of_int cn\<rparr>) s) })"

text \<open>\<^verbatim>\<open>pe[i-1]->next = pe[i]\<close> for the events of an array.\<close>

fun link_run :: "nat list \<Rightarrow> et_mem \<Rightarrow> et_mem" where
  "link_run (a # b # es) s = link_run (b # es) (put_next a (Some b) s)"
| "link_run es s = s"

definition et_llist_write_gc :: "nat list \<Rightarrow> et_mem \<Rightarrow> (int \<times> et_mem) option" where
  "et_llist_write_gc pe s = (let r = ListIn ET_GRANDCENTRAL; num = int (length pe) in
     if num > nevents s - cnt_of r s then Some (ET_ERROR, s)
     else do {
       s1 \<leftarrow> (if cnt_of r s = 0 then Some (put_first r (Some (hd pe)) s)
              else do { l \<leftarrow> last_of r s; Some (put_next l (Some (hd pe)) s) });
       let s2 = link_run pe s1;
       Some (ET_OK, upd_list r (\<lambda>l. l\<lparr>l_lastevent := Some (last pe),
         l_events_in := l_events_in l + word_of_int num, l_cnt := l_cnt l + num\<rparr>) s2) })"

text \<open>
  The search for the last high priority event: \<open>n\<close> events are left to look at; the result
  is \<^verbatim>\<open>pe_lasthigh\<close>, \<^verbatim>\<open>pevent\<close> and \<^verbatim>\<open>high_cnt\<close>.
\<close>

fun find_high :: "nat \<Rightarrow> nat option \<Rightarrow> eptr \<Rightarrow> int \<Rightarrow> et_mem \<Rightarrow> (nat option \<times> eptr \<times> int) option" where
  "find_high 0 lh p hc s = Some (lh, p, hc)"
| "find_high (Suc n) lh None hc s = None"
| "find_high (Suc n) lh (Some e) hc s =
     (if pri_of e s = ET_HIGH then find_high n (Some e) (next_of e s) (hc + 1) s
      else Some (lh, Some e, hc))"

text \<open>The remaining high priority events of the array, from behind the first on: each is
  linked to its predecessor \<open>e\<close> and to \<open>p\<close>; what is left is returned with the predecessor.\<close>

fun link_highs :: "nat \<Rightarrow> nat list \<Rightarrow> eptr \<Rightarrow> et_mem \<Rightarrow> nat \<times> nat list \<times> et_mem" where
  "link_highs e [] p s = (e, [], s)"
| "link_highs e (a # es) p s =
     (if pri_of a s \<noteq> ET_HIGH then (e, a # es, s)
      else link_highs a es p (put_next a p (put_next e (Some a) s)))"

text \<open>
  The number of events written is what fits.  When nothing fits, the first branch reads
  \<^verbatim>\<open>pe[-1]\<close> (\<open>None\<close>) and the second links the first event without counting it.
\<close>

definition et_llist_write :: "listref \<Rightarrow> nat list \<Rightarrow> et_mem \<Rightarrow> (int \<times> et_mem) option" where
  "et_llist_write r pe0 s = (let
       num = (if int (length pe0) > nevents s - cnt_of r s then nevents s - cnt_of r s
              else int (length pe0));
       pe = take (nat num) pe0 in
     do {
       s' \<leftarrow>
        (if pri_of (hd pe0) s = ET_LOW \<or> cnt_of r s = 0 then if num < 1 then None else do {
           s1 \<leftarrow> (if cnt_of r s = 0 then Some (put_first r (Some (hd pe)) s)
                  else do { l \<leftarrow> last_of r s; Some (put_next l (Some (hd pe)) s) });
           Some (put_last r (Some (last pe)) (link_run pe s1)) }
         else do {
           (lasthigh, pevent, high_cnt) \<leftarrow> find_high (nat (cnt_of r s)) None (first_of r s) 0 s;
           let s1 = (case lasthigh of
               Some lh \<Rightarrow> put_next lh (Some (hd pe0)) (put_next (hd pe0) (next_of lh s) s)
             | None \<Rightarrow> put_first r (Some (hd pe0)) (put_next (hd pe0) (first_of r s) s));
           let (e, lows, s2) = link_highs (hd pe0) (tl pe) pevent s1;
           let s3 = (if high_cnt = cnt_of r s2 then put_last r (Some e) s2 else s2);
           if lows = [] then Some s3
           else do {
             let s4 = link_run lows s3;
             l \<leftarrow> last_of r s4;
             Some (put_last r (Some (last pe)) (put_next l (Some (hd lows)) s4)) } });
       Some (num, upd_list r (\<lambda>l. l\<lparr>l_events_in := l_events_in l + word_of_int num,
                                   l_cnt := l_cnt l + num\<rparr>) s') })"

section \<open>Links\<close>

text \<open>Every event of a list is linked to the one behind it; the last link is free.\<close>

fun links :: "(nat \<Rightarrow> et_event) \<Rightarrow> nat list \<Rightarrow> bool" where
  "links h (a # b # es) \<longleftrightarrow> e_next (h a) = Some b \<and> links h (b # es)"
| "links h es \<longleftrightarrow> True"

lemma links_append: "links h (as @ bs) \<longleftrightarrow> links h as \<and> links h bs
    \<and> (as \<noteq> [] \<and> bs \<noteq> [] \<longrightarrow> e_next (h (last as)) = Some (hd bs))"
  by (induction h as rule: links.induct; cases bs) auto

lemma chain_links: "chain h p xs \<longleftrightarrow> xs = [] \<or> p = Some (hd xs) \<and> links h xs"
  by (induction h xs arbitrary: p rule: links.induct) auto

lemma links_cong:
  "(\<And>x. x \<in> set (butlast xs) \<Longrightarrow> e_next (h' x) = e_next (h x)) \<Longrightarrow> links h' xs = links h xs"
  by (induction h xs rule: links.induct) auto

lemma follow_links: "chain (m_events s) p xs \<Longrightarrow> follow (length xs) p s = Some xs"
  by (induction xs arbitrary: p) auto

lemma link_run_mem [simp]:
  "glist q (link_run es s) = glist q s" "gfix st (link_run es s) = gfix st s"
  "m_sys (link_run es s) = m_sys s" "nevents (link_run es s) = nevents s"
  by (induction es s rule: link_run.induct) simp_all

lemma link_run_event:
  "m_events (link_run es s) x = m_events s x \<or>
   x \<in> set (butlast es) \<and> (\<exists>p. m_events (link_run es s) x = e_next_update (\<lambda>_. p) (m_events s x))"
proof (induction es s rule: link_run.induct)
  case (1 a b es s)
  then show ?case by (cases "x = a") auto
qed auto

lemma link_run_other: "x \<notin> set (butlast es) \<Longrightarrow> m_events (link_run es s) x = m_events s x"
  using link_run_event [of es s x] by auto

lemma link_run_fields [simp]:
  "e_owner (m_events (link_run es s) x) = e_owner (m_events s x)"
  "e_priority (m_events (link_run es s) x) = e_priority (m_events s x)"
  "link_eq (m_events s x) (m_events (link_run es s) x)"
  using link_run_event [of es s x] by auto

lemma link_run_links: "distinct es \<Longrightarrow> links (m_events (link_run es s)) es"
proof (induction es s rule: link_run.induct)
  case (1 a b es s)
  have "m_events (link_run (b # es) (put_next a (Some b) s)) a = m_events (put_next a (Some b) s) a"
    using 1(2) by (intro link_run_other) (auto dest: in_set_butlastD)
  with 1 show ?case by simp
qed auto

lemma frame_link_run: "frame r E s t \<Longrightarrow> set es \<subseteq> E \<Longrightarrow> frame r E s (link_run es t)"
  by (induction es t rule: link_run.induct) (auto intro: frame_upd)

text \<open>The pass over the high priority events of the array.\<close>

lemma link_highs_run:
  assumes "\<forall>a \<in> set H. pri_of a s = ET_HIGH" and "L = [] \<or> pri_of (hd L) s \<noteq> ET_HIGH"
    and "distinct (e # H)"
  obtains s' where "link_highs e (H @ L) p s = (last (e # H), L, s')"
    and "links (m_events s') (e # H)"
    and "H \<noteq> [] \<Longrightarrow> e_next (m_events s' (last H)) = p"
    and "H = [] \<Longrightarrow> s' = s"
    and "\<And>x. x \<notin> set (e # H) \<Longrightarrow> m_events s' x = m_events s x"
    and "\<And>x. e_owner (m_events s' x) = e_owner (m_events s x)"
    and "\<And>x. e_priority (m_events s' x) = e_priority (m_events s x)"
    and "\<And>q. glist q s' = glist q s" and "\<And>r E s0. frame r E s0 s \<Longrightarrow> set (e # H) \<subseteq> E \<Longrightarrow> frame r E s0 s'"
    and "nevents s' = nevents s"
  using assms
proof (induction H arbitrary: e s thesis)
  case Nil
  show ?case
  proof (rule Nil.prems(1) [of s])
    show "link_highs e ([] @ L) p s = (last [e], L, s)" using Nil.prems(3) by (cases L) auto
  qed simp_all
next
  case (Cons a H)
  let ?s = "put_next a p (put_next e (Some a) s)"
  have h: "\<forall>b \<in> set H. pri_of b ?s = ET_HIGH" "L = [] \<or> pri_of (hd L) ?s \<noteq> ET_HIGH" "distinct (a # H)"
    using Cons.prems by auto
  obtain s' where s': "link_highs a (H @ L) p ?s = (last (a # H), L, s')"
    "links (m_events s') (a # H)" "H \<noteq> [] \<Longrightarrow> e_next (m_events s' (last H)) = p"
    "H = [] \<Longrightarrow> s' = ?s" "\<And>x. x \<notin> set (a # H) \<Longrightarrow> m_events s' x = m_events ?s x"
    "\<And>x. e_owner (m_events s' x) = e_owner (m_events ?s x)"
    "\<And>x. e_priority (m_events s' x) = e_priority (m_events ?s x)"
    "\<And>q. glist q s' = glist q ?s" "\<And>r E s0. frame r E s0 ?s \<Longrightarrow> set (a # H) \<subseteq> E \<Longrightarrow> frame r E s0 s'"
    "nevents s' = nevents ?s"
    using Cons.IH [OF _ h] by blast
  have pri: "pri_of a s = ET_HIGH" and ne: "a \<noteq> e" "e \<notin> set (a # H)" using Cons.prems by auto
  have e: "m_events s' e = m_events ?s e" using ne(2) by (rule s'(5))
  show ?case
  proof (rule Cons.prems(1) [of s'])
    show "link_highs e ((a # H) @ L) p s = (last (e # a # H), L, s')" using s'(1) pri by simp
    show "links (m_events s') (e # a # H)" using s'(2) e ne by simp
    show "e_next (m_events s' (last (a # H))) = p" using s'(3,4) by (cases "H = []") simp_all
    show "m_events s' x = m_events s x" if "x \<notin> set (e # a # H)" for x using s'(5) [of x] that by simp
    show "e_owner (m_events s' x) = e_owner (m_events s x)" for x using s'(6) [of x] by simp
    show "e_priority (m_events s' x) = e_priority (m_events s x)" for x using s'(7) [of x] by simp
    show "frame r E s0 s'" if "frame r E s0 s" "set (e # a # H) \<subseteq> E" for r E s0
      using that by (intro s'(9)) (auto intro!: frame_upd)
  qed (use s'(8,10) in simp_all)
qed

text \<open>The search over a list in priority order.\<close>

lemma find_high_sorted:
  assumes "chain (m_events s) p (A @ C)" and "\<forall>a \<in> set A. pri_of a s = ET_HIGH"
    and "\<forall>c \<in> set C. pri_of c s \<noteq> ET_HIGH"
  shows "\<exists>q. find_high (length (A @ C)) lh p hc s = Some (if A = [] then lh else Some (last A), q, hc + int (length A))
     \<and> q = chain_end (m_events s) p A"
  using assms
proof (induction A arbitrary: p lh hc)
  case Nil
  then show ?case by (cases C) auto
qed auto

end
