(* ===== verification/Et_LlistSpec.thy ===== *)
theory Et_LlistSpec
  imports Et_Llist
begin

text \<open>
  What the list routines of the ET system process do to a list of events: \<^verbatim>\<open>et_llist_read\<close>
  empties it, \<^verbatim>\<open>et_llist_write_gc\<close> appends, and \<^verbatim>\<open>et_llist_write\<close> inserts every event behind
  those of its priority, like the writes of the users (\<open>foldl_ins\<close>).
\<close>

section \<open>Correctness\<close>

text \<open>A list of events of the system in the order of their priority.\<close>

definition pri_list :: "et_mem \<Rightarrow> listref \<Rightarrow> nat list \<Rightarrow> bool" where
  "pri_list s r xs \<longleftrightarrow> ev_list s r xs \<and> pri_sorted (high (m_events s)) xs
     \<and> (\<forall>e \<in> set xs. pri_of e s \<in> {ET_LOW, ET_HIGH})"

text \<open>Events in the hands of a conductor.\<close>

definition loose :: "et_mem \<Rightarrow> nat list \<Rightarrow> bool" where
  "loose s es \<longleftrightarrow> distinct es \<and> pri_sorted (high (m_events s)) es
     \<and> (\<forall>e \<in> set es. pri_of e s \<in> {ET_LOW, ET_HIGH} \<and> e_owner (m_events s e) = ET_SYS)"

lemma et_llist_read_ok:
  assumes "ev_list s r xs" and "xs \<noteq> []"
  shows "\<exists>t. et_llist_read r s = Some ((int (length xs), xs), t) \<and> ev_list t r [] \<and> frame r {} s t
     \<and> l_lasthigh (glist r t) = 0 \<and> l_mutex (glist r t) = l_mutex (glist r s)"
  using assms by (auto simp: et_llist_read_def Let_def ev_list_def follow_links intro!: frame_upd)

lemma pri_listD:
  assumes "pri_list s r xs"
  shows "xs = highs (high (m_events s)) xs @ lows (high (m_events s)) xs"
    and "cnt_of r s = int (length xs)" and "chain (m_events s) (first_of r s) xs"
    and "xs \<noteq> [] \<Longrightarrow> last_of r s = Some (last xs)" and "distinct xs"
  using assms by (simp_all add: pri_list_def ev_list_def pri_sorted_split)

text \<open>Once the links, the first and the last pointer are right, the list is.\<close>

lemma pri_listI:
  assumes "pri_list s r xs" and "loose s es" and "set xs \<inter> set es = {}"
    and zs: "zs = highs (high (m_events s)) xs @ highs (high (m_events s)) es
       @ lows (high (m_events s)) xs @ lows (high (m_events s)) es"
    and "frame r E s t" and "links (m_events t) zs" and "first_of r t = Some (hd zs)" and "es \<noteq> []"
    and "last_of r t = Some (last zs)" and "cnt_of r t = cnt_of r s + int (length es)"
    and "\<And>x. e_owner (m_events t x) = e_owner (m_events s x)"
  shows "pri_list t r zs"
proof -
  let ?hi = "high (m_events s)"
  have so: "pri_sorted ?hi xs" using assms(1) by (simp add: pri_list_def)
  have ins: "zs = foldl (ins ?hi) xs es" using foldl_ins [OF so, of es] zs by simp
  then have m: "mset zs = mset xs + mset es" by (simp add: mset_foldl_ins)
  then have sz: "set zs = set xs \<union> set es" by (metis set_mset_mset set_mset_union)
  have "mset zs = mset (xs @ es)" using m by simp
  moreover have "distinct (xs @ es)" using assms(1-3) by (auto simp: pri_list_def ev_list_def loose_def)
  ultimately have d: "distinct zs" by (metis mset_eq_imp_distinct_iff)
  have len: "length zs = length xs + length es" using m by (metis size_mset size_union)
  have hi: "high (m_events t) = ?hi" using frame_high [OF assms(5)] .
  have "pri_sorted ?hi zs" using pri_sorted_foldl [OF so] ins by simp
  moreover have "cnt_of r t = int (length zs)"
    using assms(1,10) len by (simp add: pri_list_def ev_list_def)
  moreover have "\<forall>e \<in> set zs. e_owner (m_events t e) = ET_SYS"
    using assms(1,2,11) sz by (auto simp: pri_list_def ev_list_def loose_def)
  moreover have "\<forall>e \<in> set zs. pri_of e t \<in> {ET_LOW, ET_HIGH}"
    using assms(1,2) sz frame_pri [OF assms(5)] by (auto simp: pri_list_def loose_def)
  ultimately show ?thesis
    using assms(6-9) d hi by (auto simp: pri_list_def ev_list_def chain_links)
qed


text \<open>
  The list \<open>A @ C\<close> with \<open>A\<close> of high and \<open>C\<close> of low priority, and the array \<open>b # H @ D\<close> with
  \<open>b # H\<close> of high and \<open>D\<close> of low priority.
\<close>

lemma et_llist_write_high:
  assumes cnt: "cnt_of r s = int (length (A @ C))" and ch: "chain (m_events s) (first_of r s) (A @ C)"
    and ne: "A @ C \<noteq> []" and last: "last_of r s = Some (last (A @ C))"
    and d: "distinct (A @ (b # H) @ C @ D)"
    and hi: "\<forall>a \<in> set (A @ b # H). pri_of a s = ET_HIGH" and lo: "\<forall>c \<in> set (C @ D). pri_of c s \<noteq> ET_HIGH"
    and room: "int (length (A @ C) + length (b # H @ D)) \<le> nevents s"
  defines "zs \<equiv> A @ (b # H) @ C @ D"
  shows "\<exists>t. et_llist_write r (b # H @ D) s = Some (int (length (b # H @ D)),
        upd_list r (\<lambda>l. l\<lparr>l_events_in := l_events_in l + word_of_int (int (length (b # H @ D))),
          l_cnt := l_cnt l + int (length (b # H @ D))\<rparr>) t)
     \<and> frame r (set zs) s t \<and> links (m_events t) zs \<and> first_of r t = Some (hd zs)
     \<and> last_of r t = Some (last zs) \<and> cnt_of r t = cnt_of r s
     \<and> (\<forall>x. e_owner (m_events t x) = e_owner (m_events s x)) \<and> l_mutex (glist r t) = l_mutex (glist r s)"
proof -
  let ?q = "chain_end (m_events s) (first_of r s) A"
  let ?lh = "if A = [] then None else Some (last A)"
  have find: "find_high (nat (cnt_of r s)) None (first_of r s) 0 s = Some (?lh, ?q, int (length A))"
  proof -
    have n: "nat (cnt_of r s) = length (A @ C)" using cnt by simp
    show ?thesis unfolding n using find_high_sorted [OF ch, of None 0] hi lo by auto
  qed
  define s1 where "s1 = (case ?lh of Some lh \<Rightarrow> put_next lh (Some b) (put_next b (next_of lh s) s)
      | None \<Rightarrow> put_first r (Some b) (put_next b (first_of r s) s))"
  have q: "?q = (if A = [] then first_of r s else next_of (last A) s)" by (simp add: chain_end_def)
  have qC: "C \<noteq> [] \<Longrightarrow> ?q = Some (hd C)" using ch chain_first [of "m_events s" ?q C] by simp
  have bA: "A \<noteq> [] \<Longrightarrow> last A \<noteq> b" using d by auto
  have f: "A \<noteq> [] \<Longrightarrow> first_of r s = Some (hd A)" using chain_first [OF ch ne] by simp
  have s1: "A \<noteq> [] \<Longrightarrow> e_next (m_events s1 (last A)) = Some b" "e_next (m_events s1 b) = ?q"
    "first_of r s1 = Some (hd (A @ [b]))" "cnt_of r s1 = cnt_of r s" "last_of r s1 = last_of r s"
    "l_mutex (glist r s1) = l_mutex (glist r s)"
    "\<And>y. y \<noteq> b \<Longrightarrow> A = [] \<or> y \<noteq> last A \<Longrightarrow> m_events s1 y = m_events s y"
    "\<And>y. e_owner (m_events s1 y) = e_owner (m_events s y)"
    "\<And>y. e_priority (m_events s1 y) = e_priority (m_events s y)" "frame r (set zs) s s1"
    "nevents s1 = nevents s"
    unfolding s1_def q zs_def using bA f by (cases "A = []"; force intro!: frame_upd)+
  obtain s2 where s2: "link_highs b (H @ D) ?q s1 = (last (b # H), D, s2)"
    "links (m_events s2) (b # H)" "H \<noteq> [] \<Longrightarrow> e_next (m_events s2 (last H)) = ?q" "H = [] \<Longrightarrow> s2 = s1"
    "\<And>y. y \<notin> set (b # H) \<Longrightarrow> m_events s2 y = m_events s1 y"
    "\<And>y. e_owner (m_events s2 y) = e_owner (m_events s1 y)"
    "\<And>y. e_priority (m_events s2 y) = e_priority (m_events s1 y)" "\<And>q. glist q s2 = glist q s1"
    "\<And>r E s0. frame r E s0 s1 \<Longrightarrow> set (b # H) \<subseteq> E \<Longrightarrow> frame r E s0 s2" "nevents s2 = nevents s1"
  proof -
    have h: "\<forall>a \<in> set H. pri_of a s1 = ET_HIGH" "D = [] \<or> pri_of (hd D) s1 \<noteq> ET_HIGH" "distinct (b # H)"
      using hi lo s1(9) d by (cases D; simp)+
    show thesis by (rule link_highs_run [OF h, of ?q]) (rule that; assumption)
  qed
  define s3 where "s3 = (if int (length A) = cnt_of r s2 then put_last r (Some (last (b # H))) s2 else s2)"
  have lastB: "e_next (m_events s2 (last (b # H))) = ?q" using s1(2) s2(3,4) by (cases "H = []") simp_all
  have cC: "int (length A) = cnt_of r s2 \<longleftrightarrow> C = []" using s2(8) s1(4) cnt by simp
  have s3: "m_events s3 = m_events s2" "last_of r s3 = Some (last (A @ (b # H) @ C))"
    "first_of r s3 = Some (hd (A @ [b]))" "cnt_of r s3 = cnt_of r s" "l_mutex (glist r s3) = l_mutex (glist r s)"
    "frame r (set zs) s s3"
  proof -
    have "frame r (set zs) s s2" by (rule s2(9) [OF s1(10)]) (auto simp: zs_def)
    then show "frame r (set zs) s s3" by (auto simp: s3_def intro!: frame_upd)
  qed (use s2(8) s1(3-6) last cC in \<open>auto simp: s3_def\<close>)
  have e3: "m_events s3 y = m_events s y" if "y \<notin> set (b # H)" "A = [] \<or> y \<noteq> last A" for y
    using that s2(5) [of y] s1(7) [of y] s3(1) by simp
  have lA: "links (m_events s) A" "links (m_events s) C" using ch by (auto simp: chain_links links_append)
  define es where "es = b # H @ D"
  define m where "m = last (A @ (b # H) @ C)"
  define t where "t = (if D = [] then s3 else
      put_last r (Some (last es)) (put_next m (Some (hd D)) (link_run D s3)))"
  have run: "m_events (link_run D s3) y = m_events s3 y" if "y \<notin> set D" for y
    using that by (intro link_run_other) (auto dest: in_set_butlastD)
  have tev: "e_next (m_events t y) = e_next (m_events s3 y)" if "y \<in> set (A @ (b # H) @ C)" "D = [] \<or> y \<noteq> m" for y
  proof -
    have "y \<notin> set D" using that(1) d by auto
    from run [OF this] that(2) show ?thesis by (cases "D = []") (simp_all add: t_def)
  qed
  have linkA: "links (m_events t) A"
  proof (subst links_cong [where h = "m_events s"])
    fix y assume y: "y \<in> set (butlast A)"
    then have "A \<noteq> []" by auto
    then have "y \<in> set A" "y \<noteq> last A" using y d distinct_last_notin_butlast [of A] by (auto dest: in_set_butlastD)
    moreover from this d have "y \<notin> set (b # H)" "y \<noteq> m"
      using last_in_set [of "(b # H) @ C"] by (auto simp: m_def)
    ultimately show "e_next (m_events t y) = e_next (m_events s y)" using tev [of y] e3 [of y] by simp
  qed (rule lA(1))
  have linkB: "links (m_events t) (b # H)"
  proof (subst links_cong [where h = "m_events s2"])
    fix y assume y: "y \<in> set (butlast (b # H))"
    moreover have "distinct (b # H)" using d by simp
    ultimately have "y \<in> set (b # H)" "y \<noteq> last (b # H)"
      using in_set_butlastD [of y "b # H"] distinct_last_notin_butlast [of "b # H"] by auto
    moreover from this d have "y \<noteq> m" using last_in_set [of C] by (cases "C = []") (auto simp: m_def)
    ultimately show "e_next (m_events t y) = e_next (m_events s2 y)" using tev [of y] s3(1) by auto
  qed (rule s2(2))
  have linkC: "links (m_events t) C"
  proof (subst links_cong [where h = "m_events s"])
    fix y assume y: "y \<in> set (butlast C)"
    then have "C \<noteq> []" by auto
    then have "y \<in> set C" "y \<noteq> last C" using y d distinct_last_notin_butlast [of C] by (auto dest: in_set_butlastD)
    moreover from this d \<open>C \<noteq> []\<close> have "y \<notin> set (b # H)" "y \<noteq> m" "A = [] \<or> y \<noteq> last A"
      using last_in_set [of A] by (auto simp: m_def disjoint_iff)
    ultimately show "e_next (m_events t y) = e_next (m_events s y)" using tev [of y] e3 [of y] by simp
  qed (rule lA(2))
  have linkD: "links (m_events t) D"
  proof (cases "D = []")
    case False
    have "m \<in> set (A @ (b # H) @ C)" unfolding m_def by (intro last_in_set) simp
    then have "m \<notin> set D" using d by auto
    then have "links (m_events t) D = links (m_events (link_run D s3)) D"
      using False by (intro links_cong) (auto simp: t_def dest: in_set_butlastD)
    then show ?thesis using link_run_links [of D s3] d by simp
  qed simp
  have junctions: "A \<noteq> [] \<Longrightarrow> e_next (m_events t (last A)) = Some b"
    "C \<noteq> [] \<Longrightarrow> e_next (m_events t (last (b # H))) = Some (hd C)"
    "D \<noteq> [] \<Longrightarrow> e_next (m_events t (m)) = Some (hd D)"
  proof -
    have D: "m_events (link_run D s3) y = m_events s2 y" if "y \<in> set (A @ (b # H) @ C)" for y
    proof -
      have "y \<notin> set D" using that d by auto
      from run [OF this] s3(1) show ?thesis by simp
    qed
    have t: "e_next (m_events t y) = e_next (m_events s2 y)"
      if "y \<in> set (A @ (b # H) @ C)" "D = [] \<or> y \<noteq> m" for y
      using tev [OF that] s3(1) by simp
    { assume A: "A \<noteq> []"
      then have l: "last A \<in> set A" by simp
      then have n: "last A \<notin> set (b # H)" "last A \<noteq> m"
        using d last_in_set [of "(b # H) @ C"] by (auto simp: m_def)
      show "e_next (m_events t (last A)) = Some b" using t [of "last A"] l n s2(5) [OF n(1)] s1(1) [OF A] by simp }
    { assume C: "C \<noteq> []"
      have l: "last (b # H) \<in> set (b # H)" by (rule last_in_set) simp
      then have "last (b # H) \<noteq> m" using C d last_in_set [OF C] by (auto simp: m_def)
      then show "e_next (m_events t (last (b # H))) = Some (hd C)"
        using t [of "last (b # H)"] l lastB qC [OF C] by simp }
    { assume "D \<noteq> []"
      then show "e_next (m_events t (m)) = Some (hd D)" by (simp add: t_def) }
  qed
  have lt: "links (m_events t) zs"
    using linkA linkB linkC linkD junctions unfolding zs_def links_append m_def
    by (cases "C = []"; cases "D = []") simp_all
  have le: "et_llist_write r es s = Some (int (length es),
      upd_list r (\<lambda>l. l\<lparr>l_events_in := l_events_in l + word_of_int (int (length es)),
          l_cnt := l_cnt l + int (length es)\<rparr>) t)"
  proof -
    have b: "pri_of b s \<noteq> ET_LOW" "\<not> cnt_of r s = 0" using hi cnt ne by (simp_all del: append_is_Nil_conv length_append)
    have n: "\<not> int (length es) > nevents s - cnt_of r s" using room cnt by (simp add: es_def)
    have s1': "(case ?lh of Some lh \<Rightarrow> put_next lh (Some (hd es)) (put_next (hd es) (next_of lh s) s)
      | None \<Rightarrow> put_first r (Some (hd es)) (put_next (hd es) (first_of r s) s)) = s1"
      by (simp add: s1_def es_def)
    have l: "D \<noteq> [] \<Longrightarrow> last_of r (link_run D s3) = Some m" using s3(2) unfolding m_def by simp
    have e: "hd es = b" "tl es = H @ D" "take (nat (int (length es))) es = es" by (simp_all add: es_def)
    define lb where "lb = last (b # H)"
    have s2': "link_highs b (H @ D) ?q s1 = (lb, D, s2)" using s2(1) by (simp add: lb_def)
    have s3': "(if int (length A) = cnt_of r s2 then put_last r (Some lb) s2 else s2) = s3"
      by (simp add: s3_def lb_def)
    show ?thesis
    proof (cases "D = []")
      case True
      with b n find s1' s2' show ?thesis
        unfolding et_llist_write_def by (simp add: e t_def s3' Let_def)
    next
      case False
      with b n find s1' s2' l show ?thesis
        unfolding et_llist_write_def by (simp add: e t_def s3' Let_def)
    qed
  qed
  have "last_of r t = Some (last zs)" "cnt_of r t = cnt_of r s" "l_mutex (glist r t) = l_mutex (glist r s)"
      "first_of r t = Some (hd zs)"
    using s3 by (auto simp: t_def zs_def es_def hd_append)
  moreover have "frame r (set zs) s t"
    unfolding t_def using s3(6) last_in_set [of "A @ (b # H) @ C"] unfolding m_def [symmetric]
    by (auto intro!: frame_upd frame_link_run simp: zs_def)
  moreover have "e_owner (m_events t x) = e_owner (m_events s x)" for x
    by (simp add: t_def s3(1) s2(6) s1(8))
  ultimately show ?thesis using lt le unfolding es_def by blast
qed

text \<open>Appending a run of events to a list.\<close>

lemma appended_links:
  assumes ch: "chain (m_events s) p xs" and d: "distinct xs"
    and es: "distinct es" "set xs \<inter> set es = {}" "es \<noteq> []"
  shows "links (m_events (link_run es (if xs = [] then put_first r (Some (hd es)) s
      else put_next (last xs) (Some (hd es)) s))) (xs @ es)" (is "links (m_events (link_run es ?s1)) _")
proof -
  let ?t = "link_run es ?s1"
  have "links (m_events ?t) es" using link_run_links [OF es(1)] by simp
  moreover have keep: "m_events ?t y = m_events ?s1 y" if "y \<in> set xs" for y
    using that es(2) by (intro link_run_other) (auto dest: in_set_butlastD)
  have "links (m_events ?t) xs = links (m_events s) xs"
  proof (rule links_cong)
    fix y assume y: "y \<in> set (butlast xs)"
    then have "xs \<noteq> []" by auto
    with y have "y \<in> set xs" "y \<noteq> last xs"
      using distinct_last_notin_butlast [OF d] by (auto dest: in_set_butlastD)
    then show "e_next (m_events ?t y) = e_next (m_events s y)" using keep [of y] by simp
  qed
  moreover have "e_next (m_events ?t (last xs)) = Some (hd es)" if "xs \<noteq> []"
    using keep [of "last xs"] that by simp
  ultimately show ?thesis using ch by (auto simp: links_append chain_links)
qed

lemma frame_mono: "frame r E s t \<Longrightarrow> E \<subseteq> F \<Longrightarrow> frame r F s t"
  by (auto simp: frame_def)

lemma et_llist_write_ok:
  assumes xs: "pri_list s r xs" and es: "loose s es" "set xs \<inter> set es = {}" "es \<noteq> []"
    and room: "int (length xs + length es) \<le> nevents s"
  defines "hi \<equiv> high (m_events s)"
  shows "\<exists>t. et_llist_write r es s = Some (int (length es), t)
     \<and> pri_list t r (highs hi xs @ highs hi es @ lows hi xs @ lows hi es)
     \<and> frame r (set xs \<union> set es) s t \<and> l_mutex (glist r t) = l_mutex (glist r s)"
proof -
  let ?A = "highs hi xs" and ?B = "highs hi es" and ?C = "lows hi xs" and ?D = "lows hi es"
  let ?zs = "?A @ ?B @ ?C @ ?D" and ?E = "set xs \<union> set es"
  let ?fin = "upd_list r (\<lambda>l. l\<lparr>l_events_in := l_events_in l + word_of_int (int (length es)),
      l_cnt := l_cnt l + int (length es)\<rparr>)"
  have x: "xs = ?A @ ?C" "cnt_of r s = int (length xs)" "chain (m_events s) (first_of r s) xs"
    "xs \<noteq> [] \<Longrightarrow> last_of r s = Some (last xs)" "distinct xs"
    using pri_listD [OF xs] by (simp_all add: hi_def)
  have e: "es = ?B @ ?D" "distinct es" using es(1) by (simp_all add: loose_def hi_def pri_sorted_split)
  have num: "\<not> int (length es) > nevents s - cnt_of r s" using room x(2) by simp
  have fin: ?thesis if "et_llist_write r es s = Some (int (length es), ?fin t)" "frame r ?E s t"
    "links (m_events t) ?zs" "first_of r t = Some (hd ?zs)" "last_of r t = Some (last ?zs)"
    "cnt_of r t = cnt_of r s" "\<And>x. e_owner (m_events t x) = e_owner (m_events s x)"
    "l_mutex (glist r t) = l_mutex (glist r s)" for t
  proof -
    have "pri_list (?fin t) r ?zs"
      using that by (intro pri_listI [OF xs es(1,2) refl [of ?zs, unfolded hi_def], folded hi_def])
        (auto intro!: frame_upd simp: es(3))
    with that show ?thesis by (auto intro!: exI [of _ "?fin t"] frame_upd)
  qed
  show ?thesis
  proof (cases "pri_of (hd es) s = ET_LOW \<or> cnt_of r s = 0")
    case True
    have D: "?A @ ?B @ ?C @ ?D = xs @ es"
    proof (cases "xs = []")
      case False
      with True x(2) have "\<not> hi (hd es)" by (simp add: hi_def)
      moreover have "hi (hd es)" if "?B \<noteq> []"
        using that e(1) hd_in_set [OF that] by (simp add: hd_append [of ?B ?D, folded e(1)])
      ultimately have "?B = []" by blast
      then show ?thesis using x(1) e(1) by simp
    qed (use e(1) in simp)
    define s1 where "s1 = (if xs = [] then put_first r (Some (hd es)) s else put_next (last xs) (Some (hd es)) s)"
    have s1: "xs \<noteq> [] \<Longrightarrow> e_next (m_events s1 (last xs)) = Some (hd es)"
      "\<And>y. y \<notin> {last xs} \<Longrightarrow> e_next (m_events s1 y) = e_next (m_events s y)"
      "first_of r s1 = Some (hd (xs @ es))" "cnt_of r s1 = cnt_of r s" "l_mutex (glist r s1) = l_mutex (glist r s)"
      "\<And>x. e_owner (m_events s1 x) = e_owner (m_events s x)" "frame r ?E s s1"
      using x(3) by (auto simp: s1_def chain_links es(3) intro!: frame_upd)
    let ?t = "put_last r (Some (last es)) (link_run es s1)"
    have "et_llist_write r es s = Some (int (length es), ?fin ?t)"
      using True num x(2,4) es(3) by (cases "xs = []") (simp_all add: et_llist_write_def Let_def s1_def)
    moreover have "links (m_events ?t) (xs @ es)"
      using appended_links [OF x(3,5) e(2) es(2,3), of r] by (simp add: s1_def)
    ultimately show ?thesis
      using s1 by (intro fin [of ?t]) (auto simp: D es(3) intro!: frame_upd frame_link_run)
  next
    case False
    have ne: "xs \<noteq> []" using False x(2) by auto
    have "hi (hd es)" using False es(1,3) hd_in_set [OF es(3)] by (auto simp: loose_def hi_def)
    then obtain b H where B: "?B = b # H" using e(1) es(3) by (cases es) auto
    have hi: "\<forall>a \<in> set (?A @ b # H). pri_of a s = ET_HIGH" unfolding B [symmetric] by (auto simp: hi_def)
    have lo: "\<forall>c \<in> set (?C @ ?D). pri_of c s \<noteq> ET_HIGH" by (auto simp: hi_def)
    have d: "distinct (?A @ (b # H) @ ?C @ ?D)"
      using x(5) e(2) es(2) unfolding B [symmetric] by (auto simp: highs_def lows_def)
    have X: "?A @ ?C = xs" and E: "b # H @ ?D = es" "(b # H) @ ?D = es" using x(1) e(1) B by simp_all
    from et_llist_write_high [of r s ?A ?C b H ?D, unfolded X E, OF x(2) _ ne _ d hi lo] x ne room
    obtain t where t: "et_llist_write r es s = Some (int (length es), ?fin t)"
      "frame r (set (?A @ (b # H) @ ?C @ ?D)) s t" "links (m_events t) (?A @ (b # H) @ ?C @ ?D)"
      "first_of r t = Some (hd (?A @ (b # H) @ ?C @ ?D))" "last_of r t = Some (last (?A @ (b # H) @ ?C @ ?D))"
      "cnt_of r t = cnt_of r s" "\<forall>x. e_owner (m_events t x) = e_owner (m_events s x)"
      "l_mutex (glist r t) = l_mutex (glist r s)" by blast
    have "frame r ?E s t" using t(2) unfolding B [symmetric]
      by (rule frame_mono) auto
    with t(1,3-8) show ?thesis unfolding B [symmetric] by (intro fin [of t]) auto
  qed
qed

text \<open>The same for an input list that is not ordered: the events are appended.\<close>

lemma et_llist_write_gc_ok:
  assumes xs: "ev_list s (ListIn ET_GRANDCENTRAL) xs" and es: "distinct es" "set xs \<inter> set es = {}" "es \<noteq> []"
    and owner: "\<forall>e \<in> set es. e_owner (m_events s e) = ET_SYS"
    and room: "int (length xs + length es) \<le> nevents s"
  shows "\<exists>t. et_llist_write_gc es s = Some (ET_OK, t) \<and> ev_list t (ListIn ET_GRANDCENTRAL) (xs @ es)
     \<and> frame (ListIn ET_GRANDCENTRAL) (set xs \<union> set es) s t
     \<and> l_mutex (glist (ListIn ET_GRANDCENTRAL) t) = l_mutex (glist (ListIn ET_GRANDCENTRAL) s)"
proof -
  let ?r = "ListIn ET_GRANDCENTRAL"
  have x: "cnt_of ?r s = int (length xs)" "chain (m_events s) (first_of ?r s) xs"
    "xs \<noteq> [] \<Longrightarrow> last_of ?r s = Some (last xs)" "distinct xs"
    using xs by (simp_all add: ev_list_def)
  define s1 where "s1 = (if xs = [] then put_first ?r (Some (hd es)) s else put_next (last xs) (Some (hd es)) s)"
  let ?t = "upd_list ?r (\<lambda>l. l\<lparr>l_lastevent := Some (last es),
         l_events_in := l_events_in l + word_of_int (int (length es)), l_cnt := l_cnt l + int (length es)\<rparr>) (link_run es s1)"
  have "et_llist_write_gc es s = Some (ET_OK, ?t)"
    using x(1,3) room by (cases "xs = []") (simp_all add: et_llist_write_gc_def Let_def s1_def)
  moreover have "frame ?r (set xs \<union> set es) s ?t"
    by (auto simp: s1_def es(3) intro!: frame_upd frame_link_run)
  moreover have "links (m_events ?t) (xs @ es)"
    using appended_links [OF x(2,4) es] by (simp add: s1_def)
  moreover have "first_of ?r ?t = Some (hd (xs @ es))"
    using x(2) by (auto simp: s1_def chain_links es(3))
  ultimately show ?thesis
    using xs es owner by (intro exI [of _ ?t]) (auto simp: ev_list_def chain_links s1_def)
qed


end
