(* ===== verification/Et_Restore.thy ===== *)
theory Et_Restore
  imports Et_LlistSpec Et_StationWrite Et_StationRead
begin

text \<open>
  Recovering events that a detaching or dead attachment leaves behind
  (\<^verbatim>\<open>et_restore\<close>, \<^verbatim>\<open>et_restore_in\<close>, \<^verbatim>\<open>et_flush_events\<close> and \<^verbatim>\<open>et_restore_events\<close> of
  \<^verbatim>\<open>et_readwrite.c\<close>).  \<^verbatim>\<open>et_restore\<close> runs with the mutex of the list taken and records nothing
  for a repair, so it is a function on the memory; it is embedded in the crashable programs of
  the routines that call it with \<open>atomically\<close>.
\<close>

section \<open>The routines\<close>

definition atomically :: "(et_mem \<Rightarrow> ('a \<times> et_mem) option) \<Rightarrow> 'a cmd" where
  "atomically f s = (case f s of None \<Rightarrow> ([], Fault) | Some (a, t) \<Rightarrow> ([t], Done a t))"

text \<open>
  Linking the events \<open>pe\<close> into the list: \<open>lh\<close> and \<open>fl\<close> are the last high and the first low
  priority event already there (\<^verbatim>\<open>plasthigh\<close>, \<^verbatim>\<open>pfirstlow\<close>).
\<close>

definition restore_link :: "listref \<Rightarrow> nat list \<Rightarrow> eptr \<Rightarrow> eptr \<Rightarrow> et_mem \<Rightarrow> et_mem option" where
  "restore_link r pe lh fl s =
    (if cnt_of r s = 0
     then Some (put_last r (Some (last pe)) (put_first r (Some (hd pe)) (link_run pe s)))
     else if pri_of (hd pe) s = ET_LOW then let s1 = link_run pe s in
       (case fl of
          None \<Rightarrow> do { plast \<leftarrow> last_of r s;
                      Some (put_last r (Some (last pe)) (put_next plast (Some (hd pe)) s1)) }
        | Some f \<Rightarrow> Some (put_next (last pe) (Some f)
            (case lh of Some h \<Rightarrow> put_next h (Some (hd pe)) s1 | None \<Rightarrow> put_first r (Some (hd pe)) s1)))
     else let pfirst = first_of r s;
              s1 = put_first r (Some (hd pe)) (put_next (hd pe) pfirst s);
              (e, lows, s2) = link_highs (hd pe) (tl pe) pfirst s1
       in if lows = [] then Some s2
          else let s3 = link_run lows s2 in
           (case fl of
              None \<Rightarrow> do { plast \<leftarrow> last_of r s;
                          Some (put_last r (Some (last pe)) (put_next plast (Some (hd lows)) s3)) }
            | Some f \<Rightarrow> Some (put_next (last pe) (Some f)
                (put_next (case lh of Some h \<Rightarrow> h | None \<Rightarrow> e) (Some (hd lows)) s3))))"

text \<open>
  The result is the status and \<^verbatim>\<open>*numwritten\<close>, which a list that is full already leaves alone.
  \<open>own\<close> tells \<^verbatim>\<open>et_restore\<close>, which gives the events back to the system, from \<^verbatim>\<open>et_restore_in\<close>.
\<close>

definition restore_list :: "bool \<Rightarrow> listref \<Rightarrow> nat list \<Rightarrow> et_mem \<Rightarrow> ((int \<times> int option) \<times> et_mem) option" where
  "restore_list own r pe0 s = (let c = cnt_of r s in
     if c \<ge> nevents s then Some ((ET_ERROR, None), s)
     else let num = (if int (length pe0) > nevents s - c then nevents s - c else int (length pe0));
              pe = take (nat num) pe0
     in do {
       (lh, p, high_cnt) \<leftarrow> (if c = 0 then Some (None, None, 0) else find_high (nat c) None (first_of r s) 0 s);
       s' \<leftarrow> restore_link r pe lh (if high_cnt = c then None else p) (if own then own_by ET_SYS pe s else s);
       Some ((ET_OK, Some num), upd_os (CondBroadcast r) (upd_list r (l_cnt_update (\<lambda>n. n + num)) s')) })"

definition et_restore :: "listref \<Rightarrow> nat list \<Rightarrow> et_mem \<Rightarrow> ((int \<times> int option) \<times> et_mem) option" where
  "et_restore = restore_list True"

definition et_restore_in :: "et_stat_id \<Rightarrow> nat list \<Rightarrow> et_mem \<Rightarrow> ((int \<times> int option) \<times> et_mem) option" where
  "et_restore_in st = restore_list False (ListIn st)"

text \<open>
  The station in front of a group of parallel stations: the first station of the group is
  reached over \<^verbatim>\<open>prevparallel\<close>.  The loop ends when these links do; \<open>n\<close> is the number of
  stations that may be visited.
\<close>

fun first_parallel :: "nat \<Rightarrow> et_stat_id \<Rightarrow> et_mem \<Rightarrow> et_stat_id option" where
  "first_parallel n st s =
     (if s_prevparallel (m_stats s st) > -1
      then case n of 0 \<Rightarrow> None | Suc n' \<Rightarrow> first_parallel n' (s_prevparallel (m_stats s st)) s
      else Some st)"

declare first_parallel.simps [simp del]

definition prev_of_group :: "nat \<Rightarrow> et_stat_id \<Rightarrow> et_mem \<Rightarrow> et_stat_id option" where
  "prev_of_group n st s = map_option (\<lambda>f. s_prev (m_stats s f)) (first_parallel n st s)"

abbreviation restore_mode_of :: "et_stat_id \<Rightarrow> et_mem \<Rightarrow> int" where
  "restore_mode_of st s \<equiv> c_restore_mode (s_config (m_stats s st))"

text \<open>The bound of the search is the number of stations the system has room for.\<close>

definition redistribute :: "et_stat_id \<Rightarrow> nat list \<Rightarrow> int cmd" where
  "redistribute st pe =
     deref (\<lambda>s. prev_of_group (nat (y_nstations (sy_config (m_sys s)))) st s)
       (\<lambda>prev. bindp (atomically (et_restore (ListOut prev) pe)) (\<lambda>c. ret (fst c)))"

definition et_flush_events :: "et_att_id \<Rightarrow> et_stat_id \<Rightarrow> wake list \<Rightarrow> unit cmd" where
  "et_flush_events att st ws =
     (if st = ET_GRANDCENTRAL then skip
      else load nevents (\<lambda>n. bindp (et_station_nread st ET_ASYNC att ws n) (\<lambda>(status, pe).
        if status < 0 then skip
        else cond (\<lambda>s. restore_mode_of st s = ET_STATION_RESTORE_REDIST)
          (bindp (redistribute st pe) (\<lambda>_. skip))
          (bindp (et_station_nwrite st pe) (\<lambda>_. skip)))))"

section \<open>Events of an attachment\<close>

text \<open>The temporary events among these are unlinked or removed.\<close>

abbreviation is_temp :: "nat \<Rightarrow> et_mem \<Rightarrow> bool" where
  "is_temp e s \<equiv> e_temp (m_events s e) = ET_EVENT_TEMP"

definition free_temps :: "nat list \<Rightarrow> unit cmd" where
  "free_temps es = block (map (\<lambda>e. whenp (is_temp e)
     (block [load id (\<lambda>s. store (upd_os (if m_cleanup s = 1 then Unlink (e_filename (m_events s e))
                                          else TempRemove (e_filename (m_events s e))))),
             store (\<lambda>s. s\<lparr>m_sys := (m_sys s)\<lparr>sy_ntemps := sy_ntemps (m_sys s) - 1\<rparr>\<rparr>)] skip)) es) skip"

definition unmap_temps :: "nat list \<Rightarrow> unit cmd" where
  "unmap_temps es = whenp (\<lambda>s. m_cleanup s \<noteq> 1) (block (map (\<lambda>e. whenp (is_temp e)
     (load id (\<lambda>s. store (upd_os (Munmap (e_filename (m_events s e))))))) es) skip)"

definition mark_corrupt :: "nat list \<Rightarrow> unit cmd" where
  "mark_corrupt es =
     block (map (\<lambda>e. store (upd_event e (e_datastatus_update (\<lambda>_. ET_DATA_POSSIBLY_CORRUPT)))) es) skip"

text \<open>
  The loop over all events that collects the ones of the attachment, new ones and used ones
  apart; the used ones are given to the system on the way.
\<close>

fun collect :: "et_att_id \<Rightarrow> nat list \<Rightarrow> (nat list \<times> nat list) cmd" where
  "collect att [] = ret ([], [])"
| "collect att (e # es) =
     cond (\<lambda>s. e_owner (m_events s e) = att)
       (cond (\<lambda>s. e_age (m_events s e) = ET_EVENT_NEW)
         (bindp (collect att es) (\<lambda>(new, used). ret (e # new, used)))
         (andthen (set_owner e ET_SYS)
           (bindp (collect att es) (\<lambda>(new, used). ret (new, e # used)))))
       (collect att es)"

definition order_events :: "nat list \<Rightarrow> et_mem \<Rightarrow> nat list" where
  "order_events es s = filter (\<lambda>e. pri_of e s = ET_HIGH) es @ filter (\<lambda>e. pri_of e s \<noteq> ET_HIGH) es"

text \<open>
  \<open>numwritten0\<close> is what the variable \<^verbatim>\<open>num_written\<close>, which is not initialised, holds: it is
  read when the input list is full and \<^verbatim>\<open>et_restore\<close> has not set it.
\<close>

definition restore_used :: "et_stat_id \<Rightarrow> int \<Rightarrow> nat list \<Rightarrow> int cmd" where
  "restore_used st numwritten0 ordered =
     load (restore_mode_of st) (\<lambda>mode.
     if mode = ET_STATION_RESTORE_GC \<or> st = ET_GRANDCENTRAL
     then andthen (free_temps ordered) (et_station_ndump ordered)
     else load (\<lambda>s. d_nattachments (s_data (m_stats s st))) (\<lambda>natt.
       if mode = ET_STATION_RESTORE_OUT \<or> mode = ET_STATION_RESTORE_IN \<and> natt = 0
       then block [unmap_temps ordered, mark_corrupt ordered] (et_station_nwrite st ordered)
       else if mode = ET_STATION_RESTORE_IN
       then block [unmap_temps ordered, mark_corrupt ordered]
         (bindp (atomically (et_restore (ListIn st) ordered)) (\<lambda>(status, written).
           let w = (case written of Some n \<Rightarrow> n | None \<Rightarrow> numwritten0) in
           if w < int (length ordered) then et_station_nwrite st (drop (nat w) ordered)
           else ret status))
       else if mode = ET_STATION_RESTORE_REDIST
       then block [unmap_temps ordered, mark_corrupt ordered] (redistribute st ordered)
       else ret ET_ERROR))"

definition et_restore_events :: "et_att_id \<Rightarrow> et_stat_id \<Rightarrow> int \<Rightarrow> int cmd" where
  "et_restore_events att st numwritten0 =
     load nevents (\<lambda>n. bindp (collect att [0..<nat n]) (\<lambda>(new, used).
       if used = [] \<and> new = [] then ret ET_OK
       else load (order_events used) (\<lambda>ordered.
         bindp (if new = [] then ret ET_OK else andthen (free_temps new) (et_station_ndump new)) (\<lambda>status.
           if used = [] then ret status else restore_used st numwritten0 ordered))))"

end
