(* ===== verification/Et_Kept.thy ===== *)
theory Et_Kept
  imports Et_Restore
begin

text \<open>
  What the routines of \<^verbatim>\<open>et_readwrite.c\<close> leave alone.  A relation between two memories that every
  assignment to a list, an event or an attachment keeps (\<open>list_relation\<close>) relates the memory before
  each of these routines to the memory at every point inside and after it.  One such relation is
  that the stations, their configuration, their attachments and their links are the same.
\<close>

section \<open>Relations that every assignment of a program keeps\<close>

definition outcome_in :: "('s \<Rightarrow> bool) \<Rightarrow> ('a, 's) outcome \<Rightarrow> bool" where
  "outcome_in P r = (case r of Done a t \<Rightarrow> P t | Blocked t \<Rightarrow> P t | Exited t \<Rightarrow> P t | Fault \<Rightarrow> True)"

definition always :: "('s \<Rightarrow> 's \<Rightarrow> bool) \<Rightarrow> ('s, 'a) prog \<Rightarrow> bool" where
  "always R m \<longleftrightarrow> (\<forall>s. (\<forall>t \<in> set (fst (m s)). R s t) \<and> outcome_in (R s) (snd (m s)))"

lemma always_done: "always R m \<Longrightarrow> m s = (l, Done a t) \<Longrightarrow> R s t"
  by (auto simp: always_def outcome_in_def dest!: spec [of _ s])

text \<open>What links events only.\<close>

locale link_relation =
  fixes R :: "et_mem \<Rightarrow> et_mem \<Rightarrow> bool"
  assumes refl: "R s s"
    and trans: "R s t \<Longrightarrow> R t u \<Longrightarrow> R s u"
    and linked: "R s (upd_event e (e_next_update n) s)"
begin

lemma rel_link_run: "R s (link_run es s)"
proof (induction es s rule: link_run.induct)
  case (1 a b es s)
  show ?case unfolding link_run.simps(1) by (rule trans [OF linked 1])
qed (simp_all add: refl)

lemma rel_link_highs: "link_highs e es p s = (e', lw, t) \<Longrightarrow> R s t"
proof (induction e es p s rule: link_highs.induct)
  case (2 e a es p s)
  show ?case
  proof (cases "pri_of a s \<noteq> ET_HIGH")
    case False
    then have "R (put_next a p (put_next e (Some a) s)) t" using 2 by simp
    then show ?thesis using trans [OF linked] trans [OF linked] by blast
  qed (use 2 in \<open>simp add: refl\<close>)
qed (simp add: refl)

lemma rel_llist_write:
  assumes w: "et_llist_write r pe s = Some (n, t)" and r: "\<And>f s. R s (upd_list r f s)"
  shows "R s t"
proof -
  note up = trans [OF _ r] trans [OF _ linked] trans [OF _ rel_link_run]
  show ?thesis
proof (cases "pri_of (hd pe) s = ET_LOW \<or> cnt_of r s = 0")
  case True
  show ?thesis
  proof -
    define num where "num = (if int (length pe) > nevents s - cnt_of r s then nevents s - cnt_of r s else int (length pe))"
    define es where "es = take (nat num) pe"
    define start where "start = (if cnt_of r s = 0 then Some (put_first r (Some (hd es)) s)
        else do { l \<leftarrow> last_of r s; Some (put_next l (Some (hd es)) s) })"
    have "do { y \<leftarrow> (if num < 1 then None else do { s1 \<leftarrow> start; Some (put_last r (Some (last es)) (link_run es s1)) });
        Some (num, upd_list r (\<lambda>l. l\<lparr>l_events_in := l_events_in l + word_of_int num, l_cnt := l_cnt l + num\<rparr>) y) } = Some (n, t)"
      using w unfolding et_llist_write_def Let_def num_def [symmetric] es_def [symmetric] start_def [symmetric] if_P [OF True] .
    then obtain s1 where s1: "start = Some s1"
      "t = upd_list r (\<lambda>l. l\<lparr>l_events_in := l_events_in l + word_of_int num, l_cnt := l_cnt l + num\<rparr>)
         (put_last r (Some (last es)) (link_run es s1))"
      by (cases start; cases "num < 1") simp_all
    have "R s s1" using s1(1) unfolding start_def by (auto split: if_splits bind_splits intro: r linked)
    then show ?thesis unfolding s1(2) by (intro up)
  qed
next
  case False
  define num where "num = (if int (length pe) > nevents s - cnt_of r s then nevents s - cnt_of r s else int (length pe))"
  define es where "es = take (nat num) pe"
  define F where "F = find_high (nat (cnt_of r s)) None (first_of r s) 0 s"
  define start where "start lh = (case lh of Some lh \<Rightarrow> put_next lh (Some (hd pe)) (put_next (hd pe) (next_of lh s) s)
             | None \<Rightarrow> put_first r (Some (hd pe)) (put_next (hd pe) (first_of r s) s))" for lh
  have "do { y \<leftarrow> do { (lh, p, hc) \<leftarrow> F;
        let (e, lw, s2) = link_highs (hd pe) (tl es) p (start lh);
            s3 = (if hc = cnt_of r s2 then put_last r (Some e) s2 else s2)
        in if lw = [] then Some s3
           else do { l \<leftarrow> last_of r (link_run lw s3);
                     Some (put_last r (Some (last es)) (put_next l (Some (hd lw)) (link_run lw s3))) } };
      Some (num, upd_list r (\<lambda>l. l\<lparr>l_events_in := l_events_in l + word_of_int num, l_cnt := l_cnt l + num\<rparr>) y) } = Some (n, t)"
    using w unfolding et_llist_write_def Let_def num_def [symmetric] es_def [symmetric] start_def [symmetric]
      F_def [symmetric] if_not_P [OF False] .
  then obtain lh p hc y where F: "F = Some (lh, p, hc)" and y: "(let (e, lw, s2) = link_highs (hd pe) (tl es) p (start lh);
            s3 = (if hc = cnt_of r s2 then put_last r (Some e) s2 else s2)
        in if lw = [] then Some s3
           else do { l \<leftarrow> last_of r (link_run lw s3);
                     Some (put_last r (Some (last es)) (put_next l (Some (hd lw)) (link_run lw s3))) }) = Some y"
      "t = upd_list r (\<lambda>l. l\<lparr>l_events_in := l_events_in l + word_of_int num, l_cnt := l_cnt l + num\<rparr>) y"
    by (cases F) (auto simp only: Option.bind_eq_Some_conv option.inject prod.inject option.simps Option.bind.simps prod.case)
  obtain e lw s2 where l: "link_highs (hd pe) (tl es) p (start lh) = (e, lw, s2)" by (metis prod_cases3)
  have "R s (start lh)" by (cases lh) (auto simp: start_def intro!: up refl)
  then have s2: "R s s2" using trans rel_link_highs [OF l] by blast
  have "R s y"
    using y(1) s2 unfolding l Let_def prod.case
    by (cases "lw = []"; cases "last_of r s2") (auto split: if_splits intro!: up)
  then show ?thesis unfolding y(2) by (rule up)
qed
qed

end

text \<open>What the routines that write to a list and those that repair one assign.\<close>

locale write_relation = link_relation +
  assumes upd: "R s (upd_list r f s)" "R s (upd_event e g s)" "R s (upd_fixin st i s)" "R s (upd_fixout st j s)"
      "R s (upd_os c s)"
begin

lemma always_store: "(\<And>s. R s (f s)) \<Longrightarrow> always R (store f)"
  by (simp add: always_def outcome_in_def store_def)

lemma always_now: "always R (ret a)" "always R fault" "always R blocked" "always R exited"
  by (simp_all add: always_def outcome_in_def ret_def fault_def blocked_def exited_def refl)

lemma always_load: "(\<And>x. always R (k x)) \<Longrightarrow> always R (load f k)"
  by (simp add: always_def load_def)

lemma always_cond: "always R m \<Longrightarrow> always R n \<Longrightarrow> always R (cond b m n)"
  by (simp add: always_def cond_def)

lemma always_deref: "(\<And>x. always R (k x)) \<Longrightarrow> always R (deref f k)"
  using always_now(2) by (auto simp: always_def deref_def split: option.splits)

lemma always_bind: "always R m \<Longrightarrow> (\<And>a. always R (k a)) \<Longrightarrow> always R (bindp m k)"
  unfolding always_def
proof
  fix s
  assume m: "\<forall>s. (\<forall>t \<in> set (fst (m s)). R s t) \<and> outcome_in (R s) (snd (m s))"
    and k: "\<And>a. \<forall>s. (\<forall>t \<in> set (fst (k a s)). R s t) \<and> outcome_in (R s) (snd (k a s))"
  show "(\<forall>t \<in> set (fst (bindp m k s)). R s t) \<and> outcome_in (R s) (snd (bindp m k s))"
  proof (cases "m s")
    case (Pair l r)
    then have l: "\<forall>t \<in> set l. R s t" "outcome_in (R s) r" using m [rule_format, of s] by simp_all
    show ?thesis
    proof (cases r)
      case (Done a t)
      then have st: "R s t" using l(2) by (simp add: outcome_in_def)
      obtain l' r' where kt: "k a t = (l', r')" by (cases "k a t")
      have "\<forall>u \<in> set l'. R s u" using k [of a] kt trans [OF st] by (metis fst_conv)
      moreover have "outcome_in (R s) r'"
        using k [of a, rule_format, of t] kt trans [OF st] by (cases r') (simp_all add: outcome_in_def)
      ultimately show ?thesis using Pair Done l(1) kt by (auto simp: bind_def)
    qed (use Pair l in \<open>simp_all add: bind_def outcome_in_def\<close>)
  qed
qed

lemma always_andthen: "always R m \<Longrightarrow> always R n \<Longrightarrow> always R (andthen m n)"
  by (simp add: andthen_def always_bind)

lemma always_block: "list_all (always R) ms \<Longrightarrow> always R k \<Longrightarrow> always R (block ms k)"
  by (induction ms) (simp_all add: always_andthen)

lemma always_when: "always R m \<Longrightarrow> always R (whenp b m)"
  by (simp add: whenp_def always_cond always_now)

lemmas always_rules = always_store always_now always_load always_cond always_deref always_bind
  always_andthen always_block always_when

lemmas always_intros = always_store always_now always_load always_cond always_deref always_bind
  always_andthen always_block always_when upd

text \<open>What the other threads do while a routine waits.\<close>

abbreviation "envs_in ws \<equiv> \<forall>(status, env) \<in> set ws. \<forall>s. R s (env s)"

lemma always_locks: "always R (et_llist_lock r)" "always R (et_llist_unlock r)"
  by (auto simp: et_llist_lock_def et_llist_unlock_def intro!: always_intros)

lemma always_fix: "always R (open_fixout st n)" "always R (close_fixout st)" "always R (open_fixin_read st n)"
  "always R (open_fixin_nread st n)" "always R (open_fixin_dump n)" "always R close_fixin_dump"
  by (auto simp: open_fixout_def close_fixout_def open_fixin_read_def open_fixin_nread_def open_fixin_dump_def
      close_fixin_dump_def Let_def intro!: always_intros always_locks)

lemma always_nwrite_loop: "always R (nwrite_loop r pl lh es)"
  by (induction r pl lh es rule: nwrite_loop.induct) (auto intro!: always_intros split: option.splits)

lemma always_nwriteNoPri_loop: "always R (nwriteNoPri_loop r pl es)"
  by (induction r pl es rule: nwriteNoPri_loop.induct) (auto intro!: always_intros)

lemma always_step_next: "always R (step_next n p)"
  by (induction n p rule: step_next.induct) (auto intro!: always_intros)

lemma always_find_lasthigh: "always R (find_lasthigh r)"
  unfolding find_lasthigh_def by (intro always_intros always_step_next)

lemma always_link_high: "always R (link_high r e lh)"
  by (auto simp: link_high_def intro!: always_intros split: option.splits)

theorem always_write: "always R (et_station_write st e)"
  by (auto simp: et_station_write_def Let_def intro!: always_intros always_locks always_fix always_find_lasthigh always_link_high)

theorem always_nwrite: "always R (et_station_nwrite st pe)"
  by (cases pe) (auto simp: et_station_nwrite_def Let_def intro!: always_intros always_locks always_fix
      always_find_lasthigh always_nwrite_loop simp del: nwrite_loop.simps)

theorem always_nwriteNoPri: "always R (et_station_nwriteNoPri st pe)"
  by (cases pe) (auto simp: et_station_nwriteNoPri_def Let_def intro!: always_intros always_locks always_fix
      always_nwriteNoPri_loop)

theorem always_dump: "always R (et_station_dump e)"
  by (auto simp: et_station_dump_def Let_def intro!: always_intros always_locks always_fix)

theorem always_ndump: "always R (et_station_ndump pe)"
  by (cases pe) (auto simp: et_station_ndump_def Let_def intro!: always_intros always_locks always_fix
      always_nwriteNoPri_loop)

end

text \<open>What the other routines of \<^verbatim>\<open>et_readwrite.c\<close> assign.\<close>

locale list_relation = write_relation +
  assumes upd_more: "R s (upd_attach a k s)" "R s (upd_hist n s)"
      "R s (s\<lparr>m_sys := (m_sys s)\<lparr>sy_ntemps := sy_ntemps (m_sys s) - 1\<rparr>\<rparr>)"
begin

lemmas always_assigns = always_intros upd_more

lemma always_quit: "always R (quit_read r att)"
  by (auto simp: quit_read_def intro!: always_assigns always_locks)

lemma always_cond_wait: "(\<And>s. R s (env s)) \<Longrightarrow> always R (cond_wait r env)"
  by (auto simp: cond_wait_def intro!: always_assigns always_locks)

lemma always_wait_loop: "envs_in ws \<Longrightarrow> always R (wait_loop timed r att ws)"
  by (induction timed r att ws rule: wait_loop.induct)
    (auto intro!: always_assigns always_locks always_cond_wait always_quit)

lemma always_count_hist: "always R (count_hist st)"
  by (auto simp: count_hist_def intro!: always_assigns)

lemma always_read_begin: "envs_in ws \<or> mode = ET_ASYNC \<Longrightarrow> always R (read_begin st mode att ws)"
  by (auto simp: read_begin_def Let_def intro!: always_assigns always_locks always_wait_loop always_quit always_count_hist)

theorem always_read: "envs_in ws \<or> mode = ET_ASYNC \<Longrightarrow> always R (et_station_read st mode att ws)"
  by (auto simp: et_station_read_def Let_def intro!: always_assigns always_locks always_fix always_read_begin)

lemma always_nread_loop: "always R (nread_loop att n p)"
  by (induction att n p rule: nread_loop.induct) (auto intro!: always_assigns)

theorem always_nread: "envs_in ws \<or> mode = ET_ASYNC \<Longrightarrow> always R (et_station_nread st mode att ws n)"
  by (auto simp: et_station_nread_def Let_def intro!: always_assigns always_locks always_fix always_read_begin
      always_nread_loop)

lemma always_group_scan: "always R (group_scan r att g num k idx prev p)"
proof (induction k arbitrary: idx prev p)
  case (Suc k)
  show ?case
    unfolding group_scan.simps
    by (intro always_assigns) (auto simp: Suc.IH intro!: always_assigns split: option.split)
qed (simp add: always_now)

lemma always_group_take: "always R (group_take st att g n)"
  by (auto simp: group_take_def Let_def intro!: always_assigns always_locks always_fix always_group_scan)

lemma always_group_loop: "envs_in ws \<Longrightarrow> always R (group_loop timed st att g n scan ws)"
proof (induction timed st att g n scan ws rule: group_loop.induct)
  case (1 timed st att g n ws)
  then show ?case
    by (subst group_loop.simps, cases ws) (auto simp: Let_def intro!: always_assigns always_locks always_cond_wait always_quit always_group_take simp del: group_loop.simps)
next
  case (2 timed st att g n ws)
  then show ?case
    by (subst group_loop.simps, cases ws) (auto simp: Let_def intro!: always_assigns always_locks always_cond_wait always_quit always_group_take simp del: group_loop.simps)
qed

theorem always_nread_group: "envs_in ws \<or> mode = ET_ASYNC \<Longrightarrow> always R (et_station_nread_group st mode att ws n g)"
  by (auto simp: et_station_nread_group_def Let_def intro!: always_assigns always_locks always_count_hist
      always_group_loop always_read_begin always_group_take simp del: group_loop.simps)

text \<open>The routines that are functions on the memory.\<close>

lemma rel_own_by: "R s (own_by a es s)"
proof -
  have "R s (fold (\<lambda>e. upd_event e (e_owner_update (\<lambda>_. a))) es s)" for s
  proof (induction es arbitrary: s)
    case (Cons e es)
    show ?case by (simp, rule trans [OF upd(2) Cons])
  qed (simp add: refl)
  then show ?thesis by (simp add: own_by_def)
qed

lemma rel_restore_link:
  assumes "restore_link r pe lh fl s = Some t"
  shows "R s t"
proof -
  note up = trans [OF _ upd(1)] trans [OF _ upd(2)] rel_link_run
  show ?thesis
  proof (cases "cnt_of r s = 0 \<or> pri_of (hd pe) s = ET_LOW")
    case True
    then show ?thesis
      using assms by (auto simp: restore_link_def Let_def split: if_splits option.splits bind_splits intro!: up)
  next
    case False
    obtain e lw s2 where l: "link_highs (hd pe) (tl pe) (first_of r s)
        (put_first r (Some (hd pe)) (put_next (hd pe) (first_of r s) s)) = (e, lw, s2)"
      by (metis prod_cases3)
    have s2: "R s s2" by (rule trans [OF _ rel_link_highs [OF l]]) (intro up refl)
    then show ?thesis
      using assms False l
      by (auto simp: restore_link_def Let_def split: if_splits option.splits bind_splits intro!: up trans [OF s2])
  qed
qed

lemma rel_restore_list:
  assumes "restore_list own r pe s = Some (a, t)"
  shows "R s t"
proof (cases "cnt_of r s \<ge> nevents s")
  case True
  then show ?thesis using assms by (simp add: restore_list_def refl)
next
  case False
  then obtain lh fl s' n pe' where l: "restore_link r pe' lh fl (if own then own_by ET_SYS pe' s else s) = Some s'"
    "t = upd_os (CondBroadcast r) (upd_list r (l_cnt_update (\<lambda>k. k + n)) s')"
    using assms by (auto simp: restore_list_def Let_def split: if_splits bind_splits prod.splits)
  have "R s s'" by (rule trans [OF _ rel_restore_link [OF l(1)]]) (simp add: rel_own_by refl)
  then show ?thesis unfolding l(2) by (rule trans [OF trans [OF _ upd(1)] upd(5)])
qed

lemma always_restore: "always R (atomically (et_restore r pe))"
  unfolding always_def atomically_def et_restore_def
  by (auto simp: outcome_in_def split: option.split intro: rel_restore_list)

theorem always_redistribute: "always R (redistribute st pe)"
  unfolding redistribute_def by (intro always_assigns always_restore)

theorem always_flush: "always R (et_flush_events att st ws)"
  by (auto simp: et_flush_events_def intro!: always_assigns always_nread always_redistribute always_nwrite
      split: prod.split)

lemma always_collect: "always R (collect att es)"
  by (induction att es rule: collect.induct) (auto intro!: always_assigns)

lemma always_temps: "always R (free_temps es)" "always R (unmap_temps es)" "always R (mark_corrupt es)"
  by (auto simp: free_temps_def unmap_temps_def mark_corrupt_def list_all_iff intro!: always_assigns)

theorem always_restore_used: "always R (restore_used st w ordered)"
  unfolding restore_used_def
  by (auto intro!: always_assigns always_temps always_ndump always_nwrite always_restore always_redistribute
      simp: Let_def split: prod.split)

theorem always_restore_events: "always R (et_restore_events att st w)"
  unfolding et_restore_events_def
  by (intro always_load always_bind always_collect)
    (auto intro!: always_assigns always_temps always_ndump always_restore_used split: prod.split)

end

section \<open>The stations\<close>

text \<open>What concerns only the events leaves the stations and their lists of stations as they are.\<close>

definition same_stations :: "et_mem \<Rightarrow> et_mem \<Rightarrow> bool" where
  "same_stations s t \<longleftrightarrow> (\<forall>i. s_num (m_stats t i) = s_num (m_stats s i) \<and> s_name (m_stats t i) = s_name (m_stats s i)
       \<and> s_config (m_stats t i) = s_config (m_stats s i) \<and> s_data (m_stats t i) = s_data (m_stats s i)
       \<and> s_next (m_stats t i) = s_next (m_stats s i) \<and> s_prev (m_stats t i) = s_prev (m_stats s i)
       \<and> s_nextparallel (m_stats t i) = s_nextparallel (m_stats s i)
       \<and> s_prevparallel (m_stats t i) = s_prevparallel (m_stats s i))
     \<and> sy_stat_tail (m_sys t) = sy_stat_tail (m_sys s) \<and> sy_nstations (m_sys t) = sy_nstations (m_sys s)
     \<and> sy_config (m_sys t) = sy_config (m_sys s) \<and> m_cleanup t = m_cleanup s"

interpretation stations_kept: list_relation same_stations
proof
  show "same_stations s t \<Longrightarrow> same_stations t u \<Longrightarrow> same_stations s u" for s t u
    by (simp add: same_stations_def)
  show "same_stations s (upd_list r f s)" for s r f
    by (cases r) (simp_all add: same_stations_def upd_list.simps upd_station_def)
qed (simp_all add: same_stations_def upd_event_def upd_fixin_def upd_fixout_def upd_station_def upd_attach_def
    upd_os_def upd_hist_def)

section \<open>Writing to a list changes nothing else\<close>

text \<open>
  The routines of the system process on a list assign to this list and to the links of events: \<open>only_list r s t\<close> says that
  the memory \<open>t\<close>, with the events of \<open>s\<close>, is the memory \<open>s\<close> with another list \<open>r\<close>, and that the events
  differ in their links only.
\<close>

definition only_list :: "listref \<Rightarrow> et_mem \<Rightarrow> et_mem \<Rightarrow> bool" where
  "only_list r s t \<longleftrightarrow> t\<lparr>m_events := m_events s\<rparr> = upd_list r (\<lambda>_. glist r t) s
     \<and> (\<forall>e. \<exists>n. m_events t e = (m_events s e)\<lparr>e_next := n\<rparr>)"

lemma link_apart: "\<exists>n. v = v\<lparr>e_next := n\<rparr>" "\<exists>n. e_next_update f v = v\<lparr>e_next := n\<rparr>"
  by (cases v; simp)+

lemma m_events_apart:
  "(upd_list r f s)\<lparr>m_events := E\<rparr> = upd_list r f (s\<lparr>m_events := E\<rparr>)"
  "upd_list r f (upd_list r g s) = upd_list r (f \<circ> g) s"
  by (cases r; simp add: upd_list.simps upd_station_def)+

interpretation list_only: link_relation "only_list r" for r
proof
  show "only_list r s s" for s
    by (cases r; cases s) (auto simp: only_list_def upd_list.simps glist.simps upd_station_def fun_upd_idem_iff link_apart)
  show "only_list r s u" if t: "only_list r s t" and u: "only_list r t u" for s t u
  proof -
    have "u\<lparr>m_events := m_events s\<rparr> = (u\<lparr>m_events := m_events t\<rparr>)\<lparr>m_events := m_events s\<rparr>" by simp
    also have "\<dots> = upd_list r (\<lambda>_. glist r u) (t\<lparr>m_events := m_events s\<rparr>)"
      using u by (simp only: only_list_def m_events_apart)
    also have "\<dots> = upd_list r (\<lambda>_. glist r u) s"
      using t by (simp only: only_list_def m_events_apart o_def)
    finally have "u\<lparr>m_events := m_events s\<rparr> = upd_list r (\<lambda>_. glist r u) s" .
    moreover have "\<exists>n. m_events u e = (m_events s e)\<lparr>e_next := n\<rparr>" for e
    proof -
      obtain m where 1: "m_events t e = (m_events s e)\<lparr>e_next := m\<rparr>" using t unfolding only_list_def by blast
      obtain n where 2: "m_events u e = (m_events t e)\<lparr>e_next := n\<rparr>" using u unfolding only_list_def by blast
      show ?thesis unfolding 2 1 by (intro exI [of _ n]) simp
    qed
    ultimately show ?thesis by (simp only: only_list_def simp_thms)
  qed
  show "only_list r s (upd_event e (e_next_update n) s)" for s e n
    by (cases r; cases s) (auto simp: only_list_def upd_list.simps glist.simps upd_station_def upd_event_def fun_upd_idem_iff link_apart)
qed

lemma only_list_upd: "only_list r s (upd_list r f s)"
  by (cases r; cases s) (auto simp: only_list_def upd_list.simps glist.simps upd_station_def link_apart)

lemma only_list_write: "et_llist_write r pe s = Some (n, t) \<Longrightarrow> only_list r s t"
  using list_only.rel_llist_write only_list_upd by blast

text \<open>The routines that write to a list assign to lists, repair records, events and the log.\<close>

definition same_apart :: "et_mem \<Rightarrow> et_mem \<Rightarrow> bool" where
  "same_apart s t \<longleftrightarrow> m_sys t = m_sys s \<and> m_histogram t = m_histogram s \<and> m_cleanup t = m_cleanup s
     \<and> (\<forall>i. \<exists>a b c. m_stats t i = (m_stats s i)\<lparr>s_list_in := a, s_list_out := b, s_fix := c\<rparr>)"

lemma station_apart:
  "\<exists>a b c. v = v\<lparr>s_list_in := a, s_list_out := b, s_fix := c\<rparr>"
  "\<exists>a b c. s_list_in_update f v = v\<lparr>s_list_in := a, s_list_out := b, s_fix := c\<rparr>"
  "\<exists>a b c. s_list_out_update f v = v\<lparr>s_list_in := a, s_list_out := b, s_fix := c\<rparr>"
  "\<exists>a b c. s_fix_update g v = v\<lparr>s_list_in := a, s_list_out := b, s_fix := c\<rparr>"
  by (cases v; simp)+

interpretation write_apart: write_relation same_apart
proof
  show "same_apart s u" if st: "same_apart s t" and tu: "same_apart t u" for s t u
  proof -
    have "\<exists>a b c. m_stats u i = (m_stats s i)\<lparr>s_list_in := a, s_list_out := b, s_fix := c\<rparr>" for i
    proof -
      obtain a b c where 1: "m_stats t i = (m_stats s i)\<lparr>s_list_in := a, s_list_out := b, s_fix := c\<rparr>"
        using st unfolding same_apart_def by blast
      obtain a' b' c' where 2: "m_stats u i = (m_stats t i)\<lparr>s_list_in := a', s_list_out := b', s_fix := c'\<rparr>"
        using tu unfolding same_apart_def by blast
      show ?thesis unfolding 2 1 by (intro exI [of _ a'] exI [of _ b'] exI [of _ c']) simp
    qed
    then show ?thesis using st tu unfolding same_apart_def by simp
  qed
  show "same_apart s (upd_list r f s)" for s r f
    by (cases r) (simp_all add: same_apart_def upd_list.simps upd_station_def station_apart)
qed (simp_all add: same_apart_def upd_event_def upd_fixin_def upd_fixout_def upd_station_def upd_os_def station_apart)

text \<open>Nothing else has changed when only one list and one repair record have.\<close>

lemma same_apart_out:
  assumes "same_apart s t" and "\<And>q. q \<noteq> ListOut st \<Longrightarrow> glist q t = glist q s"
    and "\<And>i. i \<noteq> st \<Longrightarrow> gfix i t = gfix i s" and "f_in (gfix st t) = f_in (gfix st s)"
  shows "t\<lparr>m_events := m_events s, m_os := m_os s\<rparr>
     = upd_fixout st (\<lambda>_. f_out (gfix st t)) (upd_list (ListOut st) (\<lambda>_. glist (ListOut st) t) s)"
proof -
  define L F where "L = glist (ListOut st) t" and "F = f_out (gfix st t)"
  have "m_stats t i = (if i = st then (m_stats s i)\<lparr>s_list_out := L, s_fix := (gfix i s)\<lparr>f_out := F\<rparr>\<rparr> else m_stats s i)" for i
  proof -
    obtain a b c where r: "m_stats t i = (m_stats s i)\<lparr>s_list_in := a, s_list_out := b, s_fix := c\<rparr>"
      using assms(1) unfolding same_apart_def by blast
    have l: "s_list_in (m_stats t i) = s_list_in (m_stats s i)" "i \<noteq> st \<Longrightarrow> s_list_out (m_stats t i) = s_list_out (m_stats s i)"
      "i \<noteq> st \<Longrightarrow> s_fix (m_stats t i) = s_fix (m_stats s i)" "f_in (s_fix (m_stats t st)) = f_in (s_fix (m_stats s st))"
      using assms(2) [of "ListIn i"] assms(2) [of "ListOut i"] assms(3) [of i] assms(4) by (simp_all add: glist.simps gfix_def)
    show ?thesis
    proof (cases "i = st")
      case True
      then have "a = s_list_in (m_stats s st)" "b = L" "f_in c = f_in (s_fix (m_stats s st))" "f_out c = F"
        using r l(1,4) by (simp_all add: L_def F_def glist.simps gfix_def)
      then have "c = (gfix st s)\<lparr>f_out := F\<rparr>" by (simp add: gfix_def)
      then show ?thesis using r True \<open>a = _\<close> \<open>b = _\<close> by simp
    next
      case False
      then show ?thesis using r l(1-3) by simp
    qed
  qed
  then have "m_stats t = (m_stats s)(st := (m_stats s st)\<lparr>s_list_out := L, s_fix := (gfix st s)\<lparr>f_out := F\<rparr>\<rparr>)" by auto
  moreover have "upd_fixout st (\<lambda>_. F) (upd_list (ListOut st) (\<lambda>_. L) s)
      = s\<lparr>m_stats := (m_stats s)(st := (m_stats s st)\<lparr>s_list_out := L, s_fix := (gfix st s)\<lparr>f_out := F\<rparr>\<rparr>)\<rparr>"
    by (cases "m_stats s st"; cases "s_fix (m_stats s st)") (simp add: upd_fixout_def upd_list.simps upd_station_def gfix_def)
  ultimately show ?thesis
    using assms(1) unfolding L_def [symmetric] F_def [symmetric] by (simp add: same_apart_def)
qed

end
