(* ===== verification/Et_Samples.thy ===== *)
theory Et_Samples
  imports Et_StationWrite Et_StationRead
begin

text \<open>
  A small concrete ET memory: twenty events of which number 5 has high priority, the
  stations idle with empty lists, and variants of it: one whose station 1 has the
  events 5 and 6 in its output list, one whose station 1 has 2, 3 and 4 in its input list, and
  one whose GrandCentral has the event 9.
  The properties of the other theories are applied to it.
\<close>

named_theorems samples \<open>the concrete memory\<close>

definition ev0 :: et_event where [samples]:
  "ev0 = \<lparr>e_next = None, e_length = 0, e_memsize = 1000, e_pointer = 0, e_modify = 0,
     e_priority = ET_LOW, e_owner = ET_SYS, e_temp = ET_EVENT_NORMAL, e_age = ET_EVENT_USED,
     e_datastatus = ET_DATA_OK, e_byteorder = 0x04030201, e_group = 1, e_place = 0,
     e_control = [0, 0, 0, 0, 0, 0], e_filename = []\<rparr>"

definition list0 :: et_list where [samples]:
  "list0 = \<lparr>l_cnt = 0, l_lasthigh = 0, l_events_try = 0, l_events_in = 0, l_events_out = 0,
     l_firstevent = None, l_lastevent = None, l_mutex = False\<rparr>"

definition fix0 :: et_fix where [samples]:
  "fix0 = \<lparr>f_in = \<lparr>fi_first = None, fi_eventsin = 0, fi_start = 0, fi_cnt = 0, fi_num = 0,
     fi_call = ET_FIX_READ\<rparr>, f_out = \<lparr>fo_start = 0, fo_cnt = 0, fo_num = 0\<rparr>\<rparr>"

definition stat_config0 :: et_stat_config where [samples]:
  "stat_config0 = \<lparr>c_init = ET_STRUCT_OK, c_flow_mode = ET_STATION_SERIAL,
     c_user_mode = ET_STATION_USER_MULTI, c_restore_mode = ET_STATION_RESTORE_OUT,
     c_block_mode = ET_STATION_BLOCKING, c_prescale = 1, c_cue = 10,
     c_select_mode = ET_STATION_SELECT_ALL, c_select = [-1, -1, -1, -1, -1, -1],
     c_fname = [], c_lib = [], c_classs = []\<rparr>"

definition station0 :: et_station where [samples]:
  "station0 = \<lparr>s_num = 0, s_conductor = 0, s_next = -1, s_prev = -1, s_nextparallel = -1,
     s_prevparallel = -1, s_waslast = 0, s_name = [], s_mutex = False, s_fix = fix0,
     s_data = \<lparr>d_status = ET_STATION_IDLE, d_pid_create = 0, d_nattachments = 0, d_att = (\<lambda>_. -1)\<rparr>,
     s_config = stat_config0, s_list_in = list0, s_list_out = list0\<rparr>"

definition attach0 :: et_attach where [samples]:
  "attach0 = \<lparr>a_num = 0, a_proc = 0, a_stat = 1, a_status = 0, a_blocked = ET_ATT_UNBLOCKED,
     a_quit = ET_ATT_CONTINUE, a_sleep = 0, a_events_put = 0, a_events_get = 0, a_events_dump = 0,
     a_events_make = 0, a_pid = 0\<rparr>"

definition proc0 :: et_proc where [samples]:
  "proc0 = \<lparr>pr_num = 0, pr_att = (\<lambda>_. -1), pr_nattachments = 0, pr_status = ET_PROC_CLOSED,
     pr_et_status = ET_PROC_ETDEAD, pr_heartbeat = 0, pr_pid = 0\<rparr>"

definition sys_config0 :: et_sys_config where [samples]:
  "sys_config0 = \<lparr>y_event_size = 1000, y_init = ET_STRUCT_OK, y_nevents = 20, y_ntemps = 20,
     y_nstations = 10, y_nprocesses = 10, y_nattachments = 10, y_groupCount = 1, y_groups = [20],
     y_filename = [], y_port = 0, y_serverport = 0, y_tcpSendBufSize = 0, y_tcpRecvBufSize = 0,
     y_tcpNoDelay = 0, y_bcastaddrs = [], y_mcastaddrs = []\<rparr>"

definition system0 :: et_system where [samples]:
  "system0 = \<lparr>sy_heartbeat = 0, sy_nstations = 2, sy_ntemps = 0, sy_nprocesses = 0,
     sy_nattachments = 0, sy_stat_head = 0, sy_stat_tail = 1, sy_proc = (\<lambda>_. proc0), sy_attach = (\<lambda>_. attach0),
     sy_config = sys_config0\<rparr>"

definition mem0 :: et_mem where [samples]:
  "mem0 = \<lparr>m_sys = system0, m_stats = (\<lambda>st. station0\<lparr>s_num := st\<rparr>),
     m_events = (\<lambda>e. ev0\<lparr>e_place := int e, e_priority := (if e = 5 then ET_HIGH else ET_LOW)\<rparr>),
     m_histogram = (\<lambda>_. 0), m_cleanup = 0, m_os = []\<rparr>"

definition mem_out :: et_mem where [samples]:
  "mem_out = upd_event 5 (e_next_update (\<lambda>_. Some 6))
     (upd_list (ListOut 1) (\<lambda>l. l\<lparr>l_cnt := 2, l_lasthigh := 1, l_firstevent := Some 5,
        l_lastevent := Some 6\<rparr>) mem0)"

definition mem_in :: et_mem where [samples]:
  "mem_in = upd_event 2 (e_next_update (\<lambda>_. Some 3)) (upd_event 3 (e_next_update (\<lambda>_. Some 4))
     (upd_list (ListIn 1) (\<lambda>l. l\<lparr>l_cnt := 3, l_firstevent := Some 2, l_lastevent := Some 4\<rparr>) mem0))"

definition mem_gc :: et_mem where [samples]:
  "mem_gc = upd_list (ListIn 0) (\<lambda>l. l\<lparr>l_cnt := 1, l_firstevent := Some 9, l_lastevent := Some 9\<rparr>) mem0"

lemma mem0_reads [simp]:
  "m_events mem0 e = ev0\<lparr>e_place := int e, e_priority := (if e = 5 then ET_HIGH else ET_LOW)\<rparr>"
  "glist r mem0 = list0" "gfix st mem0 = fix0" "nevents mem0 = 20" "m_sys mem0 = system0"
  by (cases r; simp add: samples glist.simps gfix_def nevents_def)+

lemma mem_out_ok: "out_ok mem_out 1 [5, 6]"
  by (simp add: mem_out_def out_ok_def out_list_def Let_def list0_def fix0_def ev0_def pri_sorted_def)

lemma mem_in_ok: "in_ok mem_in 1 [2, 3, 4]"
  by (simp add: mem_in_def in_ok_def ev_list_def list0_def fix0_def ev0_def)

lemma mem_gc_ok: "in_ok mem_gc 0 [9]"
  by (simp add: mem_gc_def in_ok_def ev_list_def list0_def fix0_def ev0_def)

end
