(* ===== verification/Et_ReadWriteSpec.thy ===== *)
theory Et_ReadWriteSpec
  imports Et_ReadRepair Et_Kept Et_Samples
begin

text \<open>
  The properties of reading and writing the lists of one station: what a successful call
  returns and leaves behind, what the repair makes of a process that died inside a call,
  and the error returns.
\<close>

section \<open>Lemmas on the error returns\<close>

lemma lock_unlock_id:
  "\<not> l_mutex (glist r s) \<Longrightarrow>
   upd_list r (l_mutex_update (\<lambda>_. False)) (upd_list r (l_mutex_update (\<lambda>_. True)) s) = s"
proof -
  assume m: "\<not> l_mutex (glist r s)"
  obtain st where r: "r = ListIn st \<or> r = ListOut st" by (cases r) auto
  have f: "f (m_stats s st) = m_stats s st \<Longrightarrow> upd_station st f s = s" for f
    by (simp add: upd_station_def)
  have "l_mutex_update (\<lambda>_. False) (l_mutex_update (\<lambda>_. True) (glist r s)) = glist r s"
    using m by (cases "glist r s") simp
  with r show ?thesis
    by (cases "m_stats s st"; cases s) (auto simp: upd_list.simps glist.simps upd_station_def fun_upd_idem_iff)
qed

lemma wait_quit:
  assumes "cnt_of r s < 1" and "a_quit (sy_attach (m_sys (env (upd_list r (l_mutex_update (\<lambda>_. False))
     (upd_attach att (a_blocked_update (\<lambda>_. ET_ATT_BLOCKED)) s)))) att) = ET_ATT_QUIT"
  shows "\<exists>l t. wait_loop timed r att ((0, env) # ws) s = (l, Done ET_ERROR_WAKEUP t)
     \<and> \<not> l_mutex (glist r t) \<and> a_quit (sy_attach (m_sys t) att) = ET_ATT_CONTINUE
     \<and> a_blocked (sy_attach (m_sys t) att) = ET_ATT_UNBLOCKED"
  using assms by (simp add: prog_defs cond_wait_def et_llist_unlock_def quit_read_def)

lemma wait_error:
  assumes "cnt_of r s < 1" and "status \<noteq> 0" and "status \<noteq> ETIMEDOUT"
  shows "\<exists>l t. wait_loop True r att ((status, env) # ws) s = (l, Done ET_ERROR t) \<and> l_mutex (glist r t)"
  using assms by (simp add: prog_defs cond_wait_def et_llist_unlock_def)

lemma lock_free:
  "\<not> l_mutex (glist r s) \<Longrightarrow> et_llist_lock r s =
     ([upd_list r (l_mutex_update (\<lambda>_. True)) s], Done () (upd_list r (l_mutex_update (\<lambda>_. True)) s))"
  by (simp add: et_llist_lock_def prog_defs)

lemma count_hist_eq:
  "count_hist st s = (if st = ET_GRANDCENTRAL
     then ([upd_hist (cnt_of (ListIn st) s) s], Done () (upd_hist (cnt_of (ListIn st) s) s)) else ([], Done () s))"
  by (simp add: count_hist_def prog_defs)

definition locked :: "et_stat_id \<Rightarrow> et_mem \<Rightarrow> et_mem" where
  "locked st s = (let t = upd_list (ListIn st) (l_mutex_update (\<lambda>_. True)) s in
     if st = ET_GRANDCENTRAL then upd_hist (cnt_of (ListIn st) s) t else t)"

lemma locked_mem [simp]:
  "glist q (locked st s) = (if q = ListIn st then l_mutex_update (\<lambda>_. True) (glist q s) else glist q s)"
  "m_sys (locked st s) = m_sys s" "m_events (locked st s) = m_events s" "gfix st' (locked st s) = gfix st' s"
  by (simp_all add: locked_def Let_def)

lemma read_begin_waits:
  assumes "mode = ET_SLEEP \<or> mode = ET_TIMED" and "\<not> l_mutex (glist (ListIn st) s)"
  shows "snd (read_begin st mode att ws s)
    = snd (wait_loop (mode = ET_TIMED) (ListIn st) att ws (locked st s))"
  using assms
  by (auto simp: read_begin_def Let_def andthen_def bind_def lock_free count_hist_eq locked_def split: prod.splits)


lemma chl_run:
  assumes "chl (\<lambda>u. u = s) m Q C"
  obtains l a t where "m s = (l, Done a t)" "Q a t" "\<forall>u \<in> set l. C u"
  using chlD [OF assms refl] by blast

lemma chl_crash: "chl (\<lambda>u. u = s) m Q C \<Longrightarrow> t \<in> set (fst (m s)) \<Longrightarrow> C t"
  by (auto simp: chl_def)

lemma crash_lock:
  "\<not> l_mutex (glist r s) \<Longrightarrow>
   upd_list r (l_mutex_update (\<lambda>_. True)) s \<in> set (fst (andthen (et_llist_lock r) m s))"
  by (auto simp: andthen_def bind_def lock_free split: prod.splits)

lemma bind_crash: "t \<in> set (fst (m s)) \<Longrightarrow> t \<in> set (fst (bindp m k s))"
  by (auto simp: bind_def split: prod.splits outcome.splits)

lemma nwrite_first_crash:
  "\<not> l_mutex (glist (ListOut st) s) \<Longrightarrow> es \<noteq> [] \<Longrightarrow>
   upd_list (ListOut st) (l_mutex_update (\<lambda>_. True)) s \<in> set (fst (et_station_nwrite st es s))"
  by (cases es) (simp_all add: et_station_nwrite_def Let_def crash_lock)

lemma nread_first_crash:
  "\<not> l_mutex (glist (ListIn st) s) \<Longrightarrow> 1 \<le> num \<Longrightarrow> mode = ET_SLEEP \<or> mode = ET_TIMED \<Longrightarrow>
   upd_list (ListIn st) (l_mutex_update (\<lambda>_. True)) s \<in> set (fst (et_station_nread st mode att ws num s))"
  by (elim disjE)
    (simp_all add: et_station_nread_def Let_def bind_crash read_begin_modes crash_lock)

lemma read_first_crash:
  "\<not> l_mutex (glist (ListIn st) s) \<Longrightarrow> mode = ET_SLEEP \<or> mode = ET_TIMED \<Longrightarrow>
   upd_list (ListIn st) (l_mutex_update (\<lambda>_. True)) s \<in> set (fst (et_station_read st mode att ws s))"
  by (elim disjE)
    (simp_all add: et_station_read_def Let_def bind_crash read_begin_modes crash_lock)

lemma wlist_order:
  assumes "out_ok s st xs"
  shows "wlist s xs es k = highs (high (m_events s)) xs @ highs (high (m_events s)) (take k es)
    @ lows (high (m_events s)) xs @ lows (high (m_events s)) (take k es)"
  using assms by (intro foldl_ins) (simp add: out_ok_def out_list_def Let_def)

lemma nread_begin_stop:
  "1 \<le> num \<Longrightarrow> snd (read_begin st mode att ws s) = Done c t \<Longrightarrow> c \<noteq> ET_OK \<Longrightarrow>
   snd (et_station_nread st mode att ws num s) = Done (c, []) t"
  by (cases "read_begin st mode att ws s") (simp add: et_station_nread_def Let_def bind_def ret_def)

section \<open>Properties\<close>

text \<open>C1: \<^verbatim>\<open>et_station_nwrite\<close> called for an idle output list with room for the events returns
  \<^verbatim>\<open>ET_OK\<close>; the list then holds all high priority events before all low priority ones,
  within a priority the old events before the new ones and the new ones in the order of the
  array, every event belongs to the system, and the mutex is released.  Nothing but the list,
  the repair record for it, these events and the log of the calls of the operating system has
  changed: of the other events nothing, of these only the links and the owners, and the rest of the memory is as before.\<close>

theorem et_station_nwrite_order:
  assumes "out_ok s st xs" and "write_args s xs es" and "int (length xs + length es) \<le> nevents s"
  shows "\<exists>l t. et_station_nwrite st es s = (l, Done ET_OK t)
     \<and> out_ok t st (highs (high (m_events s)) xs @ highs (high (m_events s)) es
         @ lows (high (m_events s)) xs @ lows (high (m_events s)) es)
     \<and> frame (ListOut st) (set xs \<union> set es) s t
     \<and> t\<lparr>m_events := m_events s, m_os := m_os s\<rparr>
       = upd_fixout st (\<lambda>_. f_out (gfix st t)) (upd_list (ListOut st) (\<lambda>_. glist (ListOut st) t) s)"
proof -
  obtain l t where t: "et_station_nwrite st es s = (l, Done ET_OK t)" "out_ok t st (wlist s xs es (length es))"
    "write_rest s st xs es (length es) t"
    by (rule chl_run [OF et_station_nwrite_chl [OF assms]]) blast
  have F: "frame (ListOut st) (set xs \<union> set es) s t" "f_in (gfix st t) = f_in (gfix st s)"
    using t(3) by (simp_all add: write_rest_def)
  have A: "same_apart s t"
    using write_apart.always_nwrite [of st es] t(1) by (rule always_done)
  have "t\<lparr>m_events := m_events s, m_os := m_os s\<rparr>
      = upd_fixout st (\<lambda>_. f_out (gfix st t)) (upd_list (ListOut st) (\<lambda>_. glist (ListOut st) t) s)"
    by (rule same_apart_out [OF A _ _ F(2)]) (use F(1) in \<open>simp_all add: frame_def\<close>)
  moreover have "out_ok t st (highs (high (m_events s)) xs @ highs (high (m_events s)) es
         @ lows (high (m_events s)) xs @ lows (high (m_events s)) es)"
    using t(2) unfolding wlist_order [OF assms(1)] by simp
  ultimately show ?thesis using t(1) F(1) by (intro exI [of _ l] exI [of _ t] conjI)
qed

lemma et_station_nwrite_order_witness:
  "\<exists>l t. et_station_nwrite 1 [7, 8] mem_out = (l, Done ET_OK t) \<and> out_ok t 1 [5, 6, 7, 8]"
  using et_station_nwrite_order [OF mem_out_ok, of "[7, 8]"]
  by (auto simp: mem_out_def write_args_def ev0_def)

text \<open>C2: a process may die after any assignment to shared memory of \<^verbatim>\<open>et_station_nwrite\<close>.
  \<^verbatim>\<open>et_repair_station\<close> then returns \<^verbatim>\<open>ET_OK\<close> and leaves an output list that is
  self-consistent: it holds what it held before together with the first \<open>k\<close> events of the
  array, in the order of a complete write, and the other events keep their owner.\<close>

theorem et_station_nwrite_crash_repair:
  assumes "out_ok s st xs" and "write_args s xs es" and "int (length xs + length es) \<le> nevents s"
    and "\<not> l_mutex (glist (ListIn st) s)" and "t \<in> set (fst (et_station_nwrite st es s))"
  shows "\<exists>l u k. et_repair_station st t = (l, Done ET_OK u) \<and> k \<le> length es
     \<and> out_ok u st (highs (high (m_events s)) xs @ highs (high (m_events s)) (take k es)
         @ lows (high (m_events s)) xs @ lows (high (m_events s)) (take k es))
     \<and> (\<forall>e \<in> set (drop k es). e_owner (m_events u e) = e_owner (m_events s e))
     \<and> frame (ListOut st) (set xs \<union> set es) s u"
  using et_repair_station_after_write [OF assms(1,2,4) chl_crash [OF et_station_nwrite_chl [OF assms(1-3)] assms(5)]]
  by (auto simp: wlist_order [OF assms(1)] write_rest_def)

lemma et_station_nwrite_crash_repair_witness:
  "\<exists>l u k. et_repair_station 1 (upd_list (ListOut 1) (l_mutex_update (\<lambda>_. True)) mem_out) = (l, Done ET_OK u)
     \<and> k \<le> 2 \<and> out_ok u 1 (5 # 6 # take k [7, 8])"
proof -
  have "upd_list (ListOut 1) (l_mutex_update (\<lambda>_. True)) mem_out \<in> set (fst (et_station_nwrite 1 [7, 8] mem_out))"
    by (rule nwrite_first_crash) (simp_all add: mem_out_def list0_def)
  from et_station_nwrite_crash_repair [OF mem_out_ok _ _ _ this] obtain l u k where
    u: "et_repair_station 1 (upd_list (ListOut 1) (l_mutex_update (\<lambda>_. True)) mem_out) = (l, Done ET_OK u)"
      "k \<le> length [7 :: nat, 8]"
      "out_ok u 1 (highs (high (m_events mem_out)) [5, 6] @ highs (high (m_events mem_out)) (take k [7, 8])
         @ lows (high (m_events mem_out)) [5, 6] @ lows (high (m_events mem_out)) (take k [7, 8]))"
    by (auto simp: mem_out_def write_args_def ev0_def list0_def)
  have "highs (high (m_events mem_out)) (take k [7, 8]) = []"
    "lows (high (m_events mem_out)) (take k [7, 8]) = take k [7, 8]"
    unfolding highs_def lows_def filter_empty_conv
    by (auto simp: mem_out_def ev0_def dest: in_set_takeD intro!: filter_True)
  moreover have "highs (high (m_events mem_out)) [5, 6] = [5]" "lows (high (m_events mem_out)) [5, 6] = [6]"
    by (simp_all add: mem_out_def ev0_def)
  ultimately show ?thesis using u by (intro exI [of _ l] exI [of _ u] exI [of _ k]) simp
qed

text \<open>C3: \<^verbatim>\<open>et_station_nread\<close> called for an idle, non-empty input list (waiting, or without
  waiting by an attachment that is not told to quit) returns the first \<^verbatim>\<open>num\<close> events of the
  list in their order, or all of them when it holds fewer; they belong to the attachment, the
  rest of the list is intact and the mutex is released.\<close>

theorem et_station_nread_takes:
  assumes "in_ok s st xs" and "xs \<noteq> []" and "1 \<le> num"
    and "mode = ET_SLEEP \<or> mode = ET_TIMED \<or> mode = ET_ASYNC \<and> \<not> quitting att s"
  shows "\<exists>l t. et_station_nread st mode att ws num s = (l, Done (ET_OK, take (nat num) xs) t)
     \<and> in_ok t st (drop (nat num) xs) \<and> frame (ListIn st) (set xs) s t
     \<and> (\<forall>e \<in> set (take (nat num) xs). e_owner (m_events t e) = att)"
proof -
  have m: "take (min (nat num) (length xs)) xs = take (nat num) xs"
    "drop (min (nat num) (length xs)) xs = drop (nat num) xs"
    by (simp_all add: min_def)
  from et_station_nread_chl [OF assms, of ws] show ?thesis
    unfolding m by (elim chl_run) (auto simp: read_rest_def)
qed

lemma et_station_nread_takes_witness:
  "\<exists>l t. et_station_nread 1 ET_SLEEP 3 [] 2 mem_in = (l, Done (ET_OK, [2, 3]) t) \<and> in_ok t 1 [4]"
  using et_station_nread_takes [OF mem_in_ok, of 2 ET_SLEEP 3 "[]"] by auto

text \<open>C4: a process may die after any assignment of \<^verbatim>\<open>et_station_nread\<close>.  \<^verbatim>\<open>et_repair_station\<close>
  then returns \<^verbatim>\<open>ET_OK\<close> and leaves the input list with all its events, or the read is complete:
  the list holds the remaining events and the ones read belong to the dead attachment.\<close>

theorem et_station_nread_crash_repair:
  assumes "in_ok s st xs" and "xs \<noteq> []" and "1 \<le> num"
    and "mode = ET_SLEEP \<or> mode = ET_TIMED \<or> mode = ET_ASYNC \<and> \<not> quitting att s"
    and "\<not> l_mutex (glist (ListOut st) s)" and "t \<in> set (fst (et_station_nread st mode att ws num s))"
  shows "\<exists>l u k. et_repair_station st t = (l, Done ET_OK u) \<and> k \<in> {0, nat num}
     \<and> in_ok u st (drop k xs) \<and> frame (ListIn st) (set xs) s u
     \<and> (\<forall>e \<in> set (take k xs). e_owner (m_events u e) = att)"
proof -
  have "read_crash s st xs (min (nat num) (length xs)) att t"
    using et_station_nread_chl [OF assms(1-4)] assms(6) by (rule chl_crash)
  from et_repair_station_read_lemma [OF this assms(5)]
  obtain l u k where u: "et_repair_station st t = (l, Done ET_OK u)" "k \<in> {0, min (nat num) (length xs)}"
    "in_ok u st (drop k xs)" "read_rest s st xs (take k xs) att u"
    unfolding read_done_def by blast
  define j where "j = (if k = 0 then 0 else nat num)"
  have "drop k xs = drop j xs" "take k xs = take j xs" using u(2) by (auto simp: j_def min_def)
  with u show ?thesis
    by (intro exI [of _ l] exI [of _ u] exI [of _ j]) (auto simp: j_def read_rest_def)
qed

lemma et_station_nread_crash_repair_witness:
  "\<exists>l u k. et_repair_station 1 (upd_list (ListIn 1) (l_mutex_update (\<lambda>_. True)) mem_in) = (l, Done ET_OK u)
     \<and> k \<in> {0, 2} \<and> in_ok u 1 (drop k [2, 3, 4])"
proof -
  have "upd_list (ListIn 1) (l_mutex_update (\<lambda>_. True)) mem_in \<in> set (fst (et_station_nread 1 ET_SLEEP 3 [] 2 mem_in))"
    by (rule nread_first_crash) (simp_all add: mem_in_def list0_def)
  then show ?thesis
    using et_station_nread_crash_repair [OF mem_in_ok, of 2 ET_SLEEP 3 _ "[]"]
    by (force simp: mem_in_def list0_def)
qed

text \<open>C5: the same for \<^verbatim>\<open>et_station_read\<close> on the input list of GrandCentral, whose repair is
  \<^verbatim>\<open>et_repair_gc\<close>: the single event is either still at the head of the list or belongs to the
  dead attachment.\<close>

theorem et_station_read_gc_crash_repair:
  assumes "in_ok s ET_GRANDCENTRAL xs" and "xs \<noteq> []"
    and "mode = ET_SLEEP \<or> mode = ET_TIMED \<or> mode = ET_ASYNC \<and> \<not> quitting att s"
    and "t \<in> set (fst (et_station_read ET_GRANDCENTRAL mode att ws s))"
  shows "\<exists>l u. et_repair_gc t = (l, Done ET_OK u)
     \<and> (in_ok u ET_GRANDCENTRAL xs
        \<or> in_ok u ET_GRANDCENTRAL (tl xs) \<and> e_owner (m_events u (hd xs)) = att)"
proof -
  have "read_crash s ET_GRANDCENTRAL xs 1 att t"
    using et_station_read_chl [OF assms(1-3)] assms(4) by (rule chl_crash)
  from et_repair_gc_read_lemma [OF this] assms(2) show ?thesis
    unfolding read_done_def by (cases xs) (auto simp: read_rest_def)
qed

lemma et_station_read_gc_crash_repair_witness:
  "\<exists>l u. et_repair_gc (upd_list (ListIn 0) (l_mutex_update (\<lambda>_. True)) mem_gc) = (l, Done ET_OK u)
     \<and> (in_ok u 0 [9] \<or> in_ok u 0 [] \<and> e_owner (m_events u 9) = 3)"
proof -
  have "upd_list (ListIn 0) (l_mutex_update (\<lambda>_. True)) mem_gc \<in> set (fst (et_station_read 0 ET_SLEEP 3 [] mem_gc))"
    by (rule read_first_crash) (simp_all add: mem_gc_def list0_def)
  then show ?thesis
    using et_station_read_gc_crash_repair [OF mem_gc_ok, of ET_SLEEP 3 _ "[]"] by force
qed

text \<open>C6: a write that the output list has no room for is refused: \<^verbatim>\<open>et_station_write\<close>,
  \<^verbatim>\<open>et_station_nwrite\<close> and \<^verbatim>\<open>et_station_nwriteNoPri\<close> return \<^verbatim>\<open>ET_ERROR\<close> and leave the whole
  memory as it was, the mutex released.\<close>

theorem et_station_write_full:
  assumes "\<not> l_mutex (glist (ListOut st) s)" and "es \<noteq> []"
    and "nevents s - cnt_of (ListOut st) s < int (length es)"
  shows "snd (et_station_nwrite st es s) = Done ET_ERROR s
     \<and> snd (et_station_nwriteNoPri st es s) = Done ET_ERROR s
     \<and> (length es = 1 \<longrightarrow> snd (et_station_write st (hd es) s) = Done ET_ERROR s)"
proof -
  obtain e0 rest where es: "es = e0 # rest" using assms(2) by (cases es) auto
  have "rest = [] \<Longrightarrow> nevents s \<le> cnt_of (ListOut st) s" using assms(3) es by simp
  then show ?thesis
    using assms(1,3)
    by (auto simp: es et_station_nwrite_def et_station_nwriteNoPri_def et_station_write_def Let_def
        andthen_def bind_def lock_free cond_def et_llist_unlock_def store_def ret_def lock_unlock_id)
qed

lemma et_station_write_full_witness:
  "snd (et_station_nwrite 1 [0..<19] mem_out) = Done ET_ERROR mem_out"
  using et_station_write_full [of 1 mem_out "[0..<19]"] by (simp add: mem_out_def list0_def)

text \<open>C7: an attachment that waits in \<^verbatim>\<open>et_station_nread\<close> on an empty input list and is told to
  quit while it sleeps returns \<^verbatim>\<open>ET_ERROR_WAKEUP\<close> with no events, the mutex released, its quit
  flag taken back and itself no longer marked as blocked.\<close>

theorem et_station_nread_quit:
  assumes "\<not> l_mutex (glist (ListIn st) s)" and "cnt_of (ListIn st) s < 1" and "1 \<le> num"
    and "mode = ET_SLEEP \<or> mode = ET_TIMED"
    and "\<And>u. a_quit (sy_attach (m_sys (env u)) att) = ET_ATT_QUIT"
  shows "\<exists>t. snd (et_station_nread st mode att ((0, env) # ws) num s) = Done (ET_ERROR_WAKEUP, []) t
     \<and> \<not> l_mutex (glist (ListIn st) t) \<and> a_quit (sy_attach (m_sys t) att) = ET_ATT_CONTINUE
     \<and> a_blocked (sy_attach (m_sys t) att) = ET_ATT_UNBLOCKED"
proof -
  have "cnt_of (ListIn st) (locked st s) < 1" using assms(2) by simp
  from wait_quit [OF this, of env att "mode = ET_TIMED" ws] assms(5) obtain t where
    t: "snd (read_begin st mode att ((0, env) # ws) s) = Done ET_ERROR_WAKEUP t"
      "\<not> l_mutex (glist (ListIn st) t)" "a_quit (sy_attach (m_sys t) att) = ET_ATT_CONTINUE"
      "a_blocked (sy_attach (m_sys t) att) = ET_ATT_UNBLOCKED"
    by (auto simp: read_begin_waits [OF assms(4,1)])
  then show ?thesis using assms(3) by (auto simp: nread_begin_stop)
qed

lemma et_station_nread_quit_witness:
  "\<exists>t. snd (et_station_nread 2 ET_SLEEP 3
        [(0, upd_attach 3 (a_quit_update (\<lambda>_. ET_ATT_QUIT)))] 5 mem0) = Done (ET_ERROR_WAKEUP, []) t
     \<and> \<not> l_mutex (glist (ListIn 2) t)"
  using et_station_nread_quit [of 2 mem0 5 ET_SLEEP "upd_attach 3 (a_quit_update (\<lambda>_. ET_ATT_QUIT))" 3 "[]"]
  by (auto simp: list0_def)

text \<open>C8: when \<^verbatim>\<open>pthread_cond_timedwait\<close> fails with an error other than \<^verbatim>\<open>ETIMEDOUT\<close>,
  \<^verbatim>\<open>et_station_nread\<close> returns \<^verbatim>\<open>ET_ERROR\<close> without releasing the mutex of the input list: the next
  reader of the station that waits for events, whoever it is, is blocked for ever.\<close>

theorem et_station_nread_timedwait_error_keeps_mutex:
  assumes "\<not> l_mutex (glist (ListIn st) s)" and "cnt_of (ListIn st) s < 1" and "1 \<le> num"
    and "status \<noteq> 0" and "status \<noteq> ETIMEDOUT"
  shows "\<exists>t. snd (et_station_nread st ET_TIMED att ((status, env) # ws) num s) = Done (ET_ERROR, []) t
     \<and> l_mutex (glist (ListIn st) t)
     \<and> snd (et_station_nread st ET_SLEEP att' ws' num t) = Blocked t"
proof -
  have "cnt_of (ListIn st) (locked st s) < 1" using assms(2) by simp
  from wait_error [OF this assms(4,5), where att = att and env = env and ws = ws] obtain t where
    t: "snd (read_begin st ET_TIMED att ((status, env) # ws) s) = Done ET_ERROR t" "l_mutex (glist (ListIn st) t)"
    by (auto simp: read_begin_waits [OF disjI2 [OF refl] assms(1)])
  moreover have "snd (et_station_nread st ET_SLEEP att' ws' num t) = Blocked t"
    using assms(3) t(2) by (simp add: et_station_nread_def read_begin_modes Let_def andthen_def bind_def
        et_llist_lock_def cond_def blocked_def)
  ultimately show ?thesis using assms(3) by (auto simp: nread_begin_stop)
qed

lemma et_station_nread_timedwait_error_keeps_mutex_witness:
  "\<exists>t. snd (et_station_nread 2 ET_TIMED 3 [(22, id)] 5 mem0) = Done (ET_ERROR, []) t
     \<and> l_mutex (glist (ListIn 2) t) \<and> snd (et_station_nread 2 ET_SLEEP 4 [] 5 t) = Blocked t"
  using et_station_nread_timedwait_error_keeps_mutex [of 2 mem0 5 22 3 id "[]" 4 "[]"]
  by (auto simp: list0_def)

end
