(* ===== verification/Et_RestoreSpec.thy ===== *)
theory Et_RestoreSpec
  imports Et_Restore
begin

text \<open>
  What \<^verbatim>\<open>et_restore\<close> does to a list in priority order: as many events as fit go to the head of
  the events of their priority (\<open>restore_list_ok\<close>).
\<close>

section \<open>Correctness\<close>

lemma links_keep:
  assumes "links h xs" "distinct xs"
    and "\<And>y. y \<in> set xs \<Longrightarrow> y \<noteq> last xs \<Longrightarrow> e_next (h' y) = e_next (h y)"
  shows "links h' xs"
proof (subst links_cong [where h = h])
  fix y assume y: "y \<in> set (butlast xs)"
  then have "xs \<noteq> []" by auto
  with y assms(2) have "y \<in> set xs" "y \<noteq> last xs"
    using distinct_last_notin_butlast by (auto dest: in_set_butlastD)
  then show "e_next (h' y) = e_next (h y)" by (rule assms(3))
qed (rule assms(1))

text \<open>A run of events that is linked in between two parts of a list.\<close>

definition put_between :: "nat list \<Rightarrow> nat list \<Rightarrow> nat list \<Rightarrow> et_mem \<Rightarrow> et_mem" where
  "put_between L Q C s =
     (if C = [] then id else put_next (last Q) (Some (hd C)))
       ((if L = [] then id else put_next (last L) (Some (hd Q))) (link_run Q s))"

lemma put_between_links:
  assumes "links (m_events s) (L @ C)" and d: "distinct (L @ Q @ C)" and Q: "Q \<noteq> []"
  shows "links (m_events (put_between L Q C s)) (L @ Q @ C)"
proof -
  let ?t = "put_between L Q C s"
  have run: "m_events (link_run Q s) y = m_events s y" if "y \<notin> set Q" for y
    using that by (intro link_run_other) (auto dest: in_set_butlastD)
  have L: "L \<noteq> [] \<Longrightarrow> last L \<notin> set Q" "C \<noteq> [] \<Longrightarrow> L \<noteq> [] \<Longrightarrow> last L \<notin> set C" "last Q \<in> set Q"
    using d Q by (auto simp: disjoint_iff)
  have "links (m_events ?t) L"
  proof (rule links_keep)
    fix y assume y: "y \<in> set L" "y \<noteq> last L"
    then have "y \<notin> set Q" "y \<noteq> last Q" using d L(3) by auto
    with y show "e_next (m_events ?t y) = e_next (m_events s y)" by (simp add: put_between_def run)
  qed (use assms in \<open>auto simp: links_append\<close>)
  moreover have "links (m_events ?t) C"
  proof (rule links_keep)
    fix y assume y: "y \<in> set C" "y \<noteq> last C"
    then have "y \<notin> set Q" "y \<noteq> last Q" "L = [] \<or> y \<noteq> last L" using d L(1,3) last_in_set [of L] by (auto simp: disjoint_iff)
    with y show "e_next (m_events ?t y) = e_next (m_events s y)" by (auto simp: put_between_def run)
  qed (use assms in \<open>auto simp: links_append\<close>)
  moreover have "links (m_events ?t) Q"
  proof (rule links_keep [OF link_run_links [of Q s]])
    fix y assume y: "y \<in> set Q" "y \<noteq> last Q"
    then have "L = [] \<or> y \<noteq> last L" using L(1) by auto
    with y show "e_next (m_events ?t y) = e_next (m_events (link_run Q s) y)" by (auto simp: put_between_def)
  qed (use d in auto)
  moreover have "e_next (m_events ?t (last L)) = Some (hd Q)" if "L \<noteq> []"
    using that L by (auto simp: put_between_def)
  moreover have "e_next (m_events ?t (last Q)) = Some (hd C)" if "C \<noteq> []"
    using that by (simp add: put_between_def)
  ultimately show ?thesis using Q by (simp add: links_append)
qed

lemma put_between_mem [simp]:
  "glist q (put_between L Q C s) = glist q s" "m_sys (put_between L Q C s) = m_sys s"
  "nevents (put_between L Q C s) = nevents s"
  "e_owner (m_events (put_between L Q C s) x) = e_owner (m_events s x)"
  by (simp_all add: put_between_def)

lemma frame_put_between:
  "frame r E s t \<Longrightarrow> set (L @ Q) \<subseteq> E \<Longrightarrow> Q \<noteq> [] \<Longrightarrow> frame r E s (put_between L Q C t)"
  using last_in_set [of L] last_in_set [of Q] unfolding put_between_def
  by (auto intro!: frame_upd frame_link_run)

lemma upd_commute: "upd_event e f (upd_list r g s) = upd_list r g (upd_event e f s)"
  by (cases r) (simp_all add: upd_list.simps upd_event_def upd_station_def)

lemma restore_link_ok:
  assumes cnt: "cnt_of r s = int (length (A @ C))" and ch: "chain (m_events s) (first_of r s) (A @ C)"
    and last: "A @ C \<noteq> [] \<Longrightarrow> last_of r s = Some (last (A @ C))"
    and d: "distinct (P @ A @ Q @ C)" and ne: "P @ Q \<noteq> []"
    and hi: "\<forall>a \<in> set P. pri_of a s = ET_HIGH" and lo: "\<forall>c \<in> set Q. pri_of c s = ET_LOW"
  defines "zs \<equiv> P @ A @ Q @ C"
  shows "\<exists>t. restore_link r (P @ Q) (if A = [] then None else Some (last A)) (if C = [] then None else Some (hd C)) s = Some t
     \<and> frame r (set zs) s t \<and> links (m_events t) zs \<and> first_of r t = Some (hd zs)
     \<and> last_of r t = Some (last zs) \<and> cnt_of r t = cnt_of r s
     \<and> (\<forall>x. e_owner (m_events t x) = e_owner (m_events s x)) \<and> l_mutex (glist r t) = l_mutex (glist r s)
     \<and> l_lasthigh (glist r t) = l_lasthigh (glist r s)"
    (is "\<exists>t. ?f = Some t \<and> ?ok t")
proof -
  have cnt0: "cnt_of r s = 0 \<longleftrightarrow> A @ C = []" by (metis cnt length_0_conv of_nat_eq_0_iff)
  have l: "links (m_events s) (A @ C)" and f: "A @ C \<noteq> [] \<Longrightarrow> first_of r s = Some (hd (A @ C))"
    using ch by (auto simp: chain_links)
  consider "A @ C = []" | "A @ C \<noteq> []" "P = []" | b H where "A @ C \<noteq> []" "P = b # H" by (cases P) auto
  then show ?thesis
  proof cases
    case 1
    have "links (m_events (link_run (P @ Q) s)) (P @ Q)" using d 1 by (intro link_run_links) auto
    then show ?thesis using 1 cnt ne
      by (auto simp: restore_link_def zs_def intro!: frame_upd frame_link_run)
  next
    case 2
    then have Q: "Q \<noteq> []" using ne by simp
    have t: "links (m_events (put_between A Q C s)) (A @ Q @ C)"
      using put_between_links [OF l _ Q] d 2 by simp
    have fr: "frame r (set zs) s (put_between A Q C s)"
      by (rule frame_put_between) (auto simp: zs_def Q)
    have c: "cnt_of r s \<noteq> 0" "pri_of (hd Q) s = ET_LOW" using 2(1) cnt0 lo Q by auto
    define t where "t = (if C = [] then put_last r (Some (last Q)) else id)
        ((if A = [] then put_first r (Some (hd Q)) else id) (put_between A Q C s))"
    have "?f = Some t"
      using 2 c last by (cases "A = []"; cases "C = []")
        (simp_all add: restore_link_def Let_def t_def put_between_def upd_commute)
    moreover have "?ok t"
      using t fr 2 Q f last by (cases "A = []"; cases "C = []") (auto simp: t_def zs_def intro!: frame_upd)
    ultimately show ?thesis by blast
  next
    case 3
    have c: "cnt_of r s \<noteq> 0" "pri_of b s \<noteq> ET_LOW" using 3 cnt0 hi by auto
    let ?p = "first_of r s"
    define s1 where "s1 = put_first r (Some b) (put_next b ?p s)"
    obtain s2 where s2: "link_highs b (H @ Q) ?p s1 = (List.last (b # H), Q, s2)"
      "links (m_events s2) (b # H)" "H \<noteq> [] \<Longrightarrow> e_next (m_events s2 (List.last H)) = ?p" "H = [] \<Longrightarrow> s2 = s1"
      "\<And>y. y \<notin> set (b # H) \<Longrightarrow> m_events s2 y = m_events s1 y"
      "\<And>y. e_owner (m_events s2 y) = e_owner (m_events s1 y)"
      "\<And>y. e_priority (m_events s2 y) = e_priority (m_events s1 y)" "\<And>q. glist q s2 = glist q s1"
      "\<And>r E s0. frame r E s0 s1 \<Longrightarrow> set (b # H) \<subseteq> E \<Longrightarrow> frame r E s0 s2" "nevents s2 = nevents s1"
    proof -
      have h: "\<forall>a \<in> set H. pri_of a s1 = ET_HIGH" "Q = [] \<or> pri_of (hd Q) s1 \<noteq> ET_HIGH" "distinct (b # H)"
        using hi lo d 3(2) by (cases Q; simp add: s1_def)+
      show thesis by (rule link_highs_run [OF h, of ?p]) (rule that; assumption)
    qed
    have lAC: "links (m_events s2) (A @ C)"
    proof (rule links_keep [OF l])
      fix y assume "y \<in> set (A @ C)"
      then have "y \<notin> set (b # H)" using d 3(2) by auto
      then show "e_next (m_events s2 y) = e_next (m_events s y)" using s2(5) [of y] by (simp add: s1_def)
    qed (use d in auto)
    have lb: "e_next (m_events s2 (List.last (b # H))) = Some (hd (A @ C))"
      using s2(3,4) f [OF 3(1)] by (cases "H = []") (auto simp: s1_def)
    have l2: "links (m_events s2) ((P @ A) @ C)"
      using s2(2) lAC lb 3 by (simp add: links_append [of _ "b # H" "A @ C", simplified])
    have fr2: "frame r (set zs) s s2"
      by (rule s2(9)) (auto simp: s1_def zs_def 3(2) intro!: frame_upd)
    have g: "first_of r s2 = Some b" "last_of r s2 = Some (List.last (A @ C))" "cnt_of r s2 = cnt_of r s"
      "l_mutex (glist r s2) = l_mutex (glist r s)" "l_lasthigh (glist r s2) = l_lasthigh (glist r s)" "\<And>x. e_owner (m_events s2 x) = e_owner (m_events s x)"
      using s2(6,8) last [OF 3(1)] by (simp_all add: s1_def)
    show ?thesis
    proof (cases "Q = []")
      case True
      have "?f = Some s2" using c s2(1) True 3(2) by (simp add: restore_link_def Let_def s1_def)
      moreover have "?ok s2" using l2 fr2 g 3 True by (auto simp: zs_def)
      ultimately show ?thesis by blast
    next
      case False
      have t: "links (m_events (put_between (P @ A) Q C s2)) ((P @ A) @ Q @ C)"
        by (rule put_between_links [OF l2 _ False]) (use d in auto)
      have fr: "frame r (set zs) s (put_between (P @ A) Q C s2)"
        by (rule frame_put_between [OF fr2]) (auto simp: zs_def False)
      define t where "t = (if C = [] then put_last r (Some (List.last Q)) else id) (put_between (P @ A) Q C s2)"
      define e where "e = List.last (b # H)"
      have s2': "link_highs b (H @ Q) ?p s1 = (e, Q, s2)" using s2(1) by (simp add: e_def)
      have e: "List.last (P @ A) = (if A = [] then e else List.last A)" using 3(2) by (simp add: e_def)
      have "?f = Some t"
      proof (cases "C = []")
        case True
        then show ?thesis
          using c s2' False 3 e last by (simp add: restore_link_def Let_def s1_def [symmetric] t_def put_between_def)
      next
        case C: False
        then show ?thesis
          using c s2' False 3 e by (simp add: restore_link_def Let_def s1_def [symmetric] t_def put_between_def)
      qed
      moreover have "?ok t"
        using t fr g 3 False by (cases "C = []") (auto simp: t_def zs_def intro!: frame_upd)
      ultimately show ?thesis by blast
    qed
  qed
qed


text \<open>What fits of the array goes in front of the events of its priority.\<close>

lemma frame_trans: "frame r E s t \<Longrightarrow> frame r E t u \<Longrightarrow> frame r E s u"
  by (auto simp: frame_def link_eq_def)

lemma pri_listI':
  assumes "frame r E s t" and m: "mset zs = mset (xs @ es)" and "distinct (xs @ es)"
    and "links (m_events t) zs" and "first_of r t = Some (hd zs)" and "last_of r t = Some (last zs)"
    and "cnt_of r t = int (length xs) + int (length es)" and "pri_sorted (high (m_events s)) zs"
    and "\<forall>e \<in> set (xs @ es). e_owner (m_events t e) = ET_SYS"
    and "\<forall>e \<in> set (xs @ es). pri_of e s \<in> {ET_LOW, ET_HIGH}"
  shows "pri_list t r zs"
proof -
  have "distinct zs" "length zs = length (xs @ es)" "set zs = set (xs @ es)"
    using m assms(3) mset_eq_imp_distinct_iff [OF m] mset_eq_length [OF m] mset_eq_setD [OF m] by simp_all
  then show ?thesis
    using assms(4-) frame_high [OF assms(1)] frame_pri [OF assms(1)]
    by (auto simp: pri_list_def ev_list_def chain_links)
qed

text \<open>High before low, whatever the origin.\<close>

lemma pri_sorted_parts: "pri_sorted hi (highs hi as @ highs hi bs @ lows hi cs @ lows hi ds)"
proof -
  have "sorted_wrt (\<lambda>a b. hi b \<longrightarrow> hi a) (highs hi xs)" "sorted_wrt (\<lambda>a b. hi b \<longrightarrow> hi a) (lows hi xs)" for xs
    using nth_mem [of _ "highs hi xs"] nth_mem [of _ "lows hi xs"]
    by (auto simp: sorted_wrt_iff_nth_less simp del: nth_mem)
  then show ?thesis by (auto simp: pri_sorted_def sorted_wrt_append)
qed

theorem restore_list_ok:
  assumes xs: "pri_list s r xs" and es: "distinct es" "set xs \<inter> set es = {}" "es \<noteq> []"
    and hl: "pri_sorted (high (m_events s)) es" "\<forall>e \<in> set es. pri_of e s \<in> {ET_LOW, ET_HIGH}"
    and room: "int (length xs) < nevents s"
    and own: "own \<or> (\<forall>e \<in> set es. e_owner (m_events s e) = ET_SYS)"
  defines "hi \<equiv> high (m_events s)" and "n \<equiv> min (length es) (nat (nevents s) - length xs)"
  shows "\<exists>t. restore_list own r es s = Some ((ET_OK, Some (int n)), t)
     \<and> pri_list t r (highs hi (take n es) @ highs hi xs @ lows hi (take n es) @ lows hi xs)
     \<and> frame r (set xs \<union> set (take n es)) s t \<and> l_mutex (glist r t) = l_mutex (glist r s)
     \<and> l_lasthigh (glist r t) = l_lasthigh (glist r s)"
proof -
  let ?pe = "take n es" and ?A = "highs hi xs" and ?C = "lows hi xs"
  let ?P = "highs hi ?pe" and ?Q = "lows hi ?pe"
  let ?s = "if own then own_by ET_SYS ?pe s else s"
  let ?zs = "?P @ ?A @ ?Q @ ?C"
  have x: "?A @ ?C = xs" "cnt_of r s = int (length xs)" "chain (m_events s) (first_of r s) xs"
    "xs \<noteq> [] \<Longrightarrow> last_of r s = Some (last xs)" "distinct xs"
    using pri_listD [OF xs] by (simp_all add: hi_def)
  have n: "0 < n" "n \<le> length es" using room es(3) by (auto simp: n_def)
  then have pe: "?pe \<noteq> []" "distinct ?pe" "set ?pe \<subseteq> set es"
    using es by (auto dest: in_set_takeD)
  have sp: "pri_sorted hi ?pe" using hl(1) by (simp add: pri_sorted_def hi_def sorted_wrt_take)
  have p: "?P @ ?Q = ?pe" using pri_sorted_split [OF sp] .
  have num: "nat (if int (length es) > nevents s - cnt_of r s then nevents s - cnt_of r s else int (length es)) = n"
    "(if int (length es) > nevents s - cnt_of r s then nevents s - cnt_of r s else int (length es)) = int n"
    using room by (auto simp: n_def x(2))
  define lh where "lh = (if ?A = [] then None else Some (last ?A))"
  define fl where "fl = (if ?C = [] then None else Some (hd ?C))"
  obtain p' where find: "find_high (nat (cnt_of r s)) None (first_of r s) 0 s = Some (lh, p', int (length ?A))"
    and fl: "fl = (if int (length ?A) = cnt_of r s then None else p')"
  proof -
    have ch: "chain (m_events s) (first_of r s) (?A @ ?C)" unfolding x(1) by (rule x(3))
    have k: "nat (cnt_of r s) = length (?A @ ?C)" unfolding x(1) using x(2) by simp
    have c: "int (length ?A) = cnt_of r s \<longleftrightarrow> ?C = []"
    proof -
      have "cnt_of r s = int (length (?A @ ?C))" unfolding x(1) by (rule x(2))
      then show ?thesis by simp
    qed
    let ?q = "chain_end (m_events s) (first_of r s) ?A"
    have "find_high (length (?A @ ?C)) None (first_of r s) 0 s = Some (lh, ?q, int (length ?A))"
    proof -
      have "\<forall>a \<in> set ?A. pri_of a s = ET_HIGH" "\<forall>c \<in> set ?C. pri_of c s \<noteq> ET_HIGH" by (simp_all add: hi_def)
      from find_high_sorted [OF ch this, of None 0] show ?thesis unfolding lh_def by simp
    qed
    then have f: "find_high (nat (cnt_of r s)) None (first_of r s) 0 s = Some (lh, ?q, int (length ?A))"
      unfolding k .
    have "?C \<noteq> [] \<Longrightarrow> ?q = Some (hd ?C)" using ch chain_first [of "m_events s" _ ?C] by simp
    then have "fl = (if int (length ?A) = cnt_of r s then None else ?q)" using c by (simp add: fl_def)
    with f show thesis by (rule that)
  qed
  have "\<exists>t. restore_link r (?P @ ?Q) lh fl ?s = Some t
     \<and> frame r (set ?zs) ?s t \<and> links (m_events t) ?zs \<and> first_of r t = Some (hd ?zs)
     \<and> last_of r t = Some (last ?zs) \<and> cnt_of r t = cnt_of r ?s
     \<and> (\<forall>x. e_owner (m_events t x) = e_owner (m_events ?s x)) \<and> l_mutex (glist r t) = l_mutex (glist r ?s)
     \<and> l_lasthigh (glist r t) = l_lasthigh (glist r ?s)"
    unfolding lh_def fl_def
  proof (rule restore_link_ok)
    show "distinct (?P @ ?A @ ?Q @ ?C)"
      using x(5) pe(2,3) es(2) by (auto simp: highs_def lows_def)
    show "cnt_of r ?s = int (length (?A @ ?C))" unfolding x(1) using x(2) by simp
    show "chain (m_events ?s) (first_of r ?s) (?A @ ?C)" unfolding x(1) using x(3) by simp
    show "last_of r ?s = Some (last (?A @ ?C))" if "?A @ ?C \<noteq> []" using x(4) that unfolding x(1) by simp
    show "?P @ ?Q \<noteq> []" unfolding p by (rule pe(1))
    show "\<forall>a \<in> set ?P. pri_of a ?s = ET_HIGH" by (simp add: hi_def)
    show "\<forall>c \<in> set ?Q. pri_of c ?s = ET_LOW" using hl(2) pe(3) by (auto simp: hi_def subset_iff)
  qed
  moreover have gs: "glist r ?s = glist r s" by simp
  ultimately obtain t where t: "restore_link r ?pe lh fl ?s = Some t" "frame r (set ?zs) ?s t"
    "links (m_events t) ?zs" "first_of r t = Some (hd ?zs)" "last_of r t = Some (last ?zs)"
    "cnt_of r t = cnt_of r s" "\<And>x. e_owner (m_events t x) = e_owner (m_events ?s x)"
    "l_mutex (glist r t) = l_mutex (glist r s)" "l_lasthigh (glist r t) = l_lasthigh (glist r s)"
    unfolding p gs by blast
  let ?t = "upd_os (CondBroadcast r) (upd_list r (l_cnt_update (\<lambda>c. c + int n)) t)"
  have "restore_list own r es s = Some ((ET_OK, Some (int n)), ?t)"
  proof (cases "cnt_of r s = 0")
    case True
    then have "lh = None" "fl = None" using find fl by simp_all
    then show ?thesis using True t(1) x(2) room unfolding restore_list_def Let_def num(2) by (cases own) simp_all
  next
    case False
    then show ?thesis using t(1) x(2) room find fl unfolding restore_list_def Let_def num(2) by (cases own) simp_all
  qed
  moreover have fr: "frame r (set xs \<union> set ?pe) s ?t"
  proof -
    have "frame r (set xs \<union> set ?pe) s ?s" by (auto intro!: frame_own_by)
    moreover have "frame r (set xs \<union> set ?pe) ?s t" by (rule frame_mono [OF t(2)]) auto
    ultimately have "frame r (set xs \<union> set ?pe) s t" by (rule frame_trans)
    then show ?thesis by (auto intro!: frame_upd)
  qed
  moreover have "pri_list ?t r ?zs"
  proof (rule pri_listI')
    show "frame r (set xs \<union> set ?pe) s ?t" by (rule fr)
    show "mset ?zs = mset (xs @ ?pe)"
      using mset_hl [of hi xs] mset_hl [of hi ?pe] by (simp add: add_ac)
    show "links (m_events ?t) ?zs" "first_of r ?t = Some (hd ?zs)" "last_of r ?t = Some (last ?zs)"
      "cnt_of r ?t = int (length xs) + int (length ?pe)"
      using t(3-6) x(2) n(2) by simp_all
    show "pri_sorted (high (m_events s)) ?zs" unfolding hi_def by (rule pri_sorted_parts)
    show "\<forall>e \<in> set (xs @ ?pe). e_owner (m_events ?t e) = ET_SYS"
      using t(7) own xs pe(3) by (auto simp: pri_list_def ev_list_def)
  qed (use xs es pe hl in \<open>auto simp: pri_list_def ev_list_def subset_iff\<close>)
  ultimately show ?thesis using t(8,9) by auto
qed

end
