(* ===== verification/Et_Dump.thy ===== *)
theory Et_Dump
  imports Et_RestoreSpec Et_Samples
begin

text \<open>
  Dumping into the input list of GrandCentral, and writing to an output list without regard to
  priorities: the events are appended.
\<close>

definition keeps :: "listref \<Rightarrow> et_mem \<Rightarrow> et_mem \<Rightarrow> bool" where
  "keeps r s t \<longleftrightarrow> gfix (stat_of r) t = gfix (stat_of r) s \<and> l_mutex (glist r t) = l_mutex (glist r s)"

lemma nwriteNoPri_loop_run:
  assumes "ev_list s r ys" and "ys \<noteq> []" and "p = last ys" and "distinct (ys @ es)"
  shows "\<exists>l t. nwriteNoPri_loop r p es s = (l, Done () t) \<and> ev_list t r (ys @ es)
     \<and> frame r (set ys \<union> set es) s t \<and> keeps r s t"
  using assms
proof (induction es arbitrary: s ys p)
  case Nil
  then show ?case by (simp add: prog_defs keeps_def)
next
  case (Cons e es)
  let ?s = "upd_list r (l_cnt_update (\<lambda>c. c + 1)) (upd_event e (e_owner_update (\<lambda>_. ET_SYS))
     (upd_list r (l_lastevent_update (\<lambda>_. Some e)) (upd_event p (e_next_update (\<lambda>_. Some e)) s)))"
  have ch: "chain (m_events s) (first_of r s) ys" and d: "distinct ys" "e \<notin> set ys" and p: "p = last ys"
    using Cons.prems by (auto simp: ev_list_def)
  have "chain ((m_events s)(p := e_next_update (\<lambda>_. Some e) (m_events s p))) (first_of r s) (ys @ [e])"
    unfolding p using chain_snoc_upd [OF ch Cons.prems(2) d(1)] .
  then have "chain ((m_events s)(p := e_next_update (\<lambda>_. Some e) (m_events s p),
      e := e_owner_update (\<lambda>_. ET_SYS) (((m_events s)(p := e_next_update (\<lambda>_. Some e) (m_events s p))) e)))
     (first_of r s) (ys @ [e])"
    by (subst chain_upd_same_next) auto
  then have "ev_list ?s r (ys @ [e])"
    using Cons.prems unfolding ev_list_def by auto
  from Cons.IH [OF this, of e] Cons.prems obtain l t where
    t: "nwriteNoPri_loop r e es ?s = (l, Done () t)" "ev_list t r ((ys @ [e]) @ es)"
      "frame r (set (ys @ [e]) \<union> set es) ?s t" "keeps r ?s t" by auto
  have "p \<in> set ys" using p Cons.prems(2) by simp
  then have "frame r (set ys \<union> set (e # es)) s ?s" by (intro frame_upd frame_refl) auto
  moreover have "frame r (set ys \<union> set (e # es)) ?s t" using t(3) by (rule frame_mono) auto
  ultimately have "frame r (set ys \<union> set (e # es)) s t" by (rule frame_trans)
  moreover have "keeps r s t" using t(4) by (simp add: keeps_def)
  ultimately show ?case using t(1,2) by (simp add: prog_defs)
qed

text \<open>Memory after the repair information of a dump of \<open>n\<close> events is recorded.\<close>

definition dump_open :: "int \<Rightarrow> et_mem \<Rightarrow> et_mem" where
  "dump_open n s = upd_fixin ET_GRANDCENTRAL (\<lambda>f. fi_start_update (\<lambda>n. n + 1) (f\<lparr>fi_eventsin := l_events_in (glist (ListIn ET_GRANDCENTRAL) s),
       fi_cnt := cnt_of (ListIn ET_GRANDCENTRAL) s, fi_num := n, fi_call := ET_FIX_DUMP\<rparr>))
     (if cnt_of (ListIn ET_GRANDCENTRAL) s = 0
      then upd_list (ListIn ET_GRANDCENTRAL) (l_firstevent_update (\<lambda>_. None)) s else s)"

lemma upd_fixin_twice: "upd_fixin st f (upd_fixin st g s) = upd_fixin st (\<lambda>x. f (g x)) s"
  by (simp add: upd_fixin_def upd_station_def comp_def)

lemma open_fixin_dump_eq: "\<exists>l. open_fixin_dump n s = (l, Done () (dump_open n s))"
  by (simp add: open_fixin_dump_def prog_defs Let_def dump_open_def upd_fixin_twice comp_def)

lemma dump_open_mem [simp]:
  "m_events (dump_open n s) = m_events s"
  "cnt_of r (dump_open n s) = cnt_of r s"
  "last_of r (dump_open n s) = last_of r s"
  "l_mutex (glist r (dump_open n s)) = l_mutex (glist r s)"
  "gfix ET_GRANDCENTRAL (dump_open n s) = f_in_update (\<lambda>f. fi_start_update (\<lambda>n. n + 1) (f\<lparr>fi_eventsin := l_events_in (glist (ListIn ET_GRANDCENTRAL) s),
       fi_cnt := cnt_of (ListIn ET_GRANDCENTRAL) s, fi_num := n, fi_call := ET_FIX_DUMP\<rparr>)) (gfix ET_GRANDCENTRAL s)"
  "nevents (dump_open n s) = nevents s"
  by (simp_all add: dump_open_def)

lemma frame_dump_open: "frame (ListIn ET_GRANDCENTRAL) E s t \<Longrightarrow> frame (ListIn ET_GRANDCENTRAL) E s (dump_open n t)"
  by (simp add: dump_open_def frame_upd)

lemma ev_list_dump_open: "ev_list s (ListIn ET_GRANDCENTRAL) xs \<Longrightarrow> ev_list (dump_open n s) (ListIn ET_GRANDCENTRAL) xs"
  by (cases xs) (auto simp: ev_list_def dump_open_def)

text \<open>The events are appended to an idle input list of GrandCentral.\<close>

lemma dump_link_ok:
  assumes "ev_list s r xs" and "distinct (xs @ e0 # es)"
  shows "\<exists>l t. cond (\<lambda>s. cnt_of r s = 0)
              (block [set_first r (Some e0), set_last r (Some e0), set_owner e0 ET_SYS,
                      add_cnt r 1] (nwriteNoPri_loop r e0 es))
              (deref (last_of r) (\<lambda>p. nwriteNoPri_loop r p (e0 # es))) s = (l, Done () t)
     \<and> ev_list t r (xs @ e0 # es) \<and> frame r (set xs \<union> set (e0 # es)) s t \<and> keeps r s t"
proof (cases "xs = []")
  case True
  let ?s = "upd_list r (l_cnt_update (\<lambda>c. c + 1)) (upd_event e0 (e_owner_update (\<lambda>_. ET_SYS))
     (upd_list r (l_lastevent_update (\<lambda>_. Some e0)) (upd_list r (l_firstevent_update (\<lambda>_. Some e0)) s)))"
  have "ev_list ?s r [e0]" using assms(1) True by (auto simp: ev_list_def)
  from nwriteNoPri_loop_run [OF this, of e0 es] assms(2) True obtain l t where
    t: "nwriteNoPri_loop r e0 es ?s = (l, Done () t)" "ev_list t r ([e0] @ es)"
       "frame r (set [e0] \<union> set es) ?s t" "keeps r ?s t" by auto
  have "frame r (set xs \<union> set (e0 # es)) s ?s" by (intro frame_upd frame_refl) auto
  moreover have "frame r (set xs \<union> set (e0 # es)) ?s t" using t(3) by (rule frame_mono) auto
  ultimately have "frame r (set xs \<union> set (e0 # es)) s t" by (rule frame_trans)
  moreover have "keeps r s t" using t(4) by (simp add: keeps_def)
  ultimately show ?thesis using t(1,2) assms(1) True by (simp add: prog_defs ev_list_def)
next
  case False
  from nwriteNoPri_loop_run [OF assms(1) False refl assms(2)] assms(1) False
  show ?thesis by (auto simp: ev_list_def cond_def deref_def)
qed

lemma et_station_ndump_run:
  assumes ok: "in_ok s ET_GRANDCENTRAL xs" and es: "distinct es" "set xs \<inter> set es = {}"
    and room: "int (length xs + length es) \<le> nevents s"
  shows "\<exists>l t. et_station_ndump es s = (l, Done ET_OK t) \<and> in_ok t ET_GRANDCENTRAL (xs @ es)
     \<and> frame (ListIn ET_GRANDCENTRAL) (set xs \<union> set es) s t
     \<and> f_out (gfix ET_GRANDCENTRAL t) = f_out (gfix ET_GRANDCENTRAL s)"
proof (cases es)
  case Nil
  then show ?thesis using ok by (simp add: et_station_ndump_def Let_def prog_defs)
next
  case (Cons e0 rest)
  let ?r = "ListIn ET_GRANDCENTRAL" and ?z = ET_GRANDCENTRAL
  have ev: "ev_list s ?r xs" "\<not> l_mutex (glist ?r s)" "fi_first (f_in (gfix ?z s)) = None" "fi_start (f_in (gfix ?z s)) = 0"
    using ok by (simp_all add: in_ok_def)
  let ?s1 = "upd_list ?r (l_mutex_update (\<lambda>_. True)) s"
  let ?s2 = "dump_open (int (length es)) ?s1"
  have ev1: "ev_list ?s1 ?r xs" using ev(1) by (auto simp: ev_list_def)
  have c: "cnt_of ?r s = int (length xs)" using ev(1) by (simp add: ev_list_def)
  have d: "distinct (xs @ e0 # rest)" using es Cons ev(1) by (auto simp: ev_list_def)
  obtain l1 where o: "open_fixin_dump (int (length es)) ?s1 = (l1, Done () ?s2)"
    using open_fixin_dump_eq by blast
  obtain l t where t: "cond (\<lambda>s. cnt_of ?r s = 0)
              (block [set_first ?r (Some e0), set_last ?r (Some e0), set_owner e0 ET_SYS,
                      add_cnt ?r 1] (nwriteNoPri_loop ?r e0 rest))
              (deref (last_of ?r) (\<lambda>p. nwriteNoPri_loop ?r p (e0 # rest))) ?s2 = (l, Done () t)"
     "ev_list t ?r (xs @ e0 # rest)" "frame ?r (set xs \<union> set (e0 # rest)) ?s2 t" "keeps ?r ?s2 t"
    using dump_link_ok [OF ev_list_dump_open [OF ev1] d] by blast
  let ?t = "upd_os (CondSignal ?r) (upd_list ?r (l_mutex_update (\<lambda>_. False)) (upd_fixin ?z (fi_start_update (\<lambda>n. n - 1)) t))"
  have "\<exists>l. et_station_ndump es s = (l, Done ET_OK ?t)"
    using ev(2) room c o t(1) Cons
    by (simp add: et_station_ndump_def Let_def andthen_def bind_def et_llist_lock_def cond_def [of _ blocked] cond_def [of "\<lambda>s. nevents s - cnt_of _ s < _"]
      close_fixin_dump_def et_llist_unlock_def store_def ret_def)
  moreover have "frame ?r (set xs \<union> set es) s ?t"
  proof -
    have "frame ?r (set xs \<union> set es) s ?s2" by (intro frame_dump_open frame_upd frame_refl)
    from frame_trans [OF this] t(3) Cons show ?thesis by (intro frame_upd) auto
  qed
  moreover have "in_ok ?t ?z (xs @ es)" "f_out (gfix ?z ?t) = f_out (gfix ?z s)"
    using t(2,4) ev(3,4) Cons by (auto simp: in_ok_def ev_list_def keeps_def)
  ultimately show ?thesis by blast
qed

end
