(* ===== verification/Et_ShellSort.thy ===== *)
theory Et_ShellSort
  imports Main "HOL-Library.Multiset"
begin

text \<open>
  \<^verbatim>\<open>shellSort\<close> of \<^verbatim>\<open>et_system.c\<close>, with which the conductor orders parallel stations by the
  length of their input lists: it sorts the array \<^verbatim>\<open>a\<close> and moves the entries of \<^verbatim>\<open>b\<close> along.
  The arrays of the source are indexed from 1; entry \<open>j\<close> is \<open>a ! (j - 1)\<close>.
\<close>

section \<open>The routine\<close>

text \<open>\<^verbatim>\<open>do { inc *= 3; inc++; } while (inc <= n)\<close>\<close>

function start_gap :: "nat \<Rightarrow> nat \<Rightarrow> nat" where
  "start_gap n inc = (let inc' = 3 * inc + 1 in if inc' \<le> n then start_gap n inc' else inc')"
  by pat_completeness auto
termination by (relation "measure (\<lambda>(n, inc). n - inc)") auto

declare start_gap.simps [simp del]

text \<open>The entries of the run of \<open>j\<close> that are greater than \<open>v\<close> are moved up by \<open>inc\<close>.\<close>

function shift_up :: "nat \<Rightarrow> int \<Rightarrow> nat \<Rightarrow> int list \<times> nat list \<Rightarrow> nat \<times> int list \<times> nat list" where
  "shift_up inc v j (a, b) =
     (if inc = 0 \<or> j \<le> inc then (j, a, b)
      else if a ! (j - inc - 1) > v
      then shift_up inc v (j - inc) (a[j - 1 := a ! (j - inc - 1)], b[j - 1 := b ! (j - inc - 1)])
      else (j, a, b))"
  by pat_completeness auto
termination by (relation "measure (\<lambda>(inc, v, j, ab). j)") auto

declare shift_up.simps [simp del]

definition sort_step :: "nat \<Rightarrow> nat \<Rightarrow> int list \<times> nat list \<Rightarrow> int list \<times> nat list" where
  "sort_step inc i ab = (case ab of (a, b) \<Rightarrow>
     let v = a ! (i - 1); w = b ! (i - 1); (j, a', b') = shift_up inc v i (a, b)
     in (a'[j - 1 := v], b'[j - 1 := w]))"

definition sort_pass :: "nat \<Rightarrow> nat \<Rightarrow> int list \<times> nat list \<Rightarrow> int list \<times> nat list" where
  "sort_pass inc n ab = fold (sort_step inc) [inc + 1..<n + 1] ab"

function shell_loop :: "nat \<Rightarrow> nat \<Rightarrow> int list \<times> nat list \<Rightarrow> int list \<times> nat list" where
  "shell_loop n inc ab = (let inc' = inc div 3; ab' = sort_pass inc' n ab
     in if inc' > 1 then shell_loop n inc' ab' else ab')"
  by pat_completeness auto
termination by (relation "measure (\<lambda>(n, inc, ab). inc)") auto

declare shell_loop.simps [simp del]

definition shellSort :: "nat \<Rightarrow> int list \<Rightarrow> nat list \<Rightarrow> int list \<times> nat list" where
  "shellSort n a b = shell_loop n (start_gap n 1) (a, b)"

section \<open>Nothing is lost\<close>

text \<open>The pairs of entries, as a multiset.\<close>

definition pairs :: "int list \<times> nat list \<Rightarrow> (int \<times> nat) multiset" where
  "pairs ab = mset (zip (fst ab) (snd ab))"

definition lens :: "nat \<Rightarrow> int list \<times> nat list \<Rightarrow> bool" where
  "lens n ab \<longleftrightarrow> length (fst ab) = n \<and> length (snd ab) = n"

lemma mset_move:
  assumes "j < length c" "k < length c" "j \<noteq> k"
  shows "mset (c[j := c ! k, k := x]) = mset (c[j := x])"
proof -
  have "c[j := c ! k, k := x] = (c[j := x])[j := (c[j := x]) ! k, k := (c[j := x]) ! j]"
    using assms by (auto simp: list_eq_iff_nth_eq nth_list_update)
  then show ?thesis using assms mset_swap [of k "c[j := x]" j] by simp
qed

lemma shift_up_pairs:
  assumes "shift_up inc v j (a, b) = (j', a', b')" and "lens n (a, b)" and "1 \<le> j" and "j \<le> n"
  shows "lens n (a', b') \<and> 1 \<le> j' \<and> j' \<le> j
     \<and> pairs (a'[j' - 1 := v], b'[j' - 1 := w]) = pairs (a[j - 1 := v], b[j - 1 := w])"
  using assms
proof (induction inc v j "(a, b)" arbitrary: a b rule: shift_up.induct)
  case (1 inc v j a b)
  show ?case
  proof (cases "inc = 0 \<or> j \<le> inc \<or> \<not> a ! (j - inc - 1) > v")
    case True
    then show ?thesis using 1(2-) by (subst (asm) shift_up.simps) (auto split: if_splits)
  next
    case False
    let ?a = "a[j - 1 := a ! (j - inc - 1)]" and ?b = "b[j - 1 := b ! (j - inc - 1)]"
    have "shift_up inc v (j - inc) (?a, ?b) = (j', a', b')"
      using False 1(2) by (subst (asm) shift_up.simps) simp
    moreover have "lens n (?a, ?b)" using 1(3) by (simp add: lens_def)
    ultimately have IH: "lens n (a', b') \<and> 1 \<le> j' \<and> j' \<le> j - inc
      \<and> pairs (a'[j' - 1 := v], b'[j' - 1 := w]) = pairs (?a[j - inc - 1 := v], ?b[j - inc - 1 := w])"
      using False 1(1,4,5) by auto
    have "pairs (?a[j - inc - 1 := v], ?b[j - inc - 1 := w]) = pairs (a[j - 1 := v], b[j - 1 := w])"
    proof -
      have i: "j - 1 < length (zip a b)" "j - inc - 1 < length (zip a b)" "j - 1 \<noteq> j - inc - 1"
        using False 1(3-5) by (auto simp: lens_def)
      show ?thesis using mset_move [OF i, of "(v, w)"] i by (simp add: pairs_def zip_update)
    qed
    with IH show ?thesis by auto
  qed
qed

lemma sort_step_pairs:
  assumes "lens n ab" and "1 \<le> i" and "i \<le> n"
  shows "lens n (sort_step inc i ab) \<and> pairs (sort_step inc i ab) = pairs ab"
proof -
  obtain a b where ab: "ab = (a, b)" by (cases ab)
  obtain j a' b' where s: "shift_up inc (a ! (i - 1)) i (a, b) = (j, a', b')"
    by (cases "shift_up inc (a ! (i - 1)) i (a, b)") auto
  from shift_up_pairs [OF s, of n "b ! (i - 1)"] assms show ?thesis
    using s by (auto simp: ab sort_step_def lens_def Let_def)
qed

lemma sort_pass_pairs:
  assumes "lens n ab"
  shows "lens n (sort_pass inc n ab) \<and> pairs (sort_pass inc n ab) = pairs ab"
proof -
  have "lens n (fold (sort_step inc) is ab) \<and> pairs (fold (sort_step inc) is ab) = pairs ab"
    if "set is \<subseteq> {1..n}" for "is"
    using that assms
  proof (induction "is" arbitrary: ab)
    case (Cons i "is")
    then show ?case using sort_step_pairs [of n ab i inc] Cons.IH [of "sort_step inc i ab"] by simp
  qed simp
  moreover have "set [inc + 1..<n + 1] \<subseteq> {1..n}" by auto
  ultimately show ?thesis unfolding sort_pass_def by blast
qed

section \<open>The last pass sorts\<close>

lemma sorted_between:
  "sorted (p @ q) \<Longrightarrow> \<forall>x \<in> set p. x \<le> v \<Longrightarrow> \<forall>x \<in> set q. (v :: int) < x \<Longrightarrow> sorted (p @ v # q)"
  by (auto simp: sorted_append less_imp_le)

lemma shift_up_sorted:
  assumes "shift_up 1 v j (a, b) = (j', a', b')" and "1 \<le> j" and "j \<le> i" and "i \<le> length a"
    and "sorted (take (j - 1) a @ drop j (take i a))" and "\<forall>x \<in> set (drop j (take i a)). v < x"
  shows "length a' = length a \<and> 1 \<le> j' \<and> j' \<le> i \<and> sorted (take (j' - 1) a' @ v # drop j' (take i a'))"
  using assms
proof (induction "1 :: nat" v j "(a, b)" arbitrary: a b rule: shift_up.induct)
  case (1 v j a b)
  show ?case
  proof (cases "j = 1 \<or> \<not> a ! (j - 2) > v")
    case True
    then have r: "j' = j" "a' = a" using 1(2)
      by (subst (asm) shift_up.simps, auto split: if_splits simp: numeral_2_eq_2)+
    have "x \<le> v" if "x \<in> set (take (j - 1) a)" for x
    proof -
      note xin = that
      then have n1: "j \<noteq> 1" by auto
      have "2 \<le> j" using n1 \<open>1 \<le> j\<close> by simp
      then have j: "j - 2 < length (take (j - 1) a)" using \<open>j \<le> i\<close> \<open>i \<le> length a\<close> by (auto simp: min_def)
      obtain k where k: "k < length (take (j - 1) a)" "x = take (j - 1) a ! k"
        using xin by (metis in_set_conv_nth)
      have "sorted (take (j - 1) a)" using 1(6) by (simp add: sorted_append)
      then have "x \<le> take (j - 1) a ! (j - 2)" unfolding k(2) using k(1) j by (intro sorted_nth_mono) auto
      then show ?thesis using True j n1 by auto
    qed
    then have "\<forall>x \<in> set (take (j - 1) a). x \<le> v" by blast
    from sorted_between [OF 1(6) this 1(7)]
    have "sorted (take (j - 1) a @ v # drop j (take i a))" .
    with 1(3-5) show ?thesis unfolding r by simp
  next
    case False
    let ?a = "a[j - 1 := a ! (j - 2)]" and ?b = "b[j - 1 := b ! (j - 2)]"
    have j: "2 \<le> j" using False 1(3) by auto
    have run: "shift_up 1 v (j - 1) (?a, ?b) = (j', a', b')"
      using False j 1(2) by (subst (asm) shift_up.simps) (auto simp: numeral_2_eq_2 split: if_splits)
    have len: "j - 2 < length a" "j - 1 < length a" using j 1(4,5) by auto
    have t: "take (j - 2) ?a = take (j - 2) a" by simp
    have d: "drop (j - 1) (take i ?a) = a ! (j - 2) # drop j (take i a)"
    proof -
      have "drop (j - 1) (take i ?a) = take i ?a ! (j - 1) # drop (Suc (j - 1)) (take i ?a)"
        using len 1(4,5) j by (intro Cons_nth_drop_Suc [symmetric]) simp
      then show ?thesis using len j 1(4) by (simp add: take_update_swap)
    qed
    have s: "take (j - 2) a @ a ! (j - 2) # drop j (take i a) = take (j - 1) a @ drop j (take i a)"
      using take_Suc_conv_app_nth [of "j - 2" a] len j by (simp add: Suc_diff_Suc numeral_2_eq_2)
    have e: "j - 1 - 1 = j - 2" by simp
    have p: "sorted (take (j - 2) ?a @ drop (j - 1) (take i ?a))" unfolding t d s by (rule 1(6))
    have q: "\<forall>x \<in> set (drop (j - 1) (take i ?a)). v < x" using 1(7) False j unfolding d by auto
    from 1(1) [unfolded e, OF _ _ run _ _ _ p q] False j 1(4,5) show ?thesis by auto
  qed
qed

lemma last_pass_sorted:
  assumes "lens n ab"
  shows "sorted (fst (sort_pass 1 n ab))"
proof -
  have "sorted (take k (fst (fold (sort_step 1) [2..<Suc k] ab))) \<and> lens n (fold (sort_step 1) [2..<Suc k] ab)"
    if "k \<le> n" for k
    using that
  proof (induction k)
    case 0
    then show ?case using assms by simp
  next
    case (Suc k)
    show ?case
    proof (cases "k = 0")
      case True
      then show ?thesis using assms by (cases "fst ab") auto
    next
      case False
      let ?ab = "fold (sort_step 1) [2..<Suc k] ab"
      obtain a b where ab: "?ab = (a, b)" by (cases ?ab)
      have IH: "sorted (take k a)" "lens n (a, b)" using Suc ab by auto
      obtain j a' b' where s: "shift_up 1 (a ! k) (Suc k) (a, b) = (j, a', b')"
        by (cases "shift_up 1 (a ! k) (Suc k) (a, b)") auto
      have l: "length a = n" using IH(2) by (simp add: lens_def)
      from shift_up_sorted [OF s, of "Suc k"] IH(1) l Suc.prems
      have r: "length a' = n" "1 \<le> j" "j \<le> Suc k" "sorted (take (j - 1) a' @ a ! k # drop j (take (Suc k) a'))"
        by auto
      have "take (Suc k) (a'[j - 1 := a ! k]) = take (j - 1) a' @ a ! k # drop j (take (Suc k) a')"
      proof -
        have "take (Suc k) (a'[j - 1 := a ! k]) = (take (Suc k) a')[j - 1 := a ! k]" by (rule take_update_swap)
        also have "\<dots> = take (j - 1) (take (Suc k) a') @ a ! k # drop (Suc (j - 1)) (take (Suc k) a')"
          using r(1-3) Suc.prems by (intro upd_conv_take_nth_drop) simp
        also have "take (j - 1) (take (Suc k) a') = take (j - 1) a'"
          using r(3) by (simp add: min_absorb2)
        finally show ?thesis using r(2) by simp
      qed
      then have "sorted (take (Suc k) (fst (sort_step 1 (Suc k) ?ab)))"
        using r(4) s unfolding ab by (simp add: sort_step_def Let_def)
      moreover have "[2..<Suc (Suc k)] = [2..<Suc k] @ [Suc k]" using False by simp
      ultimately show ?thesis
        using sort_step_pairs [of n ?ab "Suc k" 1] IH(2) [folded ab] Suc.prems by (simp del: upt_Suc)
    qed
  qed
  from this [of n] show ?thesis by (auto simp: sort_pass_def lens_def numeral_2_eq_2)
qed

text \<open>The gaps 4, 13, 40, ...: a third of one is the one before, down to 1.\<close>

inductive gap :: "nat \<Rightarrow> bool" where
  gap_4: "gap 4"
| gap_next: "gap g \<Longrightarrow> gap (3 * g + 1)"

lemma start_gap_gap: "gap inc \<or> inc = 1 \<Longrightarrow> gap (start_gap n inc)"
proof (induction n inc rule: start_gap.induct)
  case (1 n inc)
  have "gap (3 * inc + 1)" using 1(2) gap.intros by auto
  with 1(1) show ?case by (subst start_gap.simps) (simp add: Let_def)
qed

lemma shell_loop_ok:
  assumes "gap inc" and "lens n ab"
  shows "lens n (shell_loop n inc ab) \<and> pairs (shell_loop n inc ab) = pairs ab \<and> sorted (fst (shell_loop n inc ab))"
  using assms
proof (induction inc arbitrary: ab)
  case gap_4
  have "shell_loop n 4 ab = sort_pass 1 n ab" by (simp add: shell_loop.simps)
  then show ?case using sort_pass_pairs [OF gap_4] last_pass_sorted [OF gap_4] by simp
next
  case (gap_next g)
  have "1 < g" using gap_next(1) by induction auto
  moreover have "(3 * g + 1) div 3 = g" by simp
  ultimately have "shell_loop n (3 * g + 1) ab = shell_loop n g (sort_pass g n ab)"
    by (subst shell_loop.simps) (simp only: Let_def if_True)
  then show ?case using gap_next(2) [of "sort_pass g n ab"] sort_pass_pairs [OF gap_next(3)] by simp
qed

theorem shellSort_ok:
  assumes "length a = n" and "length b = n" and "shellSort n a b = (a', b')"
  shows "length a' = n" and "length b' = n" and "sorted a'" and "mset (zip a' b') = mset (zip a b)"
  using shell_loop_ok [OF start_gap_gap, of 1 n "(a, b)" n] assms
  by (auto simp: shellSort_def lens_def pairs_def)

end
