(* ===== verification/Et_EqualCue.thy ===== *)
theory Et_EqualCue
  imports Et_ShellSort
begin

text \<open>
  The equal cue algorithm of \<^verbatim>\<open>et_conductor\<close> (\<^verbatim>\<open>et_system.c\<close>): how many of the events in hand
  each active station of a parallel group receives, so that afterwards the input lists are as
  equal in length as possible.
\<close>

section \<open>The routine\<close>

text \<open>\<^verbatim>\<open>numEvents[place[i]-1] += ...\<close> for the first stations of the sorted order.\<close>

fun add_to :: "int list \<Rightarrow> nat list \<Rightarrow> int list \<Rightarrow> int list" where
  "add_to (x # xs) (p # ps) num = add_to xs ps (num[p - 1 := num ! (p - 1) + x])"
| "add_to xs ps num = num"

text \<open>
  \<^verbatim>\<open>stationsWithSameCue\<close> and \<^verbatim>\<open>nextHigherCue\<close>: the stations at the head of the sorted order that are
  filled up to \<^verbatim>\<open>min\<close>, and the length of the first list that is not.
\<close>

fun same_cue :: "int \<Rightarrow> int list \<Rightarrow> (int \<times> nat) list \<Rightarrow> int \<Rightarrow> nat \<times> int" where
  "same_cue m num [] nxt = (0, nxt)"
| "same_cue m num ((c, p) # cps) nxt =
     (if m = c + num ! (p - 1) then (case same_cue m num cps nxt of (k, n) \<Rightarrow> (Suc k, n)) else (0, c))"

text \<open>
  The loop \<^verbatim>\<open>while (eventsDoledOut < events_left)\<close>.  Every turn but the last brings at least one more
  station to the common level, so as many turns as there are stations are enough; \<open>None\<close> is a loop
  that needs more, or a division by zero.
\<close>

fun dole :: "nat \<Rightarrow> (int \<times> nat) list \<Rightarrow> int \<Rightarrow> int \<Rightarrow> int \<Rightarrow> int \<Rightarrow> int list \<Rightarrow> int list option" where
  "dole fuel cps left m nxt doled num =
     (if doled \<ge> left then Some num
      else let (same, nxt') = same_cue m num cps nxt in
        if same = length cps \<or> left - doled < (nxt' - m) * int same
        then if same = 0 then None
          else let toput = left - doled; per = toput div int same; extra = toput mod int same in
            Some (add_to (map (\<lambda>i. if int i < extra then per + 1 else per) [0..<same]) (map snd cps) num)
        else (case fuel of 0 \<Rightarrow> None
          | Suc f \<Rightarrow> dole f cps left nxt' nxt' (doled + (nxt' - m) * int same)
              (add_to (replicate same (nxt' - m)) (map snd cps) num)))"

declare dole.simps [simp del]

text \<open>\<open>counts\<close> are the lengths of the input lists of the active stations in the order of the group.\<close>

definition equal_cue_plan :: "int list \<Rightarrow> int \<Rightarrow> int list option" where
  "equal_cue_plan counts events_left = (let n = length counts;
     (a, b) = shellSort n counts [1..<n + 1] in
     dole n (zip a b) events_left (hd a) 0 0 (replicate n 0))"

section \<open>Correctness\<close>

text \<open>What a station with \<open>c\<close> events needs to reach the level \<open>m\<close>.\<close>

abbreviation need :: "int \<Rightarrow> int \<Rightarrow> int" where
  "need m c \<equiv> max 0 (m - c)"

text \<open>\<open>cps\<close> is the sorted order: the places are distinct and within the array.\<close>

definition order_ok :: "(int \<times> nat) list \<Rightarrow> int list \<Rightarrow> bool" where
  "order_ok cps num \<longleftrightarrow> sorted (map fst cps) \<and> distinct (map snd cps) \<and> length num = length cps
     \<and> (\<forall>(c, p) \<in> set cps. 1 \<le> p \<and> p \<le> length cps)"

definition filled :: "(int \<times> nat) list \<Rightarrow> int \<Rightarrow> int list \<Rightarrow> bool" where
  "filled cps m num \<longleftrightarrow> (\<forall>(c, p) \<in> set cps. num ! (p - 1) = need m c)"

definition below :: "int \<Rightarrow> (int \<times> nat) list \<Rightarrow> (int \<times> nat) list" where
  "below m cps = takeWhile (\<lambda>(c, p). c \<le> m) cps"

lemma same_cue_below:
  "filled cps m num \<Longrightarrow> same_cue m num cps nxt =
     (length (below m cps), if below m cps = cps then nxt else fst (cps ! length (below m cps)))"
proof (induction cps)
  case (Cons cp cps)
  obtain c p where cp: "cp = (c, p)" by (cases cp)
  have f: "filled cps m num" "num ! (p - 1) = need m c" using Cons.prems by (auto simp: filled_def cp)
  show ?case using Cons.IH [OF f(1)] f(2)
    by (auto simp: cp below_def max_def simp del: takeWhile_eq_all_conv)
qed (simp add: below_def)

lemma add_to_length [simp]: "length (add_to xs ps num) = length num"
  by (induction xs ps num rule: add_to.induct) auto

lemma add_to_nth:
  assumes "distinct ps" and "\<forall>p \<in> set ps. 1 \<le> p \<and> p \<le> length num" and "length xs \<le> length ps"
  shows "i < length xs \<Longrightarrow> add_to xs ps num ! (ps ! i - 1) = num ! (ps ! i - 1) + xs ! i"
    and "1 \<le> p \<Longrightarrow> p \<notin> set (take (length xs) ps) \<Longrightarrow> add_to xs ps num ! (p - 1) = num ! (p - 1)"
proof -
  have *: "(\<forall>i < length xs. add_to xs ps num ! (ps ! i - 1) = num ! (ps ! i - 1) + xs ! i)
    \<and> (\<forall>p. 1 \<le> p \<and> p \<notin> set (take (length xs) ps) \<longrightarrow> add_to xs ps num ! (p - 1) = num ! (p - 1))"
    using assms
  proof (induction xs ps num rule: add_to.induct)
    case (1 x xs p ps num)
    let ?num = "num[p - 1 := num ! (p - 1) + x]"
    have IH: "\<And>i. i < length xs \<Longrightarrow> add_to xs ps ?num ! (ps ! i - 1) = ?num ! (ps ! i - 1) + xs ! i"
      "\<And>q. 1 \<le> q \<Longrightarrow> q \<notin> set (take (length xs) ps) \<Longrightarrow> add_to xs ps ?num ! (q - 1) = ?num ! (q - 1)"
      using 1 by auto
    have ne: "?num ! (q - 1) = num ! (q - 1)" if "q \<noteq> p" "1 \<le> q" for q
      using that 1(3) by (auto simp: nth_list_update)
    have p: "p \<notin> set (take (length xs) ps)" "1 \<le> p" "p - 1 < length num"
      using 1(2,3) in_set_takeD [of p "length xs" ps] by auto
    have "add_to (x # xs) (p # ps) num ! ((p # ps) ! i - 1) = num ! ((p # ps) ! i - 1) + (x # xs) ! i"
      if "i < length (x # xs)" for i
    proof (cases i)
      case 0
      then show ?thesis using IH(2) [of p] p by simp
    next
      case (Suc k)
      then have k: "k < length xs" "ps ! k \<in> set ps" using that 1(4) by auto
      then have "ps ! k \<noteq> p" "1 \<le> ps ! k" using 1(2,3) by auto
      then show ?thesis using IH(1) [of k] ne [of "ps ! k"] k Suc by simp
    qed
    moreover have "add_to (x # xs) (p # ps) num ! (q - 1) = num ! (q - 1)"
      if "1 \<le> q" "q \<notin> set (take (length (x # xs)) (p # ps))" for q
      using that IH(2) [of q] ne [of q] by simp
    ultimately show ?case by blast
  qed auto
  show "i < length xs \<Longrightarrow> add_to xs ps num ! (ps ! i - 1) = num ! (ps ! i - 1) + xs ! i" using * by blast
  show "1 \<le> p \<Longrightarrow> p \<notin> set (take (length xs) ps) \<Longrightarrow> add_to xs ps num ! (p - 1) = num ! (p - 1)" using * by blast
qed


text \<open>The numbers of events in the sorted order.\<close>

abbreviation cue_nums :: "(int \<times> nat) list \<Rightarrow> int list \<Rightarrow> int list" where
  "cue_nums cps num \<equiv> map (\<lambda>(c, p). num ! (p - 1)) cps"

lemma cue_nums_add_to:
  assumes ok: "order_ok cps num" and len: "length xs \<le> length cps"
  shows "order_ok cps (add_to xs (map snd cps) num)"
    and "i < length cps \<Longrightarrow> cue_nums cps (add_to xs (map snd cps) num) ! i =
      cue_nums cps num ! i + (if i < length xs then xs ! i else 0)"
proof -
  show "order_ok cps (add_to xs (map snd cps) num)" using ok by (auto simp: order_ok_def)
  have d: "distinct (map snd cps)" "\<forall>p \<in> set (map snd cps). 1 \<le> p \<and> p \<le> length num"
    using ok by (auto simp: order_ok_def)
  assume i: "i < length cps"
  have p: "1 \<le> map snd cps ! i" using d(2) i by (metis length_map nth_mem)
  show "cue_nums cps (add_to xs (map snd cps) num) ! i = cue_nums cps num ! i + (if i < length xs then xs ! i else 0)"
  proof (cases "i < length xs")
    case True
    then show ?thesis using add_to_nth(1) [OF d, of xs i] len i by (simp add: case_prod_beta)
  next
    case False
    have "map snd cps ! i \<notin> set (take (length xs) (map snd cps))"
    proof
      assume "map snd cps ! i \<in> set (take (length xs) (map snd cps))"
      then obtain j where "j < length xs" "map snd cps ! j = map snd cps ! i"
        using len by (auto simp: in_set_conv_nth)
      then show False using nth_eq_iff_index_eq [OF d(1), of j i] False i len by simp
    qed
    then show ?thesis using add_to_nth(2) [OF d, of xs "map snd cps ! i"] len i p False
      by (simp add: case_prod_beta)
  qed
qed

lemma sum_list_nums_add_to:
  assumes "order_ok cps num" and "length xs \<le> length cps"
  shows "sum_list (cue_nums cps (add_to xs (map snd cps) num)) = sum_list (cue_nums cps num) + sum_list xs"
proof -
  have "(\<Sum>i<length cps. (if i < length xs then xs ! i else 0)) = sum_list xs"
    using assms(2) by (subst sum.mono_neutral_cong_right [where S = "{..<length xs}" and h = "\<lambda>i. xs ! i"])
      (auto simp: sum_list_sum_nth atLeast0LessThan)
  then show ?thesis
    using cue_nums_add_to(2) [OF assms] by (simp add: sum_list_sum_nth atLeast0LessThan sum.distrib)
qed

lemma filled_nums:
  "filled cps m num \<longleftrightarrow> (\<forall>i < length cps. cue_nums cps num ! i = need m (map fst cps ! i))"
  by (auto simp: filled_def all_set_conv_all_nth case_prod_beta)

lemma below_props:
  assumes "sorted (map fst cps)"
  shows "length (below m cps) \<le> length cps"
    and "i < length (below m cps) \<Longrightarrow> map fst cps ! i \<le> m"
    and "length (below m cps) \<le> i \<Longrightarrow> i < length cps \<Longrightarrow> m < map fst cps ! length (below m cps)
      \<and> map fst cps ! length (below m cps) \<le> map fst cps ! i"
    and "below m cps = cps \<longleftrightarrow> length (below m cps) = length cps"
proof -
  let ?P = "\<lambda>(c :: int, p :: nat). c \<le> m"
  show l: "length (below m cps) \<le> length cps" by (simp add: below_def length_takeWhile_le)
  show "map fst cps ! i \<le> m" if "i < length (below m cps)"
    using that l nth_mem [OF that] takeWhile_nth [of i ?P cps] set_takeWhileD [of "cps ! i" ?P cps]
    by (auto simp: below_def case_prod_beta)
  show "m < map fst cps ! length (below m cps) \<and> map fst cps ! length (below m cps) \<le> map fst cps ! i"
    if "length (below m cps) \<le> i" "i < length cps"
    using that nth_length_takeWhile [of ?P cps] sorted_nth_mono [OF assms that(1)] l
    by (auto simp: below_def case_prod_beta)
  show "below m cps = cps \<longleftrightarrow> length (below m cps) = length cps"
    by (metis below_def takeWhile_eq_take take_all_iff le_refl)
qed


text \<open>The last turn: what is left is spread over the stations that are level.\<close>

lemma sum_spread: "0 < k \<Longrightarrow> 0 \<le> t \<Longrightarrow>
  sum_list (map (\<lambda>i. if int i < t mod int k then t div int k + 1 else t div int k) [0..<k]) = t"
proof -
  assume k: "0 < k" and t: "0 \<le> t"
  let ?e = "t mod int k" and ?q = "t div int k"
  have e: "0 \<le> ?e" "?e < int k" using k by simp_all
  have "sum_list (map (\<lambda>i. if int i < ?e then ?q + 1 else ?q) [0..<k])
      = (\<Sum>i<k. ?q + (if int i < ?e then 1 else 0))"
    by (subst sum_list_sum_nth) (auto intro!: sum.cong simp: atLeast0LessThan)
  also have "\<dots> = int k * ?q + (\<Sum>i<k. if int i < ?e then 1 else 0)" by (simp add: sum.distrib)
  also have "(\<Sum>i<k. if int i < ?e then 1 else 0) = (\<Sum>i<nat ?e. 1 :: int)"
    using e by (subst sum.mono_neutral_cong_right [where S = "{..<nat ?e}" and h = "\<lambda>_. 1"]) auto
  finally show ?thesis using e by simp
qed

text \<open>The outcome: everything is handed out, and nobody who gets an event ends up more than one ahead.\<close>

definition fair :: "int list \<Rightarrow> int list \<Rightarrow> int \<Rightarrow> bool" where
  "fair cs ns tot \<longleftrightarrow> length ns = length cs \<and> (\<forall>n \<in> set ns. 0 \<le> n) \<and> sum_list ns = tot
     \<and> (\<forall>i < length cs. \<forall>j < length cs. 0 < ns ! i \<longrightarrow> cs ! i + ns ! i \<le> cs ! j + ns ! j + 1)"

lemma all_nonneg_nth: "length ns = n \<Longrightarrow> (\<And>i. i < n \<Longrightarrow> (0 :: int) \<le> ns ! i) \<Longrightarrow> \<forall>x \<in> set ns. 0 \<le> x"
  by (auto simp: in_set_conv_nth)

definition dole_inv :: "(int \<times> nat) list \<Rightarrow> int \<Rightarrow> int \<Rightarrow> int \<Rightarrow> int list \<Rightarrow> bool" where
  "dole_inv cps left m doled num \<longleftrightarrow> order_ok cps num \<and> filled cps m num
     \<and> sum_list (cue_nums cps num) = doled \<and> doled \<le> left \<and> below m cps \<noteq> []"

definition dole_post :: "(int \<times> nat) list \<Rightarrow> int \<Rightarrow> int list \<Rightarrow> bool" where
  "dole_post cps left num' \<longleftrightarrow> length num' = length cps \<and> fair (map fst cps) (cue_nums cps num') left"

lemma dole_done: "dole_inv cps left m doled num \<Longrightarrow> doled = left \<Longrightarrow> dole_post cps left num"
proof -
  assume inv: "dole_inv cps left m doled num" and "doled = left"
  have N: "cue_nums cps num ! i = need m (map fst cps ! i)" if "i < length cps" for i
    using inv that by (simp add: dole_inv_def filled_nums)
  have "0 \<le> cue_nums cps num ! i" if "i < length cps" for i using N [OF that] by simp
  then have "\<forall>x \<in> set (cue_nums cps num). 0 \<le> x" by (intro all_nonneg_nth [where n = "length cps"]) simp_all
  moreover have "map fst cps ! i + cue_nums cps num ! i \<le> map fst cps ! j + cue_nums cps num ! j + 1"
    if "i < length cps" "j < length cps" "0 < cue_nums cps num ! i" for i j
    using N [OF that(1)] N [OF that(2)] that(3) by linarith
  ultimately show ?thesis
    using inv \<open>doled = left\<close> by (auto simp: dole_post_def fair_def dole_inv_def order_ok_def)
qed

lemma dole_last:
  assumes inv: "dole_inv cps left m doled num" and "doled < left"
  defines "k \<equiv> length (below m cps)"
  defines "t \<equiv> left - doled"
  assumes last: "k = length cps \<or> t < (map fst cps ! k - m) * int k"
  shows "dole_post cps left
    (add_to (map (\<lambda>i. if int i < t mod int k then t div int k + 1 else t div int k) [0..<k]) (map snd cps) num)"
proof -
  let ?xs = "map (\<lambda>i. if int i < t mod int k then t div int k + 1 else t div int k) [0..<k]"
  let ?num = "add_to ?xs (map snd cps) num"
  let ?cs = "map fst cps" and ?q = "t div int k"
  have ok: "order_ok cps num" "sorted ?cs" using inv by (simp_all add: dole_inv_def order_ok_def)
  have k: "0 < k" "k \<le> length cps" and t: "0 < t"
    using inv \<open>doled < left\<close> below_props(1) [OF ok(2)] by (auto simp: k_def t_def dole_inv_def)
  have len: "length ?xs \<le> length cps" using k by simp
  have N: "cue_nums cps num ! i = need m (?cs ! i)" if "i < length cps" for i
    using inv that by (simp add: dole_inv_def filled_nums)
  have q: "0 \<le> ?q" using t k by (simp add: pos_imp_zdiv_nonneg_iff)
  have lev: "cue_nums cps ?num ! i = (if i < k then m - ?cs ! i + ?q + (if int i < t mod int k then 1 else 0) else 0)"
    if "i < length cps" for i
    using cue_nums_add_to(2) [OF ok(1) len that] N [OF that] below_props(2) [OF ok(2), of i m]
      below_props(3) [OF ok(2), of m i] that k_def by (auto simp: max_def)
  have up: "m + ?q + 1 \<le> ?cs ! j" if "k \<le> j" "j < length cps" for j
  proof -
    have "t < (?cs ! k - m) * int k" using last that by auto
    moreover have "?q * int k \<le> t" using div_mult_mod_eq [of t "int k"] pos_mod_sign [of "int k" t] k by linarith
    ultimately have "?q * int k < (?cs ! k - m) * int k" by linarith
    then have "?q < ?cs ! k - m" by (rule mult_right_less_imp_less) simp
    then show ?thesis using below_props(3) [OF ok(2), of m j] that by (simp add: k_def)
  qed
  have cs: "?cs ! i \<le> m" if "i < k" for i using below_props(2) [OF ok(2), of i m] that by (simp add: k_def)
  have ll: "length (cue_nums cps ?num) = length cps" by simp
  have "0 \<le> cue_nums cps ?num ! i" if "i < length cps" for i using lev [OF that] cs [of i] q by auto
  then have "\<forall>x \<in> set (cue_nums cps ?num). 0 \<le> x" by (rule all_nonneg_nth [OF ll])
  moreover have "sum_list (cue_nums cps ?num) = left"
    using sum_list_nums_add_to [OF ok(1) len] sum_spread [OF k(1), of t] t inv
    by (simp add: dole_inv_def t_def)
  moreover have "?cs ! i + cue_nums cps ?num ! i \<le> ?cs ! j + cue_nums cps ?num ! j + 1"
    if "i < length cps" "j < length cps" "0 < cue_nums cps ?num ! i" for i j
    using lev [OF that(1)] lev [OF that(2)] that(3) up [of j] that(2) by (auto split: if_splits)
  ultimately show ?thesis
    using ok(1) by (auto simp: dole_post_def fair_def order_ok_def)
qed

lemma dole_fill:
  assumes inv: "dole_inv cps left m doled num" and k: "length (below m cps) < length cps"
  defines "k \<equiv> length (below m cps)"
  defines "nxt \<equiv> map fst cps ! k"
  assumes room: "(nxt - m) * int k \<le> left - doled"
  shows "dole_inv cps left nxt (doled + (nxt - m) * int k) (add_to (replicate k (nxt - m)) (map snd cps) num)"
    and "k < length (below nxt cps)"
proof -
  let ?cs = "map fst cps" and ?num = "add_to (replicate k (nxt - m)) (map snd cps) num"
  have ok: "order_ok cps num" "sorted ?cs" using inv by (simp_all add: dole_inv_def order_ok_def)
  have len: "length (replicate k (nxt - m)) \<le> length cps" using k by (simp add: k_def)
  have N: "cue_nums cps num ! i = need m (?cs ! i)" if "i < length cps" for i
    using inv that by (simp add: dole_inv_def filled_nums)
  have "cue_nums cps ?num ! i = need nxt (?cs ! i)" if i: "i < length cps" for i
  proof -
    have new: "cue_nums cps ?num ! i = need m (?cs ! i) + (if i < k then nxt - m else 0)"
      using cue_nums_add_to(2) [OF ok(1) len i] N [OF i] by simp
    have m: "m < nxt" using below_props(3) [OF ok(2), of m k] k by (simp add: k_def nxt_def)
    show ?thesis
    proof (cases "i < k")
      case True
      then have "?cs ! i \<le> m" using below_props(2) [OF ok(2), of i m] by (simp add: k_def)
      then show ?thesis using new True m by simp
    next
      case False
      then have "nxt \<le> ?cs ! i" using below_props(3) [OF ok(2), of m i] i by (simp add: k_def nxt_def)
      then show ?thesis using new False m by simp
    qed
  qed
  then have f: "filled cps nxt ?num" by (simp add: filled_nums)
  show b: "k < length (below nxt cps)"
  proof (rule ccontr)
    assume "\<not> k < length (below nxt cps)"
    then have "nxt < ?cs ! length (below nxt cps)" "?cs ! length (below nxt cps) \<le> ?cs ! k"
      using below_props(3) [OF ok(2), of nxt k] k by (auto simp: k_def)
    then show False by (simp add: nxt_def)
  qed
  have "sum_list (cue_nums cps ?num) = doled + (nxt - m) * int k"
    using sum_list_nums_add_to [OF ok(1) len] inv by (simp add: dole_inv_def sum_list_replicate mult.commute)
  then show "dole_inv cps left nxt (doled + (nxt - m) * int k) ?num"
    using f cue_nums_add_to(1) [OF ok(1) len] room b by (auto simp: dole_inv_def)
qed

lemma dole_turn:
  assumes inv: "dole_inv cps left m doled num"
  defines "k \<equiv> length (below m cps)"
  defines "nx \<equiv> map fst cps ! k" and "t \<equiv> left - doled"
  shows "dole fuel cps left m nxt doled num =
    (if doled \<ge> left then Some num
     else if k = length cps \<or> t < (nx - m) * int k
     then Some (add_to (map (\<lambda>i. if int i < t mod int k then t div int k + 1 else t div int k) [0..<k]) (map snd cps) num)
     else case fuel of 0 \<Rightarrow> None
       | Suc f \<Rightarrow> dole f cps left nx nx (doled + (nx - m) * int k) (add_to (replicate k (nx - m)) (map snd cps) num))"
proof -
  have inv': "filled cps m num" "k \<noteq> 0" "sorted (map fst cps)"
    using inv by (auto simp: dole_inv_def k_def order_ok_def)
  have k: "k = length cps \<longleftrightarrow> below m cps = cps" "k \<le> length cps"
    using below_props(1,4) [OF inv'(3)] by (simp_all add: k_def)
  then have "k \<noteq> length cps \<Longrightarrow> fst (cps ! k) = nx" by (simp add: nx_def)
  then obtain nxt' where s: "same_cue m num cps nxt = (k, nxt')" and n: "k \<noteq> length cps \<Longrightarrow> nxt' = nx"
    using k(1) by (auto simp: same_cue_below [OF inv'(1)] k_def [symmetric])
  show ?thesis
    using inv'(2) n unfolding dole.simps [of fuel] s Let_def prod.case t_def
    by (cases "k = length cps") (simp_all split: nat.split)
qed

lemma dole_ok:
  assumes "dole_inv cps left m doled num" and "length cps \<le> fuel + length (below m cps)"
  shows "\<exists>num'. dole fuel cps left m nxt doled num = Some num' \<and> dole_post cps left num'"
  using assms
proof (induction fuel arbitrary: m nxt doled num)
  case 0
  have "length (below m cps) = length cps"
    using 0 below_props(1) [of cps m] by (simp add: dole_inv_def order_ok_def)
  then show ?case
    using dole_done [OF 0(1)] dole_last [OF 0(1)] 0(1) unfolding dole_turn [OF 0(1)]
    by (cases "doled \<ge> left") (auto simp: dole_inv_def)
next
  case (Suc fuel)
  let ?k = "length (below m cps)"
  let ?nxt = "map fst cps ! ?k"
  consider "doled \<ge> left" | "doled < left" "?k = length cps \<or> left - doled < (?nxt - m) * int ?k"
    | "doled < left" "?k \<noteq> length cps" "(?nxt - m) * int ?k \<le> left - doled" by linarith
  then show ?case
  proof cases
    case 1
    then show ?thesis using dole_done [OF Suc(2)] Suc(2) unfolding dole_turn [OF Suc(2)] by (simp add: dole_inv_def)
  next
    case 2
    then show ?thesis using dole_last [OF Suc(2)] unfolding dole_turn [OF Suc(2)] by auto
  next
    case 3
    have "?k < length cps" using 3(2) below_props(1) [of cps m] Suc(2) by (simp add: dole_inv_def order_ok_def)
    from dole_fill [OF Suc(2) this 3(3)] Suc(1) [of ?nxt "doled + (?nxt - m) * int ?k"
        "add_to (replicate ?k (?nxt - m)) (map snd cps) num" ?nxt] Suc(3) 3
    show ?thesis unfolding dole_turn [OF Suc(2)] by auto
  qed
qed

theorem equal_cue_plan_fair:
  assumes "counts \<noteq> []" and "0 \<le> left"
  shows "\<exists>ns. equal_cue_plan counts left = Some ns \<and> fair counts ns left"
proof -
  let ?n = "length counts"
  define b0 where "b0 = [1..<length counts + 1]"
  have b0: "length b0 = ?n" "distinct b0" "set b0 = {1..<?n + 1}" by (auto simp: b0_def simp del: upt_Suc)
  obtain a b where ab: "shellSort ?n counts b0 = (a, b)" by (cases "shellSort ?n counts b0")
  have s: "length a = ?n" "length b = ?n" "sorted a" "mset (zip a b) = mset (zip counts b0)"
    using shellSort_ok [OF refl b0(1) ab] by simp_all
  let ?cps = "zip a b" and ?num = "replicate ?n (0 :: int)"
  have c: "map fst ?cps = a" "map snd ?cps = b" "length ?cps = ?n" using s by simp_all
  have m: "mset b = mset b0"
    using s(1,2) b0(1) arg_cong [OF s(4), of "image_mset snd"] by (simp flip: mset_map)
  have b: "distinct b" "set b = {1..<?n + 1}"
    using mset_eq_imp_distinct_iff [OF m] mset_eq_setD [OF m] b0 by simp_all
  have ok: "order_ok ?cps ?num"
    using s(1-3) b c set_zip_rightD [of _ _ a b] by (fastforce simp: order_ok_def)
  have z: "cue_nums ?cps ?num ! i = 0" if "i < ?n" for i
    using that s(1,2) b(2) nth_mem [of i b] by (auto simp del: nth_mem)
  have "cue_nums ?cps ?num = replicate ?n 0" using z c(3) by (intro nth_equalityI) auto
  then have sum: "sum_list (cue_nums ?cps ?num) = 0" by (simp add: sum_list_replicate)
  have hd: "hd a \<le> x" if "x \<in> set a" for x using s(3) that by (cases a) auto
  have f: "filled ?cps (hd a) ?num"
    unfolding filled_nums using z c s(1) hd [OF nth_mem] by (auto simp: max_def intro!: antisym)
  have "a \<noteq> []" "b \<noteq> []" using s(1,2) assms(1) by auto
  then have ne: "below (hd a) ?cps \<noteq> []" by (cases a; cases b) (auto simp: below_def)
  have "dole_inv ?cps left (hd a) 0 ?num" using ok f sum assms(2) ne by (simp add: dole_inv_def)
  from dole_ok [OF this, of ?n 0] c(3) obtain ns where
    ns: "dole ?n ?cps left (hd a) 0 0 ?num = Some ns" "length ns = ?n" "fair a (cue_nums ?cps ns) left"
    unfolding dole_post_def c by auto
  then have "equal_cue_plan counts left = Some ns" unfolding equal_cue_plan_def Let_def ab [unfolded b0_def] by simp
  moreover have "fair counts ns left"
  proof -
    have at: "\<exists>k < ?n. a ! k = counts ! i \<and> cue_nums ?cps ns ! k = ns ! i" if i: "i < ?n" for i
    proof -
      have "(counts ! i, i + 1) \<in> set (zip counts b0)"
        using i by (auto simp: in_set_zip b0_def simp del: upt_Suc)
      then have "(counts ! i, i + 1) \<in> set (zip a b)" using mset_eq_setD [OF s(4)] by simp
      then obtain k where "k < ?n" "a ! k = counts ! i" "b ! k = i + 1" using s(1,2) by (auto simp: in_set_zip)
      then show ?thesis using s(1,2) by (intro exI [of _ k]) simp
    qed
    have "sum_list (cue_nums ?cps ns) = sum_list (map (\<lambda>(c, p). ns ! (p - 1)) (zip counts b0))"
    proof -
      have "mset (cue_nums ?cps ns) = mset (map (\<lambda>(c, p). ns ! (p - 1)) (zip counts b0))"
        unfolding mset_map s(4) ..
      then show ?thesis by (metis sum_mset_sum_list)
    qed
    also have "map (\<lambda>(c, p). ns ! (p - 1)) (zip counts b0) = ns"
      using ns(2) b0(1) by (intro nth_equalityI) (auto simp: b0_def simp del: upt_Suc)
    finally have "sum_list ns = left" using ns(3) by (simp add: fair_def)
    moreover have "0 \<le> ns ! i" if i: "i < ?n" for i
    proof -
      obtain k where k: "k < ?n" "cue_nums ?cps ns ! k = ns ! i" using at [OF i] by blast
      have "cue_nums ?cps ns ! k \<in> set (cue_nums ?cps ns)" using k(1) c(3) by (intro nth_mem) simp
      then show ?thesis using ns(3) k(2) by (simp only: fair_def)
    qed
    then have "\<forall>x \<in> set ns. 0 \<le> x" by (rule all_nonneg_nth [OF ns(2)])
    moreover have "counts ! i + ns ! i \<le> counts ! j + ns ! j + 1" if "i < ?n" "j < ?n" "0 < ns ! i" for i j
      using at [OF that(1)] at [OF that(2)] that(3) ns(3) s(1) unfolding fair_def by metis
    ultimately show ?thesis using ns(2) by (simp add: fair_def)
  qed
  ultimately show ?thesis by blast
qed

end
