(* ===== verification/Et_Conductor.thy ===== *)
theory Et_Conductor
  imports Et_EqualCue Et_RestoreSpec
begin

unbundle bit_operations_syntax

text \<open>
  The conductor of a station (\<^verbatim>\<open>et_conductor\<close> and \<^verbatim>\<open>et_condition\<close> of \<^verbatim>\<open>et_system.c\<close>): the thread of
  the ET system process that takes all events from the output list of its station and distributes
  them over the input lists of the stations downstream, what is left at the end going to
  GrandCentral.  \<open>conductor_round\<close> is one turn of its endless loop; the thread holds the transfer
  mutex of its station meanwhile, so that the list of stations and their states do not change.

  \<open>Exits s\<close> is the \<^verbatim>\<open>goto error\<close> that ends the thread, \<open>Crash\<close> a null pointer that is followed,
  \<open>Asleep\<close> a wait that does not return, and \<open>Spin\<close> a walk along links between stations that does
  not end within the number of stations the system has room for.
\<close>

section \<open>Outcomes\<close>

datatype 'a res = Go 'a | Exits et_mem | Crash | Asleep et_mem | Spin

fun res_bind :: "'a res \<Rightarrow> ('a \<Rightarrow> 'b res) \<Rightarrow> 'b res" where
  "res_bind (Go a) f = f a"
| "res_bind (Exits s) f = Exits s"
| "res_bind Crash f = Crash"
| "res_bind (Asleep s) f = Asleep s"
| "res_bind Spin f = Spin"

text \<open>
  The local variables of a round: \<^verbatim>\<open>allevents\<close> with \<^verbatim>\<open>event_put\<close>, \<^verbatim>\<open>events_left\<close> and
  \<^verbatim>\<open>firstimethruloop\<close>.
\<close>

record pass =
  p_events :: "(nat \<times> bool) list"
  p_left :: int
  p_first :: bool

abbreviation config_of :: "et_stat_id \<Rightarrow> et_mem \<Rightarrow> et_stat_config" where
  "config_of st s \<equiv> s_config (m_stats s st)"
abbreviation status_of :: "et_stat_id \<Rightarrow> et_mem \<Rightarrow> int" where
  "status_of st s \<equiv> d_status (s_data (m_stats s st))"
abbreviation max_stations :: "et_mem \<Rightarrow> nat" where
  "max_stations s \<equiv> nat (y_nstations (sy_config (m_sys s)))"

section \<open>Selecting events for one station\<close>

text \<open>The default selection routine: even words must be equal, odd words must have a bit in common.\<close>

definition et_condition :: "et_stat_config \<Rightarrow> et_event \<Rightarrow> bool" where
  "et_condition c e = list_ex (\<lambda>i. c_select c ! i \<noteq> -1 \<and>
     (if even i then c_select c ! i = e_control e ! i else c_select c ! i AND e_control e ! i \<noteq> 0))
     [0..<ET_STATION_SELECT_INTS]"

text \<open>\<^verbatim>\<open>data.func\<close>; \<open>usr\<close> is the routine of the user's library.\<close>

definition select_func :: "(et_stat_id \<Rightarrow> et_event \<Rightarrow> bool) \<Rightarrow> et_stat_id \<Rightarrow> et_mem \<Rightarrow> nat \<Rightarrow> bool" where
  "select_func usr st s e =
     (if c_select_mode (config_of st s) = ET_STATION_SELECT_MATCH
      then et_condition (config_of st s) (m_events s e) else usr st (m_events s e))"

text \<open>The scan of a blocking station with its prescale; \<open>t\<close> is \<^verbatim>\<open>events_try\<close>.\<close>

fun pick_blocking ::
  "(nat \<Rightarrow> bool) \<Rightarrow> 64 word \<Rightarrow> (nat \<times> bool) list \<Rightarrow> 64 word \<Rightarrow> nat list \<times> (nat \<times> bool) list \<times> 64 word" where
  "pick_blocking f pre [] t = ([], [], t)"
| "pick_blocking f pre ((e, put) # es) t =
     (if put \<or> \<not> f e then (case pick_blocking f pre es t of (c, es', t') \<Rightarrow> (c, (e, put) # es', t'))
      else if t mod pre = 0 then (case pick_blocking f pre es (t + 1) of (c, es', t') \<Rightarrow> (e # c, (e, True) # es', t'))
      else (case pick_blocking f pre es (t + 1) of (c, es', t') \<Rightarrow> (c, (e, put) # es', t')))"

text \<open>The scan of a nonblocking station whose list takes \<open>j\<close> more events.\<close>

fun pick_cue :: "(nat \<Rightarrow> bool) \<Rightarrow> int \<Rightarrow> (nat \<times> bool) list \<Rightarrow> nat list \<times> (nat \<times> bool) list" where
  "pick_cue f j [] = ([], [])"
| "pick_cue f j ((e, put) # es) =
     (if put \<or> \<not> f e then (case pick_cue f j es of (c, es') \<Rightarrow> (c, (e, put) # es'))
      else if j - 1 = 0 then ([e], (e, True) # es)
      else (case pick_cue f (j - 1) es of (c, es') \<Rightarrow> (e # c, (e, True) # es')))"

text \<open>
  What a station other than GrandCentral gets: the events, the marks, \<^verbatim>\<open>events_try\<close> and whether it
  is the short cut for a blocking station that takes everything (\<^verbatim>\<open>writeall\<close>).
\<close>

definition select_events ::
  "(et_stat_id \<Rightarrow> et_event \<Rightarrow> bool) \<Rightarrow> et_stat_id \<Rightarrow> et_mem \<Rightarrow> pass
     \<Rightarrow> nat list \<times> (nat \<times> bool) list \<times> 64 word \<times> bool" where
  "select_events usr st s p = (let
       c = config_of st s; l = glist (ListIn st) s; t = l_events_try l; es = p_events p;
       f = (\<lambda>e. c_select_mode c = ET_STATION_SELECT_ALL \<or> select_func usr st s e)
     in
     if c_block_mode c = ET_STATION_BLOCKING then
       (if c_select_mode c = ET_STATION_SELECT_ALL \<and> p_first p \<and> c_prescale c = 1
        then (map fst es, es, t + of_nat (length es), True)
        else case pick_blocking f (word_of_int (c_prescale c)) es t of (ch, es', t') \<Rightarrow> (ch, es', t', False))
     else if c_block_mode c = ET_STATION_NONBLOCKING \<and> l_cnt l < c_cue c then
       (case pick_cue f (c_cue c - l_cnt l) es of (ch, es') \<Rightarrow> (ch, es', t, False))
     else ([], es, t, False))"

section \<open>Writing into the input lists\<close>

abbreviation lock_list :: "listref \<Rightarrow> et_mem \<Rightarrow> et_mem" where
  "lock_list r \<equiv> upd_list r (l_mutex_update (\<lambda>_. True))"
abbreviation unlock_list :: "listref \<Rightarrow> et_mem \<Rightarrow> et_mem" where
  "unlock_list r \<equiv> upd_list r (l_mutex_update (\<lambda>_. False))"
abbreviation set_try :: "et_stat_id \<Rightarrow> 64 word \<Rightarrow> et_mem \<Rightarrow> et_mem" where
  "set_try st t \<equiv> upd_list (ListIn st) (l_events_try_update (\<lambda>_. t))"

definition deliver :: "et_stat_id \<Rightarrow> 64 word \<Rightarrow> nat list \<Rightarrow> et_mem \<Rightarrow> et_mem res" where
  "deliver st t chunk s = (let r = ListIn st; s1 = set_try st t (lock_list r s) in
     case et_llist_write r chunk s1 of
       None \<Rightarrow> Crash
     | Some (n, s2) \<Rightarrow>
        if n < int (length chunk) then Exits (unlock_list r s2)
        else Go (upd_os (CondBroadcast r) (unlock_list r s2)))"

text \<open>What is not marked.\<close>

definition undealt :: "(nat \<times> bool) list \<Rightarrow> nat list" where
  "undealt es = map fst (filter (\<lambda>(e, put). \<not> put) es)"

text \<open>The temporary events that reach GrandCentral end there.\<close>

definition drop_temps :: "nat list \<Rightarrow> et_mem \<Rightarrow> et_mem" where
  "drop_temps es s = fold (\<lambda>e s. (upd_os (Unlink (e_filename (m_events s e))) s)
       \<lparr>m_sys := (m_sys s)\<lparr>sy_ntemps := sy_ntemps (m_sys s) - 1\<rparr>\<rparr>)
     (filter (\<lambda>e. e_temp (m_events s e) = ET_EVENT_TEMP) es) s"

definition feed_gc :: "et_mem \<times> pass \<Rightarrow> (et_mem \<times> pass) res" where
  "feed_gc sp = (case sp of (s, p) \<Rightarrow>
     let r = ListIn ET_GRANDCENTRAL; put = (if p_first p then map fst (p_events p) else undealt (p_events p)) in
     if put = [] then Go (s, p)
     else case et_llist_write_gc put (lock_list r (drop_temps put s)) of
       None \<Rightarrow> Crash
     | Some (status, s2) \<Rightarrow>
        if status = ET_ERROR then Exits (unlock_list r s2)
        else Go (upd_os (CondBroadcast r) (unlock_list r s2), p\<lparr>p_left := 0\<rparr>))"

definition feed :: "(et_stat_id \<Rightarrow> et_event \<Rightarrow> bool) \<Rightarrow> et_stat_id \<Rightarrow> et_mem \<times> pass \<Rightarrow> (et_mem \<times> pass) res" where
  "feed usr st sp = (if st = ET_GRANDCENTRAL then feed_gc sp else case sp of (s, p) \<Rightarrow>
     (case select_events usr st s p of (chunk, es', t, writeall) \<Rightarrow>
       if chunk = [] then Go (set_try st t s, p\<lparr>p_events := es'\<rparr>)
       else res_bind (deliver st t chunk s) (\<lambda>s'. Go (s', p\<lparr>p_events := es',
              p_left := (if writeall then 0 else p_left p - int (length chunk))\<rparr>))))"

section \<open>Groups of parallel stations\<close>

text \<open>The stations of a group from \<open>st\<close> on, at most \<open>n\<close> more.\<close>

fun group_from :: "nat \<Rightarrow> et_stat_id \<Rightarrow> et_mem \<Rightarrow> et_stat_id list option" where
  "group_from n st s =
     (if s_nextparallel (m_stats s st) > -1
      then case n of 0 \<Rightarrow> None
        | Suc n' \<Rightarrow> map_option (\<lambda>g. st # g) (group_from n' (s_nextparallel (m_stats s st)) s)
      else Some [st])"

declare group_from.simps [simp del]

text \<open>The stations of a group that is neither round robin nor equal cue are fed one after the other.\<close>

fun feed_all :: "(et_stat_id \<Rightarrow> et_event \<Rightarrow> bool) \<Rightarrow> et_stat_id list \<Rightarrow> et_mem \<times> pass \<Rightarrow> (et_mem \<times> pass) res" where
  "feed_all usr [] sp = Go sp"
| "feed_all usr (st # sts) sp = res_bind (feed usr st sp) (\<lambda>(s, p).
     if p_left p > 0 \<and> sts \<noteq> [] then feed_all usr sts (s, p\<lparr>p_first := False\<rparr>) else Go (s, p))"

text \<open>
  Round robin.  The station to begin with is the first active one behind the station that was the
  last to receive an event; its mark \<^verbatim>\<open>waslast\<close> is taken back.
\<close>

fun rr_start :: "et_stat_id list \<Rightarrow> bool \<Rightarrow> et_stat_id option \<Rightarrow> et_mem \<Rightarrow> et_stat_id option \<times> et_mem" where
  "rr_start [] looking start s = (start, s)"
| "rr_start (st # sts) looking start s = (let
       active = (status_of st s = ET_STATION_ACTIVE);
       start' = (if active \<and> looking then Some st else start);
       looking' = (if active then False else looking)
     in if s_waslast (m_stats s st) = 1
        then rr_start sts True start' (upd_station st (s_waslast_update (\<lambda>_. 0)) s)
        else rr_start sts looking' start' s)"

definition rr_num :: "int \<Rightarrow> nat \<Rightarrow> nat \<Rightarrow> int" where
  "rr_num left n i = (if int i < left mod int n then left div int n + 1 else left div int n)"

definition rr_last :: "int \<Rightarrow> nat \<Rightarrow> int" where
  "rr_last left n = (if left mod int n = 0 then int n - 1 else left mod int n - 1)"

text \<open>
  The events for the station that is \<open>i\<close>-th in turn: every \<open>n\<close>-th event of all, or, when some events
  have been put into stations already, every \<open>n\<close>-th unmarked one from position \<open>i\<close> on.
\<close>

fun rr_scan :: "nat \<Rightarrow> int \<Rightarrow> int \<Rightarrow> (nat \<times> bool) list \<Rightarrow> nat list" where
  "rr_scan n sk k [] = []"
| "rr_scan n sk k ((e, put) # es) =
     (if put then rr_scan n sk k es
      else if sk > 0 then rr_scan n (sk - 1) k es
      else e # (if k - 1 = 0 then [] else rr_scan n (int n - 1) (k - 1) es))"

definition rr_events :: "pass \<Rightarrow> nat \<Rightarrow> nat \<Rightarrow> nat list" where
  "rr_events p n i = (let k = rr_num (p_left p) n i in
     if p_first p then map (\<lambda>j. map fst (p_events p) ! (i + j * n)) [0..<nat k]
     else rr_scan n 0 k (drop i (p_events p)))"

text \<open>
  The stations of the order get their parts of the array \<^verbatim>\<open>putevents\<close> one after the other, \<open>cnt\<close>
  being the number of stations served; the one that gets the last event is marked.  When the search has found
  fewer events than planned, which happens only when the group is not the first stop, the last parts are shorter here,
  while the code takes what earlier rounds have left in the array.
\<close>

fun rr_deal :: "int \<Rightarrow> nat \<Rightarrow> nat \<Rightarrow> et_stat_id list \<Rightarrow> nat list \<Rightarrow> et_mem \<times> pass \<Rightarrow> (et_mem \<times> pass) res" where
  "rr_deal left n cnt [] arr sp = Go sp"
| "rr_deal left n cnt (st # sts) arr sp = (case sp of (s, p) \<Rightarrow>
     let s1 = (if int cnt = rr_last left n then upd_station st (s_waslast_update (\<lambda>_. 1)) s else s);
         k = rr_num left n cnt
     in if k > 0
        then res_bind (deliver st (l_events_try (glist (ListIn st) s1) + word_of_int k) (take (nat k) arr) s1)
          (\<lambda>s2. rr_deal left n (Suc cnt) sts (drop (nat k) arr) (s2, p\<lparr>p_left := p_left p - k\<rparr>))
        else rr_deal left n (Suc cnt) sts arr (s1, p))"

definition rr_group :: "et_stat_id list \<Rightarrow> et_mem \<times> pass \<Rightarrow> (et_mem \<times> pass) res" where
  "rr_group g sp = (case sp of (s, p) \<Rightarrow>
     let active = filter (\<lambda>st. status_of st s = ET_STATION_ACTIVE) g; n = length active;
         (start, s1) = rr_start g False None s;
         first = (case start of Some st \<Rightarrow> st | None \<Rightarrow> hd active);
         order = dropWhile (\<lambda>st. st \<noteq> first) active @ takeWhile (\<lambda>st. st \<noteq> first) active;
         arr = concat (map (rr_events p n) [0..<n])
     in rr_deal (p_left p) n 0 order arr (s1, p))"

text \<open>Equal cue: \<open>nums\<close> is the plan for the active stations, \<open>already\<close> the number of events dealt.\<close>

fun mark_first :: "nat \<Rightarrow> (nat \<times> bool) list \<Rightarrow> (nat \<times> bool) list" where
  "mark_first 0 es = es"
| "mark_first (Suc k) [] = []"
| "mark_first (Suc k) ((e, put) # es) =
     (if put then (e, put) # mark_first (Suc k) es else (e, True) # mark_first k es)"

fun eq_deal :: "et_stat_id list \<Rightarrow> int list \<Rightarrow> nat \<Rightarrow> et_mem \<times> pass \<Rightarrow> (et_mem \<times> pass) res" where
  "eq_deal (st # sts) (k # ks) already (s, p) =
     (if k < 1 then eq_deal sts ks already (s, p)
      else let chunk = (if p_first p then take (nat k) (drop already (map fst (p_events p)))
                        else take (nat k) (undealt (p_events p)))
        in res_bind (deliver st (l_events_try (glist (ListIn st) s) + word_of_int k) chunk s)
          (\<lambda>s'. eq_deal sts ks (already + nat k) (s', p\<lparr>p_left := p_left p - k,
             p_events := (if p_first p then p_events p else mark_first (nat k) (p_events p))\<rparr>)))"
| "eq_deal sts ks already sp = Go sp"

definition eq_group :: "et_stat_id list \<Rightarrow> et_mem \<times> pass \<Rightarrow> (et_mem \<times> pass) res" where
  "eq_group g sp = (case sp of (s, p) \<Rightarrow>
     let active = filter (\<lambda>st. status_of st s = ET_STATION_ACTIVE) g
     in case equal_cue_plan (map (\<lambda>st. cnt_of (ListIn st) s) active) (p_left p) of
       None \<Rightarrow> Crash
     | Some nums \<Rightarrow> eq_deal active nums 0 (s, p))"

section \<open>A round\<close>

definition feed_group :: "(et_stat_id \<Rightarrow> et_event \<Rightarrow> bool) \<Rightarrow> et_stat_id \<Rightarrow> et_mem \<times> pass \<Rightarrow> (et_mem \<times> pass) res" where
  "feed_group usr st sp = (case sp of (s, p) \<Rightarrow>
     if c_flow_mode (config_of st s) = ET_STATION_PARALLEL then
       (case group_from (max_stations s) st s of
          None \<Rightarrow> Spin
        | Some g \<Rightarrow>
           let active = filter (\<lambda>st. status_of st s = ET_STATION_ACTIVE) g in
           if active = [] then Go sp
           else if c_select_mode (config_of st s) = ET_STATION_SELECT_RROBIN then rr_group g sp
           else if c_select_mode (config_of st s) = ET_STATION_SELECT_EQUALCUE then eq_group g sp
           else feed_all usr active sp)
     else if status_of st s = ET_STATION_ACTIVE then feed usr st sp else Go sp)"

definition next_station :: "et_stat_id \<Rightarrow> et_mem \<Rightarrow> et_stat_id" where
  "next_station st s = (if s_next (m_stats s st) < 0 then ET_GRANDCENTRAL else s_next (m_stats s st))"

fun pass_loop ::
  "nat \<Rightarrow> (et_stat_id \<Rightarrow> et_event \<Rightarrow> bool) \<Rightarrow> et_stat_id \<Rightarrow> et_mem \<times> pass \<Rightarrow> (et_mem \<times> pass) res" where
  "pass_loop n usr st sp = (if p_left (snd sp) > 0 then
     res_bind (feed_group usr st sp) (\<lambda>(s, p).
       if st = ET_GRANDCENTRAL then Go (s, p)
       else case n of 0 \<Rightarrow> Spin
         | Suc n' \<Rightarrow> pass_loop n' usr (next_station st s) (s, p\<lparr>p_first := False\<rparr>))
     else Go sp)"

declare pass_loop.simps [simp del]

text \<open>The wait for events; \<open>envs\<close> is what the other threads do before each wake-up.\<close>

fun conductor_wait :: "et_stat_id \<Rightarrow> (et_mem \<Rightarrow> et_mem) list \<Rightarrow> et_mem \<Rightarrow> et_mem res" where
  "conductor_wait st envs s =
     (if cnt_of (ListOut st) s < 1 then
        (case envs of [] \<Rightarrow> Asleep s
         | env # envs' \<Rightarrow> let s' = env s in
            if s_conductor (m_stats s' st) = ET_THREAD_KILL then Exits s' else conductor_wait st envs' s')
      else Go s)"

declare conductor_wait.simps [simp del]

abbreviation transfer :: "bool \<Rightarrow> et_stat_id \<Rightarrow> et_mem \<Rightarrow> et_mem" where
  "transfer b st \<equiv> upd_station st (s_mutex_update (\<lambda>_. b))"

definition conductor_deal :: "(et_stat_id \<Rightarrow> et_event \<Rightarrow> bool) \<Rightarrow> et_stat_id \<Rightarrow> et_mem \<Rightarrow> et_mem res" where
  "conductor_deal usr st s = (case et_llist_read (ListOut st) (lock_list (ListOut st) s) of
       None \<Rightarrow> Crash
     | Some ((n, evs), s1) \<Rightarrow> let s2 = unlock_list (ListOut st) s1 in
        if n < 0 then Exits (transfer False st s2)
        else let s3 = transfer True st s2 in
          case (if c_flow_mode (config_of st s3) = ET_STATION_PARALLEL
                then first_parallel (max_stations s3) st s3 else Some st) of
            None \<Rightarrow> Spin
          | Some h \<Rightarrow>
             (case pass_loop (max_stations s3) usr (next_station h s3)
                     (s3, \<lparr>p_events = map (\<lambda>e. (e, False)) evs, p_left = n, p_first = True\<rparr>) of
                Go (s4, p) \<Rightarrow> Go (transfer False st s4)
              | Exits s4 \<Rightarrow> Exits (transfer False st s4)
              | Crash \<Rightarrow> Crash | Asleep s4 \<Rightarrow> Asleep s4 | Spin \<Rightarrow> Spin))"

definition conductor_round ::
  "(et_stat_id \<Rightarrow> et_event \<Rightarrow> bool) \<Rightarrow> et_stat_id \<Rightarrow> (et_mem \<Rightarrow> et_mem) list \<Rightarrow> et_mem \<Rightarrow> et_mem res" where
  "conductor_round usr st envs s = res_bind (conductor_wait st envs s) (conductor_deal usr st)"

text \<open>
  The start of the thread: it takes the first station that is being created; \<open>loaded\<close> says that
  the library of a user's selection routine and the routine in it were found.
\<close>

definition conductor_start :: "bool \<Rightarrow> et_mem \<Rightarrow> et_stat_id option \<times> et_mem" where
  "conductor_start loaded s =
     (case filter (\<lambda>st. status_of st s = ET_STATION_CREATING) (map int [0..<max_stations s]) of
        [] \<Rightarrow> (None, s)
      | st # _ \<Rightarrow>
         if c_select_mode (config_of st s) = ET_STATION_SELECT_USER \<and> \<not> loaded then (None, s)
         else (Some st, upd_station st (s_data_update (d_status_update (\<lambda>_.
           if st = ET_GRANDCENTRAL then ET_STATION_ACTIVE else ET_STATION_IDLE))) s))"

end
