(* ===== verification/Et_ConfigInterface.thy ===== *)
theory Et_ConfigInterface
  imports Et_Memory
begin

text \<open>
  The interface that the configuration routines of ET promise for one field of a
  configuration structure: a setter is refused when the structure is not initialised or the
  value is not legal and then changes nothing; otherwise it stores a value that the getter
  returns, and it never touches the \<^verbatim>\<open>init\<close> field.  The lemmas of the locale follow from
  this contract alone; the theories of the three configurations interpret it once per field.
\<close>

locale config_field =
  fixes init :: "'c \<Rightarrow> int"
    and legal :: "'v \<Rightarrow> bool"
    and stored :: "'v \<Rightarrow> 'w"
    and set_field :: "'c \<Rightarrow> 'v \<Rightarrow> int \<times> 'c"
    and get_field :: "'c \<Rightarrow> int \<times> 'w"
  assumes refuses: "init c \<noteq> ET_STRUCT_OK \<or> \<not> legal v \<Longrightarrow> set_field c v = (ET_ERROR, c)"
    and accepts: "init c = ET_STRUCT_OK \<Longrightarrow> legal v \<Longrightarrow> fst (set_field c v) = ET_OK"
    and stores: "init c = ET_STRUCT_OK \<Longrightarrow> legal v \<Longrightarrow> get_field (snd (set_field c v)) = (ET_OK, stored v)"
    and keeps_init: "init (snd (set_field c v)) = init c"
    and overwrites: "init c = ET_STRUCT_OK \<Longrightarrow> legal v \<Longrightarrow> legal w \<Longrightarrow>
      set_field (snd (set_field c v)) w = set_field c w"
begin

lemma ok_iff: "fst (set_field c v) = ET_OK \<longleftrightarrow> init c = ET_STRUCT_OK \<and> legal v"
  using refuses [of c v] accepts [of c v] by (cases "init c = ET_STRUCT_OK \<and> legal v") auto

lemma error_unchanged: "fst (set_field c v) \<noteq> ET_OK \<Longrightarrow> set_field c v = (ET_ERROR, c)"
  using refuses [of c v] accepts [of c v] by blast

lemma set_get: "set_field c v = (ET_OK, c') \<Longrightarrow> get_field c' = (ET_OK, stored v)"
  using ok_iff [of c v] stores [of c v] by simp

text \<open>Of a sequence of calls the last legal one counts.\<close>

lemma last_legal_counts:
  assumes "init c = ET_STRUCT_OK" and "legal v"
    and "\<forall>w \<in> set ws. \<not> legal w"
  shows "get_field (foldl (\<lambda>c w. snd (set_field c w)) c (us @ v # ws)) = (ET_OK, stored v)"
proof -
  have keep: "init (foldl (\<lambda>c w. snd (set_field c w)) c vs) = init c" for vs c
    by (induction vs arbitrary: c) (simp_all add: keeps_init)
  have illegal: "foldl (\<lambda>c w. snd (set_field c w)) d ws = d" for d
    using assms(3) by (induction ws arbitrary: d) (simp_all add: refuses)
  show ?thesis using stores [OF _ assms(2)] keep assms(1) illegal by simp
qed

end

end
