(* ===== verification/Et_StatConfig.thy ===== *)
theory Et_StatConfig
  imports Et_ConfigInterface
begin

text \<open>
  The configuration of a station (\<^verbatim>\<open>src/src/external/et/src/libsrc/et_statconfig.c\<close>): the
  routines that initialise it, set and read its fields, the check that a station is created
  with a consistent configuration, and the comparison that decides whether two stations may
  share a group of parallel stations.

  A C string is the list of its characters without the terminating zero, a \<^verbatim>\<open>NULL\<close> string
  is \<open>None\<close>.  A setter returns its status and the configuration it leaves.
\<close>

section \<open>Initialisation, setters and getters\<close>

definition et_station_config_init :: et_stat_config where
  "et_station_config_init = \<lparr>c_init = ET_STRUCT_OK, c_flow_mode = ET_STATION_SERIAL,
     c_user_mode = ET_STATION_USER_MULTI, c_restore_mode = ET_STATION_RESTORE_OUT,
     c_block_mode = ET_STATION_BLOCKING, c_prescale = ET_STATION_PRESCALE,
     c_cue = ET_STATION_CUE, c_select_mode = ET_STATION_SELECT_ALL,
     c_select = replicate ET_STATION_SELECT_INTS (-1), c_fname = [], c_lib = [], c_classs = []\<rparr>"

definition et_station_config_setblock :: "et_stat_config \<Rightarrow> int \<Rightarrow> int \<times> et_stat_config" where
  "et_station_config_setblock sc val =
     (if c_init sc \<noteq> ET_STRUCT_OK then (ET_ERROR, sc)
      else if val \<noteq> ET_STATION_NONBLOCKING \<and> val \<noteq> ET_STATION_BLOCKING then (ET_ERROR, sc)
      else (ET_OK, sc\<lparr>c_block_mode := val\<rparr>))"

definition et_station_config_getblock :: "et_stat_config \<Rightarrow> int \<times> int" where
  "et_station_config_getblock sc = (ET_OK, c_block_mode sc)"

definition et_station_config_setflow :: "et_stat_config \<Rightarrow> int \<Rightarrow> int \<times> et_stat_config" where
  "et_station_config_setflow sc val =
     (if c_init sc \<noteq> ET_STRUCT_OK then (ET_ERROR, sc)
      else if val \<noteq> ET_STATION_SERIAL \<and> val \<noteq> ET_STATION_PARALLEL then (ET_ERROR, sc)
      else (ET_OK, sc\<lparr>c_flow_mode := val\<rparr>))"

definition et_station_config_getflow :: "et_stat_config \<Rightarrow> int \<times> int" where
  "et_station_config_getflow sc = (ET_OK, c_flow_mode sc)"

definition et_station_config_setselect :: "et_stat_config \<Rightarrow> int \<Rightarrow> int \<times> et_stat_config" where
  "et_station_config_setselect sc val =
     (if c_init sc \<noteq> ET_STRUCT_OK then (ET_ERROR, sc)
      else if val \<noteq> ET_STATION_SELECT_ALL \<and> val \<noteq> ET_STATION_SELECT_MATCH
         \<and> val \<noteq> ET_STATION_SELECT_USER \<and> val \<noteq> ET_STATION_SELECT_RROBIN
         \<and> val \<noteq> ET_STATION_SELECT_EQUALCUE then (ET_ERROR, sc)
      else (ET_OK, sc\<lparr>c_select_mode := val\<rparr>))"

definition et_station_config_getselect :: "et_stat_config \<Rightarrow> int \<times> int" where
  "et_station_config_getselect sc = (ET_OK, c_select_mode sc)"

definition et_station_config_setuser :: "et_stat_config \<Rightarrow> int \<Rightarrow> int \<times> et_stat_config" where
  "et_station_config_setuser sc val =
     (if c_init sc \<noteq> ET_STRUCT_OK then (ET_ERROR, sc)
      else if val < 0 then (ET_ERROR, sc)
      else (ET_OK, sc\<lparr>c_user_mode := val\<rparr>))"

definition et_station_config_getuser :: "et_stat_config \<Rightarrow> int \<times> int" where
  "et_station_config_getuser sc = (ET_OK, c_user_mode sc)"

definition et_station_config_setrestore :: "et_stat_config \<Rightarrow> int \<Rightarrow> int \<times> et_stat_config" where
  "et_station_config_setrestore sc val =
     (if c_init sc \<noteq> ET_STRUCT_OK then (ET_ERROR, sc)
      else if val \<noteq> ET_STATION_RESTORE_OUT \<and> val \<noteq> ET_STATION_RESTORE_IN
         \<and> val \<noteq> ET_STATION_RESTORE_GC \<and> val \<noteq> ET_STATION_RESTORE_REDIST then (ET_ERROR, sc)
      else (ET_OK, sc\<lparr>c_restore_mode := val\<rparr>))"

definition et_station_config_getrestore :: "et_stat_config \<Rightarrow> int \<times> int" where
  "et_station_config_getrestore sc = (ET_OK, c_restore_mode sc)"

definition et_station_config_setcue :: "et_stat_config \<Rightarrow> int \<Rightarrow> int \<times> et_stat_config" where
  "et_station_config_setcue sc val =
     (if c_init sc \<noteq> ET_STRUCT_OK then (ET_ERROR, sc)
      else if val < 1 then (ET_ERROR, sc)
      else (ET_OK, sc\<lparr>c_cue := val\<rparr>))"

definition et_station_config_getcue :: "et_stat_config \<Rightarrow> int \<times> int" where
  "et_station_config_getcue sc = (ET_OK, c_cue sc)"

definition et_station_config_setprescale :: "et_stat_config \<Rightarrow> int \<Rightarrow> int \<times> et_stat_config" where
  "et_station_config_setprescale sc val =
     (if c_init sc \<noteq> ET_STRUCT_OK then (ET_ERROR, sc)
      else if val < 1 then (ET_ERROR, sc)
      else (ET_OK, sc\<lparr>c_prescale := val\<rparr>))"

definition et_station_config_getprescale :: "et_stat_config \<Rightarrow> int \<times> int" where
  "et_station_config_getprescale sc = (ET_OK, c_prescale sc)"

text \<open>The caller's array has at least \<^verbatim>\<open>ET_STATION_SELECT_INTS\<close> words, of which these are copied.\<close>

definition et_station_config_setselectwords :: "et_stat_config \<Rightarrow> int list \<Rightarrow> int \<times> et_stat_config" where
  "et_station_config_setselectwords sc val =
     (if c_init sc \<noteq> ET_STRUCT_OK then (ET_ERROR, sc)
      else (ET_OK, sc\<lparr>c_select := map (\<lambda>i. val ! i) [0..<ET_STATION_SELECT_INTS]\<rparr>))"

definition et_station_config_getselectwords :: "et_stat_config \<Rightarrow> int \<times> int list" where
  "et_station_config_getselectwords sc =
     (ET_OK, map (\<lambda>i. c_select sc ! i) [0..<ET_STATION_SELECT_INTS])"

definition et_station_config_setfunction :: "et_stat_config \<Rightarrow> string option \<Rightarrow> int \<times> et_stat_config" where
  "et_station_config_setfunction sc val =
     (if c_init sc \<noteq> ET_STRUCT_OK then (ET_ERROR, sc)
      else case val of None \<Rightarrow> (ET_ERROR, sc)
      | Some v \<Rightarrow> if length v > ET_FUNCNAME_LENGTH - 1 then (ET_ERROR, sc)
                  else (ET_OK, sc\<lparr>c_fname := v\<rparr>))"

definition et_station_config_getfunction :: "et_stat_config \<Rightarrow> int \<times> string" where
  "et_station_config_getfunction sc = (ET_OK, c_fname sc)"

definition et_station_config_setlib :: "et_stat_config \<Rightarrow> string option \<Rightarrow> int \<times> et_stat_config" where
  "et_station_config_setlib sc val =
     (if c_init sc \<noteq> ET_STRUCT_OK then (ET_ERROR, sc)
      else case val of None \<Rightarrow> (ET_ERROR, sc)
      | Some v \<Rightarrow> if length v > ET_FILENAME_LENGTH - 1 then (ET_ERROR, sc)
                  else (ET_OK, sc\<lparr>c_lib := v\<rparr>))"

definition et_station_config_getlib :: "et_stat_config \<Rightarrow> int \<times> string" where
  "et_station_config_getlib sc = (ET_OK, c_lib sc)"

definition et_station_config_setclass :: "et_stat_config \<Rightarrow> string option \<Rightarrow> int \<times> et_stat_config" where
  "et_station_config_setclass sc val =
     (if c_init sc \<noteq> ET_STRUCT_OK then (ET_ERROR, sc)
      else case val of None \<Rightarrow> (ET_ERROR, sc)
      | Some v \<Rightarrow> if length v > ET_FILENAME_LENGTH - 1 then (ET_ERROR, sc)
                  else (ET_OK, sc\<lparr>c_classs := v\<rparr>))"

definition et_station_config_getclass :: "et_stat_config \<Rightarrow> int \<times> string" where
  "et_station_config_getclass sc = (ET_OK, c_classs sc)"

section \<open>Consistency\<close>

definition et_station_config_check :: "et_mem \<Rightarrow> et_stat_config \<Rightarrow> int" where
  "et_station_config_check s sc = (let y = sy_config (m_sys s) in
     if c_flow_mode sc \<noteq> ET_STATION_SERIAL \<and> c_flow_mode sc \<noteq> ET_STATION_PARALLEL then ET_ERROR
     else if c_restore_mode sc \<noteq> ET_STATION_RESTORE_OUT \<and> c_restore_mode sc \<noteq> ET_STATION_RESTORE_IN
       \<and> c_restore_mode sc \<noteq> ET_STATION_RESTORE_GC \<and> c_restore_mode sc \<noteq> ET_STATION_RESTORE_REDIST
       then ET_ERROR
     else if c_user_mode sc < 0 \<or> c_user_mode sc > y_nattachments y then ET_ERROR
     else if c_select_mode sc \<noteq> ET_STATION_SELECT_ALL \<and> c_select_mode sc \<noteq> ET_STATION_SELECT_MATCH
       \<and> c_select_mode sc \<noteq> ET_STATION_SELECT_USER \<and> c_select_mode sc \<noteq> ET_STATION_SELECT_RROBIN
       \<and> c_select_mode sc \<noteq> ET_STATION_SELECT_EQUALCUE then ET_ERROR
     else if c_select_mode sc = ET_STATION_SELECT_USER
       \<and> (length (c_lib sc) < 4 \<or> length (c_fname sc) < 1) then ET_ERROR
     else if (c_select_mode sc = ET_STATION_SELECT_RROBIN \<or> c_select_mode sc = ET_STATION_SELECT_EQUALCUE)
       \<and> (c_flow_mode sc = ET_STATION_SERIAL \<or> c_block_mode sc = ET_STATION_NONBLOCKING
          \<or> c_restore_mode sc = ET_STATION_RESTORE_IN \<or> c_prescale sc \<noteq> 1) then ET_ERROR
     else if c_restore_mode sc = ET_STATION_RESTORE_REDIST \<and> c_flow_mode sc \<noteq> ET_STATION_PARALLEL
       then ET_ERROR
     else if c_block_mode sc \<noteq> ET_STATION_BLOCKING \<and> c_block_mode sc \<noteq> ET_STATION_NONBLOCKING
       then ET_ERROR
     else if c_block_mode sc = ET_STATION_BLOCKING then
       (if c_prescale sc < 1 then ET_ERROR else ET_OK)
     else if c_cue sc < 1 then ET_ERROR
     else if c_cue sc > y_nevents y then ET_ERROR
     else ET_OK)"

definition et_station_compare_parallel :: "et_stat_config \<Rightarrow> et_stat_config \<Rightarrow> int" where
  "et_station_compare_parallel grp config =
     (if c_flow_mode grp \<noteq> c_flow_mode config then 0
      else if (c_select_mode grp = ET_STATION_SELECT_RROBIN
               \<and> c_select_mode config \<noteq> ET_STATION_SELECT_RROBIN)
            \<or> (c_select_mode grp = ET_STATION_SELECT_EQUALCUE
               \<and> c_select_mode config \<noteq> ET_STATION_SELECT_EQUALCUE) then 0
      else if (c_select_mode grp = ET_STATION_SELECT_RROBIN
               \<or> c_select_mode grp = ET_STATION_SELECT_EQUALCUE)
            \<and> (c_block_mode grp \<noteq> c_block_mode config \<or> c_prescale grp \<noteq> c_prescale config) then 0
      else if (c_select_mode grp \<noteq> ET_STATION_SELECT_RROBIN
               \<and> c_select_mode grp \<noteq> ET_STATION_SELECT_EQUALCUE)
            \<and> (c_select_mode config = ET_STATION_SELECT_RROBIN
               \<or> c_select_mode config = ET_STATION_SELECT_EQUALCUE) then 0
      else 1)"


section \<open>The setters keep the contract of the interface\<close>

lemmas stat_config_setters = et_station_config_setblock_def et_station_config_setflow_def
  et_station_config_setselect_def et_station_config_setuser_def et_station_config_setrestore_def
  et_station_config_setcue_def et_station_config_setprescale_def
  et_station_config_setselectwords_def et_station_config_setfunction_def
  et_station_config_setlib_def et_station_config_setclass_def

lemmas stat_config_getters = et_station_config_getblock_def et_station_config_getflow_def
  et_station_config_getselect_def et_station_config_getuser_def et_station_config_getrestore_def
  et_station_config_getcue_def et_station_config_getprescale_def
  et_station_config_getselectwords_def et_station_config_getfunction_def
  et_station_config_getlib_def et_station_config_getclass_def

abbreviation flow_legal :: "int \<Rightarrow> bool" where
  "flow_legal v \<equiv> v \<in> {ET_STATION_SERIAL, ET_STATION_PARALLEL}"
abbreviation block_legal :: "int \<Rightarrow> bool" where
  "block_legal v \<equiv> v \<in> {ET_STATION_NONBLOCKING, ET_STATION_BLOCKING}"
abbreviation select_legal :: "int \<Rightarrow> bool" where
  "select_legal v \<equiv> v \<in> {ET_STATION_SELECT_ALL, ET_STATION_SELECT_MATCH, ET_STATION_SELECT_USER,
     ET_STATION_SELECT_RROBIN, ET_STATION_SELECT_EQUALCUE}"
abbreviation restore_legal :: "int \<Rightarrow> bool" where
  "restore_legal v \<equiv> v \<in> {ET_STATION_RESTORE_OUT, ET_STATION_RESTORE_IN, ET_STATION_RESTORE_GC,
     ET_STATION_RESTORE_REDIST}"
abbreviation cstring_legal :: "nat \<Rightarrow> string option \<Rightarrow> bool" where
  "cstring_legal n v \<equiv> v \<noteq> None \<and> length (the v) < n"

interpretation stat_block: config_field c_init block_legal id
    et_station_config_setblock et_station_config_getblock
  by unfold_locales (auto simp: et_station_config_setblock_def et_station_config_getblock_def)

interpretation stat_flow: config_field c_init flow_legal id
    et_station_config_setflow et_station_config_getflow
  by unfold_locales (auto simp: et_station_config_setflow_def et_station_config_getflow_def)

interpretation stat_select: config_field c_init select_legal id
    et_station_config_setselect et_station_config_getselect
  by unfold_locales (auto simp: et_station_config_setselect_def et_station_config_getselect_def)

interpretation stat_user: config_field c_init "\<lambda>v. 0 \<le> v" id
    et_station_config_setuser et_station_config_getuser
  by unfold_locales (auto simp: et_station_config_setuser_def et_station_config_getuser_def)

interpretation stat_restore: config_field c_init restore_legal id
    et_station_config_setrestore et_station_config_getrestore
  by unfold_locales (auto simp: et_station_config_setrestore_def et_station_config_getrestore_def)

interpretation stat_cue: config_field c_init "\<lambda>v. 1 \<le> v" id
    et_station_config_setcue et_station_config_getcue
  by unfold_locales (auto simp: et_station_config_setcue_def et_station_config_getcue_def)

interpretation stat_prescale: config_field c_init "\<lambda>v. 1 \<le> v" id
    et_station_config_setprescale et_station_config_getprescale
  by unfold_locales (auto simp: et_station_config_setprescale_def et_station_config_getprescale_def)

interpretation stat_selectwords: config_field c_init "\<lambda>_. True"
    "\<lambda>v. map (\<lambda>i. v ! i) [0..<ET_STATION_SELECT_INTS]"
    et_station_config_setselectwords et_station_config_getselectwords
  by unfold_locales (auto simp: et_station_config_setselectwords_def et_station_config_getselectwords_def)

interpretation stat_fname: config_field c_init "cstring_legal ET_FUNCNAME_LENGTH" the
    et_station_config_setfunction et_station_config_getfunction
  by unfold_locales (auto simp: et_station_config_setfunction_def et_station_config_getfunction_def split: option.splits)

interpretation stat_lib: config_field c_init "cstring_legal ET_FILENAME_LENGTH" the
    et_station_config_setlib et_station_config_getlib
  by unfold_locales (auto simp: et_station_config_setlib_def et_station_config_getlib_def split: option.splits)

interpretation stat_classs: config_field c_init "cstring_legal ET_FILENAME_LENGTH" the
    et_station_config_setclass et_station_config_getclass
  by unfold_locales (auto simp: et_station_config_setclass_def et_station_config_getclass_def split: option.splits)

section \<open>Any sequence of calls\<close>

datatype stat_config_call = SetBlock int | SetFlow int | SetSelect int | SetUser int | SetRestore int
  | SetCue int | SetPrescale int | SetSelectwords "int list" | SetFunction "string option"
  | SetLib "string option" | SetClass "string option"

fun do_stat_config_call :: "et_stat_config \<Rightarrow> stat_config_call \<Rightarrow> int \<times> et_stat_config" where
  "do_stat_config_call sc (SetBlock v) = et_station_config_setblock sc v"
| "do_stat_config_call sc (SetFlow v) = et_station_config_setflow sc v"
| "do_stat_config_call sc (SetSelect v) = et_station_config_setselect sc v"
| "do_stat_config_call sc (SetUser v) = et_station_config_setuser sc v"
| "do_stat_config_call sc (SetRestore v) = et_station_config_setrestore sc v"
| "do_stat_config_call sc (SetCue v) = et_station_config_setcue sc v"
| "do_stat_config_call sc (SetPrescale v) = et_station_config_setprescale sc v"
| "do_stat_config_call sc (SetSelectwords v) = et_station_config_setselectwords sc v"
| "do_stat_config_call sc (SetFunction v) = et_station_config_setfunction sc v"
| "do_stat_config_call sc (SetLib v) = et_station_config_setlib sc v"
| "do_stat_config_call sc (SetClass v) = et_station_config_setclass sc v"

definition stat_config_calls :: "stat_config_call list \<Rightarrow> et_stat_config" where
  "stat_config_calls cs = foldl (\<lambda>sc c. snd (do_stat_config_call sc c)) et_station_config_init cs"

text \<open>Every field on its own is legal.\<close>

definition stat_config_wf :: "et_stat_config \<Rightarrow> bool" where
  "stat_config_wf sc \<longleftrightarrow> c_init sc = ET_STRUCT_OK \<and> flow_legal (c_flow_mode sc)
     \<and> block_legal (c_block_mode sc) \<and> select_legal (c_select_mode sc)
     \<and> restore_legal (c_restore_mode sc) \<and> 0 \<le> c_user_mode sc \<and> 1 \<le> c_cue sc \<and> 1 \<le> c_prescale sc
     \<and> length (c_select sc) = ET_STATION_SELECT_INTS \<and> length (c_fname sc) < ET_FUNCNAME_LENGTH
     \<and> length (c_lib sc) < ET_FILENAME_LENGTH \<and> length (c_classs sc) < ET_FILENAME_LENGTH"

lemma stat_config_wf_call: "stat_config_wf sc \<Longrightarrow> stat_config_wf (snd (do_stat_config_call sc c))"
  by (cases c) (auto simp: stat_config_wf_def stat_config_setters split: option.splits)

lemma stat_config_wf_calls: "stat_config_wf (stat_config_calls cs)"
proof -
  have "stat_config_wf sc \<Longrightarrow> stat_config_wf (foldl (\<lambda>sc c. snd (do_stat_config_call sc c)) sc cs)" for sc
    by (induction cs arbitrary: sc) (simp_all add: stat_config_wf_call)
  then show ?thesis
    by (simp add: stat_config_calls_def stat_config_wf_def et_station_config_init_def)
qed

text \<open>What the check adds to the legality of the fields: how they fit together and the system.\<close>

definition stat_config_fits :: "et_mem \<Rightarrow> et_stat_config \<Rightarrow> bool" where
  "stat_config_fits s sc \<longleftrightarrow>
     c_user_mode sc \<le> y_nattachments (sy_config (m_sys s))
   \<and> (c_select_mode sc = ET_STATION_SELECT_USER \<longrightarrow> 4 \<le> length (c_lib sc) \<and> c_fname sc \<noteq> [])
   \<and> (c_select_mode sc \<in> {ET_STATION_SELECT_RROBIN, ET_STATION_SELECT_EQUALCUE} \<longrightarrow>
        c_flow_mode sc = ET_STATION_PARALLEL \<and> c_block_mode sc = ET_STATION_BLOCKING
      \<and> c_restore_mode sc \<noteq> ET_STATION_RESTORE_IN \<and> c_prescale sc = 1)
   \<and> (c_restore_mode sc = ET_STATION_RESTORE_REDIST \<longrightarrow> c_flow_mode sc = ET_STATION_PARALLEL)
   \<and> (c_block_mode sc = ET_STATION_NONBLOCKING \<longrightarrow> c_cue sc \<le> nevents s)"

lemma if_error_ok: "(if b then ET_ERROR else x) = ET_OK \<longleftrightarrow> \<not> b \<and> x = ET_OK"
  by simp

lemma config_check_wf:
  assumes "stat_config_wf sc"
  shows "et_station_config_check s sc = ET_OK \<longleftrightarrow> stat_config_fits s sc"
proof -
  have guards: "(c_flow_mode sc \<noteq> ET_STATION_SERIAL \<and> c_flow_mode sc \<noteq> ET_STATION_PARALLEL) = False"
    "(c_restore_mode sc \<noteq> ET_STATION_RESTORE_OUT \<and> c_restore_mode sc \<noteq> ET_STATION_RESTORE_IN
       \<and> c_restore_mode sc \<noteq> ET_STATION_RESTORE_GC \<and> c_restore_mode sc \<noteq> ET_STATION_RESTORE_REDIST) = False"
    "(c_select_mode sc \<noteq> ET_STATION_SELECT_ALL \<and> c_select_mode sc \<noteq> ET_STATION_SELECT_MATCH
       \<and> c_select_mode sc \<noteq> ET_STATION_SELECT_USER \<and> c_select_mode sc \<noteq> ET_STATION_SELECT_RROBIN
       \<and> c_select_mode sc \<noteq> ET_STATION_SELECT_EQUALCUE) = False"
    "(c_block_mode sc \<noteq> ET_STATION_BLOCKING \<and> c_block_mode sc \<noteq> ET_STATION_NONBLOCKING) = False"
    and ranges: "(c_user_mode sc < 0) = False" "(c_cue sc < 1) = False" "(c_prescale sc < 1) = False"
    and flow: "(c_flow_mode sc = ET_STATION_SERIAL) = (c_flow_mode sc \<noteq> ET_STATION_PARALLEL)"
    and blk: "(c_block_mode sc = ET_STATION_NONBLOCKING) = (c_block_mode sc \<noteq> ET_STATION_BLOCKING)"
    using assms by (auto simp: stat_config_wf_def)
  have fname: "(length (c_fname sc) < 1) = (c_fname sc = [])" by (cases "c_fname sc") simp_all
  show ?thesis
    unfolding et_station_config_check_def stat_config_fits_def Let_def nevents_def
      guards ranges if_error_ok if_False flow blk fname
    by (cases "c_block_mode sc = ET_STATION_BLOCKING") auto
qed

section \<open>Properties\<close>

text \<open>C9: whatever sequence of setter calls, legal or not, follows \<^verbatim>\<open>et_station_config_init\<close>,
  every field of the configuration stays legal, and \<^verbatim>\<open>et_station_config_check\<close> then accepts it
  exactly when the fields fit together and fit the system: the number of users is within the
  number of attachments, a user selection names a library and a function, round robin and
  equal cue come with parallel flow, blocking, prescale 1 and no restore to the input list,
  redistribution comes with parallel flow, and a non-blocking cue is within the number of
  events.\<close>

theorem et_station_config_check_calls:
  "stat_config_wf (stat_config_calls cs)
   \<and> (et_station_config_check s (stat_config_calls cs) = ET_OK
      \<longleftrightarrow> stat_config_fits s (stat_config_calls cs))"
  using stat_config_wf_calls config_check_wf by blast

end
