(* ===== verification/Et_StationChain.thy ===== *)
theory Et_StationChain
  imports Et_Conductor Et_StatConfig
begin

text \<open>
  The linked lists of stations (\<^verbatim>\<open>station_remove\<close>, \<^verbatim>\<open>station_insert\<close> and \<^verbatim>\<open>station_find\<close> of
  \<^verbatim>\<open>src/src/external/et/src/libsrc/et_station.c\<close>).  The main list starts with GrandCentral and links
  stations in both directions; a station of it may head a group of parallel stations, whose
  members are linked in a list of their own.

  \<open>Crash\<close> is here also the access to a station outside of the array of stations, and \<open>Spin\<close> a
  search that never returns: the searches are recursive functions without a bound.
\<close>

section \<open>Links\<close>

abbreviation "link_next i v \<equiv> upd_station i (s_next_update (\<lambda>_. v))"
abbreviation "link_prev i v \<equiv> upd_station i (s_prev_update (\<lambda>_. v))"
abbreviation "link_nextpar i v \<equiv> upd_station i (s_nextparallel_update (\<lambda>_. v))"
abbreviation "link_prevpar i v \<equiv> upd_station i (s_prevparallel_update (\<lambda>_. v))"

abbreviation next_link :: "et_mem \<Rightarrow> et_stat_id \<Rightarrow> et_stat_id" where
  "next_link s i \<equiv> s_next (m_stats s i)"
abbreviation prev_link :: "et_mem \<Rightarrow> et_stat_id \<Rightarrow> et_stat_id" where
  "prev_link s i \<equiv> s_prev (m_stats s i)"
abbreviation nextpar_link :: "et_mem \<Rightarrow> et_stat_id \<Rightarrow> et_stat_id" where
  "nextpar_link s i \<equiv> s_nextparallel (m_stats s i)"
abbreviation prevpar_link :: "et_mem \<Rightarrow> et_stat_id \<Rightarrow> et_stat_id" where
  "prevpar_link s i \<equiv> s_prevparallel (m_stats s i)"
abbreviation num_of :: "et_mem \<Rightarrow> et_stat_id \<Rightarrow> et_stat_id" where
  "num_of s i \<equiv> s_num (m_stats s i)"
abbreviation in_parallel :: "et_mem \<Rightarrow> et_stat_id \<Rightarrow> bool" where
  "in_parallel s i \<equiv> c_flow_mode (config_of i s) = ET_STATION_PARALLEL"
abbreviation tail_of :: "et_mem \<Rightarrow> et_stat_id" where
  "tail_of s \<equiv> sy_stat_tail (m_sys s)"

definition set_tail :: "et_stat_id \<Rightarrow> et_mem \<Rightarrow> et_mem" where
  "set_tail v s = s\<lparr>m_sys := (m_sys s)\<lparr>sy_stat_tail := v\<rparr>\<rparr>"

definition in_array :: "et_mem \<Rightarrow> et_stat_id \<Rightarrow> bool" where
  "in_array s i \<longleftrightarrow> 0 \<le> i \<and> i < y_nstations (sy_config (m_sys s))"

definition at_station :: "et_stat_id \<Rightarrow> (et_mem \<Rightarrow> 'a res) \<Rightarrow> et_mem \<Rightarrow> 'a res" where
  "at_station i f s = (if in_array s i then f s else Crash)"

section \<open>Removing a station\<close>

text \<open>The station \<open>st\<close> is alone at its place in the main list.\<close>

definition unlink_main :: "et_stat_id \<Rightarrow> et_mem \<Rightarrow> et_mem res" where
  "unlink_main st s = (let p = prev_link s st in
     at_station p (\<lambda>s. res_bind
       (if tail_of s = st then Go (set_tail (num_of s p) s)
        else at_station (next_link s st) (\<lambda>s. Go (link_prev (next_link s st) (num_of s p) s)) s)
       (\<lambda>s. Go (link_next p (next_link s st) s))) s)"

text \<open>The second station of the group takes the place of its head \<open>st\<close>.\<close>

definition promote_second :: "et_stat_id \<Rightarrow> et_mem \<Rightarrow> et_mem res" where
  "promote_second st s = (let p = prev_link s st; q = nextpar_link s st in
     at_station p (at_station q (\<lambda>s.
       let s = link_prev q (prev_link s st) s;
           s = link_next q (next_link s st) s;
           s = link_prevpar q (- 1) s
       in res_bind
         (if tail_of s = st then Go (set_tail (num_of s q) s)
          else at_station (next_link s st) (\<lambda>s. Go (link_prev (next_link s st) (nextpar_link s st) s)) s)
         (\<lambda>s. Go (link_next p (nextpar_link s st) s)))) s)"

text \<open>\<open>st\<close> is in a group and not its head.\<close>

definition unlink_parallel :: "et_stat_id \<Rightarrow> et_mem \<Rightarrow> et_mem res" where
  "unlink_parallel st s = (let p = prevpar_link s st in
     at_station p (\<lambda>s. res_bind
       (if nextpar_link s st > -1
        then at_station (nextpar_link s st) (\<lambda>s. Go (link_prevpar (nextpar_link s st) (num_of s p) s)) s
        else Go s)
       (\<lambda>s. let s = link_nextpar p (nextpar_link s st) s in
          Go (if s_waslast (m_stats s st) = 1 then upd_station p (s_waslast_update (\<lambda>_. 1)) s else s))) s)"

definition station_remove :: "et_stat_id \<Rightarrow> et_mem \<Rightarrow> et_mem res" where
  "station_remove st s =
     (if in_parallel s st then
        if prev_link s st > -1 then
          if nextpar_link s st < 0 then unlink_main st s else promote_second st s
        else unlink_parallel st s
      else unlink_main st s)"

section \<open>Inserting a station\<close>

text \<open>
  The search for a place in the main list: \<open>p\<close> is \<^verbatim>\<open>previous\<close>, \<open>c\<close> its position plus one.  The
  result is \<^verbatim>\<open>previous\<close> with its next station, which is negative at the end of the list.
\<close>

partial_function (option) main_walk ::
  "et_mem \<Rightarrow> int \<Rightarrow> int \<Rightarrow> et_stat_id \<Rightarrow> (et_stat_id \<times> et_stat_id) option" where
  "main_walk s pos c p = (let n = next_link s p in
     if n < 0 \<or> c = pos then Some (p, n) else main_walk s pos (c + 1) n)"

partial_function (option) par_walk ::
  "et_mem \<Rightarrow> int \<Rightarrow> int \<Rightarrow> et_stat_id \<Rightarrow> (et_stat_id \<times> et_stat_id) option" where
  "par_walk s pos c p = (let n = nextpar_link s p in
     if c = pos \<or> n < 0 then Some (p, n) else par_walk s pos (c + 1) n)"

definition append_station :: "et_stat_id \<Rightarrow> et_stat_id \<Rightarrow> et_mem \<Rightarrow> et_mem" where
  "append_station st p s = (let s = link_prev st (num_of s p) s; s = set_tail (num_of s st) s
     in link_next p (num_of s st) s)"

definition join_group :: "et_stat_id \<Rightarrow> et_stat_id \<Rightarrow> et_stat_id \<Rightarrow> et_mem \<Rightarrow> et_mem" where
  "join_group st q n s = (let s = link_nextpar st n s; s = link_prevpar st (num_of s q) s;
       s = (if n > -1 then link_prevpar n (num_of s st) s else s)
     in link_nextpar q (num_of s st) s)"

definition put_before :: "et_stat_id \<Rightarrow> et_stat_id \<Rightarrow> et_stat_id \<Rightarrow> et_mem \<Rightarrow> et_mem" where
  "put_before st p n s = (let s = link_next st n s; s = link_prev st (num_of s p) s;
       s = link_prev n (num_of s st) s
     in link_next p (num_of s st) s)"

definition station_insert :: "et_stat_id \<Rightarrow> int \<Rightarrow> int \<Rightarrow> et_mem \<Rightarrow> (int \<times> et_mem) res" where
  "station_insert st pos ppos s =
     (if sy_nstations (m_sys s) < 3 then Go (ET_OK, append_station st ET_GRANDCENTRAL s)
      else case main_walk s pos 1 ET_GRANDCENTRAL of None \<Rightarrow> Spin
      | Some (p, n) \<Rightarrow>
         if n < 0 then Go (ET_OK, append_station st p s)
         else if in_parallel s st \<and> in_parallel s n \<and> ppos \<noteq> ET_NEWHEAD then
           if et_station_compare_parallel (config_of n s) (config_of st s) = 0 then Go (ET_ERROR, s)
           else if ppos = 0 then Go (ET_ERROR, s)
           else (case par_walk s ppos 1 n of None \<Rightarrow> Spin
             | Some (q, m) \<Rightarrow> Go (ET_OK, join_group st q m s))
         else Go (ET_OK, put_before st p n s))"

section \<open>Finding a station\<close>

partial_function (option) find_par :: "et_mem \<Rightarrow> et_stat_id \<Rightarrow> int \<Rightarrow> et_stat_id \<Rightarrow> int option option" where
  "find_par s st c q = (let n = nextpar_link s q in
     if n < 0 then Some None else if n = st then Some (Some c) else find_par s st (c + 1) n)"

partial_function (option) find_main ::
  "et_mem \<Rightarrow> et_stat_id \<Rightarrow> int \<Rightarrow> et_stat_id \<Rightarrow> (int \<times> int) option option" where
  "find_main s st c p = (let n = next_link s p in
     if n < 0 then Some None
     else if n = st then Some (Some (c, 0))
     else Option.bind (if in_parallel s n then find_par s st 1 n else Some None) (\<lambda>r.
       case r of Some k \<Rightarrow> Some (Some (c, k)) | None \<Rightarrow> find_main s st (c + 1) n))"

text \<open>The position in the main list and in the group, \<open>None\<close> for \<^verbatim>\<open>ET_ERROR\<close>.\<close>

definition station_find :: "et_stat_id \<Rightarrow> et_mem \<Rightarrow> (int \<times> int) option res" where
  "station_find st s =
     (if st = ET_GRANDCENTRAL then Go (Some (0, 0))
      else if sy_nstations (m_sys s) < 2 then Go None
      else case find_main s st 1 ET_GRANDCENTRAL of None \<Rightarrow> Spin | Some r \<Rightarrow> Go r)"

end
