(* ===== verification/Et_StationGroups.thy ===== *)
theory Et_StationGroups
  imports Et_StationChain
begin

text \<open>
  The contract of the lists of stations: the memory represents a list of groups, the first of
  which is GrandCentral alone; removing, inserting and finding a station are operations on that
  list.
\<close>

section \<open>Doubly linked lists of station numbers\<close>

text \<open>
  The links \<open>nx\<close> and \<open>pv\<close> run along \<open>xs\<close>; in front of it is \<open>a\<close>, behind it \<open>b\<close>.
\<close>

fun dll :: "(int \<Rightarrow> int) \<Rightarrow> (int \<Rightarrow> int) \<Rightarrow> int \<Rightarrow> int list \<Rightarrow> int \<Rightarrow> bool" where
  "dll nx pv a [] b = True"
| "dll nx pv a (x # xs) b = (pv x = a \<and> nx x = hd (xs @ [b]) \<and> dll nx pv x xs b)"

lemma dll_append:
  "dll nx pv a (xs @ ys) b \<longleftrightarrow> dll nx pv a xs (hd (ys @ [b])) \<and> dll nx pv (last (a # xs)) ys b"
  by (induction xs arbitrary: a) (auto simp: hd_append)

lemma dll_cong:
  "(\<And>x. x \<in> set xs \<Longrightarrow> nx' x = nx x \<and> pv' x = pv x) \<Longrightarrow> dll nx' pv' a xs b = dll nx pv a xs b"
  by (induction xs arbitrary: a) auto

lemma dll_upd_notin [simp]:
  "x \<notin> set xs \<Longrightarrow> dll (nx(x := c)) pv a xs b = dll nx pv a xs b"
  "x \<notin> set xs \<Longrightarrow> dll nx (pv(x := c)) a xs b = dll nx pv a xs b"
  by (rule dll_cong; auto)+

lemma dll_end: "dll nx pv a (xs @ [x]) b \<Longrightarrow> dll (nx(x := c)) pv a (xs @ [x]) c" if "x \<notin> set xs"
  using that by (auto simp: dll_append)

lemma dll_first: "dll nx pv a (x # xs) b \<Longrightarrow> x \<notin> set xs \<Longrightarrow> dll nx (pv(x := c)) c (x # xs) b"
  by auto

lemma dll_remove:
  assumes "dll nx pv a (P @ p # i # H) b" and "distinct (P @ p # i # H)"
  shows "dll (nx(p := nx i)) (if H = [] then pv else pv(hd H := p)) a (P @ p # H) b"
proof -
  from assms(1) have "dll nx pv a (P @ [p]) i" "nx i = hd (H @ [b])" "dll nx pv i H b"
    by (auto simp: dll_append)
  moreover from assms(2) have "p \<notin> set P" "distinct H" "set H \<inter> set (P @ [p]) = {}" by auto
  ultimately have "dll (nx(p := nx i)) (if H = [] then pv else pv(hd H := p)) a (P @ [p]) (hd (H @ [b]))"
    "dll (nx(p := nx i)) (if H = [] then pv else pv(hd H := p)) p H b"
    by (cases H; auto simp: dll_append)+
  then show ?thesis using dll_append [of _ _ a "P @ [p]" H b] by simp
qed

lemma dll_insert:
  assumes "dll nx pv a (P @ p # H) b" and "distinct (P @ p # H)" and "i \<notin> set (P @ p # H)"
  shows "dll (nx(i := hd (H @ [b]), p := i)) (if H = [] then pv(i := p) else pv(i := p, hd H := i)) a (P @ p # i # H) b"
proof -
  let ?nx = "nx(i := hd (H @ [b]), p := i)" and ?pv = "if H = [] then pv(i := p) else pv(i := p, hd H := i)"
  from assms have "dll nx pv a (P @ [p]) (hd (H @ [b]))" "dll nx pv p H b"
    by (auto simp: dll_append)
  moreover from assms(2,3) have "p \<notin> set P" "distinct H" "set H \<inter> set (P @ [p]) = {}" "i \<notin> set P" "i \<noteq> p" "i \<notin> set H" by auto
  ultimately have "dll ?nx ?pv a (P @ [p]) i" "dll ?nx ?pv i H b" "?pv i = p" "?nx i = hd (H @ [b])"
    by (cases H; auto simp: dll_append)+
  then show ?thesis using dll_append [of _ _ a "P @ [p]" "i # H" b] by simp
qed

lemma dll_replace:
  assumes "dll nx pv a (P @ p # i # H) b" and "distinct (P @ p # i # H)" and "q \<notin> set (P @ p # i # H)"
  shows "dll (nx(q := nx i, p := q)) (if H = [] then pv(q := pv i) else pv(q := pv i, hd H := q)) a (P @ p # q # H) b"
proof -
  let ?nx = "nx(q := nx i, p := q)" and ?pv = "if H = [] then pv(q := pv i) else pv(q := pv i, hd H := q)"
  from assms(1) have "dll nx pv a (P @ [p]) i" "pv i = p" "nx i = hd (H @ [b])" "dll nx pv i H b"
    by (auto simp: dll_append)
  moreover from assms(2,3) have "p \<notin> set P" "distinct H" "set H \<inter> set (P @ [p]) = {}" "q \<notin> set P" "q \<noteq> p" "q \<notin> set H" "q \<noteq> i" by auto
  ultimately have "dll ?nx ?pv a (P @ [p]) q" "dll ?nx ?pv q H b" "?pv q = p" "?nx q = hd (H @ [b])"
    by (cases H; auto simp: dll_append)+
  then show ?thesis using dll_append [of _ _ a "P @ [p]" "q # H" b] by simp
qed

section \<open>The stations of a system\<close>

definition stations :: "et_mem \<Rightarrow> et_stat_id list list \<Rightarrow> bool" where
  "stations s gs \<longleftrightarrow> gs \<noteq> [] \<and> hd gs = [ET_GRANDCENTRAL] \<and> [] \<notin> set gs \<and> distinct (concat gs)
     \<and> (\<forall>i \<in> set (concat gs). in_array s i \<and> num_of s i = i)
     \<and> dll (next_link s) (prev_link s) (- 1) (map hd gs) (- 1) \<and> tail_of s = hd (last gs)
     \<and> (\<forall>g \<in> set gs. dll (nextpar_link s) (prevpar_link s) (- 1) g (- 1)
          \<and> (tl g \<noteq> [] \<longrightarrow> (\<forall>i \<in> set g. in_parallel s i)) \<and> (\<forall>i \<in> set (tl g). prev_link s i = - 1))"

text \<open>The operations on the list of groups.\<close>

definition drop_station :: "et_stat_id \<Rightarrow> et_stat_id list list \<Rightarrow> et_stat_id list list" where
  "drop_station i gs = filter (\<lambda>g. g \<noteq> []) (map (remove1 i) gs)"

text \<open>What changing links leaves alone.\<close>

definition bare :: "et_station \<Rightarrow> et_station" where
  "bare p = p\<lparr>s_next := 0, s_prev := 0, s_nextparallel := 0, s_prevparallel := 0, s_waslast := 0\<rparr>"

definition relinked :: "et_mem \<Rightarrow> et_mem \<Rightarrow> bool" where
  "relinked s t \<longleftrightarrow> (\<forall>i. bare (m_stats t i) = bare (m_stats s i))
     \<and> set_tail 0 (t\<lparr>m_stats := m_stats s\<rparr>) = set_tail 0 s"

lemma relinked_refl [simp]: "relinked s s"
  by (simp add: relinked_def)

lemma relinked_upd:
  "relinked s t \<Longrightarrow> (\<And>p. bare (f p) = bare p) \<Longrightarrow> relinked s (upd_station i f t)"
  "relinked s t \<Longrightarrow> relinked s (set_tail v t)"
  by (auto simp: relinked_def upd_station_def set_tail_def)

lemma m_stats_upd [simp]:
  "m_stats (upd_station i f s) = (m_stats s)(i := f (m_stats s i))"
  "m_stats (set_tail v s) = m_stats s"
  "m_sys (upd_station i f s) = m_sys s"
  "sy_config (m_sys (set_tail v s)) = sy_config (m_sys s)"
  "tail_of (set_tail v s) = v"
  "in_array (upd_station i f s) j = in_array s j" "in_array (set_tail v s) j = in_array s j"
  by (simp_all add: upd_station_def set_tail_def in_array_def)


lemma distinct_heads: "[] \<notin> set gs \<Longrightarrow> distinct (concat gs) \<Longrightarrow> distinct (map hd gs)"
proof (induction gs)
  case (Cons g gs)
  have "hd g \<notin> set (map hd gs)"
  proof
    assume "hd g \<in> set (map hd gs)"
    then obtain g' where "g' \<in> set gs" "hd g' = hd g" by auto
    moreover have "hd g \<in> set g" "hd g' \<in> set g'" using Cons.prems(1) \<open>g' \<in> set gs\<close> by (auto intro!: hd_in_set)
    ultimately show False using Cons.prems(2) by (auto simp: disjoint_iff)
  qed
  then show ?case using Cons by auto
qed simp

lemma drop_station_split:
  assumes "distinct (concat (as @ g # bs))" and "[] \<notin> set (as @ g # bs)" and "i \<in> set g"
  shows "drop_station i (as @ g # bs) = as @ (if remove1 i g = [] then bs else remove1 i g # bs)"
proof -
  have "map (remove1 i) cs = cs" if "set cs \<subseteq> set as \<union> set bs" for cs
  proof (intro map_idI remove1_idem)
    fix x assume "x \<in> set cs"
    then have "x \<in> set as \<or> x \<in> set bs" using that by auto
    then show "i \<notin> set x" using assms(1,3) by auto
  qed
  moreover have "filter (\<lambda>g. g \<noteq> []) cs = cs" if "set cs \<subseteq> set as \<union> set bs" for cs
    using assms(2) that by (intro filter_True) auto
  ultimately show ?thesis by (auto simp: drop_station_def)
qed

lemma stationsD:
  assumes "stations s gs"
  shows "gs \<noteq> []" "hd gs = [ET_GRANDCENTRAL]" "[] \<notin> set gs" "distinct (concat gs)"
    "\<And>i. i \<in> set (concat gs) \<Longrightarrow> in_array s i \<and> num_of s i = i"
    "dll (next_link s) (prev_link s) (- 1) (map hd gs) (- 1)" "tail_of s = hd (last gs)"
    "\<And>g. g \<in> set gs \<Longrightarrow> dll (nextpar_link s) (prevpar_link s) (- 1) g (- 1)"
    "\<And>g i. g \<in> set gs \<Longrightarrow> tl g \<noteq> [] \<Longrightarrow> i \<in> set g \<Longrightarrow> in_parallel s i"
    "\<And>g i. g \<in> set gs \<Longrightarrow> i \<in> set (tl g) \<Longrightarrow> prev_link s i = - 1"
proof -
  note A = assms [unfolded stations_def]
  show "gs \<noteq> []" "hd gs = [ET_GRANDCENTRAL]" "[] \<notin> set gs" "distinct (concat gs)"
    "dll (next_link s) (prev_link s) (- 1) (map hd gs) (- 1)" "tail_of s = hd (last gs)"
    using A by simp_all
  have B: "\<forall>i \<in> set (concat gs). in_array s i \<and> num_of s i = i"
    "\<forall>g \<in> set gs. dll (nextpar_link s) (prevpar_link s) (- 1) g (- 1)
          \<and> (tl g \<noteq> [] \<longrightarrow> (\<forall>i \<in> set g. in_parallel s i)) \<and> (\<forall>i \<in> set (tl g). prev_link s i = - 1)"
    using A by meson+
  show "i \<in> set (concat gs) \<Longrightarrow> in_array s i \<and> num_of s i = i" for i using B(1) by blast
  show "g \<in> set gs \<Longrightarrow> dll (nextpar_link s) (prevpar_link s) (- 1) g (- 1)"
    "g \<in> set gs \<Longrightarrow> tl g \<noteq> [] \<Longrightarrow> i \<in> set g \<Longrightarrow> in_parallel s i"
    "g \<in> set gs \<Longrightarrow> i \<in> set (tl g) \<Longrightarrow> prev_link s i = - 1" for g i using B(2) by blast+
qed

text \<open>Where a station other than GrandCentral is.\<close>

lemma stations_split:
  assumes "stations s gs" and "i \<in> set (concat gs)" and "i \<noteq> ET_GRANDCENTRAL"
  obtains as a g bs where "gs = as @ a # g # bs" "i \<in> set g"
proof -
  from assms(2) obtain g where "g \<in> set gs" "i \<in> set g" by auto
  then obtain cs bs where gs: "gs = cs @ g # bs" by (meson split_list)
  have "cs \<noteq> []" using gs stationsD(2) [OF assms(1)] \<open>i \<in> set g\<close> assms(3) by auto
  then obtain as a where "cs = as @ [a]" by (metis rev_exhaust)
  with gs \<open>i \<in> set g\<close> show thesis using that by simp
qed

text \<open>
  Where a station is, its links: \<open>p\<close> is the station before its group, \<open>H\<close> are the heads of the
  groups behind it.
\<close>

lemma stations_around:
  assumes "stations s (as @ a # g # bs)"
  shows "dll (next_link s) (prev_link s) (- 1) (map hd as @ hd a # hd g # map hd bs) (- 1)"
    "distinct (map hd as @ hd a # hd g # map hd bs)" "distinct g"
    "tail_of s = (if bs = [] then hd g else hd (last bs))"
    "prev_link s (hd g) = hd a" "next_link s (hd g) = hd (map hd bs @ [- 1])"
    "\<And>j. j \<in> {hd a, hd g} \<union> set g \<union> hd ` set bs \<Longrightarrow> in_array s j \<and> num_of s j = j"
    "g \<noteq> []" "bs = [] \<longleftrightarrow> tail_of s = hd g"
proof -
  note S = stationsD [OF assms]
  show "dll (next_link s) (prev_link s) (- 1) (map hd as @ hd a # hd g # map hd bs) (- 1)" using S(6) by simp
  then show "prev_link s (hd g) = hd a" "next_link s (hd g) = hd (map hd bs @ [- 1])"
    by (auto simp: dll_append)
  show d: "distinct (map hd as @ hd a # hd g # map hd bs)" using distinct_heads [OF S(3,4)] by simp
  show "distinct g" "g \<noteq> []" using S(3,4) by auto
  show t: "tail_of s = (if bs = [] then hd g else hd (last bs))" using S(7) by simp
  have "hd (last bs) \<noteq> hd g" if "bs \<noteq> []"
  proof -
    have "hd (last bs) \<in> hd ` set bs" using that by simp
    moreover have "hd g \<notin> hd ` set bs" using d by simp
    ultimately show ?thesis by metis
  qed
  then show "bs = [] \<longleftrightarrow> tail_of s = hd g" using t by auto
  fix j assume "j \<in> {hd a, hd g} \<union> set g \<union> hd ` set bs"
  moreover have "hd x \<in> set x" if "x \<in> set (as @ a # g # bs)" for x using that S(3) by (auto intro!: hd_in_set)
  ultimately have "j \<in> set (concat (as @ a # g # bs))" by auto
  then show "in_array s j \<and> num_of s j = j" by (rule S(5))
qed


lemma relinkedD:
  assumes "relinked s t"
  shows "config_of i t = config_of i s" "num_of t i = num_of s i" "in_array t i = in_array s i"
    "s_data (m_stats t i) = s_data (m_stats s i)"
proof -
  have b: "bare (m_stats t i) = bare (m_stats s i)"
    and y: "set_tail 0 (t\<lparr>m_stats := m_stats s\<rparr>) = set_tail 0 s" using assms by (simp_all add: relinked_def)
  show "config_of i t = config_of i s" "num_of t i = num_of s i" "s_data (m_stats t i) = s_data (m_stats s i)"
    using b by (cases "m_stats t i"; cases "m_stats s i"; simp add: bare_def)+
  have "sy_config (m_sys (set_tail 0 (t\<lparr>m_stats := m_stats s\<rparr>))) = sy_config (m_sys (set_tail 0 s))" using y by simp
  then show "in_array t i = in_array s i" by (simp add: in_array_def)
qed

lemma tl_not_head:
  assumes "[] \<notin> set gs" and "distinct (concat gs)" and "g \<in> set gs" and "i \<in> set (tl g)"
  shows "i \<notin> hd ` set gs"
proof
  assume "i \<in> hd ` set gs"
  then obtain g' where g': "g' \<in> set gs" "i = hd g'" by auto
  then have "i \<in> set g'" using assms(1) by (auto intro!: hd_in_set)
  moreover have "i \<in> set g" using assms(4) by (cases g) auto
  ultimately have "g = g'" using assms(2,3) g'(1) by (auto simp: distinct_concat_iff)
  moreover have "distinct g" using assms(2,3) by (auto simp: distinct_concat_iff)
  ultimately show False using assms(4) g'(2) by (cases g) auto
qed

text \<open>
  Changing links: the main list is as it should be, and so is every group that is new; in the
  other groups the links have not changed.
\<close>

lemma stations_change:
  assumes S: "stations s gs" and R: "relinked s t"
    and gs': "gs' \<noteq> []" "hd gs' = [ET_GRANDCENTRAL]" "[] \<notin> set gs'" "distinct (concat gs')"
    and i: "\<And>i. i \<in> set (concat gs') \<Longrightarrow> in_array s i \<and> num_of s i = i"
    and main: "dll (next_link t) (prev_link t) (- 1) (map hd gs') (- 1)" and tail: "tail_of t = hd (last gs')"
    and new: "\<And>g. g \<in> set gs' \<Longrightarrow> g \<notin> set gs \<Longrightarrow> dll (nextpar_link t) (prevpar_link t) (- 1) g (- 1)
          \<and> (tl g \<noteq> [] \<longrightarrow> (\<forall>i \<in> set g. in_parallel s i)) \<and> (\<forall>i \<in> set (tl g). prev_link t i = - 1)"
    and old: "\<And>g i. g \<in> set gs' \<Longrightarrow> g \<in> set gs \<Longrightarrow> i \<in> set g \<Longrightarrow>
        nextpar_link t i = nextpar_link s i \<and> prevpar_link t i = prevpar_link s i"
      "\<And>g i. g \<in> set gs' \<Longrightarrow> g \<in> set gs \<Longrightarrow> i \<in> set (tl g) \<Longrightarrow> prev_link t i = prev_link s i"
  shows "stations t gs'"
proof -
  have g: "dll (nextpar_link t) (prevpar_link t) (- 1) g (- 1)
          \<and> (tl g \<noteq> [] \<longrightarrow> (\<forall>i \<in> set g. in_parallel s i)) \<and> (\<forall>i \<in> set (tl g). prev_link t i = - 1)"
    if "g \<in> set gs'" for g
  proof (cases "g \<in> set gs")
    case True
    have "dll (nextpar_link t) (prevpar_link t) (- 1) g (- 1) = dll (nextpar_link s) (prevpar_link s) (- 1) g (- 1)"
      by (rule dll_cong) (rule old(1) [OF that True])
    moreover have "dll (nextpar_link s) (prevpar_link s) (- 1) g (- 1)" by (rule stationsD(8) [OF S True])
    moreover have "\<forall>i \<in> set g. in_parallel s i" if "tl g \<noteq> []" using stationsD(9) [OF S True that] by blast
    moreover have "\<forall>i \<in> set (tl g). prev_link t i = - 1"
      using stationsD(10) [OF S True] old(2) [OF that True] by auto
    ultimately show ?thesis by blast
  qed (rule new [OF that])
  show ?thesis
    unfolding stations_def using gs' main tail g i by (simp add: relinkedD [OF R])
qed

lemma bare_links [simp]:
  "bare (s_next_update f p) = bare p" "bare (s_prev_update f p) = bare p"
  "bare (s_nextparallel_update f p) = bare p" "bare (s_prevparallel_update f p) = bare p"
  "bare (s_waslast_update f p) = bare p"
  by (simp_all add: bare_def)

section \<open>Removing a station\<close>

lemma unlink_main_ok:
  assumes S: "stations s (as @ a # [i] # bs)"
  shows "\<exists>t. unlink_main i s = Go t \<and> stations t (as @ a # bs) \<and> relinked s t"
proof -
  note A = stations_around [OF S] and D = stationsD [OF S]
  let ?p = "hd a" and ?n = "hd (map hd bs @ [- 1])"
  let ?t = "link_next ?p ?n (if bs = [] then set_tail ?p s else link_prev ?n ?p s)"
  have p: "in_array s ?p" "num_of s ?p = ?p" using A(7) [of ?p] by auto
  have n: "in_array s ?n" if "bs \<noteq> []" using A(7) [of ?n] that by (cases bs) auto
  have ne: "?p \<noteq> i" "?n \<noteq> i \<and> ?n \<noteq> ?p" if "bs \<noteq> []" using A(2) that by (cases bs; auto)+
  have "?p \<noteq> i" using A(2) by auto
  then have "unlink_main i s = Go ?t"
    using A(5,6,9) p n ne by (auto simp: unlink_main_def at_station_def Let_def)
  moreover have R: "relinked s ?t" by (auto intro!: relinked_upd)
  moreover have "stations ?t (as @ a # bs)"
  proof (rule stations_change [OF S R])
    show "hd (as @ a # bs) = [ET_GRANDCENTRAL]" using D(2) by (cases as) auto
    show "[] \<notin> set (as @ a # bs)" "distinct (concat (as @ a # bs))" using D(3,4) by auto
    show "in_array s j \<and> num_of s j = j" if "j \<in> set (concat (as @ a # bs))" for j
      using D(5) [of j] that by auto
    show "dll (next_link ?t) (prev_link ?t) (- 1) (map hd (as @ a # bs)) (- 1)"
    proof -
      have "next_link ?t = (next_link s)(?p := next_link s i)" using A(6) by (auto simp: fun_eq_iff)
      moreover have "prev_link ?t = (if map hd bs = [] then prev_link s else (prev_link s)(hd (map hd bs) := ?p))"
        by (cases bs) (auto simp: fun_eq_iff)
      ultimately show ?thesis using dll_remove [OF A(1,2)] by simp
    qed
    show "tail_of ?t = hd (last (as @ a # bs))" using A(4) by auto
    show "prev_link ?t j = prev_link s j" if "g \<in> set (as @ a # bs)" "j \<in> set (tl g)" for g j
      using tl_not_head [OF D(3,4), of g j] that by (cases bs) auto
  qed auto
  ultimately show ?thesis by blast
qed


lemma promote_second_ok:
  assumes S: "stations s (as @ a # (i # q # r) # bs)"
  shows "\<exists>t. promote_second i s = Go t \<and> stations t (as @ a # (q # r) # bs) \<and> relinked s t"
proof -
  let ?g = "i # q # r"
  note A = stations_around [OF S] and D = stationsD [OF S]
  let ?p = "hd a" and ?n = "hd (map hd bs @ [- 1])"
  let ?s1 = "link_prevpar q (- 1) (link_next q ?n (link_prev q ?p s))"
  let ?t = "link_next ?p q (if bs = [] then set_tail q ?s1 else link_prev ?n q ?s1)"
  have p: "in_array s ?p" "in_array s q" "num_of s q = q" using A(7) [of ?p] A(7) [of q] by auto
  have n: "in_array s ?n" if "bs \<noteq> []" using A(7) [of ?n] that by (cases bs) auto
  have q: "q \<notin> hd ` set (as @ a # ?g # bs)" using tl_not_head [OF D(3,4), of ?g q] by simp
  have hdi: "i \<in> set ?g" "i \<notin> set (map hd as @ hd a # map hd bs)" using A(2) by auto
  have ne: "q \<noteq> i" "q \<noteq> ?p" "?p \<noteq> i" "?n \<noteq> i \<and> ?n \<noteq> ?p \<and> ?n \<noteq> q" if "bs \<noteq> []" using A(2) q that by (cases bs; auto)+
  have nq: "q \<noteq> i" "q \<noteq> ?p" "?p \<noteq> i" using A(2) q by auto
  have np: "nextpar_link s i = q" "prevpar_link s q = i" using D(8) [of ?g] by auto
  have "promote_second i s = Go ?t"
    using A(5,6,9) p n ne nq np by (auto simp: promote_second_def at_station_def Let_def)
  moreover have R: "relinked s ?t" by (auto intro!: relinked_upd)
  moreover have "stations ?t (as @ a # (q # r) # bs)"
  proof (rule stations_change [OF S R])
    show "hd (as @ a # (q # r) # bs) = [ET_GRANDCENTRAL]" using D(2) by (cases as) auto
    show "[] \<notin> set (as @ a # (q # r) # bs)" "distinct (concat (as @ a # (q # r) # bs))" using D(3,4) by auto
    show "in_array s j \<and> num_of s j = j" if "j \<in> set (concat (as @ a # (q # r) # bs))" for j
      using D(5) [of j] that by auto
    show "dll (next_link ?t) (prev_link ?t) (- 1) (map hd (as @ a # (q # r) # bs)) (- 1)"
    proof -
      have "next_link ?t = (next_link s)(q := next_link s i, ?p := q)" using A(6) nq by (auto simp: fun_eq_iff)
      moreover have "prev_link ?t = (if map hd bs = [] then (prev_link s)(q := prev_link s i)
          else (prev_link s)(q := prev_link s i, hd (map hd bs) := q))"
        using A(5) by (cases bs) (auto simp: fun_eq_iff)
      moreover have "q \<notin> set (map hd as @ hd a # i # map hd bs)" using q by auto
      ultimately show ?thesis 
        using dll_replace [of "next_link s" "prev_link s" "- 1" "map hd as" "hd a" i "map hd bs" "- 1" q] A(1,2) by simp
    qed
    show "tail_of ?t = hd (last (as @ a # (q # r) # bs))" using A(4) by auto
    show "prev_link ?t j = prev_link s j" if "g \<in> set (as @ a # (q # r) # bs)" "g \<in> set (as @ a # ?g # bs)" "j \<in> set (tl g)" for g j
    proof -
      have "j \<notin> hd ` set (as @ a # ?g # bs)" by (rule tl_not_head [OF D(3,4) that(2,3)])
      moreover have "j \<noteq> q"
      proof
        assume "j = q"
        then have "q \<in> set g" using that(3) by (cases g) auto
        then have "g = ?g" using D(4) that(2) by (auto simp: distinct_concat_iff)
        then show False using that(1) D(4) by (auto simp: distinct_concat_iff)
      qed
      ultimately show ?thesis by (cases bs) auto
    qed
    show "nextpar_link ?t j = nextpar_link s j \<and> prevpar_link ?t j = prevpar_link s j"
      if "g \<in> set (as @ a # (q # r) # bs)" "g \<in> set (as @ a # ?g # bs)" "j \<in> set g" for g j
    proof -
      have "j \<noteq> q"
      proof
        assume "j = q"
        then have "g = ?g" using D(4) that(2,3) by (auto simp: distinct_concat_iff)
        then show False using that(1) D(4) by (auto simp: distinct_concat_iff)
      qed
      then show ?thesis by auto
    qed
    show "dll (nextpar_link ?t) (prevpar_link ?t) (- 1) g (- 1) \<and> (tl g \<noteq> [] \<longrightarrow> (\<forall>i \<in> set g. in_parallel s i))
        \<and> (\<forall>i \<in> set (tl g). prev_link ?t i = - 1)"
      if g: "g \<in> set (as @ a # (q # r) # bs)" "g \<notin> set (as @ a # ?g # bs)" for g
    proof -
      have g: "g = q # r" using that by auto
      have "dll (nextpar_link s) (prevpar_link s) i (q # r) (- 1)" using D(8) [of ?g] by simp
      moreover have "q \<notin> set r" using A(3) by simp
      moreover have "nextpar_link ?t = nextpar_link s" "prevpar_link ?t = (prevpar_link s)(q := - 1)"
        by (auto simp: fun_eq_iff)
      ultimately have "dll (nextpar_link ?t) (prevpar_link ?t) (- 1) g (- 1)" unfolding g by simp
      moreover have "\<forall>j \<in> set g. in_parallel s j" using D(9) [of ?g] g by auto
      moreover have "prev_link ?t j = - 1" if "j \<in> set (tl g)" for j
      proof -
        have j: "j \<in> set (tl ?g)" "j \<noteq> q" using that g A(3) by auto
        moreover have "j \<notin> hd ` set (as @ a # ?g # bs)" using tl_not_head [OF D(3,4) _ j(1)] by auto
        ultimately show ?thesis using D(10) [of ?g j] by (cases bs) auto
      qed
      ultimately show ?thesis by blast
    qed
  qed auto
  ultimately show ?thesis by blast
qed


text \<open>A station of a group that is not its head.\<close>

lemma unlink_parallel_ok:
  assumes S: "stations s (as @ (P @ p # i # H) # bs)"
  shows "\<exists>t. unlink_parallel i s = Go t \<and> stations t (as @ (P @ p # H) # bs) \<and> relinked s t"
proof -
  let ?g = "P @ p # i # H" and ?n = "hd (H @ [- 1])" and ?h = "P @ p # H"
  note D = stationsD [OF S]
  have dg: "distinct ?g" and l: "dll (nextpar_link s) (prevpar_link s) (- 1) ?g (- 1)"
    using D(4) D(8) [of ?g] by auto
  have "tl ?g \<noteq> []" by (cases P) auto
  then have par: "\<forall>j \<in> set ?g. in_parallel s j" using D(9) [of ?g] by simp
  have num: "in_array s j \<and> num_of s j = j \<and> 0 \<le> j" if "j \<in> set ?g" for j
    using D(5) [of j] that by (auto simp: in_array_def)
  have pi: "prevpar_link s i = p" "nextpar_link s i = ?n" using l by (auto simp: dll_append)
  let ?s1 = "link_nextpar p ?n (if H = [] then s else link_prevpar ?n p s)"
  let ?t = "if s_waslast (m_stats s i) = 1 then upd_station p (s_waslast_update (\<lambda>_. 1)) ?s1 else ?s1"
  have nn: "H \<noteq> [] \<Longrightarrow> ?n \<in> set ?g" by (cases H) auto
  have ne: "p \<noteq> i" "H \<noteq> [] \<Longrightarrow> ?n \<noteq> i" "H \<noteq> [] \<Longrightarrow> ?n \<noteq> p" using dg by (cases H; auto)+
  have gt: "(- 1 < ?n) = (H \<noteq> [])" using num [OF nn] by (cases "H = []") auto
  have "unlink_parallel i s = Go ?t"
    using num [of p] num [OF nn] pi ne gt by (auto simp: unlink_parallel_def at_station_def Let_def)
  moreover have R: "relinked s ?t" by (auto intro!: relinked_upd)
  moreover have lt: "next_link ?t = next_link s" "prev_link ?t = prev_link s" "tail_of ?t = tail_of s"
    "nextpar_link ?t = (nextpar_link s)(p := nextpar_link s i)"
    "prevpar_link ?t = (if H = [] then prevpar_link s else (prevpar_link s)(hd H := p))"
    using pi by (cases H; auto simp: fun_eq_iff)+
  moreover have "stations ?t (as @ ?h # bs)"
  proof (rule stations_change [OF S R])
    have hd: "hd ?h = hd ?g" by (cases P) auto
    have "as \<noteq> []" using D(2) by (cases as; cases P) auto
    then show "hd (as @ ?h # bs) = [ET_GRANDCENTRAL]" using D(2) by (cases as) auto
    show "[] \<notin> set (as @ ?h # bs)" "distinct (concat (as @ ?h # bs))" using D(3,4) by auto
    show "in_array s j \<and> num_of s j = j" if "j \<in> set (concat (as @ ?h # bs))" for j
      using D(5) [of j] that by auto
    show "dll (next_link ?t) (prev_link ?t) (- 1) (map hd (as @ ?h # bs)) (- 1)"
      using D(6) hd unfolding lt by simp
    show "tail_of ?t = hd (last (as @ ?h # bs))" using D(7) hd unfolding lt by simp
    show "prev_link ?t j = prev_link s j" for j using lt(2) by (simp add: fun_eq_iff)
    show "nextpar_link ?t j = nextpar_link s j \<and> prevpar_link ?t j = prevpar_link s j"
      if g: "g \<in> set (as @ ?h # bs)" "g \<in> set (as @ ?g # bs)" "j \<in> set g" for g j
    proof -
      have "j \<noteq> k" if k: "k \<in> {p} \<union> set H" for k
      proof
        assume "j = k"
        then have "g = ?g" using D(4) g(2,3) k by (auto simp: distinct_concat_iff)
        then show False using g(1) D(4) by (auto simp: distinct_concat_iff)
      qed
      then show ?thesis using lt(4,5) by (cases H) (auto simp: fun_eq_iff)
    qed
    show "dll (nextpar_link ?t) (prevpar_link ?t) (- 1) g (- 1) \<and> (tl g \<noteq> [] \<longrightarrow> (\<forall>i \<in> set g. in_parallel s i))
        \<and> (\<forall>i \<in> set (tl g). prev_link ?t i = - 1)"
      if g: "g \<in> set (as @ ?h # bs)" "g \<notin> set (as @ ?g # bs)" for g
    proof -
      have g: "g = ?h" using that by auto
      have "dll (nextpar_link ?t) (prevpar_link ?t) (- 1) g (- 1)"
        using dll_remove [OF l dg] unfolding lt g by simp
      moreover have "\<forall>j \<in> set g. in_parallel s j" using par g by auto
      moreover have "\<forall>j \<in> set (tl g). prev_link ?t j = - 1"
        using D(10) [of ?g] g by (cases P) auto
      ultimately show ?thesis by blast
    qed
  qed auto
  ultimately show ?thesis by blast
qed

text \<open>Removing a station from the lists takes it out of its group.\<close>

lemma station_remove_ok:
  assumes S: "stations s gs" and i: "i \<in> set (concat gs)" "i \<noteq> ET_GRANDCENTRAL"
  shows "\<exists>t. station_remove i s = Go t \<and> stations t (drop_station i gs) \<and> relinked s t"
proof -
  obtain as a g bs where gs: "gs = as @ a # g # bs" and ig: "i \<in> set g"
    using stations_split [OF S i] by blast
  note D = stationsD [OF S]
  have dr: "drop_station i gs = as @ a # (if remove1 i g = [] then bs else remove1 i g # bs)"
    using drop_station_split [of "as @ [a]" g bs i] D(3,4) gs ig by simp
  obtain x l where g: "g = x # l" using ig by (cases g) auto
  note A = stations_around [OF S [unfolded gs]]
  show ?thesis
  proof (cases "x = i")
    case True
    have pv: "prev_link s i > - 1" using A(5) A(7) [of "hd a"] True g by (auto simp: in_array_def)
    show ?thesis
    proof (cases l)
      case Nil
      have "nextpar_link s i < 0" using D(8) [of g] gs g Nil True by simp
      then have "station_remove i s = unlink_main i s" using pv by (simp add: station_remove_def)
      moreover have "stations s (as @ a # [i] # bs)" using S gs g Nil True by simp
      ultimately show ?thesis using unlink_main_ok dr g Nil True by simp
    next
      case (Cons q r)
      have "\<not> nextpar_link s i < 0" "in_parallel s i"
        using D(8) [of g] D(9) [of g i] D(5) [of q] gs g Cons True by (auto simp: in_array_def)
      then have "station_remove i s = promote_second i s" using pv by (simp add: station_remove_def)
      moreover have "stations s (as @ a # (i # q # r) # bs)" using S gs g Cons True by simp
      ultimately show ?thesis using promote_second_ok dr g Cons True by simp
    qed
  next
    case False
    then have "i \<in> set l" using ig g by simp
    then obtain l1 H where l: "l = l1 @ i # H" by (meson split_list)
    obtain P p where P: "x # l1 = P @ [p]" by (metis list.distinct(1) rev_exhaust)
    have g': "g = P @ p # i # H" using g l P by (metis append.assoc append_Cons append_Nil)
    have dg: "distinct g" by (rule A(3))
    have "l \<noteq> []" using \<open>i \<in> set l\<close> by auto
    then have "in_parallel s i" "prev_link s i = - 1" using D(9) [of g i] D(10) [of g i] gs g \<open>i \<in> set l\<close> by auto
    then have "station_remove i s = unlink_parallel i s" by (simp add: station_remove_def)
    moreover have "remove1 i g = P @ p # H" using dg g' by (simp add: remove1_append)
    moreover have "stations s ((as @ [a]) @ (P @ p # i # H) # bs)" using S gs g' by simp
    ultimately show ?thesis using unlink_parallel_ok [of s "as @ [a]"] dr by fastforce
  qed
qed


section \<open>Inserting a station\<close>

definition group_insert :: "et_stat_id \<Rightarrow> int \<Rightarrow> et_stat_id list \<Rightarrow> et_stat_id list" where
  "group_insert i ppos g = (let m = (if 1 \<le> ppos \<and> ppos < int (length g) then nat ppos else length g)
     in take m g @ i # drop m g)"

text \<open>Where a station belongs that is to be put at a position; \<open>None\<close> when it may not be put there.\<close>

definition insert_station ::
  "(et_stat_id \<Rightarrow> et_stat_config) \<Rightarrow> et_stat_id \<Rightarrow> int \<Rightarrow> int \<Rightarrow> et_stat_id list list \<Rightarrow> et_stat_id list list option" where
  "insert_station cfg i pos ppos gs =
     (if 1 \<le> pos \<and> pos < int (length gs) then
        let k = nat pos; g = gs ! k in
        if c_flow_mode (cfg i) = ET_STATION_PARALLEL \<and> c_flow_mode (cfg (hd g)) = ET_STATION_PARALLEL
           \<and> ppos \<noteq> ET_NEWHEAD
        then if et_station_compare_parallel (cfg (hd g)) (cfg i) = 0 \<or> ppos = 0 then None
             else Some (take k gs @ group_insert i ppos g # drop (Suc k) gs)
        else Some (take k gs @ [i] # drop k gs)
      else Some (gs @ [[i]]))"

lemma main_walk_run:
  assumes "dll (next_link s) pv a (x # H) (- 1)" and "\<forall>y \<in> set H. 0 \<le> y"
  shows "main_walk s pos c x = Some
     (if c \<le> pos \<and> pos < c + int (length H) then ((x # H) ! nat (pos - c), H ! nat (pos - c)) else (last (x # H), - 1))"
  using assms
proof (induction H arbitrary: a c x)
  case Nil
  then show ?case by (subst main_walk.simps) (auto simp: Let_def)
next
  case (Cons y H)
  have n: "next_link s x = y" "0 \<le> y" using Cons.prems by auto
  have "nat (pos - c) = Suc (nat (pos - (c + 1)))" if "c < pos" using that by simp
  then show ?case
    using Cons.IH [of x y "c + 1"] Cons.prems n by (subst main_walk.simps) (auto simp: Let_def)
qed

lemma par_walk_run:
  assumes "dll (nextpar_link s) pv a (x # H) (- 1)" and "\<forall>y \<in> set H. 0 \<le> y"
  shows "par_walk s pos c x = Some
     (if c \<le> pos \<and> pos < c + int (length H) then ((x # H) ! nat (pos - c), H ! nat (pos - c)) else (last (x # H), - 1))"
  using assms
proof (induction H arbitrary: a c x)
  case Nil
  then show ?case by (subst par_walk.simps) (auto simp: Let_def)
next
  case (Cons y H)
  have n: "nextpar_link s x = y" "0 \<le> y" using Cons.prems by auto
  have "nat (pos - c) = Suc (nat (pos - (c + 1)))" if "c < pos" using that by simp
  then show ?case
    using Cons.IH [of x y "c + 1"] Cons.prems n by (subst par_walk.simps) (auto simp: Let_def)
qed

text \<open>A station in no list whose links are cleared.\<close>

definition loose_station :: "et_mem \<Rightarrow> et_stat_id \<Rightarrow> et_stat_id list list \<Rightarrow> bool" where
  "loose_station s i gs \<longleftrightarrow> i \<notin> set (concat gs) \<and> in_array s i \<and> num_of s i = i
     \<and> next_link s i = - 1 \<and> prev_link s i = - 1 \<and> nextpar_link s i = - 1 \<and> prevpar_link s i = - 1"

lemma heads_subset: "[] \<notin> set gs \<Longrightarrow> hd ` set gs \<subseteq> set (concat gs)"
  by (auto intro!: bexI hd_in_set)

lemma put_before_ok:
  assumes S: "stations s (as @ a # b # bs)" and f: "loose_station s i (as @ a # b # bs)"
  shows "stations (put_before i (hd a) (hd b) s) (as @ a # [i] # b # bs) \<and> relinked s (put_before i (hd a) (hd b) s)"
proof -
  let ?gs = "as @ a # b # bs" and ?t = "put_before i (hd a) (hd b) s" and ?H = "map hd (b # bs)"
  note D = stationsD [OF S] and A = stations_around [OF S]
  have i: "i \<notin> hd ` set ?gs" using heads_subset [OF D(3)] f unfolding loose_station_def by blast
  have p: "num_of s (hd a) = hd a" "num_of s i = i" using A(7) [of "hd a"] f by (auto simp: loose_station_def)
  have ne: "hd a \<noteq> i" "hd b \<noteq> i" "hd b \<noteq> hd a" using i A(2) by auto
  have t: "next_link ?t = (next_link s)(i := hd (?H @ [- 1]), hd a := i)"
    "prev_link ?t = (prev_link s)(i := hd a, hd ?H := i)"
    "nextpar_link ?t = nextpar_link s" "prevpar_link ?t = prevpar_link s" "tail_of ?t = tail_of s"
    using p ne by (auto simp: put_before_def Let_def fun_eq_iff)
  have R: "relinked s ?t" by (auto simp: put_before_def Let_def intro!: relinked_upd)
  moreover have "stations ?t (as @ a # [i] # b # bs)"
  proof (rule stations_change [OF S R])
    show "hd (as @ a # [i] # b # bs) = [ET_GRANDCENTRAL]" using D(2) by (cases as) auto
    show "[] \<notin> set (as @ a # [i] # b # bs)" "distinct (concat (as @ a # [i] # b # bs))"
      using D(3,4) f by (auto simp: loose_station_def)
    show "in_array s j \<and> num_of s j = j" if "j \<in> set (concat (as @ a # [i] # b # bs))" for j
      using D(5) [of j] f that by (auto simp: loose_station_def)
    have "distinct (map hd as @ hd a # ?H)" "i \<notin> set (map hd as @ hd a # ?H)" using A(2) i by auto
    then show "dll (next_link ?t) (prev_link ?t) (- 1) (map hd (as @ a # [i] # b # bs)) (- 1)"
      using dll_insert [of "next_link s" "prev_link s" "- 1" "map hd as" "hd a" ?H "- 1" i] A(1)
      unfolding t by simp
    show "tail_of ?t = hd (last (as @ a # [i] # b # bs))" using D(7) unfolding t by simp
    show "dll (nextpar_link ?t) (prevpar_link ?t) (- 1) g (- 1)
          \<and> (tl g \<noteq> [] \<longrightarrow> (\<forall>i \<in> set g. in_parallel s i)) \<and> (\<forall>i \<in> set (tl g). prev_link ?t i = - 1)"
      if "g \<in> set (as @ a # [i] # b # bs)" "g \<notin> set ?gs" for g
      using that f unfolding t by (auto simp: loose_station_def)
    show "nextpar_link ?t j = nextpar_link s j \<and> prevpar_link ?t j = prevpar_link s j" for j
      using t(3,4) by (simp add: fun_eq_iff)
    show "prev_link ?t j = prev_link s j" if g: "g \<in> set ?gs" "j \<in> set (tl g)" for g j
    proof -
      have "j \<noteq> hd b" using tl_not_head [OF D(3,4) g] by auto
      moreover have "j \<in> set g" using g(2) by (cases g) auto
      then have "j \<noteq> i" using f g(1) by (auto simp: loose_station_def)
      ultimately show ?thesis using fun_cong [OF t(2), of j] by simp
    qed
  qed auto
  ultimately show ?thesis by blast
qed

lemma append_station_ok:
  assumes S: "stations s gs" and f: "loose_station s i gs"
  shows "stations (append_station i (hd (last gs)) s) (gs @ [[i]]) \<and> relinked s (append_station i (hd (last gs)) s)"
proof -
  let ?p = "hd (last gs)"
  let ?t = "append_station i ?p s"
  note D = stationsD [OF S]
  obtain as a where gs: "gs = as @ [a]" using D(1) by (metis rev_exhaust)
  have hp: "?p = hd a" using gs by simp
  have i: "i \<notin> hd ` set gs" using heads_subset [OF D(3)] f unfolding loose_station_def by blast
  have "?p \<in> set (concat gs)" using heads_subset [OF D(3)] gs by auto
  then have p: "num_of s ?p = ?p" "num_of s i = i" "?p \<noteq> i" using D(5) f by (auto simp: loose_station_def)
  have t: "next_link ?t = (next_link s)(i := - 1, ?p := i)" "prev_link ?t = (prev_link s)(i := ?p)"
    "nextpar_link ?t = nextpar_link s" "prevpar_link ?t = prevpar_link s" "tail_of ?t = i"
    using p f by (auto simp: append_station_def Let_def loose_station_def fun_eq_iff)
  have R: "relinked s ?t" by (auto simp: append_station_def Let_def intro!: relinked_upd)
  moreover have "stations ?t (gs @ [[i]])"
  proof (rule stations_change [OF S R])
    show "hd (gs @ [[i]]) = [ET_GRANDCENTRAL]" using D(1,2) by simp
    show "[] \<notin> set (gs @ [[i]])" "distinct (concat (gs @ [[i]]))" using D(3,4) f by (auto simp: loose_station_def)
    show "in_array s j \<and> num_of s j = j" if "j \<in> set (concat (gs @ [[i]]))" for j
      using D(5) [of j] f that by (auto simp: loose_station_def)
    have "dll (next_link s) (prev_link s) (- 1) (map hd as @ ?p # []) (- 1)" using D(6) unfolding hp by (simp add: gs)
    moreover have "distinct (map hd as @ ?p # [])" "i \<notin> set (map hd as @ ?p # [])"
      using distinct_heads [OF D(3,4)] i unfolding hp by (auto simp: gs)
    ultimately show "dll (next_link ?t) (prev_link ?t) (- 1) (map hd (gs @ [[i]])) (- 1)"
      using dll_insert [of "next_link s" "prev_link s" "- 1" "map hd as" ?p "[]" "- 1" i]
      unfolding hp t [unfolded hp] by (simp add: gs)
    show "tail_of ?t = hd (last (gs @ [[i]]))" unfolding t by simp
    show "dll (nextpar_link ?t) (prevpar_link ?t) (- 1) g (- 1)
          \<and> (tl g \<noteq> [] \<longrightarrow> (\<forall>i \<in> set g. in_parallel s i)) \<and> (\<forall>i \<in> set (tl g). prev_link ?t i = - 1)"
      if "g \<in> set (gs @ [[i]])" "g \<notin> set gs" for g
      using that f unfolding t by (auto simp: loose_station_def)
    show "nextpar_link ?t j = nextpar_link s j \<and> prevpar_link ?t j = prevpar_link s j" for j
      using t(3,4) by (simp add: fun_eq_iff)
    show "prev_link ?t j = prev_link s j" if g: "g \<in> set gs" "j \<in> set (tl g)" for g j
    proof -
      have "j \<in> set g" using g(2) by (cases g) auto
      then have "j \<noteq> i" using f g(1) by (auto simp: loose_station_def)
      then show ?thesis using fun_cong [OF t(2), of j] by simp
    qed
  qed auto
  ultimately show ?thesis by blast
qed


lemma join_group_ok:
  assumes S: "stations s (as @ (P @ q # H) # bs)" and f: "loose_station s i (as @ (P @ q # H) # bs)"
    and par: "in_parallel s i" "\<forall>j \<in> set (P @ q # H). in_parallel s j" and gc: "as \<noteq> []"
  shows "stations (join_group i q (hd (H @ [- 1])) s) (as @ (P @ q # i # H) # bs)
     \<and> relinked s (join_group i q (hd (H @ [- 1])) s)"
proof -
  let ?g = "P @ q # H" and ?h = "P @ q # i # H" and ?n = "hd (H @ [- 1])"
  let ?gs = "as @ ?g # bs" and ?t = "join_group i q ?n s"
  note D = stationsD [OF S]
  have dg: "distinct ?g" and l: "dll (nextpar_link s) (prevpar_link s) (- 1) ?g (- 1)"
    using D(4) D(8) [of ?g] by auto
  have num: "num_of s j = j \<and> 0 \<le> j \<and> j \<noteq> i" if "j \<in> set ?g" for j
    using D(5) [of j] f that by (auto simp: loose_station_def in_array_def)
  have i: "num_of s i = i" "i \<notin> set ?g" using f by (auto simp: loose_station_def)
  have nn: "H \<noteq> [] \<Longrightarrow> ?n \<in> set ?g" by (cases H) auto
  have gt: "(- 1 < ?n) = (H \<noteq> [])" using num [OF nn] by (cases "H = []") auto
  have nq: "q \<noteq> i" "H \<noteq> [] \<Longrightarrow> ?n \<noteq> i \<and> ?n \<noteq> q" using num [of q] num [OF nn] dg by (cases H; auto)+
  have t: "next_link ?t = next_link s" "prev_link ?t = prev_link s" "tail_of ?t = tail_of s"
    "nextpar_link ?t = (nextpar_link s)(i := ?n, q := i)"
    "prevpar_link ?t = (if H = [] then (prevpar_link s)(i := q) else (prevpar_link s)(i := q, hd H := i))"
    using gt nq num [of q] i by (cases H; auto simp: join_group_def Let_def fun_eq_iff)+
  have R: "relinked s ?t" by (auto simp: join_group_def Let_def intro!: relinked_upd)
  moreover have "stations ?t (as @ ?h # bs)"
  proof (rule stations_change [OF S R])
    have hd: "hd ?h = hd ?g" by (cases P) auto
    show "hd (as @ ?h # bs) = [ET_GRANDCENTRAL]" using D(2) gc by (cases as) auto
    show "[] \<notin> set (as @ ?h # bs)" "distinct (concat (as @ ?h # bs))"
      using D(3,4) f by (auto simp: loose_station_def)
    show "in_array s j \<and> num_of s j = j" if "j \<in> set (concat (as @ ?h # bs))" for j
      using D(5) [of j] f that by (auto simp: loose_station_def)
    show "dll (next_link ?t) (prev_link ?t) (- 1) (map hd (as @ ?h # bs)) (- 1)"
      using D(6) hd unfolding t by simp
    show "tail_of ?t = hd (last (as @ ?h # bs))" using D(7) hd unfolding t by simp
    show "prev_link ?t j = prev_link s j" for j using t(2) by (simp add: fun_eq_iff)
    show "nextpar_link ?t j = nextpar_link s j \<and> prevpar_link ?t j = prevpar_link s j"
      if g: "g \<in> set (as @ ?h # bs)" "g \<in> set ?gs" "j \<in> set g" for g j
    proof -
      have "j \<noteq> i" using f g(2,3) by (auto simp: loose_station_def)
      moreover have "j \<noteq> k" if k: "k \<in> {q} \<union> set H" for k
      proof
        assume "j = k"
        then have "g = ?g" using D(4) g(2,3) k by (auto simp: distinct_concat_iff)
        then show False using g(1) D(4) by (auto simp: distinct_concat_iff)
      qed
      ultimately show ?thesis using t(4,5) by (cases H) (auto simp: fun_eq_iff)
    qed
    show "dll (nextpar_link ?t) (prevpar_link ?t) (- 1) g (- 1) \<and> (tl g \<noteq> [] \<longrightarrow> (\<forall>i \<in> set g. in_parallel s i))
        \<and> (\<forall>i \<in> set (tl g). prev_link ?t i = - 1)"
      if g: "g \<in> set (as @ ?h # bs)" "g \<notin> set ?gs" for g
    proof -
      have g: "g = ?h" using that by auto
      have "dll (nextpar_link ?t) (prevpar_link ?t) (- 1) g (- 1)"
        using dll_insert [OF l dg i(2)] unfolding t g by simp
      moreover have "\<forall>j \<in> set g. in_parallel s j" using par g by auto
      moreover have "\<forall>j \<in> set (tl g). prev_link ?t j = - 1"
      proof -
        have "prev_link ?t j = prev_link s j" for j using t(2) by (simp add: fun_eq_iff)
        then show ?thesis using D(10) [of ?g] g f by (cases P) (auto simp: loose_station_def)
      qed
      ultimately show ?thesis by blast
    qed
  qed auto
  ultimately show ?thesis by blast
qed

end
