(* ===== verification/Et_StationPlaces.thy ===== *)
theory Et_StationPlaces
  imports Et_StationGroups
begin

text \<open>
  Inserting a station into the lists of stations and finding it there: \<open>station_insert_ok\<close> states
  that \<open>station_insert\<close> is \<open>insert_station\<close> on the list of groups, and \<open>station_find_ok\<close> that
  \<open>station_find\<close> returns the place of a station in it.
\<close>

lemma station_insert_ok:
  assumes S: "stations s gs" and f: "loose_station s i gs"
    and n: "sy_nstations (m_sys s) = int (length (concat gs)) + 1"
  shows "case insert_station (\<lambda>j. config_of j s) i pos ppos gs of
      None \<Rightarrow> station_insert i pos ppos s = Go (ET_ERROR, s)
    | Some gs' \<Rightarrow> \<exists>t. station_insert i pos ppos s = Go (ET_OK, t) \<and> stations t gs' \<and> relinked s t"
proof (cases "length gs = 1")
  case True
  then have gs: "gs = [[ET_GRANDCENTRAL]]" using stationsD(2) [OF S] by (cases gs) auto
  then have "insert_station (\<lambda>j. config_of j s) i pos ppos gs = Some (gs @ [[i]])" by (simp add: insert_station_def)
  moreover have "station_insert i pos ppos s = Go (ET_OK, append_station i ET_GRANDCENTRAL s)"
    using n gs by (simp add: station_insert_def)
  ultimately show ?thesis using append_station_ok [OF S f] gs by simp
next
  case False
  note D = stationsD [OF S]
  obtain rest where gs: "gs = [ET_GRANDCENTRAL] # rest" "rest \<noteq> []" using D(1,2) False by (cases gs) auto
  have "length (concat rest) > 0" using D(3) gs by (cases rest) auto
  then have n3: "\<not> sy_nstations (m_sys s) < 3" using n gs by simp
  have pos0: "\<forall>y \<in> set (map hd rest). 0 \<le> y"
  proof -
    have "hd ` set gs \<subseteq> set (concat gs)" by (rule heads_subset [OF D(3)])
    then show ?thesis using D(5) gs by (auto simp: in_array_def)
  qed
  have hs: "map hd gs = ET_GRANDCENTRAL # map hd rest" by (simp add: gs)
  have ln: "length gs = Suc (length rest)" by (simp add: gs)
  have mw: "main_walk s pos 1 ET_GRANDCENTRAL = Some
     (if 1 \<le> pos \<and> pos < 1 + int (length rest) then (map hd gs ! nat (pos - 1), map hd gs ! nat pos)
      else (last (map hd gs), - 1))"
  proof -
    have "map hd rest ! nat (pos - 1) = map hd gs ! nat pos" if "1 \<le> pos"
    proof -
      have "nat pos = Suc (nat (pos - 1))" using that by simp
      then show ?thesis unfolding hs by simp
    qed
    then show ?thesis
      using main_walk_run [of s "prev_link s" "- 1" ET_GRANDCENTRAL "map hd rest" pos 1] D(6) pos0 unfolding hs by auto
  qed
  show ?thesis
  proof (cases "1 \<le> pos \<and> pos < int (length gs)")
    case False
    then have "main_walk s pos 1 ET_GRANDCENTRAL = Some (hd (last gs), - 1)"
      using mw ln D(1) by (auto simp: last_map)
    then have "station_insert i pos ppos s = Go (ET_OK, append_station i (hd (last gs)) s)"
      using n3 by (simp add: station_insert_def)
    moreover have "insert_station (\<lambda>j. config_of j s) i pos ppos gs = Some (gs @ [[i]])"
      unfolding insert_station_def using False by (subst if_not_P) simp_all
    ultimately show ?thesis using append_station_ok [OF S f] by simp
  next
    case True
    define k where "k = nat pos"
    have k: "0 < k" "k < length gs" "nat (pos - 1) = k - 1" using True by (auto simp: k_def)
    define as where "as = take (k - 1) gs"
    define a where "a = gs ! (k - 1)"
    define b where "b = gs ! k"
    define bs where "bs = drop (Suc k) gs"
    have gs': "gs = as @ a # b # bs"
      unfolding as_def a_def b_def bs_def using k
      by (metis Cons_nth_drop_Suc Suc_diff_1 diff_less_Suc id_take_nth_drop less_imp_diff_less)
    have tk: "take k gs = as @ [a]" "drop k gs = b # bs" "gs ! k = b"
      using k by (simp_all add: as_def a_def b_def bs_def Cons_nth_drop_Suc)
        (metis Suc_diff_1 diff_less less_trans less_one take_Suc_conv_app_nth)
    have mw': "main_walk s pos 1 ET_GRANDCENTRAL = Some (hd a, hd b)"
      using mw True k ln by (simp add: a_def b_def k_def [symmetric])
    have b: "b \<noteq> []" "b \<in> set gs" using D(3) gs' by auto
    have hb: "0 \<le> hd b"
    proof -
      have "hd b \<in> set (concat gs)" using b by (auto intro!: bexI hd_in_set)
      then show ?thesis using D(5) by (simp add: in_array_def)
    qed
    have ins: "insert_station (\<lambda>j. config_of j s) i pos ppos gs =
       (if in_parallel s i \<and> in_parallel s (hd b) \<and> ppos \<noteq> ET_NEWHEAD
        then if et_station_compare_parallel (config_of (hd b) s) (config_of i s) = 0 \<or> ppos = 0 then None
             else Some ((as @ [a]) @ group_insert i ppos b # bs)
        else Some (as @ a # [i] # b # bs))"
      using True tk by (simp add: insert_station_def Let_def k_def [symmetric] bs_def)
    show ?thesis
    proof (cases "in_parallel s i \<and> in_parallel s (hd b) \<and> ppos \<noteq> ET_NEWHEAD")
      case False
      then have "station_insert i pos ppos s = Go (ET_OK, put_before i (hd a) (hd b) s)"
        using n3 mw' hb by (auto simp: station_insert_def)
      then show ?thesis using False ins put_before_ok [of s as a b bs i] S f gs' by auto
    next
      case par: True
      show ?thesis
      proof (cases "et_station_compare_parallel (config_of (hd b) s) (config_of i s) = 0 \<or> ppos = 0")
        case True
        then have "station_insert i pos ppos s = Go (ET_ERROR, s)"
          using n3 mw' hb par by (auto simp: station_insert_def)
        then show ?thesis using True par ins by simp
      next
        case ok: False
        define m where "m = (if 1 \<le> ppos \<and> ppos < int (length b) then nat ppos else length b)"
        obtain x H where bx: "b = x # H" using b(1) by (cases b) auto
        have m: "0 < m" "m \<le> length b" using b(1) by (auto simp: m_def)
        have pos1: "\<forall>y \<in> set H. 0 \<le> y"
        proof
          fix y assume "y \<in> set H"
          then have "y \<in> set (concat gs)" using b(2) bx by (auto intro!: bexI [of _ "x # H"])
          then show "0 \<le> y" using D(5) by (simp add: in_array_def)
        qed
        have pw: "par_walk s ppos 1 (hd b) = Some (b ! (m - 1), hd (drop m b @ [- 1]))"
        proof -
          have "nat ppos = Suc (nat (ppos - 1))" if "1 \<le> ppos" using that by simp
          then show ?thesis
            using par_walk_run [of s "prevpar_link s" "- 1" x H ppos 1] D(8) [OF b(2)] pos1 bx
            by (auto simp: m_def last_conv_nth hd_append hd_drop_conv_nth)
        qed
        obtain P q H' where pq: "b = P @ q # H'" "q = b ! (m - 1)" "H' = drop m b" "take m b = P @ [q]"
          using m by (metis Suc_diff_1 diff_less less_le_trans less_one id_take_nth_drop take_Suc_conv_app_nth)
        have "group_insert i ppos b = P @ q # i # H'"
          using pq(3,4) by (simp add: group_insert_def Let_def m_def [symmetric])
        moreover have "station_insert i pos ppos s = Go (ET_OK, join_group i q (hd (H' @ [- 1])) s)"
          using n3 mw' hb par ok pw pq(2,3) by (simp add: station_insert_def)
        moreover have "\<forall>j \<in> set b. in_parallel s j" using D(9) [OF b(2)] par bx by (cases H) auto
        ultimately show ?thesis
          using par ok ins join_group_ok [of s "as @ [a]" P q H' bs i] S f gs' pq(1) by simp
      qed
    qed
  qed
qed

section \<open>Finding a station\<close>

definition index_of :: "'a \<Rightarrow> 'a list \<Rightarrow> nat" where
  "index_of x xs = length (takeWhile (\<lambda>y. y \<noteq> x) xs)"

lemma index_of_simps [simp]:
  "index_of x [] = 0"
  "index_of x (y # ys) = (if y = x then 0 else Suc (index_of x ys))"
  by (simp_all add: index_of_def)

lemma index_of_nth: "distinct xs \<Longrightarrow> k < length xs \<Longrightarrow> index_of (xs ! k) xs = k"
proof (induction xs arbitrary: k)
  case (Cons x xs)
  then show ?case by (cases k) auto
qed simp

text \<open>The first group with the station, counted from \<open>c\<close>, and the place of the station in it.\<close>

fun place_of :: "et_stat_id \<Rightarrow> int \<Rightarrow> et_stat_id list list \<Rightarrow> (int \<times> int) option" where
  "place_of i c [] = None"
| "place_of i c (g # gs) = (if i \<in> set g then Some (c, int (index_of i g)) else place_of i (c + 1) gs)"

lemma place_of_nth:
  "distinct (concat gs) \<Longrightarrow> [] \<notin> set gs \<Longrightarrow> a < length gs \<Longrightarrow> b < length (gs ! a) \<Longrightarrow>
   place_of (gs ! a ! b) c gs = Some (c + int a, int b)"
proof (induction gs arbitrary: a c)
  case (Cons g gs)
  show ?case
  proof (cases a)
    case 0
    then show ?thesis using Cons.prems by (simp add: index_of_nth)
  next
    case (Suc a')
    then have "gs ! a' ! b \<in> set (concat gs)" using Cons.prems by (auto intro!: bexI [of _ "gs ! a'"])
    then have "gs ! a' ! b \<notin> set g" using Cons.prems(1) by auto
    then show ?thesis using Cons Suc by simp
  qed
qed simp

lemma find_par_run:
  assumes "dll (nextpar_link s) pv a (x # H) (- 1)" and "\<forall>y \<in> set H. 0 \<le> y"
  shows "find_par s i c x = Some (if i \<in> set H then Some (c + int (index_of i H)) else None)"
  using assms
proof (induction H arbitrary: a c x)
  case Nil
  then show ?case by (subst find_par.simps) (simp add: Let_def)
next
  case (Cons y H)
  then have "nextpar_link s x = y" "0 \<le> y" by auto
  then show ?case
    using Cons.IH [of x y "c + 1"] Cons.prems by (subst find_par.simps) (auto simp: Let_def)
qed

lemma find_main_run:
  assumes "dll (next_link s) pv a (x # map hd gs) (- 1)"
    and "\<And>g. g \<in> set gs \<Longrightarrow> g \<noteq> [] \<and> dll (nextpar_link s) (prevpar_link s) (- 1) g (- 1)
      \<and> (\<forall>y \<in> set g. 0 \<le> y) \<and> (tl g \<noteq> [] \<longrightarrow> in_parallel s (hd g))"
  shows "find_main s i c x = Some (place_of i c gs)"
  using assms
proof (induction gs arbitrary: a c x)
  case Nil
  then show ?case by (subst find_main.simps) (simp add: Let_def)
next
  case (Cons g gs)
  obtain y H where g: "g = y # H" using Cons.prems(2) [of g] by (cases g) auto
  have y: "next_link s x = y" "0 \<le> y" using Cons.prems(1) Cons.prems(2) [of g] g by auto
  have gd: "dll (nextpar_link s) (prevpar_link s) (- 1) (y # H) (- 1)" "\<forall>z \<in> set H. 0 \<le> z" "H \<noteq> [] \<Longrightarrow> in_parallel s y"
    using Cons.prems(2) [of g] g by auto
  have "find_main s i (c + 1) y = Some (place_of i (c + 1) gs)"
    by (rule Cons.IH [where x = y and a = x]) (use Cons.prems g in auto)
  moreover have "find_par s i 1 y = Some (if i \<in> set H then Some (1 + int (index_of i H)) else None)"
    by (rule find_par_run [OF gd(1,2)])
  ultimately show ?case
    using y gd(3) g by (cases "H = []"; subst find_main.simps; simp add: Let_def)
qed

lemma station_find_ok:
  assumes S: "stations s gs" and n: "sy_nstations (m_sys s) = int (length (concat gs))"
    and a: "a < length gs" and b: "b < length (gs ! a)"
  shows "station_find (gs ! a ! b) s = Go (Some (int a, int b))"
proof -
  note D = stationsD [OF S]
  obtain rest where gs: "gs = [ET_GRANDCENTRAL] # rest" using D(1,2) by (cases gs) auto
  show ?thesis
  proof (cases a)
    case 0
    then show ?thesis using b gs by (simp add: station_find_def)
  next
    case (Suc a')
    let ?i = "gs ! a ! b"
    have i: "?i \<in> set (concat rest)" "?i = rest ! a' ! b"
      using a b gs Suc by (auto intro!: bexI [of _ "rest ! a'"])
    then have ne: "?i \<noteq> ET_GRANDCENTRAL" using D(4) gs by auto
    have "0 < length (concat rest)" using i(1) by (cases "concat rest") auto
    then have "\<not> sy_nstations (m_sys s) < 2" using n gs by simp
    moreover have "find_main s ?i 1 ET_GRANDCENTRAL = Some (place_of ?i 1 rest)"
    proof (rule find_main_run)
      show "dll (next_link s) (prev_link s) (- 1) (ET_GRANDCENTRAL # map hd rest) (- 1)" using D(6) gs by simp
      fix g assume g: "g \<in> set rest"
      then have "g \<noteq> []" using D(3) gs by auto
      moreover have "\<forall>y \<in> set g. 0 \<le> y"
      proof
        fix y assume "y \<in> set g"
        then have "y \<in> set (concat gs)" using g gs by auto
        then show "0 \<le> y" using D(5) by (simp add: in_array_def)
      qed
      ultimately show "g \<noteq> [] \<and> dll (nextpar_link s) (prevpar_link s) (- 1) g (- 1)
          \<and> (\<forall>y \<in> set g. 0 \<le> y) \<and> (tl g \<noteq> [] \<longrightarrow> in_parallel s (hd g))"
        using D(8,9) [of g] g gs by auto
    qed
    moreover have "place_of (rest ! a' ! b) 1 rest = Some (1 + int a', int b)"
      by (rule place_of_nth) (use D(3,4) a b gs Suc in auto)
    ultimately show ?thesis using ne i(2) Suc by (simp add: station_find_def)
  qed
qed

end
