(* ===== verification/Et_ConductorFacts.thy ===== *)
theory Et_ConductorFacts
  imports Et_Conductor "HOL-Library.Sublist"
begin

text \<open>
  Facts on the pieces of a conductor's round: what the scans choose, and that the writes into the
  input lists leave the structure of the system alone.
\<close>

section \<open>What the scans choose\<close>

text \<open>\<open>takes es c es'\<close>: from the events \<open>es\<close> the scan chose \<open>c\<close> and marked exactly these.\<close>

definition takes :: "(nat \<times> bool) list \<Rightarrow> nat list \<Rightarrow> (nat \<times> bool) list \<Rightarrow> bool" where
  "takes es c es' \<longleftrightarrow> map fst es' = map fst es \<and> subseq c (undealt es)
     \<and> undealt es' = filter (\<lambda>e. e \<notin> set c) (undealt es)"

lemma undealt_simps [simp]:
  "undealt [] = []" "undealt ((e, put) # es) = (if put then undealt es else e # undealt es)"
  by (simp_all add: undealt_def)

lemma undealt_subset: "set (undealt es) \<subseteq> fst ` set es"
  by (auto simp: undealt_def)

lemma undealt_distinct: "distinct (map fst es) \<Longrightarrow> distinct (undealt es)"
  by (induction es) (use undealt_subset in \<open>force+\<close>)

lemma undealt_subseq: "subseq (undealt es) (map fst es)"
  by (induction es) auto

lemma undealt_unmarked: "\<forall>(e, put) \<in> set es. \<not> put \<Longrightarrow> undealt es = map fst es"
  by (induction es) auto

lemma undealt_notin: "distinct (map fst ((e, put) # es)) \<Longrightarrow> e \<notin> set (undealt es)"
  using undealt_subset [of es] by auto

lemma takes_none: "takes es [] es"
  by (simp add: takes_def)

lemma takes_skip:
  assumes "takes es c es'" and "distinct (map fst ((e, put) # es))"
  shows "takes ((e, put) # es) c ((e, put) # es')"
proof -
  have "e \<notin> set c" if "\<not> put"
    using assms undealt_notin [of e put es] list_emb_set [of "(=)" c "undealt es" e] by (auto simp: takes_def)
  then show ?thesis using assms(1) by (auto simp: takes_def)
qed

lemma takes_pick:
  assumes "takes es c es'" and "distinct (map fst ((e, False) # es))"
  shows "takes ((e, False) # es) (e # c) ((e, True) # es')"
proof -
  have "filter (\<lambda>x. x \<noteq> e \<and> x \<notin> set c) (undealt es) = filter (\<lambda>x. x \<notin> set c) (undealt es)"
    using undealt_notin [OF assms(2)] by (intro filter_cong) auto
  then show ?thesis using assms(1) by (auto simp: takes_def)
qed

lemma pick_blocking_takes:
  "distinct (map fst es) \<Longrightarrow> pick_blocking f pre es t = (c, es', t') \<Longrightarrow> takes es c es'"
proof (induction f pre es t arbitrary: c es' t' rule: pick_blocking.induct)
  case (2 f pre e put es t)
  then show ?case
    by (auto split: if_splits prod.splits intro: takes_skip takes_pick)
qed (simp add: takes_none)

lemma pick_cue_takes:
  "distinct (map fst es) \<Longrightarrow> pick_cue f j es = (c, es') \<Longrightarrow> takes es c es'"
proof (induction f j es arbitrary: c es' rule: pick_cue.induct)
  case (2 f j e put es)
  then show ?case
    by (auto split: if_splits prod.splits intro: takes_skip takes_pick takes_pick [OF takes_none])
qed (simp add: takes_none)

lemma mark_first_takes:
  "distinct (map fst es) \<Longrightarrow> takes es (take k (undealt es)) (mark_first k es)"
proof (induction k es rule: mark_first.induct)
  case (3 k e put es)
  then show ?case by (cases put) (auto intro: takes_skip takes_pick)
qed (simp_all add: takes_none)

lemma pick_cue_eq: "1 \<le> j \<Longrightarrow> fst (pick_cue f j es) = take (nat j) (filter f (undealt es))"
proof (induction f j es rule: pick_cue.induct)
  case (2 f j e put es)
  have "nat j = Suc (nat (j - 1))" using 2(3) by simp
  then show ?case using 2 by (auto split: prod.splits simp: take_Cons')
qed simp

text \<open>A blocking station gets every \<open>pre\<close>-th of the events it wants, counting from \<^verbatim>\<open>events_try\<close>.\<close>

definition every :: "64 word \<Rightarrow> 64 word \<Rightarrow> nat list \<Rightarrow> nat list" where
  "every pre t ws = map (\<lambda>i. ws ! i) (filter (\<lambda>i. (t + of_nat i) mod pre = 0) [0..<length ws])"

lemma every_simps [simp]:
  "every pre t [] = []"
  "every pre t (w # ws) = (if t mod pre = 0 then w # every pre (t + 1) ws else every pre (t + 1) ws)"
proof -
  have u: "[0..<length (w # ws)] = 0 # map Suc [0..<length ws]"
    by (simp add: map_Suc_upt upt_conv_Cons del: upt_Suc)
  show "every pre t (w # ws) = (if t mod pre = 0 then w # every pre (t + 1) ws else every pre (t + 1) ws)"
    unfolding every_def u by (simp add: filter_map comp_def add.assoc add.commute [of 1])
qed (simp add: every_def)

lemma pick_blocking_eq:
  "pick_blocking f pre es t = (c, es', t') \<Longrightarrow>
     c = every pre t (filter f (undealt es)) \<and> t' = t + of_nat (length (filter f (undealt es)))"
proof (induction f pre es t arbitrary: c es' t' rule: pick_blocking.induct)
  case (2 f pre e put es t)
  then show ?case by (auto split: if_splits prod.splits)
qed simp

section \<open>The structure of the system\<close>

text \<open>What no list operation changes of a station.\<close>

definition core :: "et_mem \<Rightarrow> et_stat_id \<Rightarrow> int \<times> int \<times> int \<times> int \<times> et_stat_data \<times> et_stat_config \<times> int \<times> et_fix" where
  "core s st = (let p = m_stats s st in
     (s_next p, s_prev p, s_nextparallel p, s_prevparallel p, s_data p, s_config p, y_nstations (sy_config (m_sys s)), s_fix p))"

lemma core_upd [simp]:
  "core (upd_event e f s) = core s" "core (upd_list r g s) = core s" "core (upd_os c s) = core s"
  "core (upd_station st (s_waslast_update k) s) = core s" "core (upd_station st (s_mutex_update m) s) = core s"
  "sy_config y = sy_config (m_sys s) \<Longrightarrow> core (s\<lparr>m_sys := y\<rparr>) = core s"
  by (cases r; auto simp: core_def upd_event_def upd_list.simps upd_os_def upd_station_def fun_eq_iff Let_def)+

lemma core_own_by [simp]: "core (own_by a es s) = core s"
  by (induction es arbitrary: s) simp_all

lemma core_link_run [simp]: "core (link_run es s) = core s"
  by (induction es s rule: link_run.induct) simp_all

lemma core_link_highs: "link_highs e es p s = (e', ls, s') \<Longrightarrow> core s' = core s"
  by (induction e es p s rule: link_highs.induct) (auto split: if_splits)

lemma core_llist_write:
  assumes "et_llist_write r pe0 s = Some (n, t)"
  shows "core t = core s"
proof (cases "pri_of (hd pe0) s = ET_LOW \<or> cnt_of r s = 0")
  case True
  with assms show ?thesis
    by (auto simp: et_llist_write_def Let_def bind_eq_Some_conv split: if_splits)
next
  case False
  define num where "num = (if int (length pe0) > nevents s - cnt_of r s then nevents s - cnt_of r s else int (length pe0))"
  define pe where "pe = take (nat num) pe0"
  obtain lh p hc where f: "find_high (nat (cnt_of r s)) None (first_of r s) 0 s = Some (lh, p, hc)"
    using False assms by (auto simp: et_llist_write_def Let_def bind_eq_Some_conv)
  define s1 where "s1 = (case lh of
               Some lh \<Rightarrow> put_next lh (Some (hd pe0)) (put_next (hd pe0) (next_of lh s) s)
             | None \<Rightarrow> put_first r (Some (hd pe0)) (put_next (hd pe0) (first_of r s) s))"
  obtain e ls s2 where l: "link_highs (hd pe0) (tl pe) p s1 = (e, ls, s2)" by (cases "link_highs (hd pe0) (tl pe) p s1")
  have "core s2 = core s" using core_link_highs [OF l] by (simp add: s1_def split: option.splits)
  with False assms f l show ?thesis
    unfolding et_llist_write_def num_def [symmetric] Let_def
    by (auto simp: bind_eq_Some_conv pe_def s1_def num_def split: if_splits)
qed

lemma core_eqD:
  assumes "core t = core s"
  shows "s_next (m_stats t st) = s_next (m_stats s st)" "s_nextparallel (m_stats t st) = s_nextparallel (m_stats s st)"
    "s_prevparallel (m_stats t st) = s_prevparallel (m_stats s st)" "config_of st t = config_of st s"
    "status_of st t = status_of st s" "max_stations t = max_stations s" "gfix st t = gfix st s"
  using fun_cong [OF assms, of st] by (auto simp: core_def Let_def gfix_def)

lemma group_from_core: "core t = core s \<Longrightarrow> group_from n st t = group_from n st s"
proof (induction n arbitrary: st)
  case 0
  then show ?case by (subst (1 2) group_from.simps) (simp add: core_eqD [OF 0])
next
  case (Suc n)
  then show ?case by (subst (1 2) group_from.simps) (simp add: core_eqD [OF Suc.prems])
qed

end
