(* ===== verification/Et_Holdings.thy ===== *)
theory Et_Holdings
  imports Et_ConductorFacts
begin

text \<open>
  Where the events of an ET system are: \<open>holds s L U\<close> says that every list \<open>r\<close> of the system holds
  the events \<open>L r\<close> in good order, that no event is in two lists, and that the events \<open>U\<close>, which
  belong to the system and are in no list, are in the hands of a conductor.
\<close>

section \<open>The lists of a system\<close>

definition list_ok :: "et_mem \<Rightarrow> listref \<Rightarrow> nat list \<Rightarrow> bool" where
  "list_ok s r xs \<longleftrightarrow> ev_list s r xs
     \<and> (\<forall>e \<in> set xs. pri_of e s \<in> {ET_LOW, ET_HIGH} \<and> int e < nevents s)
     \<and> (r \<noteq> ListIn ET_GRANDCENTRAL \<longrightarrow> pri_sorted (high (m_events s)) xs)
     \<and> (\<forall>st. r = ListOut st \<longrightarrow> l_lasthigh (glist r s) = int (length (highs (high (m_events s)) xs)))"

definition holds :: "et_mem \<Rightarrow> (listref \<Rightarrow> nat list) \<Rightarrow> nat set \<Rightarrow> bool" where
  "holds s L U \<longleftrightarrow> 0 < nevents s \<and> (\<forall>r. list_ok s r (L r)) \<and> (\<forall>r q. r \<noteq> q \<longrightarrow> set (L r) \<inter> set (L q) = {})
     \<and> (\<forall>r. U \<inter> set (L r) = {})
     \<and> (\<forall>e \<in> U. e_owner (m_events s e) = ET_SYS \<and> pri_of e s \<in> {ET_LOW, ET_HIGH} \<and> int e < nevents s)"

text \<open>Every event is where it was, or has gone from the hands of the conductor into an input list.\<close>

definition moved :: "(listref \<Rightarrow> nat list) \<Rightarrow> nat set \<Rightarrow> (listref \<Rightarrow> nat list) \<Rightarrow> nat set \<Rightarrow> bool" where
  "moved L U L' U' \<longleftrightarrow> (\<forall>r. set (L r) \<subseteq> set (L' r)) \<and> (\<forall>st. L' (ListOut st) = L (ListOut st))
     \<and> U' \<subseteq> U \<and> (\<Union>r. set (L' r)) \<union> U' = (\<Union>r. set (L r)) \<union> U"

lemma moved_refl [simp]: "moved L U L U"
  by (simp add: moved_def)

lemma moved_trans: "moved L U L' U' \<Longrightarrow> moved L' U' L'' U'' \<Longrightarrow> moved L U L'' U''"
proof -
  assume a: "moved L U L' U'" "moved L' U' L'' U''"
  have "set (L r) \<subseteq> set (L'' r)" for r using a unfolding moved_def by (meson subset_trans)
  moreover have "L'' (ListOut st) = L (ListOut st)" for st using a by (simp add: moved_def)
  moreover have "U'' \<subseteq> U" using a unfolding moved_def by (meson subset_trans)
  moreover have "(\<Union>r. set (L'' r)) \<union> U'' = (\<Union>r. set (L r)) \<union> U" using a by (simp add: moved_def)
  ultimately show ?thesis by (simp add: moved_def)
qed

lemma frame_nevents: "frame r E s t \<Longrightarrow> nevents t = nevents s"
  by (simp add: frame_def nevents_def)

lemma list_ok_frame:
  assumes "frame r E s t" and "q \<noteq> r" and "E \<inter> set xs = {}" and "list_ok s q xs"
  shows "list_ok t q xs"
proof -
  have g: "glist q t = glist q s" and e: "\<And>x. x \<in> set xs \<Longrightarrow> m_events t x = m_events s x"
    using assms(1-3) by (auto simp: frame_def)
  have "chain (m_events t) (first_of q s) xs = chain (m_events s) (first_of q s) xs"
    by (rule chain_cong) (use e in \<open>auto dest: in_set_butlastD\<close>)
  then show ?thesis
    using assms(4) e g frame_high [OF assms(1)] frame_nevents [OF assms(1)]
    by (cases q) (auto simp: list_ok_def ev_list_def)
qed

text \<open>The events \<open>C\<close> in the hands of the conductor go into the list \<open>r\<close>.\<close>

lemma holds_put:
  assumes h: "holds s L U" and fr: "frame r E s t" and E: "E \<subseteq> set (L r) \<union> C" and C: "C \<subseteq> U"
    and ok: "list_ok t r zs" and zs: "set zs = set (L r) \<union> C" and r: "r = ListIn st"
  shows "holds t (L(r := zs)) (U - C) \<and> moved L U (L(r := zs)) (U - C)"
proof -
  have d: "\<And>p q. p \<noteq> q \<Longrightarrow> set (L p) \<inter> set (L q) = {}" "\<And>q. U \<inter> set (L q) = {}"
    using h by (auto simp: holds_def)
  have keep: "m_events t e = m_events s e" if "e \<in> U - C" for e
    using that E fr d(2) [of r] by (auto simp: frame_def)
  have oth: "list_ok t q (L q)" if "q \<noteq> r" for q
  proof (rule list_ok_frame [OF fr that])
    show "E \<inter> set (L q) = {}" using E C d(1) [OF that] d(2) [of q] by auto
    show "list_ok s q (L q)" using h by (simp add: holds_def)
  qed
  have "holds t (L(r := zs)) (U - C)"
    unfolding holds_def
  proof (intro conjI allI impI ballI)
    show "0 < nevents t" using h frame_nevents [OF fr] by (simp add: holds_def)
    show "list_ok t q ((L(r := zs)) q)" for q using ok oth by simp
    show "set ((L(r := zs)) p) \<inter> set ((L(r := zs)) q) = {}" if "p \<noteq> q" for p q
      using that d(1) [OF that] d(2) [of p] d(2) [of q] zs C by auto
    show "(U - C) \<inter> set ((L(r := zs)) q) = {}" for q using d(2) [of q] zs by auto
    fix e assume e: "e \<in> U - C"
    then show "e_owner (m_events t e) = ET_SYS" "pri_of e t \<in> {ET_LOW, ET_HIGH}" "int e < nevents t"
      using h keep [OF e] frame_nevents [OF fr] by (auto simp: holds_def)
  qed
  moreover have "moved L U (L(r := zs)) (U - C)"
    using zs C r by (auto simp: moved_def split: if_splits)
  ultimately show ?thesis by blast
qed

lemma holds_room:
  assumes h: "holds s L U" and es: "distinct es" "set es \<subseteq> U"
  shows "int (length (L r) + length es) \<le> nevents s" and "set (L r) \<inter> set es = {}"
proof -
  have ok: "list_ok s r (L r)" "U \<inter> set (L r) = {}" and U: "\<And>e. e \<in> U \<Longrightarrow> int e < nevents s"
    using h by (auto simp: holds_def)
  show dj: "set (L r) \<inter> set es = {}" using ok(2) es(2) by auto
  have "distinct (L r @ es)" using ok(1) dj es(1) by (auto simp: list_ok_def ev_list_def)
  moreover have "set (L r @ es) \<subseteq> {..<nat (nevents s)}"
    using ok(1) U es(2) by (auto simp: list_ok_def zless_nat_eq_int_zless subset_iff)
  ultimately have "length (L r @ es) \<le> nat (nevents s)"
    by (metis card_lessThan card_mono distinct_card finite_lessThan)
  moreover have "0 < nevents s" using h by (simp add: holds_def)
  ultimately show "int (length (L r) + length es) \<le> nevents s" by simp
qed


section \<open>Writing into an input list\<close>

lemma list_ok_pri:
  "r \<noteq> ListIn ET_GRANDCENTRAL \<Longrightarrow> list_ok s r xs \<Longrightarrow> pri_list s r xs"
  by (auto simp: list_ok_def pri_list_def)

lemma list_ok_touch:
  assumes "list_ok s r xs"
    and "\<And>l. l_cnt (f l) = l_cnt l \<and> l_firstevent (f l) = l_firstevent l \<and> l_lastevent (f l) = l_lastevent l
      \<and> l_lasthigh (f l) = l_lasthigh l"
  shows "list_ok (upd_list q f s) r xs"
  using assms by (auto simp: list_ok_def ev_list_def)

lemma set_written: "set (highs hi xs @ highs hi es @ lows hi xs @ lows hi es) = set xs \<union> set es"
  by auto

definition unlocked :: "et_mem \<Rightarrow> bool" where
  "unlocked s \<longleftrightarrow> (\<forall>r. \<not> l_mutex (glist r s))"

lemma deliver_ok:
  assumes h: "holds s L U" and st: "st \<noteq> ET_GRANDCENTRAL"
    and c: "distinct c" "set c \<subseteq> U" "c \<noteq> []" "pri_sorted (high (m_events s)) c"
  defines "hi \<equiv> high (m_events s)" and "xs \<equiv> L (ListIn st)"
  defines "zs \<equiv> highs hi xs @ highs hi c @ lows hi xs @ lows hi c"
  shows "\<exists>t. deliver st tr c s = Go t \<and> holds t (L(ListIn st := zs)) (U - set c)
     \<and> moved L U (L(ListIn st := zs)) (U - set c) \<and> core t = core s
     \<and> frame (ListIn st) (set xs \<union> set c) s t \<and> (unlocked s \<longrightarrow> unlocked t)"
proof -
  let ?r = "ListIn st"
  let ?s1 = "set_try st tr (lock_list ?r s)"
  have ok: "list_ok s ?r xs" and U: "\<And>e. e \<in> U \<Longrightarrow> e_owner (m_events s e) = ET_SYS \<and> pri_of e s \<in> {ET_LOW, ET_HIGH} \<and> int e < nevents s"
    using h by (auto simp: holds_def xs_def)
  have p1: "pri_list ?s1 ?r xs" by (intro list_ok_pri list_ok_touch ok) (use st in simp_all)
  have l1: "loose ?s1 c" using c U by (auto simp: loose_def)
  have room: "int (length xs + length c) \<le> nevents ?s1" "set xs \<inter> set c = {}"
    using holds_room [OF h c(1,2), of ?r] by (simp_all add: xs_def)
  have hi1: "high (m_events ?s1) = hi" by (simp add: hi_def)
  obtain t where t: "et_llist_write ?r c ?s1 = Some (int (length c), t)" "pri_list t ?r zs"
    "frame ?r (set xs \<union> set c) ?s1 t"
    using et_llist_write_ok [OF p1 l1 room(2) c(3) room(1)] unfolding hi1 zs_def by blast
  let ?t = "upd_os (CondBroadcast ?r) (unlock_list ?r t)"
  have d: "deliver st tr c s = Go ?t" by (simp add: deliver_def Let_def t(1))
  have f1: "frame ?r (set xs \<union> set c) s ?s1" by (intro frame_upd frame_refl)
  have fr: "frame ?r (set xs \<union> set c) s ?t" using frame_trans [OF f1 t(3)] by (intro frame_upd)
  have sz: "set zs = set xs \<union> set c" unfolding zs_def by (rule set_written)
  have "list_ok t ?r zs"
    using t(2) ok U c(2) frame_nevents [OF t(3)]
    by (auto simp: list_ok_def pri_list_def sz subset_iff)
  then have "list_ok ?t ?r zs" by (auto simp: list_ok_def ev_list_def)
  from holds_put [OF h fr _ c(2) this] sz
  have "holds ?t (L(?r := zs)) (U - set c) \<and> moved L U (L(?r := zs)) (U - set c)" by (simp add: xs_def)
  moreover have "core ?t = core s" using core_llist_write [OF t(1)] by simp
  moreover have "unlocked s \<longrightarrow> unlocked ?t" using fr by (auto simp: unlocked_def frame_def)
  ultimately show ?thesis using d fr by auto
qed

end
