(* ===== verification/Et_ConductorSteps.thy ===== *)
theory Et_ConductorSteps
  imports Et_Holdings
begin

text \<open>
  The steps of a conductor's round: feeding one station, GrandCentral, or the stations of a group
  one after the other moves events from the hands of the conductor into input lists and does
  nothing else (\<open>step_ok\<close>).
\<close>

section \<open>Parts of a list\<close>

lemma subseq_sorted_wrt: "subseq c es \<Longrightarrow> sorted_wrt P es \<Longrightarrow> sorted_wrt P c"
  by (induction rule: list_emb.induct) (auto dest: list_emb_set)

lemma subseq_pri: "subseq c es \<Longrightarrow> pri_sorted hi es \<Longrightarrow> pri_sorted hi c"
  unfolding pri_sorted_def by (rule subseq_sorted_wrt)

lemma subseq_set: "subseq c es \<Longrightarrow> set c \<subseteq> set es"
  by (auto dest: list_emb_set)

lemma subseq_distinct: "subseq c es \<Longrightarrow> distinct es \<Longrightarrow> distinct c"
  unfolding distinct_conv_nth by (metis distinct_conv_nth subseqs_distinctD in_set_subseqs)

section \<open>The local state of a round\<close>

definition pass_ok :: "et_mem \<Rightarrow> pass \<Rightarrow> nat set \<Rightarrow> bool" where
  "pass_ok s p U \<longleftrightarrow> distinct (map fst (p_events p)) \<and> pri_sorted (high (m_events s)) (map fst (p_events p))
     \<and> finite U \<and> p_left p = int (card U) \<and> (U \<noteq> {} \<longrightarrow> U = set (undealt (p_events p)))
     \<and> (p_first p \<longrightarrow> (\<forall>(e, put) \<in> set (p_events p). \<not> put))"

lemma pass_okD:
  assumes "pass_ok s p U" and "0 < p_left p"
  shows "U = set (undealt (p_events p))" "distinct (undealt (p_events p))"
    "pri_sorted (high (m_events s)) (undealt (p_events p))"
    "p_left p = int (length (undealt (p_events p)))" "undealt (p_events p) \<noteq> []"
proof -
  show 1: "U = set (undealt (p_events p))" using assms by (auto simp: pass_ok_def)
  show 2: "distinct (undealt (p_events p))" using assms(1) by (simp add: pass_ok_def undealt_distinct)
  show "pri_sorted (high (m_events s)) (undealt (p_events p))"
    using assms(1) subseq_pri [OF undealt_subseq] by (simp add: pass_ok_def)
  show "p_left p = int (length (undealt (p_events p)))"
    using assms(1) 1 distinct_card [OF 2] by (simp add: pass_ok_def)
  then show "undealt (p_events p) \<noteq> []" using assms(2) by auto
qed

text \<open>After a part of the events has gone.\<close>

lemma pass_ok_takes:
  assumes p: "pass_ok s p U" "0 < p_left p" and t: "takes (p_events p) c es'" "high (m_events t) = high (m_events s)"
  shows "pass_ok t (p\<lparr>p_events := es', p_left := p_left p - int (length c), p_first := False\<rparr>) (U - set c)"
proof -
  note u = pass_okD [OF p]
  have sub: "subseq c (undealt (p_events p))" using t(1) by (simp add: takes_def)
  have c: "distinct c" "set c \<subseteq> U"
    using subseq_distinct [OF sub u(2)] subseq_set [OF sub] u(1) by simp_all
  have "card (U - set c) = card U - length c"
    using c p(1) by (simp add: card_Diff_subset distinct_card pass_ok_def)
  moreover have "length c \<le> card U"
    using c p(1) card_mono [of U "set c"] by (simp add: distinct_card pass_ok_def)
  ultimately have "int (card (U - set c)) = p_left p - int (length c)" using p(1) by (simp add: pass_ok_def)
  then show ?thesis using p(1) t u(1) by (auto simp: pass_ok_def takes_def)
qed

lemma pass_ok_first: "pass_ok s p U \<Longrightarrow> pass_ok s (p\<lparr>p_first := False\<rparr>) U"
  by (simp add: pass_ok_def)

text \<open>What a step of the round guarantees.\<close>

definition step_ok :: "et_mem \<Rightarrow> (listref \<Rightarrow> nat list) \<Rightarrow> nat set \<Rightarrow> (et_mem \<times> pass) res \<Rightarrow> bool" where
  "step_ok s L U out \<longleftrightarrow> (\<exists>t p' L' U'. out = Go (t, p') \<and> holds t L' U' \<and> pass_ok t (p'\<lparr>p_first := False\<rparr>) U'
     \<and> moved L U L' U' \<and> core t = core s \<and> (unlocked s \<longrightarrow> unlocked t))"

lemma step_okI: "holds t L' U' \<Longrightarrow> pass_ok t (p'\<lparr>p_first := False\<rparr>) U' \<Longrightarrow> moved L U L' U' \<Longrightarrow> core t = core s
  \<Longrightarrow> (unlocked s \<Longrightarrow> unlocked t) \<Longrightarrow> step_ok s L U (Go (t, p'))"
  by (auto simp: step_ok_def)

lemma step_ok_bind:
  assumes "step_ok s L U m"
    and "\<And>t p' L' U'. holds t L' U' \<Longrightarrow> pass_ok t (p'\<lparr>p_first := False\<rparr>) U' \<Longrightarrow> core t = core s \<Longrightarrow> step_ok t L' U' (f (t, p'))"
  shows "step_ok s L U (res_bind m f)"
proof -
  from assms(1) obtain t p' L' U' where 1: "m = Go (t, p')" "holds t L' U'" "pass_ok t (p'\<lparr>p_first := False\<rparr>) U'"
    "moved L U L' U'" "core t = core s" "unlocked s \<longrightarrow> unlocked t" by (auto simp: step_ok_def)
  from assms(2) [OF 1(2,3,5)] obtain t2 p2 L2 U2 where 2: "f (t, p') = Go (t2, p2)" "holds t2 L2 U2"
    "pass_ok t2 (p2\<lparr>p_first := False\<rparr>) U2" "moved L' U' L2 U2" "core t2 = core t" "unlocked t \<longrightarrow> unlocked t2" by (auto simp: step_ok_def)
  show ?thesis
    using 1 2 moved_trans [OF 1(4) 2(4)] by (auto simp: step_ok_def)
qed

lemma holds_touch:
  assumes "holds s L U"
    and "\<And>l. l_cnt (f l) = l_cnt l \<and> l_firstevent (f l) = l_firstevent l \<and> l_lastevent (f l) = l_lastevent l
      \<and> l_lasthigh (f l) = l_lasthigh l"
  shows "holds (upd_list r f s) L U"
  using assms list_ok_touch [OF _ assms(2)] by (auto simp: holds_def)

lemma pass_ok_cong: "pass_ok s p U \<Longrightarrow> high (m_events t) = high (m_events s) \<Longrightarrow> pass_ok t p U"
  by (simp add: pass_ok_def)

text \<open>Writing a part of the events into the list of a station.\<close>

lemma deliver_step:
  assumes h: "holds s L U" and p: "pass_ok s p U" "0 < p_left p" and st: "st \<noteq> ET_GRANDCENTRAL"
    and t: "takes (p_events p) c es'" and c: "c \<noteq> []"
  obtains t L' where "deliver st tr c s = Go t" "holds t L' (U - set c)" "moved L U L' (U - set c)"
    "core t = core s" "high (m_events t) = high (m_events s)" "unlocked s \<Longrightarrow> unlocked t"
    "L' = L(ListIn st := L' (ListIn st))"
proof -
  note u = pass_okD [OF p]
  have sub: "subseq c (undealt (p_events p))" using t by (simp add: takes_def)
  have s: "distinct c" "set c \<subseteq> U" "pri_sorted (high (m_events s)) c"
    using subseq_distinct [OF sub u(2)] subseq_set [OF sub] subseq_pri [OF sub u(3)] u(1) by simp_all
  from deliver_ok [OF h st s(1,2) c s(3), of tr] obtain t where
    t: "deliver st tr c s = Go t" "core t = core s" "frame (ListIn st) (set (L (ListIn st)) \<union> set c) s t"
    "unlocked s \<longrightarrow> unlocked t"
    and "\<exists>zs. holds t (L(ListIn st := zs)) (U - set c) \<and> moved L U (L(ListIn st := zs)) (U - set c)"
    by blast
  then obtain zs where "holds t (L(ListIn st := zs)) (U - set c)" "moved L U (L(ListIn st := zs)) (U - set c)" by blast
  then show thesis using that t frame_high [OF t(3)] by fastforce
qed

section \<open>Feeding one station\<close>

lemma select_takes:
  assumes "pass_ok s p U" and "select_events usr st s p = (c, es', tr, wa)"
  shows "if wa then c = map fst (p_events p) \<and> es' = p_events p \<and> p_first p else takes (p_events p) c es'"
proof -
  have d: "distinct (map fst (p_events p))" using assms(1) by (simp add: pass_ok_def)
  show ?thesis
    using assms(2) takes_none [of "p_events p"] pick_blocking_takes [OF d] pick_cue_takes [OF d]
    by (auto simp: select_events_def Let_def split: if_splits prod.splits)
qed

lemma feed_station_ok:
  assumes h: "holds s L U" and p: "pass_ok s p U" "0 < p_left p" and st: "st \<noteq> ET_GRANDCENTRAL"
  shows "step_ok s L U (feed usr st (s, p))"
proof -
  note u = pass_okD [OF p]
  obtain c es' tr wa where sel: "select_events usr st s p = (c, es', tr, wa)"
    by (cases "select_events usr st s p") auto
  note t = select_takes [OF p(1) sel]
  have tk: "takes (p_events p) c (if wa then mark_first (length (undealt (p_events p))) (p_events p) else es')"
  proof (cases wa)
    case True
    then have "c = take (length (undealt (p_events p))) (undealt (p_events p))"
      using t p(1) undealt_unmarked [of "p_events p"] by (simp add: pass_ok_def)
    then show ?thesis using True mark_first_takes [of "p_events p" "length (undealt (p_events p))"] p(1)
      by (simp add: pass_ok_def)
  qed (use t in simp)
  show ?thesis
  proof (cases "c = []")
    case True
    then have "\<not> wa" using t u(5) undealt_subseq [of "p_events p"] by auto
    with tk True have es: "map fst es' = map fst (p_events p)" "undealt es' = undealt (p_events p)" by (auto simp: takes_def)
    have "pass_ok (set_try st tr s) (p\<lparr>p_events := es', p_first := False\<rparr>) U" using p(1) es by (simp add: pass_ok_def)
    moreover have "holds (set_try st tr s) L U" by (rule holds_touch [OF h]) simp
    moreover have "unlocked s \<Longrightarrow> unlocked (set_try st tr s)" by (simp add: unlocked_def)
    ultimately show ?thesis using st sel True by (auto simp: feed_def intro!: step_okI)
  next
    case False
    from deliver_step [OF h p st tk False, of tr] obtain t' L' where
      d: "deliver st tr c s = Go t'" "holds t' L' (U - set c)" "moved L U L' (U - set c)" "core t' = core s"
      "high (m_events t') = high (m_events s)" "unlocked s \<Longrightarrow> unlocked t'" by metis
    let ?p = "p\<lparr>p_events := es', p_left := (if wa then 0 else p_left p - int (length c))\<rparr>"
    have "pass_ok t' (?p\<lparr>p_first := False\<rparr>) (U - set c)"
    proof (cases wa)
      case True
      then have "c = undealt (p_events p)" using t p(1) undealt_unmarked [of "p_events p"] by (simp add: pass_ok_def)
      then show ?thesis using True t p(1) u(1) d(5) by (simp add: pass_ok_def)
    next
      case False
      then show ?thesis using pass_ok_takes [OF p, of c es' t'] t d(5) by simp
    qed
    then show ?thesis using st sel False d by (auto simp: feed_def intro!: step_okI)
  qed
qed


text \<open>GrandCentral takes everything that is left.\<close>

lemma glist_m_sys: "glist r (s\<lparr>m_sys := y\<rparr>) = glist r s"
  by (cases r) (simp_all add: glist.simps)

lemma nevents_m_sys: "nevents (s\<lparr>m_sys := y\<rparr>) = y_nevents (sy_config y)"
  by (simp add: nevents_def)

lemma nevents_fold: "y_nevents (sy_config (m_sys s)) = nevents s"
  by (simp add: nevents_def)

lemma drop_temps_mem [simp]:
  "m_events (drop_temps es s) = m_events s" "glist r (drop_temps es s) = glist r s"
  "nevents (drop_temps es s) = nevents s" "core (drop_temps es s) = core s"
proof -
  let ?f = "\<lambda>e s. (upd_os (Unlink (e_filename (m_events s e))) s)
       \<lparr>m_sys := (m_sys s)\<lparr>sy_ntemps := sy_ntemps (m_sys s) - 1\<rparr>\<rparr>"
  have *: "m_events (fold ?f xs u) = m_events u \<and> glist r (fold ?f xs u) = glist r u
    \<and> nevents (fold ?f xs u) = nevents u \<and> core (fold ?f xs u) = core u" for xs u
  proof (induction xs arbitrary: u)
    case (Cons x xs)
    have f: "m_events (?f x u) = m_events u" "glist r (?f x u) = glist r u" "nevents (?f x u) = nevents u"
      "core (?f x u) = core u"
      by (simp_all add: glist_m_sys nevents_m_sys nevents_fold)
    show ?case unfolding fold_Cons comp_apply using Cons [of "?f x u"] unfolding f .
  qed simp
  show "m_events (drop_temps es s) = m_events s" "glist r (drop_temps es s) = glist r s"
    "nevents (drop_temps es s) = nevents s" "core (drop_temps es s) = core s"
    using * unfolding drop_temps_def by blast+
qed

lemma holds_cong:
  assumes "holds s L U" and "m_events t = m_events s" and "\<And>r. glist r t = glist r s" and "nevents t = nevents s"
  shows "holds t L U"
  using assms(1) by (simp add: holds_def list_ok_def ev_list_def assms(2-))

lemma feed_gc_ok:
  assumes h: "holds s L U" and p: "pass_ok s p U" "0 < p_left p"
  shows "step_ok s L U (feed_gc (s, p)) \<and> (\<exists>t p'. feed_gc (s, p) = Go (t, p') \<and> p_left p' = 0)"
proof -
  note u = pass_okD [OF p]
  let ?r = "ListIn ET_GRANDCENTRAL"
  define put where "put = (if p_first p then map fst (p_events p) else undealt (p_events p))"
  have put: "put = undealt (p_events p)"
    using p(1) undealt_unmarked [of "p_events p"] by (simp add: put_def pass_ok_def)
  define s1 where "s1 = lock_list ?r (drop_temps put s)"
  have h1: "holds s1 L U" unfolding s1_def by (intro holds_touch holds_cong [OF h]) simp_all
  have ok: "ev_list s1 ?r (L ?r)" "list_ok s1 ?r (L ?r)" and own: "\<And>e. e \<in> U \<Longrightarrow> e_owner (m_events s1 e) = ET_SYS"
    and U: "\<And>e. e \<in> U \<Longrightarrow> pri_of e s1 \<in> {ET_LOW, ET_HIGH} \<and> int e < nevents s1"
    using h1 by (auto simp: holds_def list_ok_def)
  note room = holds_room [OF h1, of put ?r]
  obtain t where t: "et_llist_write_gc put s1 = Some (ET_OK, t)" "ev_list t ?r (L ?r @ put)"
    "frame ?r (set (L ?r) \<union> set put) s1 t"
    using et_llist_write_gc_ok [OF ok(1), of put] room u own unfolding put by auto
  let ?t = "upd_os (CondBroadcast ?r) (unlock_list ?r t)"
  have g: "feed_gc (s, p) = Go (?t, p\<lparr>p_left := 0\<rparr>)"
    using t(1) u(5) by (simp add: feed_gc_def Let_def put_def [symmetric] s1_def put)
  have fr: "frame ?r (set (L ?r) \<union> set put) s1 ?t" using t(3) by (intro frame_upd)
  have "list_ok t ?r (L ?r @ put)"
    using t(2) ok(2) U u(1) frame_nevents [OF t(3)] frame_pri [OF t(3)] by (auto simp: list_ok_def put)
  then have "list_ok ?t ?r (L ?r @ put)" by (auto simp: list_ok_def ev_list_def)
  from holds_put [OF h1 fr _ _ this, of "set put"] u(1)
  have hm: "holds ?t (L(?r := L ?r @ put)) (U - set put)" "moved L U (L(?r := L ?r @ put)) (U - set put)"
    by (auto simp: put)
  have c: "core ?t = core s"
  proof -
    have "core t = core s1"
      using t(1) by (auto simp: et_llist_write_gc_def Let_def bind_eq_Some_conv split: if_splits)
    then show ?thesis by (simp add: s1_def)
  qed
  have "high (m_events ?t) = high (m_events s)" using frame_high [OF t(3)] by (simp add: s1_def)
  then have "pass_ok ?t (p\<lparr>p_left := 0, p_first := False\<rparr>) (U - set put)" using p(1) u(1) by (simp add: pass_ok_def put)
  moreover have "unlocked ?t" if "unlocked s" using that fr by (auto simp: unlocked_def frame_def s1_def)
  ultimately have "step_ok s L U (Go (?t, p\<lparr>p_left := 0\<rparr>))" using hm c by (intro step_okI) simp_all
  then show ?thesis unfolding g by simp
qed

lemma feed_all_ok:
  assumes "holds s L U" and "pass_ok s p U" "0 < p_left p" and "ET_GRANDCENTRAL \<notin> set sts"
  shows "step_ok s L U (feed_all usr sts (s, p))"
  using assms
proof (induction sts arbitrary: s L U p)
  case Nil
  then show ?case using pass_ok_first [OF Nil(2)] by (auto intro: step_okI)
next
  case (Cons st sts)
  have "step_ok s L U (feed usr st (s, p))" using Cons.prems by (intro feed_station_ok) auto
  then show ?case
    unfolding feed_all.simps
  proof (rule step_ok_bind)
    fix t p' L' U' assume t: "holds t L' U'" "pass_ok t (p'\<lparr>p_first := False\<rparr>) U'"
    show "step_ok t L' U' (case (t, p') of (s, p) \<Rightarrow> if 0 < p_left p \<and> sts \<noteq> []
        then feed_all usr sts (s, p\<lparr>p_first := False\<rparr>) else Go (s, p))"
      using t Cons.IH [OF t] Cons.prems(4) by (auto intro: step_okI)
  qed
qed

end
