(* ===== verification/Et_ConductorGroups.thy ===== *)
theory Et_ConductorGroups
  imports Et_ConductorSteps
begin

text \<open>
  The steps of a conductor's round for groups of parallel stations that share the events out:
  equal cue, and round robin when no event of the round has been put anywhere yet.
\<close>

section \<open>Equal cue\<close>

lemma step_ok_trans:
  assumes "moved L U L' U'" and "core u = core s" and "unlocked s \<Longrightarrow> unlocked u" and "step_ok u L' U' out"
  shows "step_ok s L U out"
proof -
  obtain t p' L2 U2 where "out = Go (t, p')" "holds t L2 U2" "pass_ok t (p'\<lparr>p_first := False\<rparr>) U2"
    "moved L' U' L2 U2" "core t = core u" "unlocked u \<longrightarrow> unlocked t" using assms(4) by (auto simp: step_ok_def)
  with moved_trans [OF assms(1)] assms(2,3) show ?thesis by (auto intro: step_okI)
qed

lemma undealt_mark_first: "undealt (mark_first a es) = drop a (undealt es)"
proof (induction a es rule: mark_first.induct)
  case (3 k e put es)
  then show ?case by (cases put) auto
qed simp_all

lemma mark_first_fst [simp]: "map fst (mark_first a es) = map fst es"
  by (induction a es rule: mark_first.induct) auto

lemma mark_first_add: "mark_first k (mark_first a es) = mark_first (a + k) es"
proof (induction a es rule: mark_first.induct)
  case (3 a e put es)
  show ?case
  proof (cases put)
    case True
    with 3(1) have "mark_first k (mark_first (Suc a) es) = mark_first (Suc a + k) es" by simp
    then show ?thesis using True by (cases k) simp_all
  next
    case False
    with 3(2) have "mark_first k (mark_first a es) = mark_first (a + k) es" by simp
    then show ?thesis using False by (cases k) simp_all
  qed
qed (simp_all, cases k, simp_all)

lemma eq_deal_later:
  assumes "holds s L U" and "pass_ok s p U" and "\<not> p_first p" and "\<forall>k \<in> set ks. 0 \<le> k"
    and "sum_list ks \<le> p_left p" and "ET_GRANDCENTRAL \<notin> set sts"
  shows "step_ok s L U (eq_deal sts ks a (s, p))"
  using assms
proof (induction sts ks a "(s, p)" arbitrary: s p L U rule: eq_deal.induct)
  case (1 st sts k ks a s p)
  have fp: "p\<lparr>p_first := False\<rparr> = p" using 1(5) by simp
  have nn: "0 \<le> sum_list ks" using 1(6) by (simp add: sum_list_nonneg)
  show ?case
  proof (cases "k < 1")
    case True
    then show ?thesis using 1(1) [OF True 1(3-5)] 1(6-8) by simp
  next
    case False
    then have p0: "0 < p_left p" "k \<le> p_left p" using 1(7) nn by simp_all
    then have p: "0 < p_left p" "nat k \<le> length (undealt (p_events p))" using pass_okD(4) [OF 1(4)] by simp_all
    define c where "c = take (nat k) (undealt (p_events p))"
    have t: "takes (p_events p) c (mark_first (nat k) (p_events p))"
      unfolding c_def using 1(4) by (intro mark_first_takes) (simp add: pass_ok_def)
    have c: "c \<noteq> []" "int (length c) = k" using False p(2) by (auto simp: c_def)
    have "st \<noteq> ET_GRANDCENTRAL" using 1(8) by simp
    from deliver_step [OF 1(3,4) p(1) this t c(1), of "l_events_try (glist (ListIn st) s) + word_of_int k"]
    obtain u L' where d: "deliver st (l_events_try (glist (ListIn st) s) + word_of_int k) c s = Go u"
      "holds u L' (U - set c)" "moved L U L' (U - set c)" "core u = core s" "high (m_events u) = high (m_events s)"
      "unlocked s \<Longrightarrow> unlocked u" by metis
    let ?p = "p\<lparr>p_left := p_left p - k, p_events := mark_first (nat k) (p_events p)\<rparr>"
    have p': "pass_ok u ?p (U - set c)"
      using pass_ok_takes [OF 1(4) p(1) t d(5)] c(2) 1(5) by (cases p) (simp add: pass_ok_def)
    have "step_ok u L' (U - set c) (eq_deal sts ks (a + nat k) (u, ?p))"
      using 1(2) [OF False refl d(2)] p' 1(5-8) by (simp add: c_def)
    from step_ok_trans [OF d(3,4,6) this] show ?thesis
      using False 1(5) d(1) by (simp add: c_def [symmetric])
  qed
qed (auto intro: step_okI pass_ok_first)


text \<open>In the first turn no marks are made; the marks of the proof are \<open>mark_first a\<close>.\<close>

lemma eq_deal_none:
  assumes "holds s L U" and "pass_ok s (p\<lparr>p_events := mark_first a (p_events p), p_first := False\<rparr>) U"
    and "0 = p_left p"
  shows "step_ok s L U (Go (s, p))"
proof -
  have "U = {}" using assms(2,3) by (auto simp: pass_ok_def)
  then have "pass_ok s (p\<lparr>p_first := False\<rparr>) U" using assms(2) by (simp add: pass_ok_def)
  then show ?thesis using assms(1) by (auto intro: step_okI)
qed

lemma eq_deal_first:
  assumes "holds s L U" and "pass_ok s (p\<lparr>p_events := mark_first a (p_events p), p_first := False\<rparr>) U"
    and "p_first p" and "undealt (p_events p) = map fst (p_events p)" and "\<forall>k \<in> set ks. 0 \<le> k"
    and "sum_list ks = p_left p" and "ET_GRANDCENTRAL \<notin> set sts" and "length ks = length sts"
  shows "step_ok s L U (eq_deal sts ks a (s, p))"
  using assms
proof (induction sts ks a "(s, p)" arbitrary: s p L U rule: eq_deal.induct)
  case (1 st sts k ks a s p)
  let ?q = "p\<lparr>p_events := mark_first a (p_events p), p_first := False\<rparr>"
  have nn: "0 \<le> sum_list ks" using 1(7) by (simp add: sum_list_nonneg)
  show ?case
  proof (cases "k < 1")
    case True
    then show ?thesis using 1(1) [OF True 1(3-6)] 1(7-10) by simp
  next
    case False
    then have p0: "0 < p_left ?q" "k \<le> p_left ?q" using 1(8) nn by simp_all
    then have p: "nat k \<le> length (undealt (p_events ?q))" using pass_okD(4) [OF 1(4)] by simp
    define c where "c = take (nat k) (drop a (map fst (p_events p)))"
    have c': "c = take (nat k) (undealt (p_events ?q))" using 1(6) by (simp add: c_def undealt_mark_first)
    have t: "takes (p_events ?q) c (mark_first (a + nat k) (p_events p))"
      using mark_first_takes [of "p_events ?q" "nat k"] 1(4) unfolding c'
      by (simp add: pass_ok_def mark_first_add)
    have c: "c \<noteq> []" "int (length c) = k" using False p by (auto simp: c')
    have "st \<noteq> ET_GRANDCENTRAL" using 1(9) by simp
    from deliver_step [OF 1(3,4) p0(1) this t c(1), of "l_events_try (glist (ListIn st) s) + word_of_int k"]
    obtain u L' where d: "deliver st (l_events_try (glist (ListIn st) s) + word_of_int k) c s = Go u"
      "holds u L' (U - set c)" "moved L U L' (U - set c)" "core u = core s" "high (m_events u) = high (m_events s)"
      "unlocked s \<Longrightarrow> unlocked u" by metis
    have "pass_ok u (p\<lparr>p_left := p_left p - k, p_events := mark_first (a + nat k) (p_events p), p_first := False\<rparr>) (U - set c)"
      using pass_ok_takes [OF 1(4) p0(1) t d(5)] c(2) by (cases p) (simp add: pass_ok_def)
    then have "step_ok u L' (U - set c) (eq_deal sts ks (a + nat k) (u, p\<lparr>p_left := p_left p - k, p_events := p_events p\<rparr>))"
      using 1(2) [OF False refl d(2)[unfolded c_def]] 1(5-10) by (simp add: c_def)
    from step_ok_trans [OF d(3,4,6) this] show ?thesis
      using False 1(5) d(1) by (simp add: c_def [symmetric])
  qed
qed (auto intro: eq_deal_none)


lemma eq_group_ok:
  assumes h: "holds s L U" and p: "pass_ok s p U" "0 < p_left p" and g: "ET_GRANDCENTRAL \<notin> set g"
    and act: "filter (\<lambda>st. status_of st s = ET_STATION_ACTIVE) g \<noteq> []"
  shows "step_ok s L U (eq_group g (s, p))"
proof -
  let ?act = "filter (\<lambda>st. status_of st s = ET_STATION_ACTIVE) g"
  have "map (\<lambda>st. cnt_of (ListIn st) s) ?act \<noteq> []" using act by simp
  from equal_cue_plan_fair [OF this less_imp_le [OF p(2)]] obtain ks where
    ks: "equal_cue_plan (map (\<lambda>st. cnt_of (ListIn st) s) ?act) (p_left p) = Some ks"
      "length ks = length ?act" "\<forall>k \<in> set ks. 0 \<le> k" "sum_list ks = p_left p"
    by (auto simp: fair_def)
  have ng: "ET_GRANDCENTRAL \<notin> set ?act" using g by simp
  have "step_ok s L U (eq_deal ?act ks 0 (s, p))"
  proof (cases "p_first p")
    case True
    have u: "undealt (p_events p) = map fst (p_events p)"
      using True p(1) by (intro undealt_unmarked) (simp add: pass_ok_def)
    show ?thesis
      by (rule eq_deal_first [OF h _ True u ks(3,4) ng ks(2)]) (use p(1) in \<open>simp add: pass_ok_def\<close>)
  next
    case False
    show ?thesis by (rule eq_deal_later [OF h p(1) False ks(3) _ ng]) (simp add: ks(4))
  qed
  then show ?thesis by (simp add: eq_group_def Let_def ks(1))
qed

section \<open>Round robin, first turn\<close>

lemma rr_num_nonneg: "0 \<le> left \<Longrightarrow> 0 < n \<Longrightarrow> 0 \<le> rr_num left n i"
  by (simp add: rr_num_def pos_imp_zdiv_nonneg_iff)

lemma rr_sum: "0 < n \<Longrightarrow> 0 \<le> left \<Longrightarrow> (\<Sum>i<n. rr_num left n i) = left"
  using sum_spread [of n left] by (simp add: rr_num_def sum_list_sum_nth atLeast0LessThan)

text \<open>The positions of the events for the \<open>i\<close>-th station in turn.\<close>

definition rr_places :: "int \<Rightarrow> nat \<Rightarrow> nat \<Rightarrow> nat list" where
  "rr_places left n i = map (\<lambda>j. i + j * n) [0..<nat (rr_num left n i)]"

lemma rr_places_bound:
  assumes "0 \<le> left" and "i < n" and "x \<in> set (rr_places left n i)"
  shows "int x < left" and "x mod n = i"
proof -
  have "\<exists>j < nat (rr_num left n i). x = i + j * n" using assms(3) by (auto simp: rr_places_def)
  then obtain j where "x = i + j * n" "j < nat (rr_num left n i)" by blast
  then have j: "x = i + j * n" "int j < rr_num left n i" by (simp_all add: zless_nat_eq_int_zless)
  show "x mod n = i" using j(1) assms(2) by simp
  let ?q = "left div int n" and ?e = "left mod int n"
  have l: "left = ?q * int n + ?e" "0 \<le> ?e" using assms(2) by simp_all
  show "int x < left"
  proof (cases "int i < ?e")
    case True
    then have "int j \<le> ?q" using j(2) by (simp add: rr_num_def)
    then have "int j * int n \<le> ?q * int n" by (intro mult_right_mono) simp_all
    moreover have "int x = int i + int j * int n" using j(1) by simp
    ultimately show ?thesis using True l(1) by linarith
  next
    case False
    then have "int j + 1 \<le> ?q" using j(2) by (simp add: rr_num_def)
    then have "(int j + 1) * int n \<le> ?q * int n" by (intro mult_right_mono) simp_all
    then have "int j * int n + int n \<le> ?q * int n" by (simp add: distrib_right)
    moreover have "int x = int i + int j * int n" using j(1) by simp
    ultimately show ?thesis using l assms(2) by linarith
  qed
qed

lemma rr_places_distinct:
  assumes "0 \<le> left" and "m \<le> n"
  shows "distinct (concat (map (rr_places left n) [0..<m]))"
  using assms(2)
proof (induction m)
  case (Suc m)
  have "distinct (rr_places left n m)" using Suc.prems by (auto simp: rr_places_def distinct_map inj_on_def)
  moreover have "x \<notin> set (rr_places left n m)" if "i < m" "x \<in> set (rr_places left n i)" for i x
    using rr_places_bound(2) [OF assms(1), of i n x] rr_places_bound(2) [OF assms(1), of m n x] that Suc.prems by auto
  ultimately show ?case using Suc by auto
qed simp

lemma rr_events_first:
  assumes "p_first p" and "p_left p = int (length (p_events p))" and "0 < n"
  defines "all \<equiv> map fst (p_events p)" and "arr \<equiv> concat (map (rr_events p n) [0..<n])"
  shows "rr_events p n i = map ((!) all) (rr_places (p_left p) n i)"
    and "distinct all \<Longrightarrow> distinct arr \<and> set arr = set all"
    and "i < n \<Longrightarrow> sorted_wrt P all \<Longrightarrow> sorted_wrt P (rr_events p n i)"
    and "length (rr_events p n i) = nat (rr_num (p_left p) n i)"
proof -
  show ev: "rr_events p n i = map ((!) all) (rr_places (p_left p) n i)" for i
    using assms(1) by (simp add: rr_events_def Let_def rr_places_def all_def comp_def)
  show "length (rr_events p n i) = nat (rr_num (p_left p) n i)" by (simp add: ev rr_places_def)
  have len: "length all = nat (p_left p)" "0 \<le> p_left p" using assms(2) by (simp_all add: all_def)
  show "sorted_wrt P (rr_events p n i)" if "i < n" "sorted_wrt P all"
    unfolding ev sorted_wrt_iff_nth_less
  proof (intro allI impI)
    fix a b assume ab: "a < b" "b < length (map ((!) all) (rr_places (p_left p) n i))"
    then have l: "a < length (rr_places (p_left p) n i)" "b < length (rr_places (p_left p) n i)" by simp_all
    have "rr_places (p_left p) n i ! a < rr_places (p_left p) n i ! b"
      using l ab(1) assms(3) by (simp add: rr_places_def)
    moreover have "rr_places (p_left p) n i ! b < length all"
      using rr_places_bound(1) [OF len(2) that(1) nth_mem [OF l(2)]] len by simp
    ultimately show "P (map ((!) all) (rr_places (p_left p) n i) ! a) (map ((!) all) (rr_places (p_left p) n i) ! b)"
      using sorted_wrt_nth_less [OF that(2)] l by simp
  qed
  let ?pl = "concat (map (rr_places (p_left p) n) [0..<n])"
  have "map (rr_events p n) [0..<n] = map (\<lambda>i. map ((!) all) (rr_places (p_left p) n i)) [0..<n]"
    by (rule map_cong) (simp_all add: ev)
  then have arr: "arr = map ((!) all) ?pl" unfolding arr_def by (simp only: map_concat map_map comp_def)
  show "distinct arr \<and> set arr = set all" if d: "distinct all"
  proof -
    have b: "set ?pl \<subseteq> {..<length all}"
      using rr_places_bound(1) [OF len(2)] assms(2) by (fastforce simp: all_def)
    have "inj_on ((!) all) (set ?pl)"
      using nth_eq_iff_index_eq [OF d] b by (intro inj_onI) (metis lessThan_iff subsetD)
    then have "distinct arr" unfolding arr distinct_map using rr_places_distinct [OF len(2) le_refl] by blast
    moreover have "length arr = length all"
    proof -
      have "length arr = (\<Sum>i<n. nat (rr_num (p_left p) n i))"
        by (simp add: arr_def length_concat comp_def ev rr_places_def interv_sum_list_conv_sum_set_nat atLeast0LessThan)
      also have "int \<dots> = p_left p"
        using rr_num_nonneg [OF len(2) assms(3)] rr_sum [OF assms(3) len(2)] by simp
      finally show ?thesis using len by simp
    qed
    moreover have "set arr \<subseteq> set all" unfolding arr using b by auto
    ultimately show ?thesis using d card_subset_eq [of "set all" "set arr"] by (simp add: distinct_card)
  qed
qed


lemma glist_station_fields [simp]:
  "glist r (upd_station st (s_waslast_update f) s) = glist r s"
  "glist r (upd_station st (s_mutex_update m) s) = glist r s"
  by (cases r; simp add: glist.simps upd_station_def)+

lemma holds_station:
  "holds (upd_station st (s_waslast_update f) s) L U = holds s L U"
  "holds (upd_station st (s_mutex_update m) s) L U = holds s L U"
  by (simp_all add: holds_def list_ok_def ev_list_def)

lemma unlocked_station:
  "unlocked (upd_station st (s_waslast_update f) s) = unlocked s"
  "unlocked (upd_station st (s_mutex_update m) s) = unlocked s"
  by (simp_all add: unlocked_def)

lemma rr_deal_ok:
  assumes "holds s L U" and "set arr = U" and "distinct arr" and "p_left p = int (length arr)"
    and "arr = concat (map ev [cnt..<n])" and "length sts = n - cnt" and "cnt \<le> n"
    and "ET_GRANDCENTRAL \<notin> set sts"
    and ev: "\<And>i. length (ev i) = nat (rr_num left n i)" "\<And>i. i < n \<Longrightarrow> pri_sorted (high (m_events s)) (ev i)"
    and "distinct (map fst (p_events p))" and "pri_sorted (high (m_events s)) (map fst (p_events p))"
  shows "step_ok s L U (rr_deal left n cnt sts arr (s, p))"
  using assms
proof (induction sts arbitrary: cnt arr s L U p)
  case Nil
  then have "U = {}" "p_left p = 0" by simp_all
  then show ?case using Nil by (auto simp: pass_ok_def intro!: step_okI)
next
  case (Cons st sts)
  let ?k = "rr_num left n cnt"
  have cnt: "cnt < n" using Cons.prems(6) by simp
  have arr: "arr = ev cnt @ concat (map ev [Suc cnt..<n])" unfolding Cons.prems(5) using cnt by (simp add: upt_conv_Cons)
  have d: "take (nat ?k) arr = ev cnt" "drop (nat ?k) arr = concat (map ev [Suc cnt..<n])"
    unfolding arr using ev(1) by simp_all
  define s1 where "s1 = (if int cnt = rr_last left n then upd_station st (s_waslast_update (\<lambda>_. 1)) s else s)"
  have s1: "holds s1 L U" "core s1 = core s" "m_events s1 = m_events s" "unlocked s1 = unlocked s"
    using Cons.prems(1) by (simp_all add: s1_def holds_station unlocked_station)
  have st: "st \<noteq> ET_GRANDCENTRAL" "ET_GRANDCENTRAL \<notin> set sts" using Cons.prems(8) by auto
  let ?tr = "l_events_try (glist (ListIn st) s1) + word_of_int ?k"
  show ?case
  proof (cases "?k > 0")
    case True
    let ?c = "ev cnt"
    have c: "distinct ?c" "set ?c \<subseteq> U" "?c \<noteq> []" "pri_sorted (high (m_events s1)) ?c"
      using Cons.prems(2,3) arr ev(1) [of cnt] True Cons.prems(10) [OF cnt] s1(3) by auto
    obtain t where t: "deliver st ?tr ?c s1 = Go t" "core t = core s1"
      "frame (ListIn st) (set (L (ListIn st)) \<union> set ?c) s1 t"
      "\<exists>zs. holds t (L(ListIn st := zs)) (U - set ?c) \<and> moved L U (L(ListIn st := zs)) (U - set ?c)"
      "unlocked s1 \<longrightarrow> unlocked t"
      using deliver_ok [OF s1(1) st(1) c, of ?tr] by blast
    then obtain L' where L': "holds t L' (U - set ?c)" "moved L U L' (U - set ?c)" by blast
    have hi: "high (m_events t) = high (m_events s)" using frame_high [OF t(3)] s1(3) by simp
    have U: "set (concat (map ev [Suc cnt..<n])) = U - set ?c"
      using Cons.prems(2,3) unfolding arr by auto
    have "step_ok t L' (U - set ?c) (rr_deal left n (Suc cnt) sts (concat (map ev [Suc cnt..<n])) (t, p\<lparr>p_left := p_left p - ?k\<rparr>))"
    proof (rule Cons.IH [OF L'(1) U])
      show "distinct (concat (map ev [Suc cnt..<n]))" using Cons.prems(3) unfolding arr by simp
      show "p_left (p\<lparr>p_left := p_left p - ?k\<rparr>) = int (length (concat (map ev [Suc cnt..<n])))"
        using Cons.prems(4) ev(1) [of cnt] True unfolding arr by simp
    qed (use Cons.prems cnt st hi in simp_all)
    from step_ok_trans [OF L'(2) _ _ this] show ?thesis
      using t(1,2,5) s1(2,4) True by (simp add: Let_def s1_def [symmetric] d)
  next
    case False
    then have e: "ev cnt = []" using ev(1) [of cnt] by simp
    have "step_ok s1 L U (rr_deal left n (Suc cnt) sts arr (s1, p))"
      using Cons.prems cnt st s1 e arr by (intro Cons.IH [OF s1(1)]) auto
    from step_ok_trans [OF moved_refl s1(2) _ this] show ?thesis
      using False s1(4) by (simp add: Let_def s1_def [symmetric])
  qed
qed

lemma rr_start_ok: "rr_start sts looking start s = (st, s1) \<Longrightarrow>
  holds s L U \<Longrightarrow> holds s1 L U \<and> core s1 = core s \<and> m_events s1 = m_events s \<and> unlocked s1 = unlocked s"
  by (induction sts looking start s rule: rr_start.induct)
    (auto simp: Let_def holds_station unlocked_station split: if_splits)

lemma rr_group_first:
  assumes h: "holds s L U" and p: "pass_ok s p U" "0 < p_left p" "p_first p" and g: "ET_GRANDCENTRAL \<notin> set g"
    and act: "filter (\<lambda>st. status_of st s = ET_STATION_ACTIVE) g \<noteq> []"
  shows "step_ok s L U (rr_group g (s, p))"
proof -
  define active where "active = filter (\<lambda>st. status_of st s = ET_STATION_ACTIVE) g"
  define n where "n = length active"
  obtain st s1 where s1: "rr_start g False None s = (st, s1)" by (cases "rr_start g False None s")
  note o1 = rr_start_ok [OF s1 h]
  define fst' where "fst' = (case st of Some st \<Rightarrow> st | None \<Rightarrow> hd active)"
  define order where "order = dropWhile (\<lambda>st. st \<noteq> fst') active @ takeWhile (\<lambda>st. st \<noteq> fst') active"
  have o: "set order = set active" "length order = n"
  proof -
    have "mset order = mset active" unfolding order_def
      by (metis mset_append add.commute takeWhile_dropWhile_id)
    then show "set order = set active" "length order = n" unfolding n_def
      by (metis mset_eq_setD, metis mset_eq_length)
  qed
  have n: "0 < n" using act by (simp add: n_def active_def)
  have un: "undealt (p_events p) = map fst (p_events p)"
    using p(1,3) by (intro undealt_unmarked) (simp add: pass_ok_def)
  note u = pass_okD [OF p(1,2)]
  have left: "p_left p = int (length (p_events p))" using u(4) un by simp
  note ev = rr_events_first [OF p(3) left n]
  have d: "distinct (map fst (p_events p))" "pri_sorted (high (m_events s)) (map fst (p_events p))"
    using p(1) by (simp_all add: pass_ok_def)
  note arr = ev(2) [OF d(1)]
  have "step_ok s1 L U (rr_deal (p_left p) n 0 order (concat (map (rr_events p n) [0..<n])) (s1, p))"
  proof (rule rr_deal_ok [where ev = "rr_events p n"])
    show "set (concat (map (rr_events p n) [0..<n])) = U" using arr u(1) un by simp
    show "p_left p = int (length (concat (map (rr_events p n) [0..<n])))"
      using arr left d(1) by (metis distinct_card length_map)
    show "pri_sorted (high (m_events s1)) (rr_events p n i)" if "i < n" for i
      using ev(3) [OF that] d(2) o1 by (simp add: pri_sorted_def)
  qed (use o1 arr o n g d ev(4) in \<open>auto simp: active_def\<close>)
  moreover have "rr_group g (s, p) = rr_deal (p_left p) n 0 order (concat (map (rr_events p n) [0..<n])) (s1, p)"
    unfolding rr_group_def order_def fst'_def n_def active_def by (simp add: Let_def s1)
  ultimately show ?thesis using step_ok_trans [OF moved_refl, of s1 s] o1 by metis
qed

end
