(* ===== verification/Et_ConductorRound.thy ===== *)
theory Et_ConductorRound
  imports Et_ConductorGroups
begin

text \<open>
  A round of a conductor ends, and it loses and duplicates no event.
\<close>

section \<open>The way to GrandCentral\<close>

text \<open>
  From \<open>st\<close> the main list of stations reaches GrandCentral in at most \<open>n\<close> steps; the groups of
  parallel stations on the way end and do not contain GrandCentral, and round robin groups occur
  only where the way begins (\<open>first\<close>).
\<close>

fun route :: "nat \<Rightarrow> bool \<Rightarrow> et_stat_id \<Rightarrow> et_mem \<Rightarrow> bool" where
  "route n first st s =
     (if st = ET_GRANDCENTRAL
      then c_flow_mode (config_of st s) \<noteq> ET_STATION_PARALLEL \<and> status_of st s = ET_STATION_ACTIVE
      else (c_flow_mode (config_of st s) = ET_STATION_PARALLEL \<longrightarrow>
              (case group_from (max_stations s) st s of None \<Rightarrow> False | Some g \<Rightarrow> ET_GRANDCENTRAL \<notin> set g)
              \<and> (first \<or> c_select_mode (config_of st s) \<noteq> ET_STATION_SELECT_RROBIN))
         \<and> (case n of 0 \<Rightarrow> False | Suc n' \<Rightarrow> route n' False (next_station st s) s))"

declare route.simps [simp del]

lemma route_core: "core t = core s \<Longrightarrow> route n first st t = route n first st s"
proof (induction n arbitrary: first st)
  case 0
  then show ?case
    by (subst (1 2) route.simps) (simp add: core_eqD [OF 0] group_from_core [OF 0])
next
  case (Suc n)
  have "next_station st t = next_station st s" by (simp add: next_station_def core_eqD [OF Suc.prems])
  then show ?case using Suc.IH [OF Suc.prems]
    by (subst (1 2) route.simps) (simp add: core_eqD [OF Suc.prems] group_from_core [OF Suc.prems])
qed

lemma feed_group_ok:
  assumes h: "holds s L U" and p: "pass_ok s p U" "0 < p_left p" and r: "route n (p_first p) st s"
  shows "step_ok s L U (feed_group usr st (s, p))"
proof (cases "st = ET_GRANDCENTRAL")
  case True
  have "c_flow_mode (config_of st s) \<noteq> ET_STATION_PARALLEL" "status_of st s = ET_STATION_ACTIVE"
    using r True by (simp_all add: route.simps [of n])
  then show ?thesis using feed_gc_ok [OF h p] True by (simp add: feed_group_def feed_def)
next
  case False
  have skp: "step_ok s L U (Go (s, p))" by (rule step_okI [OF h pass_ok_first [OF p(1)] moved_refl refl])
  show ?thesis
  proof (cases "c_flow_mode (config_of st s) = ET_STATION_PARALLEL")
    case par: True
    then obtain g where g: "group_from (max_stations s) st s = Some g" "ET_GRANDCENTRAL \<notin> set g"
      "p_first p \<or> c_select_mode (config_of st s) \<noteq> ET_STATION_SELECT_RROBIN"
      using r False by (subst (asm) route.simps) (auto split: option.splits)
    let ?act = "filter (\<lambda>st. status_of st s = ET_STATION_ACTIVE) g"
    have "ET_GRANDCENTRAL \<notin> set ?act" using g(2) by simp
    then show ?thesis
      using par g skp rr_group_first [OF h p _ g(2)] eq_group_ok [OF h p g(2)] feed_all_ok [OF h p, of ?act usr]
      by (auto simp: feed_group_def Let_def)
  next
    case np: False
    then show ?thesis using skp feed_station_ok [OF h p False] by (simp add: feed_group_def)
  qed
qed

lemma feed_group_gc:
  assumes h: "holds s L U" and p: "pass_ok s p U" "0 < p_left p" and r: "route n first ET_GRANDCENTRAL s"
    and g: "feed_group usr ET_GRANDCENTRAL (s, p) = Go (t, p')"
  shows "p_left p' = 0"
  using feed_gc_ok [OF h p] r g by (auto simp: feed_group_def feed_def route.simps [of n])

lemma pass_loop_stop:
  assumes "holds s L U" and "pass_ok s p U" and "p_left p \<le> 0"
  shows "\<exists>t p' L'. pass_loop n usr st (s, p) = Go (t, p') \<and> holds t L' {} \<and> moved L U L' {} \<and> core t = core s
     \<and> (unlocked s \<longrightarrow> unlocked t)"
proof -
  have "U = {}" using assms(2,3) by (auto simp: pass_ok_def)
  then show ?thesis using assms by (subst pass_loop.simps) (auto intro: exI [of _ L])
qed

lemma pass_loop_end:
  assumes "holds s L U" and "pass_ok s p U" and "route n (p_first p) st s" and "st = ET_GRANDCENTRAL"
  shows "\<exists>t p' L'. pass_loop n usr st (s, p) = Go (t, p') \<and> holds t L' {} \<and> moved L U L' {} \<and> core t = core s
     \<and> (unlocked s \<longrightarrow> unlocked t)"
proof (cases "p_left p \<le> 0")
  case True
  then show ?thesis using pass_loop_stop [OF assms(1,2)] by blast
next
  case False
  then have p: "0 < p_left p" by simp
  obtain t p' L' U' where 1: "feed_group usr st (s, p) = Go (t, p')" "holds t L' U'"
    "pass_ok t (p'\<lparr>p_first := False\<rparr>) U'" "moved L U L' U'" "core t = core s" "unlocked s \<longrightarrow> unlocked t"
    using feed_group_ok [OF assms(1,2) p assms(3), of usr] by (auto simp: step_ok_def)
  have "p_left p' = 0" using feed_group_gc [OF assms(1,2) p] assms(3,4) 1(1) by simp
  then have "U' = {}" using 1(3) by (auto simp: pass_ok_def)
  then show ?thesis using 1 p assms(4) by (subst pass_loop.simps) auto
qed

lemma pass_loop_ok:
  assumes "holds s L U" and "pass_ok s p U" and "route n (p_first p) st s"
  shows "\<exists>t p' L'. pass_loop n usr st (s, p) = Go (t, p') \<and> holds t L' {} \<and> moved L U L' {} \<and> core t = core s
     \<and> (unlocked s \<longrightarrow> unlocked t)"
  using assms
proof (induction n arbitrary: s L U p st)
  case (0 s L U p st)
  have gc: "st = ET_GRANDCENTRAL" using 0(3) by (simp add: route.simps split: if_splits)
  show ?case using pass_loop_end [OF 0 gc] .
next
  case (Suc n s L U p st)
  show ?case
  proof (cases "st = ET_GRANDCENTRAL \<or> p_left p \<le> 0")
    case True
    then show ?thesis using pass_loop_end [OF Suc.prems] pass_loop_stop [OF Suc.prems(1,2)] by blast
  next
    case False
    then have p: "0 < p_left p" by simp
    obtain t p' L' U' where 1: "feed_group usr st (s, p) = Go (t, p')" "holds t L' U'"
      "pass_ok t (p'\<lparr>p_first := False\<rparr>) U'" "moved L U L' U'" "core t = core s" "unlocked s \<longrightarrow> unlocked t"
      using feed_group_ok [OF Suc.prems(1,2) p Suc.prems(3), of usr] by (auto simp: step_ok_def)
    have "route n False (next_station st s) s" using Suc.prems(3) False by (simp add: route.simps [of "Suc n"])
    moreover have "next_station st t = next_station st s" by (simp add: next_station_def core_eqD [OF 1(5)])
    ultimately have "route n (p_first (p'\<lparr>p_first := False\<rparr>)) (next_station st t) t"
      by (simp add: route_core [OF 1(5)])
    from Suc.IH [OF 1(2,3) this] moved_trans [OF 1(4)] 1(1,5,6) False p show ?thesis
      by (subst pass_loop.simps) (auto; metis)
  qed
qed

text \<open>The events of a list are taken into the hands of a conductor.\<close>

lemma holds_read:
  assumes h: "holds s L {}" and ne: "L r \<noteq> []"
  obtains t where "et_llist_read r s = Some ((int (length (L r)), L r), t)"
    and "holds t (L(r := [])) (set (L r))" and "core t = core s" and "m_events t = m_events s"
    and "\<And>q. l_mutex (glist q t) = l_mutex (glist q s)"
proof -
  have ok: "list_ok s r (L r)" using h by (simp add: holds_def)
  let ?t = "upd_list r (\<lambda>l. l\<lparr>l_firstevent := None, l_cnt := 0, l_lasthigh := 0,
      l_events_out := l_events_out l + word_of_int (int (length (L r)))\<rparr>) s"
  have rd: "et_llist_read r s = Some ((int (length (L r)), L r), ?t)"
    using ok ne by (auto simp: list_ok_def ev_list_def et_llist_read_def Let_def follow_links)
  have fr: "frame r {} s ?t" by (simp add: frame_upd)
  have "list_ok ?t q ((L(r := [])) q)" for q
  proof (cases "q = r")
    case True
    then show ?thesis by (auto simp: list_ok_def ev_list_def pri_sorted_def)
  next
    case False
    then show ?thesis using list_ok_frame [OF fr False] h by (simp add: holds_def)
  qed
  then have "holds ?t (L(r := [])) (set (L r))"
    using h ok by (auto simp: holds_def list_ok_def ev_list_def)
  then show thesis using that [OF rd] by simp
qed

lemma first_parallel_core: "core t = core s \<Longrightarrow> first_parallel n st t = first_parallel n st s"
proof (induction n arbitrary: st)
  case 0
  then show ?case by (subst (1 2) first_parallel.simps) (simp add: core_eqD [OF 0])
next
  case (Suc n)
  then show ?case by (subst (1 2) first_parallel.simps) (simp add: core_eqD [OF Suc.prems])
qed

lemma conductor_deal_ok:
  assumes h: "holds s L {}" and ne: "L (ListOut st) \<noteq> []"
    and hd: "(if c_flow_mode (config_of st s) = ET_STATION_PARALLEL then first_parallel (max_stations s) st s else Some st) = Some h"
    and r: "route (max_stations s) True (next_station h s) s"
  shows "\<exists>t L'. conductor_deal usr st s = Go t \<and> holds t L' {} \<and> core t = core s
     \<and> (unlocked s \<longrightarrow> unlocked t) \<and> L' (ListOut st) = [] \<and> (\<forall>st'. st' \<noteq> st \<longrightarrow> L' (ListOut st') = L (ListOut st'))
     \<and> (\<forall>st'. set (L (ListIn st')) \<subseteq> set (L' (ListIn st')))
     \<and> (\<Union>q. set (L' q)) = (\<Union>q. set (L q))"
proof -
  let ?r = "ListOut st"
  have "holds (lock_list ?r s) L {}" by (rule holds_touch [OF h]) simp
  then obtain s1 where s1: "et_llist_read ?r (lock_list ?r s) = Some ((int (length (L ?r)), L ?r), s1)"
    "holds s1 (L(?r := [])) (set (L ?r))" "core s1 = core (lock_list ?r s)" "m_events s1 = m_events (lock_list ?r s)"
    "\<And>q. l_mutex (glist q s1) = l_mutex (glist q (lock_list ?r s))"
    using ne by (rule holds_read) (rule that, assumption+)
  define s3 where "s3 = transfer True st (unlock_list ?r s1)"
  have h3: "holds s3 (L(?r := [])) (set (L ?r))"
    unfolding s3_def holds_station by (rule holds_touch [OF s1(2)]) simp
  have c3: "core s3 = core s" "m_events s3 = m_events s" using s1(3,4) by (simp_all add: s3_def m_events_upd)
  have u3: "unlocked s3" if "unlocked s"
  proof -
    have "unlocked (unlock_list ?r s1)" using that s1(5) by (simp add: unlocked_def)
    then show ?thesis by (simp add: s3_def unlocked_station)
  qed
  let ?p = "\<lparr>p_events = map (\<lambda>e. (e, False)) (L ?r), p_left = int (length (L ?r)), p_first = True\<rparr>"
  have d: "distinct (L ?r)" "pri_sorted (high (m_events s)) (L ?r)" using h by (auto simp: holds_def list_ok_def ev_list_def)
  have u: "undealt (map (\<lambda>e. (e, False)) es) = es" for es by (induction es) simp_all
  have p3: "pass_ok s3 ?p (set (L ?r))"
    using d c3(2) by (simp add: pass_ok_def u distinct_card comp_def case_prod_beta)
  have nx: "next_station h s3 = next_station h s" by (simp add: next_station_def core_eqD [OF c3(1)])
  have "route (max_stations s3) (p_first ?p) (next_station h s3) s3"
    using r by (simp add: nx route_core [OF c3(1)] core_eqD [OF c3(1)])
  from pass_loop_ok [OF h3 p3 this, of usr] obtain t p' L' where t:
    "pass_loop (max_stations s3) usr (next_station h s3) (s3, ?p) = Go (t, p')"
    "holds t L' {}" "moved (L(?r := [])) (set (L ?r)) L' {}" "core t = core s3" "unlocked s3 \<longrightarrow> unlocked t" by blast
  have hd3: "(if c_flow_mode (config_of st s3) = ET_STATION_PARALLEL then first_parallel (max_stations s3) st s3 else Some st) = Some h"
    using hd by (auto simp: core_eqD [OF c3(1)] first_parallel_core [OF c3(1)] split: if_splits)
  have "conductor_deal usr st s = (case (if c_flow_mode (config_of st s3) = ET_STATION_PARALLEL
        then first_parallel (max_stations s3) st s3 else Some st) of None \<Rightarrow> Spin
      | Some h \<Rightarrow> (case pass_loop (max_stations s3) usr (next_station h s3) (s3, ?p) of
          Go (s4, p) \<Rightarrow> Go (transfer False st s4) | Exits s4 \<Rightarrow> Exits (transfer False st s4)
        | Crash \<Rightarrow> Crash | Asleep s4 \<Rightarrow> Asleep s4 | Spin \<Rightarrow> Spin))"
    by (simp only: conductor_deal_def s1(1) option.case prod.case Let_def of_nat_less_0_iff if_False s3_def [symmetric])
  then have "conductor_deal usr st s = Go (transfer False st t)" unfolding hd3 by (simp add: t(1))
  moreover have "holds (transfer False st t) L' {}" using t(2) by (simp add: holds_station)
  moreover have "(\<Union>q. set (L' q)) = (\<Union>q. set (L q))"
  proof -
    have "(\<Union>q. set (L' q)) = (\<Union>q. set ((L(?r := [])) q)) \<union> set (L ?r)" using t(3) by (simp add: moved_def)
    also have "\<dots> = (\<Union>q. set (L q))" by (auto split: if_splits)
    finally show ?thesis .
  qed
  moreover have "L' ?r = []" "st' \<noteq> st \<Longrightarrow> L' (ListOut st') = L (ListOut st')"
    "set (L (ListIn st')) \<subseteq> set (L' (ListIn st'))" for st'
  proof -
    have a: "set ((L(?r := [])) r) \<subseteq> set (L' r)" and b: "L' (ListOut st') = (L(?r := [])) (ListOut st')" for r st'
      using t(3) by (simp_all add: moved_def)
    show "L' ?r = []" "st' \<noteq> st \<Longrightarrow> L' (ListOut st') = L (ListOut st')" using b by simp_all
    show "set (L (ListIn st')) \<subseteq> set (L' (ListIn st'))" using a [of "ListIn st'"] by simp
  qed
  moreover have "unlocked s \<longrightarrow> unlocked (transfer False st t)" using u3 t(5) by (simp add: unlocked_station)
  ultimately show ?thesis using t(4) c3(1) by (intro exI [of _ "transfer False st t"] exI [of _ L']) simp
qed

end
