(* ===== verification/Et_StationRoute.thy ===== *)
theory Et_StationRoute
  imports Et_StationPlaces Et_ConductorRound
begin

text \<open>
  The lists of stations and the conductors: in a system whose lists are in order the conductor of a
  station finds the head of its group, and the groups behind it lead to GrandCentral.
\<close>

section \<open>The way of the events\<close>

text \<open>The groups behind a station lead to GrandCentral, so that its conductor comes to an end.\<close>

lemma bound_distinct:
  assumes "distinct xs" and "\<And>i. i \<in> set xs \<Longrightarrow> in_array s i"
  shows "length xs \<le> max_stations s"
proof -
  have "set xs \<subseteq> {0..<y_nstations (sy_config (m_sys s))}" using assms(2) by (auto simp: in_array_def)
  then have "card (set xs) \<le> card {0..<y_nstations (sy_config (m_sys s))}" by (intro card_mono) auto
  then show ?thesis using distinct_card [OF assms(1)] by simp
qed

lemma group_from_run:
  assumes "dll (nextpar_link s) pv a (x # H) (- 1)" and "\<forall>y \<in> set H. 0 \<le> y" and "length H \<le> n"
  shows "group_from n x s = Some (x # H)"
  using assms
proof (induction H arbitrary: a x n)
  case Nil
  then show ?case by (subst group_from.simps) simp
next
  case (Cons y H)
  then have "nextpar_link s x = y" "0 \<le> y" by auto
  then show ?case
    using Cons.IH [of x y "n - 1"] Cons.prems by (subst group_from.simps) (auto split: nat.splits)
qed

lemma first_parallel_run:
  assumes "dll nx (prevpar_link s) (- 1) (P @ [x]) b" and "\<forall>y \<in> set P. 0 \<le> y" and "length P \<le> n"
  shows "first_parallel n x s = Some (hd (P @ [x]))"
  using assms
proof (induction P arbitrary: x b n rule: rev_induct)
  case Nil
  then show ?case by (subst first_parallel.simps) simp
next
  case (snoc y P)
  then have "prevpar_link s x = y" "0 \<le> y" by (auto simp: dll_append)
  moreover have "dll nx (prevpar_link s) (- 1) (P @ [y]) x" using snoc.prems(1) by (simp add: dll_append)
  ultimately show ?case
    using snoc.IH [of y x "n - 1"] snoc.prems by (subst first_parallel.simps) (auto simp: hd_append split: nat.splits)
qed


lemma stations_groups:
  assumes S: "stations s gs" and g: "g \<in> set gs"
  obtains x H where "g = x # H" "dll (nextpar_link s) (prevpar_link s) (- 1) (x # H) (- 1)"
    "\<forall>y \<in> set g. in_array s y" "length H < max_stations s" "H \<noteq> [] \<longrightarrow> (\<forall>y \<in> set g. in_parallel s y)"
proof -
  note D = stationsD [OF S]
  obtain x H where x: "g = x # H" using D(3) g by (cases g) auto
  have ia: "\<forall>y \<in> set g. in_array s y"
  proof
    fix y assume "y \<in> set g"
    then have "y \<in> set (concat gs)" using g by auto
    then show "in_array s y" using D(5) by simp
  qed
  have "distinct g" using D(4) g by (simp add: distinct_concat_iff)
  then have "length H < max_stations s" using bound_distinct [of g s] ia x by auto
  moreover have "H \<noteq> [] \<longrightarrow> (\<forall>y \<in> set g. in_parallel s y)" using D(9) [OF g] x by auto
  ultimately show thesis using that x D(8) [OF g] ia by simp
qed

text \<open>Round robin groups are not among the groups \<open>gs\<close>.\<close>

definition no_rrobin :: "et_mem \<Rightarrow> et_stat_id list list \<Rightarrow> bool" where
  "no_rrobin s gs \<longleftrightarrow> (\<forall>g \<in> set gs. in_parallel s (hd g) \<longrightarrow> c_select_mode (config_of (hd g) s) \<noteq> ET_STATION_SELECT_RROBIN)"

lemma route_run:
  assumes gc: "\<not> in_parallel s ET_GRANDCENTRAL" "status_of ET_GRANDCENTRAL s = ET_STATION_ACTIVE"
    and d: "dll (next_link s) pv a (x # map hd gs) (- 1)"
    and g: "\<And>g. g \<in> set gs \<Longrightarrow> \<exists>x H. g = x # H \<and> dll (nextpar_link s) (prevpar_link s) (- 1) (x # H) (- 1)
      \<and> (\<forall>y \<in> set g. 0 < y) \<and> length H < max_stations s"
    and n: "length gs \<le> n" and rr: "no_rrobin s (if first then tl gs else gs)"
  shows "route n first (next_station x s) s"
  using d g n rr
proof (induction gs arbitrary: a x n first)
  case Nil
  then show ?case using gc by (subst route.simps) (simp add: next_station_def)
next
  case (Cons g gs)
  obtain y H where y: "g = y # H" "dll (nextpar_link s) (prevpar_link s) (- 1) (y # H) (- 1)"
    "\<forall>z \<in> set g. 0 < z" "length H < max_stations s" using Cons.prems(2) [of g] by auto
  have nx: "next_station x s = y" using Cons.prems(1) y by (simp add: next_station_def)
  have gf: "group_from (max_stations s) y s = Some g"
    using group_from_run [OF y(2), of "max_stations s"] y(1,3,4) by (simp add: less_imp_le)
  obtain n' where n': "n = Suc n'" using Cons.prems(3) by (cases n) auto
  have "no_rrobin s gs" using Cons.prems(4) by (auto simp: no_rrobin_def split: if_splits)
  then have "route n' False (next_station y s) s"
    by (intro Cons.IH [where x = y and a = x]) (use Cons.prems y(1) n' in auto)
  moreover have "first \<or> c_select_mode (config_of y s) \<noteq> ET_STATION_SELECT_RROBIN" if "in_parallel s y"
    using Cons.prems(4) that y(1) by (auto simp: no_rrobin_def split: if_splits)
  moreover have "ET_GRANDCENTRAL \<notin> set g" "y \<noteq> 0" using y(1,3) by auto
  ultimately show ?case unfolding nx using gf n' by (subst route.simps) auto
qed

lemma stations_route:
  assumes S: "stations s gs" and k: "k < length gs" and st: "st \<in> set (gs ! k)"
    and gc: "\<not> in_parallel s ET_GRANDCENTRAL" "status_of ET_GRANDCENTRAL s = ET_STATION_ACTIVE"
    and rr: "no_rrobin s (drop (k + 2) gs)"
  shows "(if in_parallel s st then first_parallel (max_stations s) st s else Some st) = Some (hd (gs ! k))"
    and "route (max_stations s) True (next_station (hd (gs ! k)) s) s"
proof -
  note D = stationsD [OF S]
  let ?g = "gs ! k"
  have g: "?g \<in> set gs" using k by simp
  obtain x H where x: "?g = x # H" "dll (nextpar_link s) (prevpar_link s) (- 1) (x # H) (- 1)"
    "\<forall>y \<in> set ?g. in_array s y" "length H < max_stations s" "H \<noteq> [] \<longrightarrow> (\<forall>y \<in> set ?g. in_parallel s y)"
    by (rule stations_groups [OF S g])
  obtain P Q where pq: "x # H = P @ st # Q" using st x(1) by (metis split_list)
  have len: "length P \<le> length H"
  proof -
    have "length (x # H) = length (P @ st # Q)" by (simp only: pq)
    then show ?thesis by simp
  qed
  have hd: "hd (P @ [st]) = x" using pq by (cases P) auto
  have "dll (nextpar_link s) (prevpar_link s) (- 1) (P @ [st]) (hd (Q @ [- 1]))"
    using x(2) dll_append [of "nextpar_link s" "prevpar_link s" "- 1" "P @ [st]" Q "- 1"] by (simp only: pq) simp
  moreover have "\<forall>y \<in> set P. 0 \<le> y" using x(1,3) pq by (auto simp: in_array_def)
  ultimately have "first_parallel (max_stations s) st s = Some (hd (P @ [st]))"
    by (rule first_parallel_run) (use len x(4) in simp)
  moreover have "st = x" if "\<not> in_parallel s st" using that x(1,5) st by auto
  ultimately show "(if in_parallel s st then first_parallel (max_stations s) st s else Some st) = Some (hd ?g)"
    using hd x(1) by auto
  have "map hd gs = map hd (take k gs) @ hd ?g # map hd (drop (Suc k) gs)"
    using k by (metis id_take_nth_drop list.simps(9) map_append)
  then have d: "\<exists>a. dll (next_link s) (prev_link s) a (hd ?g # map hd (drop (Suc k) gs)) (- 1)"
    using D(6) by (auto simp: dll_append)
  then obtain a where d: "dll (next_link s) (prev_link s) a (hd ?g # map hd (drop (Suc k) gs)) (- 1)" ..
  have lg: "length gs \<le> max_stations s"
  proof -
    have "distinct (map hd gs)" by (rule distinct_heads [OF D(3,4)])
    moreover have "in_array s i" if "i \<in> set (map hd gs)" for i
      using heads_subset [OF D(3)] that D(5) by auto
    ultimately show ?thesis using bound_distinct [of "map hd gs" s] by simp
  qed
  show "route (max_stations s) True (next_station (hd ?g) s) s"
  proof (rule route_run [OF gc d])
    show "length (drop (Suc k) gs) \<le> max_stations s" using lg by simp
    show "no_rrobin s (if True then tl (drop (Suc k) gs) else drop (Suc k) gs)"
      using rr by (simp add: drop_Suc tl_drop)
    fix g assume g: "g \<in> set (drop (Suc k) gs)"
    then have gs: "g \<in> set gs" by (rule in_set_dropD)
    obtain y H where y: "g = y # H" "dll (nextpar_link s) (prevpar_link s) (- 1) (y # H) (- 1)"
      "\<forall>y \<in> set g. in_array s y" "length H < max_stations s"
      by (rule stations_groups [OF S gs])
    have "ET_GRANDCENTRAL \<notin> set g"
    proof -
      have "gs = [ET_GRANDCENTRAL] # tl gs" using D(1,2) by (cases gs) auto
      moreover have "g \<in> set (tl gs)" using g by (metis drop_Suc in_set_dropD)
      ultimately have "distinct (ET_GRANDCENTRAL # concat (tl gs))" "g \<in> set (tl gs)" using D(4)
        by (metis append_Cons append_Nil concat.simps(2), simp)
      then show ?thesis by auto
    qed
    then have "\<forall>z \<in> set g. 0 < z" using y(3) by (metis in_array_def order_less_le)
    then show "\<exists>x H. g = x # H \<and> dll (nextpar_link s) (prevpar_link s) (- 1) (x # H) (- 1)
      \<and> (\<forall>y \<in> set g. 0 < y) \<and> length H < max_stations s" using y by blast
  qed
qed

end
