(* ===== verification/Et_Init.thy ===== *)
theory Et_Init
  imports Et_Conductor
begin

text \<open>
  Initialisation (\<^verbatim>\<open>src/src/external/et/src/libsrc/et_init.c\<close>): the values that a process, an
  attachment, a station, a list, an event, the histogram and the statistics start from.  The name of
  the host and of the network interface of an attachment are left out.
\<close>

definition et_init_process :: "et_proc_id \<Rightarrow> et_system \<Rightarrow> et_system" where
  "et_init_process i y = y\<lparr>sy_proc := (sy_proc y)(i := (sy_proc y i)\<lparr>pr_num := - 1, pr_nattachments := 0,
     pr_et_status := ET_PROC_ETDEAD, pr_heartbeat := 0, pr_pid := - 1, pr_att := (\<lambda>_. - 1),
     pr_status := ET_PROC_CLOSED\<rparr>)\<rparr>"

definition et_init_attachment :: "et_att_id \<Rightarrow> et_mem \<Rightarrow> et_mem" where
  "et_init_attachment i = upd_attach i (\<lambda>a. a\<lparr>a_num := - 1, a_proc := - 1, a_stat := - 1,
     a_blocked := ET_ATT_UNBLOCKED, a_quit := ET_ATT_CONTINUE, a_sleep := ET_ATT_NOSLEEP,
     a_events_put := 0, a_events_get := 0, a_events_dump := 0, a_events_make := 0, a_pid := - 1,
     a_status := ET_ATT_UNUSED\<rparr>)"

definition et_init_llist :: "et_list \<Rightarrow> et_list" where
  "et_init_llist l = l\<lparr>l_cnt := 0, l_lasthigh := 0, l_events_try := 0, l_events_in := 0,
     l_events_out := 0, l_firstevent := None, l_lastevent := None\<rparr>"

definition et_init_station :: "et_station \<Rightarrow> et_station" where
  "et_init_station p = p\<lparr>s_num := - 1, s_next := - 1, s_prev := - 1, s_nextparallel := - 1,
     s_prevparallel := - 1, s_waslast := 0, s_name := [], s_conductor := ET_THREAD_KEEP,
     s_config := \<lparr>c_init = ET_STRUCT_OK, c_flow_mode = ET_STATION_SERIAL,
       c_user_mode = ET_STATION_USER_MULTI, c_restore_mode = ET_STATION_RESTORE_OUT,
       c_block_mode = ET_STATION_BLOCKING, c_prescale = ET_STATION_PRESCALE, c_cue = ET_STATION_CUE,
       c_select_mode = ET_STATION_SELECT_ALL, c_select = replicate ET_STATION_SELECT_INTS (- 1),
       c_fname = [], c_lib = [], c_classs = []\<rparr>,
     s_data := (s_data p)\<lparr>d_nattachments := 0, d_pid_create := - 1, d_att := (\<lambda>_. - 1),
       d_status := ET_STATION_UNUSED\<rparr>,
     s_fix := \<lparr>f_in = \<lparr>fi_first = None, fi_eventsin = 0, fi_start = 0, fi_cnt = 0, fi_num = 0,
         fi_call = ET_FIX_READ\<rparr>,
       f_out = \<lparr>fo_start = 0, fo_cnt = 0, fo_num = 0\<rparr>\<rparr>,
     s_list_in := et_init_llist (s_list_in p), s_list_out := et_init_llist (s_list_out p)\<rparr>"

definition et_init_event :: "et_event \<Rightarrow> et_event" where
  "et_init_event e = e\<lparr>e_owner := ET_SYS, e_next := None, e_length := 0, e_memsize := 0,
     e_priority := ET_LOW, e_temp := ET_EVENT_NORMAL, e_age := ET_EVENT_NEW,
     e_datastatus := ET_DATA_OK, e_byteorder := 0x04030201, e_group := 0, e_pointer := 0,
     e_modify := 0, e_control := replicate ET_STATION_SELECT_INTS 0\<rparr>"

text \<open>\<^verbatim>\<open>et_init_event_\<close>, which keeps the owner and the group.\<close>

definition et_init_event_new :: "et_event \<Rightarrow> et_event" where
  "et_init_event_new e = (et_init_event e)\<lparr>e_owner := e_owner e, e_group := e_group e\<rparr>"

definition et_init_histogram :: "et_mem \<Rightarrow> et_mem" where
  "et_init_histogram s = s\<lparr>m_histogram := (\<lambda>i. if 0 \<le> i \<and> i < nevents s + 1 then 0 else m_histogram s i)\<rparr>"

definition et_init_stats_att :: "et_att_id \<Rightarrow> et_mem \<Rightarrow> et_mem" where
  "et_init_stats_att i = upd_attach i (\<lambda>a. a\<lparr>a_events_put := 0, a_events_get := 0,
     a_events_dump := 0, a_events_make := 0\<rparr>)"

definition et_init_stats_allatts :: "et_mem \<Rightarrow> et_mem" where
  "et_init_stats_allatts = fold et_init_stats_att (map int [0..<nat ET_ATTACHMENTS_MAX])"

definition et_init_stats_station :: "et_stat_id \<Rightarrow> et_mem \<Rightarrow> et_mem" where
  "et_init_stats_station st = (let z = (\<lambda>l. l\<lparr>l_events_try := 0, l_events_out := 0, l_events_in := 0\<rparr>) in
     upd_list (ListOut st) z \<circ> upd_list (ListIn st) z)"

definition et_init_stats_allstations :: "et_mem \<Rightarrow> et_mem" where
  "et_init_stats_allstations s = fold et_init_stats_station (map int [0..<max_stations s]) s"

definition et_init_stats_all :: "et_mem \<Rightarrow> et_mem" where
  "et_init_stats_all s = et_init_histogram (et_init_stats_allstations (et_init_stats_allatts s))"

text \<open>
  The memory a system starts with (\<^verbatim>\<open>et_init_mem_station\<close> and \<^verbatim>\<open>et_init_mem_event\<close> of
  \<^verbatim>\<open>et_system.c\<close>); a mutex is free when it is initialised.
\<close>

definition et_init_mem_station :: "et_mem \<Rightarrow> et_mem" where
  "et_init_mem_station s = fold (\<lambda>st. upd_station st (\<lambda>p. (et_init_station
       (p\<lparr>s_list_in := (s_list_in p)\<lparr>l_mutex := False\<rparr>, s_list_out := (s_list_out p)\<lparr>l_mutex := False\<rparr>\<rparr>))
       \<lparr>s_mutex := False\<rparr>)) (map int [0..<max_stations s]) s"

end
