(* ===== verification/Et_Station.thy ===== *)
theory Et_Station
  imports Et_StationChain Et_Init
begin

text \<open>
  Stations and attachments (\<^verbatim>\<open>src/src/external/et/src/libsrc/et_station.c\<close>): creating, removing and
  moving stations, attaching to and detaching from them, and reading and setting their parameters.

  The routines are those of a client that shares the memory of the system.  \<open>far\<close> stands for the
  answer of the routine of \<^verbatim>\<open>et_remoteclient.c\<close> that they call for any other client.  The station,
  system and transfer mutexes are taken and released inside, so that the routines are atomic for
  one another; what other threads do where they are released is an argument.
\<close>

section \<open>The identifier of a client\<close>

record et_id =
  i_locality :: int
  i_alive :: bool
  i_closed :: bool
  i_proc :: et_proc_id
  i_group :: int

definition usable :: "et_id \<Rightarrow> int" where
  "usable h = (if \<not> i_alive h then ET_ERROR_DEAD else if i_closed h then ET_ERROR_CLOSED else ET_OK)"

abbreviation upd_sys :: "(et_system \<Rightarrow> et_system) \<Rightarrow> et_mem \<Rightarrow> et_mem" where
  "upd_sys f s \<equiv> s\<lparr>m_sys := f (m_sys s)\<rparr>"

abbreviation "set_status st v \<equiv> upd_station st (s_data_update (d_status_update (\<lambda>_. v)))"
abbreviation "add_stations n \<equiv> upd_sys (sy_nstations_update (\<lambda>k. k + n))"

text \<open>The outcome of a crashable program, seen by its caller.\<close>

definition run_cmd :: "'a cmd \<Rightarrow> et_mem \<Rightarrow> ('a \<times> et_mem) res" where
  "run_cmd m s = (case snd (m s) of Done a t \<Rightarrow> Go (a, t) | Blocked t \<Rightarrow> Asleep t
     | Exited t \<Rightarrow> Exits t | Fault \<Rightarrow> Crash)"

section \<open>Creating a station\<close>

definition et_station_exists ::
  "int \<times> et_stat_id option \<Rightarrow> et_id \<Rightarrow> string option \<Rightarrow> et_mem \<Rightarrow> int \<times> et_stat_id option" where
  "et_station_exists far h name s = (case name of None \<Rightarrow> (ET_ERROR, None) | Some nm \<Rightarrow>
     if i_locality h = ET_REMOTE then far
     else if usable h \<noteq> ET_OK then (usable h, None)
     else (case find (\<lambda>i. status_of i s \<noteq> ET_STATION_UNUSED \<and> s_name (m_stats s i) = nm)
             (map int [0..<max_stations s]) of
        Some i \<Rightarrow> (1, Some i) | None \<Rightarrow> (0, None)))"

definition et_station_name_to_id ::
  "int \<times> et_stat_id option \<Rightarrow> et_id \<Rightarrow> string option \<Rightarrow> et_mem \<Rightarrow> int \<times> et_stat_id option" where
  "et_station_name_to_id far h name s = (case et_station_exists far h name s of (status, i) \<Rightarrow>
     (if status < 0 then status else if status = 1 then ET_OK else ET_ERROR, i))"

text \<open>An existing station will do when it is defined in the same way.\<close>

definition same_definition :: "et_stat_config \<Rightarrow> et_stat_config \<Rightarrow> bool" where
  "same_definition c sc \<longleftrightarrow> c_flow_mode c = c_flow_mode sc \<and> c_user_mode c = c_user_mode sc
     \<and> c_block_mode c = c_block_mode sc \<and> c_select_mode c = c_select_mode sc
     \<and> c_restore_mode c = c_restore_mode sc \<and> c_prescale c = c_prescale sc \<and> c_cue c = c_cue sc
     \<and> c_select c = c_select sc \<and> c_select_mode c \<noteq> ET_STATION_SELECT_USER"

text \<open>The structure of a new station; \<open>pid\<close> is the number of the process.\<close>

definition new_station :: "et_stat_id \<Rightarrow> string \<Rightarrow> et_stat_config \<Rightarrow> int \<Rightarrow> et_mem \<Rightarrow> et_mem" where
  "new_station i nm sc pid = set_status i ET_STATION_CREATING \<circ>
     upd_station i (s_data_update (d_pid_create_update (\<lambda>_. pid))) \<circ>
     upd_station i (\<lambda>p. (et_init_station p)\<lparr>s_num := i, s_name := nm, s_config := sc\<rparr>)"

text \<open>
  The part that works on shared memory.  The conductor thread is started (\<open>conductor_start\<close>, with
  \<open>loaded\<close> for the library of a user's selection routine) and tells whether it could.
\<close>

definition create_station ::
  "et_id \<Rightarrow> string \<Rightarrow> et_stat_config \<Rightarrow> int \<Rightarrow> int \<Rightarrow> int \<Rightarrow> bool \<Rightarrow> et_mem \<Rightarrow> ((int \<times> et_stat_id option) \<times> et_mem) res"
where
  "create_station h nm sc pos ppos pid loaded s =
     (case et_station_exists (0, None) h (Some nm) s of
        (status, existing) \<Rightarrow>
      if status = 1 then
        (case existing of None \<Rightarrow> Crash | Some i \<Rightarrow>
          if status_of i s \<noteq> ET_STATION_CREATING \<and> same_definition (config_of i s) sc
          then Go ((ET_OK, Some i), s) else Go ((ET_ERROR_EXISTS, Some i), s))
      else if sy_nstations (m_sys s) \<ge> y_nstations (sy_config (m_sys s)) then Go ((ET_ERROR_TOOMANY, None), s)
      else case find (\<lambda>i. status_of i s = ET_STATION_UNUSED) (map int [0..<max_stations s]) of
          None \<Rightarrow> Go ((ET_ERROR, None), s)
        | Some i \<Rightarrow>
           let s1 = new_station i nm sc pid (add_stations 1 s) in
           if nm = ''GRAND_CENTRAL'' then Go ((ET_OK, None), s1)
           else let s2 = snd (conductor_start loaded s1) in
             if status_of i s2 \<noteq> ET_STATION_IDLE
             then Go ((ET_ERROR, None), upd_station i et_init_station (add_stations (- 1) s2))
             else res_bind (station_insert i pos ppos s2) (\<lambda>(status, s3).
               if status \<noteq> ET_OK
               then Go ((ET_ERROR, None), add_stations (- 1) (set_status i ET_STATION_UNUSED
                 (upd_os (CondSignal (ListOut i)) (upd_station i (s_conductor_update (\<lambda>_. ET_THREAD_KILL)) s3))))
               else Go ((ET_OK, Some i), s3)))"

definition et_station_create_at ::
  "int \<times> et_stat_id option \<Rightarrow> et_id \<Rightarrow> string option \<Rightarrow> et_stat_config option \<Rightarrow> int \<Rightarrow> int \<Rightarrow> int \<Rightarrow> bool
   \<Rightarrow> et_mem \<Rightarrow> ((int \<times> et_stat_id option) \<times> et_mem) res" where
  "et_station_create_at far h name sconfig pos ppos pid loaded s =
     (case name of None \<Rightarrow> Go ((ET_ERROR, None), s) | Some nm \<Rightarrow>
      let sc = (case sconfig of None \<Rightarrow> et_station_config_init | Some c \<Rightarrow> c) in
      if length nm > ET_STATNAME_LENGTH - 1 then Go ((ET_ERROR, None), s)
      else if pos \<noteq> ET_END \<and> pos < 0 then Go ((ET_ERROR, None), s)
      else if ppos \<noteq> ET_END \<and> ppos \<noteq> ET_NEWHEAD \<and> ppos < 0 then Go ((ET_ERROR, None), s)
      else if c_init sc \<noteq> ET_STRUCT_OK then Go ((ET_ERROR, None), s)
      else if nm \<noteq> ''GRAND_CENTRAL'' \<and> pos = 0 then Go ((ET_ERROR, None), s)
      else if i_locality h \<noteq> ET_LOCAL then Go (far, s)
      else if \<not> i_alive h \<and> nm \<noteq> ''GRAND_CENTRAL'' then Go ((ET_ERROR_DEAD, None), s)
      else if i_closed h then Go ((ET_ERROR_CLOSED, None), s)
      else if et_station_config_check s sc = ET_ERROR then Go ((ET_ERROR, None), s)
      else create_station h nm sc pos ppos pid loaded s)"

definition et_station_create ::
  "int \<times> et_stat_id option \<Rightarrow> et_id \<Rightarrow> string option \<Rightarrow> et_stat_config option \<Rightarrow> int \<Rightarrow> bool
   \<Rightarrow> et_mem \<Rightarrow> ((int \<times> et_stat_id option) \<times> et_mem) res" where
  "et_station_create far h name sconfig = et_station_create_at far h name sconfig ET_END ET_END"

section \<open>Removing a station\<close>

text \<open>
  The conductor of the station is given the time to move the events left in its output list:
  \<open>env\<close> is what happens meanwhile.
\<close>

definition et_station_remove ::
  "int \<Rightarrow> et_id \<Rightarrow> et_stat_id \<Rightarrow> (et_mem \<Rightarrow> et_mem) \<Rightarrow> et_mem \<Rightarrow> (int \<times> et_mem) res" where
  "et_station_remove far h st env s =
     (if st < 0 then Go (ET_ERROR, s)
      else if st = ET_GRANDCENTRAL then Go (ET_ERROR, s)
      else if i_locality h \<noteq> ET_LOCAL then Go (far, s)
      else if usable h \<noteq> ET_OK then Go (usable h, s)
      else if st \<ge> y_nstations (sy_config (m_sys s)) then Go (ET_ERROR, s)
      else if d_nattachments (s_data (m_stats s st)) > 0 then Go (ET_ERROR, s)
      else res_bind (station_remove st s) (\<lambda>s.
        Go (ET_OK, add_stations (- 1) (set_status st ET_STATION_UNUSED (upd_os (CondSignal (ListOut st))
          (upd_station st (s_conductor_update (\<lambda>_. ET_THREAD_KILL)) (env s)))))))"

section \<open>Attaching and detaching\<close>

abbreviation upd_proc :: "et_proc_id \<Rightarrow> (et_proc \<Rightarrow> et_proc) \<Rightarrow> et_mem \<Rightarrow> et_mem" where
  "upd_proc i f \<equiv> upd_sys (\<lambda>y. y\<lparr>sy_proc := (sy_proc y)(i := f (sy_proc y i))\<rparr>)"
abbreviation "add_attachments n \<equiv> upd_sys (sy_nattachments_update (\<lambda>k. k + n))"
abbreviation "max_attachments s \<equiv> y_nattachments (sy_config (m_sys s))"

definition attach_station :: "et_id \<Rightarrow> et_stat_id \<Rightarrow> et_att_id \<Rightarrow> int \<Rightarrow> et_mem \<Rightarrow> et_mem" where
  "attach_station h st a pid s =
     (let s = add_attachments 1 s;
          s = et_init_attachment a s;
          s = upd_attach a (\<lambda>x. x\<lparr>a_num := a, a_proc := i_proc h, a_stat := st, a_status := ET_ATT_ACTIVE,
                a_pid := pid\<rparr>) s;
          s = (if i_proc h \<noteq> ET_SYS then upd_proc (i_proc h) (\<lambda>p. p\<lparr>pr_nattachments := pr_nattachments p + 1,
                pr_att := (pr_att p)(a := a)\<rparr>) s else s);
          s = upd_station st (s_data_update (\<lambda>d. d\<lparr>d_nattachments := d_nattachments d + 1,
                d_att := (d_att d)(a := a)\<rparr>)) s
      in set_status st ET_STATION_ACTIVE s)"

definition et_station_attach ::
  "int \<times> et_att_id option \<Rightarrow> et_id \<Rightarrow> et_stat_id \<Rightarrow> int \<Rightarrow> et_mem \<Rightarrow> (int \<times> et_att_id option) \<times> et_mem" where
  "et_station_attach far h st pid s =
     (let c = config_of st s; n = d_nattachments (s_data (m_stats s st)) in
      if st < 0 then ((ET_ERROR, None), s)
      else if i_locality h \<noteq> ET_LOCAL then (far, s)
      else if usable h \<noteq> ET_OK then ((usable h, None), s)
      else if st \<ge> y_nstations (sy_config (m_sys s)) then ((ET_ERROR, None), s)
      else if status_of st s \<noteq> ET_STATION_ACTIVE \<and> status_of st s \<noteq> ET_STATION_IDLE then ((ET_ERROR, None), s)
      else if c_user_mode c > 0 \<and> c_user_mode c \<le> n then ((ET_ERROR_TOOMANY, None), s)
      else if sy_nattachments (m_sys s) \<ge> max_attachments s then ((ET_ERROR_TOOMANY, None), s)
      else case find (\<lambda>i. a_num (sy_attach (m_sys s) i) = - 1) (map int [0..<nat (max_attachments s)]) of
          None \<Rightarrow> ((ET_ERROR, None), s)
        | Some a \<Rightarrow> ((ET_OK, Some a), attach_station h st a pid s))"

text \<open>
  \<open>ws\<close> and \<open>w0\<close> are the arguments of the routines that give the events of the attachment back to
  the system.
\<close>

definition detach_station ::
  "et_id \<Rightarrow> et_att_id \<Rightarrow> et_stat_id \<Rightarrow> wake list \<Rightarrow> int \<Rightarrow> et_mem \<Rightarrow> (int \<times> et_mem) res" where
  "detach_station h a st ws w0 s =
     (let s = upd_attach a (\<lambda>x. x\<lparr>a_num := - 1, a_status := ET_ATT_UNUSED\<rparr>) s;
          s = add_attachments (- 1) s
      in res_bind
        (if d_nattachments (s_data (m_stats s st)) = 1 \<and> st \<noteq> ET_GRANDCENTRAL
         then run_cmd (et_flush_events a st ws) (set_status st ET_STATION_IDLE s)
         else Go ((), s))
        (\<lambda>(_, s). res_bind (run_cmd (et_restore_events a st w0) s) (\<lambda>(_, s).
          let s = upd_station st (s_data_update (\<lambda>d. d\<lparr>d_nattachments := d_nattachments d - 1,
                d_att := (d_att d)(a := - 1)\<rparr>)) s
          in Go (ET_OK, if m_cleanup s \<noteq> 1 \<and> i_proc h \<noteq> ET_SYS
            then upd_proc (i_proc h) (\<lambda>p. p\<lparr>pr_nattachments := pr_nattachments p - 1,
                   pr_att := (pr_att p)(a := - 1)\<rparr>) s
            else s))))"

definition et_station_detach ::
  "int \<Rightarrow> et_id \<Rightarrow> et_att_id \<Rightarrow> wake list \<Rightarrow> int \<Rightarrow> et_mem \<Rightarrow> (int \<times> et_mem) res" where
  "et_station_detach far h a ws w0 s =
     (if a < 0 \<or> a \<ge> ET_ATTACHMENTS_MAX then Go (ET_ERROR, s)
      else if i_locality h \<noteq> ET_LOCAL then Go (far, s)
      else if usable h \<noteq> ET_OK then Go (usable h, s)
      else if a \<ge> max_attachments s then Go (ET_ERROR, s)
      else let st = a_stat (sy_attach (m_sys s) a) in
        if st < 0 then Go (ET_ERROR, s) else detach_station h a st ws w0 s)"

section \<open>Moving a station\<close>

definition move_station :: "et_stat_id \<Rightarrow> int \<Rightarrow> int \<Rightarrow> et_mem \<Rightarrow> (int \<times> et_mem) res" where
  "move_station st pos ppos s = res_bind (station_find st s) (\<lambda>place.
     res_bind (station_remove st s) (\<lambda>s. res_bind (station_insert st pos ppos s) (\<lambda>(err, s).
       if err = ET_OK then Go (err, s)
       else case place of None \<Rightarrow> Crash
         | Some (p, pp) \<Rightarrow> res_bind (station_insert st p pp s) (\<lambda>(_, s). Go (err, s)))))"

definition et_station_setposition ::
  "int \<Rightarrow> et_id \<Rightarrow> et_stat_id \<Rightarrow> int \<Rightarrow> int \<Rightarrow> et_mem \<Rightarrow> (int \<times> et_mem) res" where
  "et_station_setposition far h st pos ppos s =
     (if st < 0 then Go (ET_ERROR, s)
      else if st = ET_GRANDCENTRAL then (if pos = 0 then Go (ET_OK, s) else Go (ET_ERROR, s))
      else if pos \<noteq> ET_END \<and> pos < 0 then Go (ET_ERROR, s)
      else if pos = 0 then Go (ET_ERROR, s)
      else if ppos \<noteq> ET_END \<and> ppos \<noteq> ET_NEWHEAD \<and> ppos < 0 then Go (ET_ERROR, s)
      else if i_locality h \<noteq> ET_LOCAL then Go (far, s)
      else if usable h \<noteq> ET_OK then Go (usable h, s)
      else if st \<ge> y_nstations (sy_config (m_sys s)) then Go (ET_ERROR, s)
      else if status_of st s \<noteq> ET_STATION_IDLE \<and> status_of st s \<noteq> ET_STATION_ACTIVE then Go (ET_ERROR, s)
      else move_station st pos ppos s)"

text \<open>The position and, unless the station is GrandCentral, the position in the group.\<close>

definition et_station_getposition ::
  "int \<times> (int \<times> int option) option \<Rightarrow> et_id \<Rightarrow> et_stat_id \<Rightarrow> et_mem \<Rightarrow> (int \<times> (int \<times> int option) option) res" where
  "et_station_getposition far h st s =
     (if st < 0 then Go (ET_ERROR, None)
      else if st = ET_GRANDCENTRAL then Go (ET_OK, Some (0, None))
      else if i_locality h \<noteq> ET_LOCAL then Go far
      else if usable h \<noteq> ET_OK then Go (usable h, None)
      else if st \<ge> y_nstations (sy_config (m_sys s)) then Go (ET_ERROR, None)
      else if status_of st s \<noteq> ET_STATION_IDLE \<and> status_of st s \<noteq> ET_STATION_ACTIVE then Go (ET_ERROR, None)
      else res_bind (station_find st s) (\<lambda>place. case place of None \<Rightarrow> Go (ET_ERROR, None)
        | Some (p, pp) \<Rightarrow> Go (ET_OK, Some (p, Some pp))))"

end
