(* ===== verification/Et_Address.thy ===== *)
theory Et_Address
  imports Et_Memory
begin

text \<open>
  Network addresses as the configuration routines read them: the C library's \<^verbatim>\<open>atoi\<close>,
  \<^verbatim>\<open>strcspn\<close> and the \<^verbatim>\<open>%d\<close> conversion of \<^verbatim>\<open>sscanf\<close> on strings, the dotted-decimal routines
  of \<^verbatim>\<open>src/src/external/et/src/libsrc/etCommonNetwork.c\<close> (which \<^verbatim>\<open>et_network.h\<close> renames to
  \<^verbatim>\<open>etNet...\<close>), and the array of multicast addresses with its \<^verbatim>\<open>count\<close>, here the list of the
  addresses in use.  The C standard promises nothing for a decimal number outside the range of \<^verbatim>\<open>int\<close>; here
  it is read as the GNU C library does where a \<^verbatim>\<open>long\<close> has 64 bits.
\<close>

unbundle bit_operations_syntax

section \<open>Reading numbers\<close>

definition is_space :: "char \<Rightarrow> bool" where
  "is_space c \<longleftrightarrow> c \<in> set [CHR '' '', CHR 0x09, CHR 0x0A, CHR 0x0B, CHR 0x0C, CHR 0x0D]"

definition is_digit :: "char \<Rightarrow> bool" where
  "is_digit c \<longleftrightarrow> c \<in> set ''0123456789''"

definition digit_value :: "char \<Rightarrow> int" where
  "digit_value c = int (of_char c) - 48"

definition digits_value :: "string \<Rightarrow> int" where
  "digits_value ds = foldl (\<lambda>n c. 10 * n + digit_value c) 0 ds"

text \<open>The number is read as a \<^verbatim>\<open>long\<close>, which stops at its limits, and the lower half of it is kept.\<close>

definition strtol_int :: "int \<Rightarrow> int" where
  "strtol_int n = c_int (max (- (2 ^ 63)) (min (2 ^ 63 - 1) n))"

text \<open>White space, an optional sign and at least one digit; what follows is left.\<close>

definition scan_int :: "string \<Rightarrow> (int \<times> string) option" where
  "scan_int s = (let t = dropWhile is_space s;
       (neg, u) = (case t of c # cs \<Rightarrow> if c = CHR ''-'' then (True, cs)
                                       else if c = CHR ''+'' then (False, cs) else (False, t)
                   | [] \<Rightarrow> (False, t));
       ds = takeWhile is_digit u
     in if ds = [] then None
        else Some (strtol_int (if neg then - digits_value ds else digits_value ds), dropWhile is_digit u))"

definition atoi :: "string \<Rightarrow> int" where
  "atoi s = (case scan_int s of None \<Rightarrow> 0 | Some (v, _) \<Rightarrow> v)"

definition strcspn_dot :: "string \<Rightarrow> nat" where
  "strcspn_dot s = length (takeWhile (\<lambda>c. c \<noteq> CHR ''.'') s)"

text \<open>
  The number before the first dot, as \<^verbatim>\<open>et_system_config_addmulticast\<close> and the two
  \<^verbatim>\<open>removemulticast\<close> routines read it: \<open>len\<close> characters and a terminating zero are stored in
  \<^verbatim>\<open>char firstint[4]\<close>.  \<open>None\<close>: the store leaves the array.
\<close>

definition first_number :: "string \<Rightarrow> int option" where
  "first_number val = (let len = strcspn_dot val in
     if len > 3 then None else Some (atoi (take len val)))"

section \<open>Dotted-decimal addresses\<close>

fun scan_dot :: "string \<Rightarrow> string option" where
  "scan_dot [] = None"
| "scan_dot (c # cs) = (if c = CHR ''.'' then Some cs else None)"

text \<open>\<^verbatim>\<open>sscanf(s, "%d.%d.%d.%d", ...)\<close> with all \<open>n\<close> conversions done.\<close>

fun scan_dotted :: "nat \<Rightarrow> string \<Rightarrow> int list option" where
  "scan_dotted 0 s = Some []"
| "scan_dotted (Suc n) s =
     (case scan_int s of None \<Rightarrow> None
      | Some (v, t) \<Rightarrow> if n = 0 then Some [v]
          else (case scan_dot t of None \<Rightarrow> None
                | Some u \<Rightarrow> (case scan_dotted n u of None \<Rightarrow> None | Some vs \<Rightarrow> Some (v # vs))))"

definition codanetIsDottedDecimal :: "string option \<Rightarrow> int list option" where
  "codanetIsDottedDecimal ip =
     (case ip of None \<Rightarrow> None
      | Some s \<Rightarrow> (case scan_dotted 4 s of None \<Rightarrow> None
          | Some i \<Rightarrow> if \<exists>v \<in> set i. v < 0 \<or> v > 255 then None else Some i))"

text \<open>The four numbers, shifted together as \<^verbatim>\<open>int\<close> and stored in a \<^verbatim>\<open>uint32_t\<close>.\<close>

definition pack_ip :: "int list \<Rightarrow> 32 word" where
  "pack_ip i = push_bit 24 (word_of_int (i ! 0)) OR push_bit 16 (word_of_int (i ! 1))
     OR push_bit 8 (word_of_int (i ! 2)) OR word_of_int (i ! 3)"

definition codanetOnSameSubnet2 :: "string option \<Rightarrow> string option \<Rightarrow> 32 word \<Rightarrow> bool option" where
  "codanetOnSameSubnet2 ip1 ip2 subnetMask =
     (case (codanetIsDottedDecimal ip1, codanetIsDottedDecimal ip2) of
        (Some i1, Some i2) \<Rightarrow>
          Some (pack_ip i1 AND subnetMask = pack_ip i2 AND subnetMask)
      | _ \<Rightarrow> None)"

definition codanetOnSameSubnet :: "string option \<Rightarrow> string option \<Rightarrow> string option \<Rightarrow> bool option" where
  "codanetOnSameSubnet ip1 ip2 subnetMask =
     (case codanetIsDottedDecimal subnetMask of None \<Rightarrow> None
      | Some msk \<Rightarrow> codanetOnSameSubnet2 ip1 ip2 (pack_ip msk))"

section \<open>The array of multicast addresses\<close>

abbreviation (input) "ET_IPADDRSTRLEN \<equiv> (16 :: nat)"
abbreviation (input) "ET_MAXADDRESSES \<equiv> (10 :: nat)"

text \<open>The loop that removes an address and moves the later ones up.\<close>

fun addr_remove :: "string \<Rightarrow> string list \<Rightarrow> string list" where
  "addr_remove val [] = []"
| "addr_remove val (a # as) = (if val = a then as else a # addr_remove val as)"

lemma addr_remove_remove1: "addr_remove val as = remove1 val as"
  by (induction as) auto

section \<open>Reading what was printed\<close>

fun decimal :: "nat \<Rightarrow> string" where
  "decimal n = (if n < 10 then [char_of (48 + n)] else decimal (n div 10) @ [char_of (48 + n mod 10)])"

declare decimal.simps [simp del]

definition dotted :: "nat list \<Rightarrow> string" where
  "dotted i = decimal (i ! 0) @ ''.'' @ decimal (i ! 1) @ ''.'' @ decimal (i ! 2) @ ''.'' @ decimal (i ! 3)"

lemma digit_chars: "\<forall>d \<in> set [0..<10]. is_digit (char_of (48 + d :: nat))
    \<and> digit_value (char_of (48 + d :: nat)) = int d"
  by code_simp

lemma digit_char: "d < 10 \<Longrightarrow> is_digit (char_of (48 + d)) \<and> digit_value (char_of (48 + d)) = int d"
  using digit_chars by simp

lemma decimal_digits: "\<forall>c \<in> set (decimal n). is_digit c" "decimal n \<noteq> []"
  by (induction n rule: decimal.induct; subst decimal.simps; simp add: digit_char)+

lemma digits_value_snoc: "digits_value (ds @ [c]) = 10 * digits_value ds + digit_value c"
  by (simp add: digits_value_def)

lemma digits_value_decimal: "digits_value (decimal n) = int n"
proof (induction n rule: decimal.induct)
  case (1 n)
  show ?case
  proof (cases "n < 10")
    case True
    then show ?thesis by (subst decimal.simps) (simp add: digits_value_def digit_char)
  next
    case False
    then have "digits_value (decimal n) = 10 * int (n div 10) + int (n mod 10)"
      using 1 by (subst decimal.simps) (simp add: digits_value_snoc digit_char)
    also have "\<dots> = int n" by presburger
    finally show ?thesis .
  qed
qed

lemma digit_no_sign: "is_digit c \<Longrightarrow> \<not> is_space c \<and> c \<noteq> CHR ''-'' \<and> c \<noteq> CHR ''+''"
  by (auto simp: is_digit_def is_space_def)

text \<open>Reading back a printed number that no digit follows.\<close>

lemma scan_int_decimal:
  assumes "rest = [] \<or> \<not> is_digit (hd rest)"
  shows "scan_int (decimal n @ rest) = Some (strtol_int (int n), rest)"
proof -
  obtain c cs where d: "decimal n = c # cs" using decimal_digits(2) by (cases "decimal n") auto
  then have c: "is_digit c" using decimal_digits(1) [of n] by simp
  have "takeWhile is_digit (decimal n @ rest) = decimal n" "dropWhile is_digit (decimal n @ rest) = rest"
    using assms decimal_digits(1) [of n]
    by (cases rest; simp add: takeWhile_append dropWhile_append)+
  then show ?thesis
    using digit_no_sign [OF c] d digits_value_decimal [of n]
    by (simp add: scan_int_def Let_def)
qed

lemma scan_int_split:
  assumes "scan_int s = Some (v, t)"
  shows "\<exists>p. s = p @ t \<and> CHR ''.'' \<notin> set p \<and> scan_int p = Some (v, [])"
proof -
  define ws where "ws = takeWhile is_space s"
  define t0 where "t0 = dropWhile is_space s"
  have s: "s = ws @ t0" and ws: "\<forall>c \<in> set ws. is_space c"
    by (auto simp: ws_def t0_def dest: set_takeWhileD)
  have "\<exists>sg u. t0 = sg @ u \<and> sg \<in> {[], ''-'', ''+''} \<and> takeWhile is_digit u \<noteq> [] \<and> t = dropWhile is_digit u
      \<and> v = strtol_int (if sg = ''-'' then - digits_value (takeWhile is_digit u) else digits_value (takeWhile is_digit u))"
  proof (cases t0)
    case Nil
    with assms show ?thesis by (simp add: scan_int_def t0_def [symmetric] Let_def)
  next
    case (Cons c cs)
    let ?sg = "if c = CHR ''-'' \<or> c = CHR ''+'' then [c] else []"
    let ?u = "if c = CHR ''-'' \<or> c = CHR ''+'' then cs else t0"
    have "scan_int s = (let ds = takeWhile is_digit ?u in if ds = [] then None
        else Some (strtol_int (if c = CHR ''-'' then - digits_value ds else digits_value ds), dropWhile is_digit ?u))"
      using Cons by (simp add: scan_int_def t0_def [symmetric] Let_def)
    with assms Cons show ?thesis
      by (intro exI [of _ ?sg] exI [of _ ?u]) (auto simp: Let_def split: if_splits)
  qed
  then obtain sg u where u: "t0 = sg @ u" "sg \<in> {[], ''-'', ''+''}"
    and ds: "takeWhile is_digit u \<noteq> []" "t = dropWhile is_digit u"
      "v = strtol_int (if sg = ''-'' then - digits_value (takeWhile is_digit u) else digits_value (takeWhile is_digit u))"
    by blast
  define d where "d = takeWhile is_digit u"
  have dd: "\<forall>c \<in> set d. is_digit c" "d \<noteq> []" using ds(1) by (auto simp: d_def dest: set_takeWhileD)
  then have hd: "is_digit (hd d)" by simp
  have tw: "takeWhile is_digit d = d" "dropWhile is_digit d = []" using dd(1) by auto
  obtain c cs where c: "d = c # cs" using dd(2) by (cases d) auto
  then have "is_digit c" using hd by simp
  note c_plain = digit_no_sign [OF this]
  have "\<not> is_space CHR ''-''" "\<not> is_space CHR ''+''" by (simp_all add: is_space_def)
  then have "dropWhile is_space (ws @ sg @ d) = sg @ d"
    using ws u(2) c_plain c by (auto simp: dropWhile_append)
  then have "scan_int (ws @ sg @ d) = Some (v, [])"
    using ds(3) tw dd(2) unfolding d_def [symmetric] scan_int_def Let_def
    by (insert u(2), elim insertE emptyE) (use c c_plain in simp_all)
  moreover have "s = (ws @ sg @ d) @ t" by (simp add: s u(1) d_def ds(2))
  moreover have "CHR ''.'' \<notin> set (ws @ sg @ d)"
  proof -
    have "\<not> is_space CHR ''.''" "\<not> is_digit CHR ''.''" by (simp_all add: is_space_def is_digit_def)
    then show ?thesis using ws dd(1) u(2) by auto
  qed
  ultimately show ?thesis by blast
qed

lemma dotted_first_number:
  assumes "codanetIsDottedDecimal (Some s) = Some i" and "strcspn_dot s \<le> 3"
  shows "first_number s = Some (i ! 0)"
proof -
  from assms(1) obtain v t where v: "scan_int s = Some (v, t)" "i ! 0 = v" "scan_dot t \<noteq> None"
    by (auto simp: codanetIsDottedDecimal_def eval_nat_numeral split: option.splits if_splits)
  from scan_int_split [OF v(1)] obtain p where p: "s = p @ t" "CHR ''.'' \<notin> set p" "scan_int p = Some (v, [])"
    by blast
  from v(3) obtain u where "t = CHR ''.'' # u" by (cases t) (auto split: if_splits)
  then have "strcspn_dot s = length p"
    using p(1,2) by (auto simp: strcspn_dot_def takeWhile_append)
  then show ?thesis using assms(2) p v(2) by (simp add: first_number_def atoi_def)
qed

lemma dot_no_digit: "\<not> is_digit CHR ''.''"
  by (simp add: is_digit_def)

lemma scan_dotted_dotted:
  assumes "rest = [] \<or> \<not> is_digit (hd rest)"
  shows "scan_dotted 4 (dotted i @ rest) = Some (map (\<lambda>k. strtol_int (int (i ! k))) [0, 1, 2, 3])"
  using assms by (simp add: dotted_def eval_nat_numeral scan_int_decimal dot_no_digit)

text \<open>A number is taken for a byte when its lower half is one, unless it is too large for a \<^verbatim>\<open>long\<close>.\<close>

definition taken_for_byte :: "nat \<Rightarrow> bool" where
  "taken_for_byte n \<longleftrightarrow> n < 2 ^ 63 \<and> n mod 2 ^ 32 < 256"

lemma strtol_byte:
  "0 \<le> strtol_int (int n) \<and> strtol_int (int n) \<le> 255 \<longleftrightarrow> taken_for_byte n"
  "taken_for_byte n \<Longrightarrow> strtol_int (int n) = int (n mod 2 ^ 32)"
proof -
  have c: "c_int (int n) mod 2 ^ 32 = int (n mod 2 ^ 32)"
    using c_int_mod [of "int n"] by (simp only: zmod_int of_nat_power of_nat_numeral)
  have big: "strtol_int (int n) = - 1" if "\<not> n < 2 ^ 63"
  proof -
    have "strtol_int (int n) = c_int (2 ^ 63 - 1)" using that by (simp add: strtol_int_def min_def max_def)
    also have "\<dots> = c_int (- 1)" by (simp add: c_int_eq_iff)
    finally show ?thesis by (simp add: c_int_same)
  qed
  have small: "strtol_int (int n) = c_int (int n)" if "n < 2 ^ 63"
  proof -
    have "max (- (2 ^ 63)) (min (2 ^ 63 - 1) (int n)) = int n" using that by simp
    then show ?thesis by (simp only: strtol_int_def)
  qed
  show v: "strtol_int (int n) = int (n mod 2 ^ 32)" if "taken_for_byte n"
  proof -
    have "c_int (int n) = c_int (int (n mod 2 ^ 32))" by (simp add: c_int_eq_iff zmod_int)
    then show ?thesis using that small by (simp add: taken_for_byte_def c_int_same)
  qed
  show "0 \<le> strtol_int (int n) \<and> strtol_int (int n) \<le> 255 \<longleftrightarrow> taken_for_byte n"
  proof
    assume b: "0 \<le> strtol_int (int n) \<and> strtol_int (int n) \<le> 255"
    then have n: "n < 2 ^ 63" using big by fastforce
    then have "c_int (int n) mod 2 ^ 32 = c_int (int n)" "c_int (int n) \<le> 255" using b small by simp_all
    then show "taken_for_byte n" using c n by (simp add: taken_for_byte_def)
  qed (use v in \<open>simp add: taken_for_byte_def\<close>)
qed

lemma read_dotted:
  "codanetIsDottedDecimal (Some (dotted [a, b, c, d])) =
     (if list_all taken_for_byte [a, b, c, d] then Some (map (\<lambda>n. int (n mod 2 ^ 32)) [a, b, c, d]) else None)"
proof -
  have "(\<exists>v \<in> set (map (\<lambda>n. strtol_int (int n)) [a, b, c, d]). v < 0 \<or> v > 255) \<longleftrightarrow> \<not> list_all taken_for_byte [a, b, c, d]"
    using strtol_byte(1) by (simp add: not_le [symmetric]) blast
  moreover have "scan_dotted 4 (dotted [a, b, c, d]) = Some (map (\<lambda>n. strtol_int (int n)) [a, b, c, d])"
    using scan_dotted_dotted [of "[]" "[a, b, c, d]"] by simp
  ultimately show ?thesis using strtol_byte(2) by (simp only: codanetIsDottedDecimal_def option.case) auto
qed

lemma strtol_bytes [simp]: "n < 256 \<Longrightarrow> strtol_int (int n) = int n"
  using strtol_byte(2) [of n] by (simp add: taken_for_byte_def)

lemma byte_taken: "n < 256 \<Longrightarrow> taken_for_byte n \<and> n mod 2 ^ 32 = n"
  by (simp add: taken_for_byte_def)

lemma read_dotted_rest:
  assumes "\<forall>v \<in> {a, b, c, d}. v < 256" and "rest = [] \<or> \<not> is_digit (hd rest)"
  shows "codanetIsDottedDecimal (Some (dotted [a, b, c, d] @ rest)) = Some [int a, int b, int c, int d]"
  using assms(1) scan_dotted_dotted [OF assms(2), of "[a, b, c, d]"] by (simp add: codanetIsDottedDecimal_def)

lemma length_4: "length z = 4 \<Longrightarrow> \<exists>a b c d. z = [a, b, c, d]"
  by (auto simp: length_Suc_conv eval_nat_numeral)

text \<open>Two addresses have the same first bits exactly when they agree under the mask of these bits.\<close>

lemma mask_prefix:
  fixes a b :: "32 word"
  assumes "n \<le> 32"
  shows "a AND NOT (mask n) = b AND NOT (mask n) \<longleftrightarrow> unat a div 2 ^ n = unat b div 2 ^ n"
proof -
  have "a AND NOT (mask n) = b AND NOT (mask n) \<longleftrightarrow> drop_bit n a = drop_bit n b"
  proof
    assume "a AND NOT (mask n) = b AND NOT (mask n)"
    then have "drop_bit n (a AND NOT (mask n)) = drop_bit n (b AND NOT (mask n))" by simp
    moreover have "drop_bit n (x AND NOT (mask n)) = drop_bit n x" for x :: "32 word"
      by (intro bit_eqI) (auto simp: bit_simps dest: bit_imp_le_length)
    ultimately show "drop_bit n a = drop_bit n b" by simp
  next
    assume e: "drop_bit n a = drop_bit n b"
    have "bit a k = bit b k" if "n \<le> k" for k
      using arg_cong [OF e, of "\<lambda>w. bit w (k - n)"] that by (simp add: bit_simps)
    then show "a AND NOT (mask n) = b AND NOT (mask n)"
      by (intro bit_eqI) (auto simp: bit_simps)
  qed
  also have "\<dots> \<longleftrightarrow> unat (drop_bit n a) = unat (drop_bit n b)" by (simp add: word_eq_iff_unsigned)
  also have "\<dots> \<longleftrightarrow> unat a div 2 ^ n = unat b div 2 ^ n"
    by (simp only: unat_drop_bit_eq drop_bit_eq_div [where ?'a = nat])
  finally show ?thesis .
qed

text \<open>The bytes of an address make a number in base 256.\<close>

lemma push_byte:
  fixes w :: "32 word"
  assumes "v < 256"
  shows "push_bit 8 w OR word_of_nat v = word_of_nat (256 * unat w + v)"
proof -
  have "\<not> bit v k" if "8 \<le> k" for k
  proof -
    have "take_bit 8 v = v" using assms by (simp add: take_bit_nat_eq_self)
    then show ?thesis using that by (metis bit_take_bit_iff linorder_not_less)
  qed
  then have "push_bit 8 w OR word_of_nat v = push_bit 8 w + word_of_nat v"
    by (intro disjunctive_add_eq_or [symmetric] bit_eqI) (auto simp: bit_simps)
  then show ?thesis by (simp add: push_bit_eq_mult)
qed

lemma unat_word_of_nat_same: "v < 2 ^ 32 \<Longrightarrow> unat (word_of_nat v :: 32 word) = v"
  by (simp add: unat_of_nat take_bit_nat_eq_self)

lemma pack_ip_bytes:
  assumes "a < 256" "b < 256" "c < 256" "d < 256"
  shows "unat (pack_ip (map int [a, b, c, d])) = 256 * (256 * (256 * a + b) + c) + d"
proof -
  have "pack_ip (map int [a, b, c, d]) = push_bit 8 (push_bit 8 (push_bit 8 (word_of_nat a) OR word_of_nat b) OR word_of_nat c) OR word_of_nat d"
    by (simp add: pack_ip_def push_bit_or or.assoc)
  also have "\<dots> = word_of_nat (256 * (256 * (256 * a + b) + c) + d)"
    using assms by (simp add: push_byte unat_word_of_nat_same del: of_nat_add of_nat_mult)
  finally show ?thesis using assms by (simp add: unat_word_of_nat_same del: of_nat_add of_nat_mult)
qed

section \<open>Properties\<close>

text \<open>C11: \<^verbatim>\<open>codanetIsDottedDecimal\<close> reads back every printed address: for four numbers below
  256 written in decimal with dots between them it returns these numbers.  It refuses larger ones
  up to the greatest unsigned number of 32 bits; beyond that only the lower 32 bits of a number count, so that
  \<^verbatim>\<open>4294967297.2.3.4\<close> is taken for 1.2.3.4, until from \<open>2 ^ 63\<close> on all are refused again.\<close>

theorem codanetIsDottedDecimal_roundtrip:
  "codanetIsDottedDecimal (Some (dotted [a, b, c, d])) =
     (if list_all (\<lambda>n. n < 2 ^ 63 \<and> n mod 2 ^ 32 < 256) [a, b, c, d] then Some (map (\<lambda>n. int (n mod 2 ^ 32)) [a, b, c, d]) else None)"
  using read_dotted [of a b c d] by (simp only: taken_for_byte_def [abs_def])

lemma codanetIsDottedDecimal_roundtrip_witness:
  "codanetIsDottedDecimal (Some (dotted [129, 57, 29, 10])) = Some [129, 57, 29, 10]
     \<and> codanetIsDottedDecimal (Some (dotted [4294967297, 2, 3, 4])) = Some [1, 2, 3, 4]"
  using codanetIsDottedDecimal_roundtrip [of 129 57 29 10] codanetIsDottedDecimal_roundtrip [of 4294967297 2 3 4] by simp

text \<open>C12: for printed addresses and a mask of the leading \<open>32 - n\<close> bits, \<^verbatim>\<open>codanetOnSameSubnet2\<close>
  says that the addresses are on one subnet exactly when their leading \<open>32 - n\<close> bits agree, the four
  numbers of an address being the digits of a number in base 256, the first one the highest.\<close>

theorem codanetOnSameSubnet2_prefix:
  assumes "n \<le> 32" and "\<forall>v \<in> set (x @ y). v < 256" and "length x = 4" and "length y = 4"
  shows "codanetOnSameSubnet2 (Some (dotted x)) (Some (dotted y)) (NOT (mask n))
     = Some (foldl (\<lambda>v b. 256 * v + b) 0 x div 2 ^ n = foldl (\<lambda>v b. 256 * v + b) 0 y div 2 ^ n)"
proof -
  have "codanetIsDottedDecimal (Some (dotted z)) = Some (map int z) \<and> unat (pack_ip (map int z)) = foldl (\<lambda>v b. 256 * v + b) 0 z"
    if z: "length z = 4" "\<forall>v \<in> set z. v < 256" for z
  proof -
    obtain a b c d where z': "z = [a, b, c, d]" using length_4 [OF z(1)] by blast
    then have "a < 256" "b < 256" "c < 256" "d < 256" using z(2) by simp_all
    then show ?thesis using pack_ip_bytes [of a b c d] byte_taken by (simp add: z' read_dotted)
  qed
  then have "codanetIsDottedDecimal (Some (dotted x)) = Some (map int x)" "unat (pack_ip (map int x)) = foldl (\<lambda>v b. 256 * v + b) 0 x"
    "codanetIsDottedDecimal (Some (dotted y)) = Some (map int y)" "unat (pack_ip (map int y)) = foldl (\<lambda>v b. 256 * v + b) 0 y"
    using assms(2-4) by auto
  then show ?thesis using mask_prefix [OF assms(1)] by (simp add: codanetOnSameSubnet2_def)
qed

lemma codanetOnSameSubnet2_prefix_witness:
  "codanetOnSameSubnet2 (Some (dotted [129, 57, 29, 10])) (Some (dotted [129, 57, 31, 7])) (NOT (mask 8)) = Some False"
  using codanetOnSameSubnet2_prefix [of 8 "[129, 57, 29, 10]" "[129, 57, 31, 7]"] by simp

end
