(* ===== verification/Et_SysConfig.thy ===== *)
theory Et_SysConfig
  imports Et_ConfigInterface Et_Address
begin

text \<open>
  The configuration of an ET system (\<^verbatim>\<open>src/src/external/et/src/libsrc/et_sysconfig.c\<close>) and
  its check when a system is started (\<^verbatim>\<open>et_system_config_check\<close> of \<^verbatim>\<open>et_system.c\<close>).

  Setters return their status and the configuration they leave; where the source can store
  outside an array the result is an option, \<open>None\<close> standing for that.  The broadcast
  addresses that \<^verbatim>\<open>etNetGetBroadcastAddrs\<close> finds on the host are an argument of the
  initialisation.  Array arguments have at least the length the caller announces.
\<close>

section \<open>Initialisation, setters and getters\<close>

abbreviation (input) "ET_SYSTEM_EVENTS \<equiv> (300 :: int)"
abbreviation (input) "ET_SYSTEM_NTEMPS \<equiv> (300 :: int)"
abbreviation (input) "ET_SYSTEM_ESIZE \<equiv> (1000 :: 64 word)"
abbreviation (input) "ET_SYSTEM_NSTATS \<equiv> (200 :: int)"
abbreviation (input) "ET_PROCESSES_MAX \<equiv> (110 :: int)"
abbreviation (input) "ET_BROADCAST_PORT \<equiv> (11111 :: int)"
abbreviation (input) "ET_EVENT_GROUPS_MAX \<equiv> (500 :: nat)"

definition et_system_config_init :: "string list option \<Rightarrow> int \<times> et_sys_config option" where
  "et_system_config_init bcast = (let bs = (case bcast of None \<Rightarrow> [] | Some l \<Rightarrow> l) in
     if length bs \<ge> ET_MAXADDRESSES then (ET_ERROR_NOMEM, None)
     else (ET_OK, Some \<lparr>y_event_size = ET_SYSTEM_ESIZE, y_init = ET_STRUCT_OK,
       y_nevents = ET_SYSTEM_EVENTS, y_ntemps = ET_SYSTEM_NTEMPS, y_nstations = ET_SYSTEM_NSTATS,
       y_nprocesses = ET_PROCESSES_MAX, y_nattachments = ET_ATTACHMENTS_MAX, y_groupCount = 1,
       y_groups = ET_SYSTEM_EVENTS # replicate (ET_EVENT_GROUPS_MAX - 1) 0, y_filename = [],
       y_port = ET_BROADCAST_PORT, y_serverport = 0, y_tcpSendBufSize = 0, y_tcpRecvBufSize = 0,
       y_tcpNoDelay = 1, y_bcastaddrs = bs, y_mcastaddrs = []\<rparr>))"

definition et_system_config_setevents :: "et_sys_config \<Rightarrow> int \<Rightarrow> int \<times> et_sys_config" where
  "et_system_config_setevents sc val =
     (if y_init sc \<noteq> ET_STRUCT_OK then (ET_ERROR, sc)
      else if val < 1 then (ET_ERROR, sc)
      else (let sc1 = sc\<lparr>y_nevents := val\<rparr>;
                sc2 = (if y_groupCount sc1 = 1 then sc1\<lparr>y_groups := (y_groups sc1)[0 := val]\<rparr> else sc1);
                sc3 = (if y_ntemps sc2 > val then sc2\<lparr>y_ntemps := val\<rparr> else sc2)
            in (ET_OK, sc3)))"

definition et_system_config_getevents :: "et_sys_config \<Rightarrow> int \<times> int" where
  "et_system_config_getevents sc = (ET_OK, y_nevents sc)"

definition et_system_config_setsize :: "et_sys_config \<Rightarrow> 64 word \<Rightarrow> int \<times> et_sys_config" where
  "et_system_config_setsize sc val =
     (if y_init sc \<noteq> ET_STRUCT_OK then (ET_ERROR, sc)
      else if val < 1 then (ET_ERROR, sc)
      else (ET_OK, sc\<lparr>y_event_size := val\<rparr>))"

definition et_system_config_getsize :: "et_sys_config \<Rightarrow> int \<times> 64 word" where
  "et_system_config_getsize sc = (ET_OK, y_event_size sc)"

definition et_system_config_settemps :: "et_sys_config \<Rightarrow> int \<Rightarrow> int \<times> et_sys_config" where
  "et_system_config_settemps sc val =
     (if y_init sc \<noteq> ET_STRUCT_OK then (ET_ERROR, sc)
      else if val < 1 then (ET_ERROR, sc)
      else (ET_OK, sc\<lparr>y_ntemps := val\<rparr>))"

definition et_system_config_gettemps :: "et_sys_config \<Rightarrow> int \<times> int" where
  "et_system_config_gettemps sc = (ET_OK, y_ntemps sc)"

definition et_system_config_setstations :: "et_sys_config \<Rightarrow> int \<Rightarrow> int \<times> et_sys_config" where
  "et_system_config_setstations sc val =
     (if y_init sc \<noteq> ET_STRUCT_OK then (ET_ERROR, sc)
      else if val < 1 then (ET_ERROR, sc)
      else (ET_OK, sc\<lparr>y_nstations := val\<rparr>))"

definition et_system_config_getstations :: "et_sys_config \<Rightarrow> int \<times> int" where
  "et_system_config_getstations sc = (ET_OK, y_nstations sc)"

definition et_system_config_setprocs :: "et_sys_config \<Rightarrow> int \<Rightarrow> int \<times> et_sys_config" where
  "et_system_config_setprocs sc val =
     (if y_init sc \<noteq> ET_STRUCT_OK then (ET_ERROR, sc)
      else if val < 1 then (ET_ERROR, sc)
      else (ET_OK, sc\<lparr>y_nprocesses := (if val > ET_PROCESSES_MAX then ET_PROCESSES_MAX else val)\<rparr>))"

definition et_system_config_getprocs :: "et_sys_config \<Rightarrow> int \<times> int" where
  "et_system_config_getprocs sc = (ET_OK, y_nprocesses sc)"

definition et_system_config_setattachments :: "et_sys_config \<Rightarrow> int \<Rightarrow> int \<times> et_sys_config" where
  "et_system_config_setattachments sc val =
     (if y_init sc \<noteq> ET_STRUCT_OK then (ET_ERROR, sc)
      else if val < 1 then (ET_ERROR, sc)
      else (ET_OK, sc\<lparr>y_nattachments := (if val > ET_ATTACHMENTS_MAX then ET_ATTACHMENTS_MAX else val)\<rparr>))"

definition et_system_config_getattachments :: "et_sys_config \<Rightarrow> int \<times> int" where
  "et_system_config_getattachments sc = (ET_OK, y_nattachments sc)"

definition et_system_config_setport :: "et_sys_config \<Rightarrow> int \<Rightarrow> int \<times> et_sys_config" where
  "et_system_config_setport sc val =
     (if y_init sc \<noteq> ET_STRUCT_OK then (ET_ERROR, sc)
      else if val < 1024 \<or> val > 65535 then (ET_ERROR, sc)
      else (ET_OK, sc\<lparr>y_port := val\<rparr>))"

definition et_system_config_getport :: "et_sys_config \<Rightarrow> int \<times> int" where
  "et_system_config_getport sc = (ET_OK, y_port sc)"

definition et_system_config_setserverport :: "et_sys_config \<Rightarrow> int \<Rightarrow> int \<times> et_sys_config" where
  "et_system_config_setserverport sc val =
     (if y_init sc \<noteq> ET_STRUCT_OK then (ET_ERROR, sc)
      else if val < 1024 \<or> val > 65535 then (ET_ERROR, sc)
      else (ET_OK, sc\<lparr>y_serverport := val\<rparr>))"

definition et_system_config_getserverport :: "et_sys_config \<Rightarrow> int \<times> int" where
  "et_system_config_getserverport sc = (ET_OK, y_serverport sc)"

text \<open>
  The loop of \<^verbatim>\<open>et_system_config_setgroups\<close> over the \<open>sz\<close> values of the caller: it stores
  them one by one and stops at the first one that is not positive.
\<close>

fun store_groups :: "nat \<Rightarrow> int list \<Rightarrow> int list \<Rightarrow> bool \<times> int list" where
  "store_groups i [] gs = (True, gs)"
| "store_groups i (g # rest) gs =
     (if g < 1 then (False, gs) else store_groups (Suc i) rest (gs[i := g]))"

definition et_system_config_setgroups ::
  "et_sys_config \<Rightarrow> int list option \<Rightarrow> int \<Rightarrow> int \<times> et_sys_config" where
  "et_system_config_setgroups sc groups sz =
     (if y_init sc \<noteq> ET_STRUCT_OK then (ET_ERROR, sc)
      else if sz = 1 then
        (ET_OK, sc\<lparr>y_groups := replicate ET_EVENT_GROUPS_MAX 0, y_groupCount := 1\<rparr>)
      else (case groups of None \<Rightarrow> (ET_ERROR, sc)
        | Some gs \<Rightarrow>
          if sz > int ET_EVENT_GROUPS_MAX \<or> sz < 1 then (ET_ERROR, sc)
          else (case store_groups 0 (take (nat sz) gs) (y_groups sc) of
             (False, stored) \<Rightarrow> (ET_ERROR, sc\<lparr>y_groups := stored\<rparr>)
           | (True, stored) \<Rightarrow>
               (ET_OK, sc\<lparr>y_groups := take (nat sz) stored @ replicate (ET_EVENT_GROUPS_MAX - nat sz) 0,
                          y_groupCount := sz\<rparr>))))"

definition et_system_config_settcp ::
  "et_sys_config \<Rightarrow> int \<Rightarrow> int \<Rightarrow> int \<Rightarrow> int \<times> et_sys_config" where
  "et_system_config_settcp sc rBufSize sBufSize noDelay =
     (if y_init sc \<noteq> ET_STRUCT_OK then (ET_ERROR, sc)
      else if rBufSize < 0 \<or> sBufSize < 0 then (ET_ERROR, sc)
      else (ET_OK, sc\<lparr>y_tcpRecvBufSize := rBufSize, y_tcpSendBufSize := sBufSize,
                      y_tcpNoDelay := (if noDelay < 0 then 1 else noDelay)\<rparr>))"

definition et_system_config_gettcp :: "et_sys_config \<Rightarrow> int \<times> int \<times> int \<times> int" where
  "et_system_config_gettcp sc =
     (ET_OK, y_tcpRecvBufSize sc, y_tcpSendBufSize sc, y_tcpNoDelay sc)"

definition et_system_config_addmulticast ::
  "et_sys_config \<Rightarrow> string option \<Rightarrow> (int \<times> et_sys_config) option" where
  "et_system_config_addmulticast sc val =
     (if y_init sc \<noteq> ET_STRUCT_OK then Some (ET_ERROR, sc)
      else case val of None \<Rightarrow> Some (ET_ERROR, sc)
      | Some v \<Rightarrow>
        if length v \<ge> ET_IPADDRSTRLEN \<or> length v < 7 then Some (ET_ERROR, sc)
        else (case first_number v of None \<Rightarrow> None
          | Some firstnumber \<Rightarrow>
            Some (if firstnumber < 224 \<or> firstnumber > 239 then (ET_ERROR, sc)
                  else if v \<in> set (y_mcastaddrs sc) then (ET_OK, sc)
                  else if length (y_mcastaddrs sc) = ET_MAXADDRESSES then (ET_ERROR, sc)
                  else (ET_OK, sc\<lparr>y_mcastaddrs := y_mcastaddrs sc @ [v]\<rparr>))))"

definition et_system_config_removemulticast ::
  "et_sys_config \<Rightarrow> string option \<Rightarrow> (int \<times> et_sys_config) option" where
  "et_system_config_removemulticast sc val =
     (if y_init sc \<noteq> ET_STRUCT_OK then Some (ET_ERROR, sc)
      else case val of None \<Rightarrow> Some (ET_ERROR, sc)
      | Some v \<Rightarrow>
        if length v \<ge> ET_IPADDRSTRLEN \<or> length v < 7 then Some (ET_ERROR, sc)
        else (case first_number v of None \<Rightarrow> None
          | Some firstnumber \<Rightarrow>
            Some (if firstnumber < 224 \<or> firstnumber > 239 then (ET_ERROR, sc)
                  else (ET_OK, sc\<lparr>y_mcastaddrs := addr_remove v (y_mcastaddrs sc)\<rparr>))))"

definition et_system_config_setfile :: "et_sys_config \<Rightarrow> string option \<Rightarrow> int \<times> et_sys_config" where
  "et_system_config_setfile sc val =
     (if y_init sc \<noteq> ET_STRUCT_OK then (ET_ERROR, sc)
      else case val of None \<Rightarrow> (ET_ERROR, sc)
      | Some v \<Rightarrow> if length v > ET_FILENAME_LENGTH - 1 then (ET_ERROR, sc)
                  else (ET_OK, sc\<lparr>y_filename := v\<rparr>))"

definition et_system_config_getfile :: "et_sys_config \<Rightarrow> int \<times> string" where
  "et_system_config_getfile sc = (ET_OK, y_filename sc)"

section \<open>Checking the configuration of a new system\<close>

text \<open>The sizes of the groups are added up in a 32-bit \<^verbatim>\<open>int\<close>, which can overflow: no setter limits them.\<close>

definition groups_sum :: "et_sys_config \<Rightarrow> int" where
  "groups_sum config =
     foldl (\<lambda>count g. c_int (count + g)) 0 (take (nat (y_groupCount config)) (y_groups config))"

definition et_system_config_check :: "et_sys_config \<Rightarrow> int \<times> et_sys_config" where
  "et_system_config_check config =
     (if y_nevents config < 1 then (ET_ERROR, config)
      else if y_event_size config < 1 then (ET_ERROR, config)
      else if groups_sum config \<noteq> y_nevents config then (ET_ERROR, config)
      else if y_ntemps config < 1 then (ET_ERROR, config)
      else if y_ntemps config > y_nevents config then (ET_ERROR, config)
      else if y_nstations config < 1 then (ET_ERROR, config)
      else if y_nattachments config < 1 then (ET_ERROR, config)
      else if y_nattachments config > ET_ATTACHMENTS_MAX then (ET_ERROR, config)
      else if y_nprocesses config < 1 then (ET_ERROR, config)
      else if y_nprocesses config > ET_PROCESSES_MAX then (ET_ERROR, config)
      else (ET_OK, config\<lparr>y_filename := take (ET_FILENAME_LENGTH - 1) (y_filename config)\<rparr>))"

section \<open>The setters keep the contract of the interface\<close>

abbreviation port_legal :: "int \<Rightarrow> bool" where
  "port_legal v \<equiv> 1024 \<le> v \<and> v \<le> 65535"

lemma word_lt_1: "(v :: 64 word) < 1 \<longleftrightarrow> v = 0"
  by (simp add: word_less_nat_alt unat_eq_zero)

interpretation sys_size: config_field y_init "\<lambda>v. v \<noteq> 0" id
    et_system_config_setsize et_system_config_getsize
  by unfold_locales (auto simp: et_system_config_setsize_def et_system_config_getsize_def word_lt_1)

interpretation sys_temps: config_field y_init "\<lambda>v. 1 \<le> v" id
    et_system_config_settemps et_system_config_gettemps
  by unfold_locales (auto simp: et_system_config_settemps_def et_system_config_gettemps_def)

interpretation sys_stations: config_field y_init "\<lambda>v. 1 \<le> v" id
    et_system_config_setstations et_system_config_getstations
  by unfold_locales (auto simp: et_system_config_setstations_def et_system_config_getstations_def)

interpretation sys_procs: config_field y_init "\<lambda>v. 1 \<le> v" "min ET_PROCESSES_MAX"
    et_system_config_setprocs et_system_config_getprocs
  by unfold_locales (auto simp: et_system_config_setprocs_def et_system_config_getprocs_def)

interpretation sys_attachments: config_field y_init "\<lambda>v. 1 \<le> v" "min ET_ATTACHMENTS_MAX"
    et_system_config_setattachments et_system_config_getattachments
  by unfold_locales (auto simp: et_system_config_setattachments_def et_system_config_getattachments_def)

interpretation sys_port: config_field y_init port_legal id
    et_system_config_setport et_system_config_getport
  by unfold_locales (auto simp: et_system_config_setport_def et_system_config_getport_def)

interpretation sys_serverport: config_field y_init port_legal id
    et_system_config_setserverport et_system_config_getserverport
  by unfold_locales (auto simp: et_system_config_setserverport_def et_system_config_getserverport_def)

interpretation sys_file: config_field y_init "\<lambda>v. v \<noteq> None \<and> length (the v) < ET_FILENAME_LENGTH" the
    et_system_config_setfile et_system_config_getfile
  by unfold_locales (auto simp: et_system_config_setfile_def et_system_config_getfile_def split: option.splits)

interpretation sys_tcp: config_field y_init "\<lambda>(r, b, d). 0 \<le> r \<and> 0 \<le> b"
    "\<lambda>(r, b, d). (r, b, if d < 0 then 1 else d)"
    "\<lambda>sc (r, b, d). et_system_config_settcp sc r b d" et_system_config_gettcp
  by unfold_locales (auto simp: et_system_config_settcp_def et_system_config_gettcp_def split: if_splits)

section \<open>Any sequence of calls\<close>

datatype sys_config_call = SysEvents int | SysSize "64 word" | SysTemps int | SysStations int
  | SysProcs int | SysAttachments int | SysPort int | SysServerport int
  | SysGroups "int list option" int | SysTcp int int int | SysFile "string option"
  | SysAddmulticast "string option" | SysRemovemulticast "string option"

fun do_sys_config_call :: "et_sys_config \<Rightarrow> sys_config_call \<Rightarrow> (int \<times> et_sys_config) option" where
  "do_sys_config_call sc (SysEvents v) = Some (et_system_config_setevents sc v)"
| "do_sys_config_call sc (SysSize w) = Some (et_system_config_setsize sc w)"
| "do_sys_config_call sc (SysTemps v) = Some (et_system_config_settemps sc v)"
| "do_sys_config_call sc (SysStations v) = Some (et_system_config_setstations sc v)"
| "do_sys_config_call sc (SysProcs v) = Some (et_system_config_setprocs sc v)"
| "do_sys_config_call sc (SysAttachments v) = Some (et_system_config_setattachments sc v)"
| "do_sys_config_call sc (SysPort v) = Some (et_system_config_setport sc v)"
| "do_sys_config_call sc (SysServerport v) = Some (et_system_config_setserverport sc v)"
| "do_sys_config_call sc (SysGroups gs n) = Some (et_system_config_setgroups sc gs n)"
| "do_sys_config_call sc (SysTcp r b d) = Some (et_system_config_settcp sc r b d)"
| "do_sys_config_call sc (SysFile f) = Some (et_system_config_setfile sc f)"
| "do_sys_config_call sc (SysAddmulticast a) = et_system_config_addmulticast sc a"
| "do_sys_config_call sc (SysRemovemulticast a) = et_system_config_removemulticast sc a"

fun sys_config_calls :: "et_sys_config \<Rightarrow> sys_config_call list \<Rightarrow> et_sys_config option" where
  "sys_config_calls sc [] = Some sc"
| "sys_config_calls sc (c # cs) =
     (case do_sys_config_call sc c of None \<Rightarrow> None | Some (_, sc') \<Rightarrow> sys_config_calls sc' cs)"

definition sys_config_wf :: "et_sys_config \<Rightarrow> bool" where
  "sys_config_wf sc \<longleftrightarrow> y_init sc = ET_STRUCT_OK \<and> 1 \<le> y_nevents sc \<and> y_event_size sc \<noteq> 0
     \<and> 1 \<le> y_ntemps sc \<and> 1 \<le> y_nstations sc
     \<and> 1 \<le> y_nprocesses sc \<and> y_nprocesses sc \<le> ET_PROCESSES_MAX
     \<and> 1 \<le> y_nattachments sc \<and> y_nattachments sc \<le> ET_ATTACHMENTS_MAX
     \<and> 1 \<le> y_groupCount sc \<and> y_groupCount sc \<le> int ET_EVENT_GROUPS_MAX
     \<and> length (y_groups sc) = ET_EVENT_GROUPS_MAX \<and> length (y_filename sc) < ET_FILENAME_LENGTH
     \<and> port_legal (y_port sc) \<and> (y_serverport sc = 0 \<or> port_legal (y_serverport sc))
     \<and> distinct (y_mcastaddrs sc) \<and> length (y_mcastaddrs sc) \<le> ET_MAXADDRESSES
     \<and> (\<forall>a \<in> set (y_mcastaddrs sc). length a < ET_IPADDRSTRLEN)"

lemma store_groups_length: "length (snd (store_groups i gs stored)) = length stored"
  by (induction i gs stored rule: store_groups.induct) auto

lemma setgroups_wf: "sys_config_wf sc \<Longrightarrow> sys_config_wf (snd (et_system_config_setgroups sc gs n))"
proof (cases gs)
  case (Some g)
  assume wf: "sys_config_wf sc"
  obtain ok stored where st: "store_groups 0 (take (nat n) g) (y_groups sc) = (ok, stored)"
    by fastforce
  then have "length stored = ET_EVENT_GROUPS_MAX"
    using store_groups_length [of 0 "take (nat n) g" "y_groups sc"] wf by (simp add: sys_config_wf_def)
  with wf st Some show ?thesis
    by (cases ok) (auto simp: sys_config_wf_def et_system_config_setgroups_def)
qed (auto simp: sys_config_wf_def et_system_config_setgroups_def)

lemma setevents_wf: "sys_config_wf sc \<Longrightarrow> sys_config_wf (snd (et_system_config_setevents sc v))"
  by (auto simp: sys_config_wf_def et_system_config_setevents_def Let_def)

lemma multicast_wf:
  "sys_config_wf sc \<Longrightarrow> et_system_config_addmulticast sc a = Some (r, sc') \<Longrightarrow> sys_config_wf sc'"
  "sys_config_wf sc \<Longrightarrow> et_system_config_removemulticast sc a = Some (r, sc') \<Longrightarrow> sys_config_wf sc'"
proof -
  have r: "distinct (remove1 x xs) \<and> length (remove1 x xs) \<le> n \<and> (\<forall>a \<in> set (remove1 x xs). P a)"
    if "distinct xs" "length xs \<le> n" "\<forall>a \<in> set xs. P a" for x n P and xs :: "string list"
    using that by (auto simp: length_remove1 dest: notin_set_remove1)
  show "sys_config_wf sc \<Longrightarrow> et_system_config_addmulticast sc a = Some (r, sc') \<Longrightarrow> sys_config_wf sc'"
    by (auto simp: sys_config_wf_def et_system_config_addmulticast_def split: option.splits if_splits)
  show "sys_config_wf sc \<Longrightarrow> et_system_config_removemulticast sc a = Some (r, sc') \<Longrightarrow> sys_config_wf sc'"
    using r by (auto simp: sys_config_wf_def et_system_config_removemulticast_def addr_remove_remove1
        split: option.splits if_splits)
qed

lemma setters_wf:
  assumes "sys_config_wf sc"
  shows "sys_config_wf (snd (et_system_config_setsize sc w))"
    and "sys_config_wf (snd (et_system_config_settemps sc v))"
    and "sys_config_wf (snd (et_system_config_setstations sc v))"
    and "sys_config_wf (snd (et_system_config_setprocs sc v))"
    and "sys_config_wf (snd (et_system_config_setattachments sc v))"
    and "sys_config_wf (snd (et_system_config_setport sc v))"
    and "sys_config_wf (snd (et_system_config_setserverport sc v))"
    and "sys_config_wf (snd (et_system_config_settcp sc r b d))"
    and "sys_config_wf (snd (et_system_config_setfile sc f))"
  using assms
  by (simp_all add: sys_config_wf_def et_system_config_setsize_def et_system_config_settemps_def
    et_system_config_setstations_def et_system_config_setprocs_def et_system_config_setattachments_def
    et_system_config_setport_def et_system_config_setserverport_def et_system_config_settcp_def
    et_system_config_setfile_def word_lt_1 split: option.split)

lemma sys_config_call_wf:
  assumes wf: "sys_config_wf sc" and c: "do_sys_config_call sc c = Some (r, sc')"
  shows "sys_config_wf sc'"
proof -
  have "sys_config_wf sc'" if "sys_config_wf (snd x)" "Some x = Some (r, sc')" for x
    using that by simp
  note some = this
  show ?thesis
    by (cases c; insert c; simp only: do_sys_config_call.simps)
      (blast intro: some setters_wf [OF wf] setevents_wf [OF wf] setgroups_wf [OF wf]
         multicast_wf [OF wf])+
qed

lemma sys_config_calls_wf:
  "sys_config_wf sc \<Longrightarrow> sys_config_calls sc cs = Some sc' \<Longrightarrow> sys_config_wf sc'"
  by (induction cs arbitrary: sc) (auto dest: sys_config_call_wf split: option.splits)

lemma fold_c_int: "foldl (\<lambda>count g. c_int (count + g)) (c_int n) gs = c_int (n + sum_list gs)"
proof (induction gs arbitrary: n)
  case (Cons g gs)
  have "c_int (c_int n + g) = c_int (n + g)" by (rule c_int_add)
  then show ?case using Cons [of "n + g"] by (simp add: add.assoc)
qed simp

lemma groups_sum_eq: "groups_sum sc = c_int (sum_list (take (nat (y_groupCount sc)) (y_groups sc)))"
  using fold_c_int [of 0] by (simp add: groups_sum_def c_int_same)

text \<open>Sizes that add up to the number of events by overflow are more than the events.\<close>

lemma groups_sum_at_most:
  assumes "\<forall>g \<in> set (take (nat (y_groupCount sc)) (y_groups sc)). 1 \<le> g" and "0 \<le> groups_sum sc"
  shows "groups_sum sc \<le> sum_list (take (nat (y_groupCount sc)) (y_groups sc))"
proof -
  let ?n = "sum_list (take (nat (y_groupCount sc)) (y_groups sc))"
  have "0 \<le> ?n" using assms(1) by (intro sum_list_nonneg) force
  moreover have "groups_sum sc = groups_sum sc mod 2 ^ 32"
    using assms(2) c_int_range(2) [of ?n] by (simp add: groups_sum_eq)
  moreover have "groups_sum sc mod 2 ^ 32 = ?n mod 2 ^ 32" unfolding groups_sum_eq by (rule c_int_mod)
  ultimately show ?thesis using zmod_le_nonneg_dividend [of ?n "2 ^ 32"] by simp
qed

lemma check_wf:
  "sys_config_wf sc \<Longrightarrow> et_system_config_check sc = (if
     groups_sum sc = y_nevents sc \<and> y_ntemps sc \<le> y_nevents sc then (ET_OK, sc) else (ET_ERROR, sc))"
  by (auto simp: sys_config_wf_def et_system_config_check_def word_lt_1)

lemma check_ok:
  assumes "et_system_config_check c0 = (ET_OK, c)"
  shows "1 \<le> y_nevents c" "groups_sum c = y_nevents c" "1 \<le> y_nstations c"
    "1 \<le> y_nattachments c" "y_nattachments c \<le> ET_ATTACHMENTS_MAX"
  using assms by (auto simp: et_system_config_check_def groups_sum_def split: if_splits)

lemma init_wf: "et_system_config_init bcast = (r, Some sc) \<Longrightarrow> sys_config_wf sc"
  by (auto simp: et_system_config_init_def sys_config_wf_def Let_def split: if_splits)

section \<open>Properties\<close>

text \<open>C13: whatever calls follow \<^verbatim>\<open>et_system_config_init\<close> (and stay within their arrays), the
  configuration keeps all its fields legal and its arrays at their sizes, and
  \<^verbatim>\<open>et_system_config_check\<close> accepts it exactly when the sizes of the event groups, added up modulo \<open>2 ^ 32\<close>, give the
  number of events and there are no more temporary events than events: sizes that overflow the
  \<^verbatim>\<open>int\<close> in which they are added are accepted, such as 2147483647, 2147483647 and 302 for 300 events.\<close>

theorem et_system_config_check_calls:
  assumes "et_system_config_init bcast = (r, Some sc)" and "sys_config_calls sc cs = Some sc'"
  shows "sys_config_wf sc' \<and> (fst (et_system_config_check sc') = ET_OK \<longleftrightarrow>
     c_int (sum_list (take (nat (y_groupCount sc')) (y_groups sc'))) = y_nevents sc' \<and> y_ntemps sc' \<le> y_nevents sc')"
  using sys_config_calls_wf [OF init_wf [OF assms(1)] assms(2)] by (simp add: check_wf groups_sum_eq)

lemma et_system_config_check_calls_witness:
  "\<exists>sc sc'. et_system_config_init None = (ET_OK, Some sc)
     \<and> sys_config_calls sc [SysGroups (Some [2147483647, 2147483647, 302]) 3] = Some sc'
     \<and> fst (et_system_config_check sc') = ET_OK"
proof -
  define sc where "sc = the (snd (et_system_config_init None))"
  define sc' where "sc' = the (sys_config_calls sc [SysGroups (Some [2147483647, 2147483647, 302]) 3])"
  have 1: "et_system_config_init None = (ET_OK, Some sc)"
    by (simp add: sc_def et_system_config_init_def)
  moreover have 2: "sys_config_calls sc [SysGroups (Some [2147483647, 2147483647, 302]) 3] = Some sc'"
    by (simp add: sc'_def split: prod.split)
  moreover have s: "y_nevents sc' = 300" "y_ntemps sc' = 300"
    "sum_list (take (nat (y_groupCount sc')) (y_groups sc')) = 300 + 2 ^ 32"
    by (simp_all add: sc'_def sc_def et_system_config_init_def et_system_config_setgroups_def Let_def eval_nat_numeral)
  moreover have "c_int (300 + 2 ^ 32) = c_int 300" by (simp only: c_int_eq_iff) simp
  ultimately show ?thesis using et_system_config_check_calls [OF 1 2] by (simp add: c_int_same)
qed

text \<open>C14: \<^verbatim>\<open>et_system_config_setgroups\<close> with a single group clears the sizes of all groups and
  accepts the call, so that \<^verbatim>\<open>et_system_config_check\<close> refuses to start a system with that
  configuration, unless \<^verbatim>\<open>et_system_config_setevents\<close> is called afterwards with a positive \<^verbatim>\<open>int\<close>,
  which puts all events into the one group.\<close>

theorem et_system_config_setgroups_single:
  assumes "sys_config_wf sc"
  shows "fst (et_system_config_setgroups sc gs 1) = ET_OK
     \<and> fst (et_system_config_check (snd (et_system_config_setgroups sc gs 1))) = ET_ERROR
     \<and> (1 \<le> n \<and> n < 2 ^ 31 \<longrightarrow> fst (et_system_config_check
          (snd (et_system_config_setevents (snd (et_system_config_setgroups sc gs 1)) n))) = ET_OK)"
proof -
  let ?one = "snd (et_system_config_setgroups sc gs 1)" and ?n = "snd (et_system_config_setevents (snd (et_system_config_setgroups sc gs 1)) n)"
  have one: "?one = sc\<lparr>y_groups := replicate ET_EVENT_GROUPS_MAX 0, y_groupCount := 1\<rparr>"
    "fst (et_system_config_setgroups sc gs 1) = ET_OK"
    using assms by (simp_all add: et_system_config_setgroups_def sys_config_wf_def)
  have "groups_sum ?one = 0" by (simp add: groups_sum_eq one take_replicate c_int_same)
  then have "fst (et_system_config_check ?one) = ET_ERROR"
    using assms setgroups_wf [OF assms, of gs 1] by (simp add: check_wf one) (simp add: sys_config_wf_def)
  moreover have "fst (et_system_config_check ?n) = ET_OK" if n: "1 \<le> n" "n < 2 ^ 31"
  proof -
    have "take 1 (y_groups ?n) = [n]" "y_groupCount ?n = 1" "y_nevents ?n = n" "y_ntemps ?n \<le> n"
      using assms n unfolding one
      by (simp_all add: et_system_config_setevents_def sys_config_wf_def Let_def take_Suc_conv_app_nth)
    then have "groups_sum ?n = n" using n by (simp add: groups_sum_eq c_int_same)
    then show ?thesis using check_wf [OF setevents_wf [OF setgroups_wf [OF assms]]] \<open>y_nevents ?n = n\<close> \<open>y_ntemps ?n \<le> n\<close>
      by simp
  qed
  ultimately show ?thesis using one(2) by blast
qed

lemma et_system_config_setgroups_single_witness:
  "\<exists>sc. et_system_config_init None = (ET_OK, Some sc)
     \<and> fst (et_system_config_check (snd (et_system_config_setgroups sc (Some [300]) 1))) = ET_ERROR"
proof -
  obtain sc where sc: "et_system_config_init None = (ET_OK, Some sc)"
    by (simp add: et_system_config_init_def)
  show ?thesis using sc et_system_config_setgroups_single [OF init_wf [OF sc]] by blast
qed

text \<open>C15: \<^verbatim>\<open>et_system_config_setgroups\<close> is not all or nothing: when a size in the caller's array
  is not positive it returns \<^verbatim>\<open>ET_ERROR\<close>, but the sizes before that one have replaced those of
  the configuration, whose number of groups is unchanged.\<close>

theorem et_system_config_setgroups_partial:
  assumes "sys_config_wf sc" and "\<forall>g \<in> set good. 1 \<le> g" and "bad < 1"
    and "n = int (length (good @ bad # rest))" and "2 \<le> n" and "n \<le> int ET_EVENT_GROUPS_MAX"
  shows "et_system_config_setgroups sc (Some (good @ bad # rest)) n
     = (ET_ERROR, sc\<lparr>y_groups := good @ drop (length good) (y_groups sc)\<rparr>)"
proof -
  have "store_groups i (good @ bad # rest) gs = (False, take i gs @ good @ drop (i + length good) gs)"
    if "i + length good \<le> length gs" for i gs
    using that assms(2,3)
  proof (induction good arbitrary: i gs)
    case (Cons g good)
    then have "i < length gs" by simp
    then have "take (Suc i) (gs[i := g]) = take i gs @ [g]"
      "drop (Suc i + length good) (gs[i := g]) = drop (Suc i + length good) gs"
      by (simp_all add: take_Suc_conv_app_nth)
    with Cons show ?case by simp
  qed simp
  from this [of 0 "y_groups sc"] assms show ?thesis
    by (auto simp: et_system_config_setgroups_def sys_config_wf_def)
qed

lemma et_system_config_setgroups_partial_witness:
  "\<exists>sc. et_system_config_init None = (ET_OK, Some sc)
     \<and> et_system_config_setgroups sc (Some [100, 0]) 2
       = (ET_ERROR, sc\<lparr>y_groups := 100 # drop 1 (y_groups sc)\<rparr>)"
proof -
  obtain sc where sc: "et_system_config_init None = (ET_OK, Some sc)"
    by (simp add: et_system_config_init_def)
  show ?thesis
    using sc et_system_config_setgroups_partial [OF init_wf [OF sc], of "[100]" 0 2 "[]"] by simp
qed

text \<open>C16: \<^verbatim>\<open>et_system_config_addmulticast\<close> stores beyond its array of four characters exactly when
  an initialised configuration is given a string of 7 to 15 characters in which no dot comes
  before the fifth character; for any other string it stays within its arrays.\<close>

theorem et_system_config_addmulticast_overflow:
  "et_system_config_addmulticast sc (Some v) = None \<longleftrightarrow>
     y_init sc = ET_STRUCT_OK \<and> 7 \<le> length v \<and> length v < 16 \<and> CHR ''.'' \<notin> set (take 4 v)"
proof -
  have "3 < length (takeWhile P v) \<longleftrightarrow> 3 < length v \<and> (\<forall>c \<in> set (take 4 v). P c)" for P :: "char \<Rightarrow> bool"
  proof (cases "3 < length v")
    case True
    then obtain a b c d w where "v = a # b # c # d # w"
      by (cases v rule: list.exhaust; cases "tl v"; cases "tl (tl v)"; cases "tl (tl (tl v))") auto
    then show ?thesis by simp
  next
    case False
    then show ?thesis using length_takeWhile_le [of P v] by simp
  qed
  then show ?thesis
    by (auto simp: et_system_config_addmulticast_def first_number_def strcspn_dot_def Let_def
        split: option.splits)
qed

text \<open>C17: a multicast address that was not in the list and has been added is removed again by
  \<^verbatim>\<open>et_system_config_removemulticast\<close> with the configuration back to what it was.\<close>

theorem et_system_config_multicast_roundtrip:
  assumes "et_system_config_addmulticast sc (Some v) = Some (ET_OK, sc')" and "v \<notin> set (y_mcastaddrs sc)"
  shows "v \<in> set (y_mcastaddrs sc') \<and> et_system_config_removemulticast sc' (Some v) = Some (ET_OK, sc)"
proof -
  have "remove1 v (xs @ [v]) = xs" if "v \<notin> set xs" for xs :: "string list"
    using that by (simp add: remove1_append)
  with assms show ?thesis
    by (auto simp: et_system_config_addmulticast_def et_system_config_removemulticast_def
        addr_remove_remove1 split: option.splits if_splits)
qed

lemma et_system_config_multicast_roundtrip_witness:
  "\<exists>sc sc'. et_system_config_init None = (ET_OK, Some sc)
     \<and> et_system_config_addmulticast sc (Some ''239.200.0.0'') = Some (ET_OK, sc')
     \<and> et_system_config_removemulticast sc' (Some ''239.200.0.0'') = Some (ET_OK, sc)"
proof -
  obtain sc where sc: "et_system_config_init None = (ET_OK, Some sc)"
    by (simp add: et_system_config_init_def)
  then have new: "y_mcastaddrs sc = []" "y_init sc = ET_STRUCT_OK"
    by (auto simp: et_system_config_init_def)
  have n: "first_number ''239.200.0.0'' = Some 239" by code_simp
  obtain sc' where add: "et_system_config_addmulticast sc (Some ''239.200.0.0'') = Some (ET_OK, sc')"
    using n new by (simp add: et_system_config_addmulticast_def)
  show ?thesis
    using sc add et_system_config_multicast_roundtrip [OF add] new by auto
qed

end
