(* ===== verification/Et_Start.thy ===== *)
theory Et_Start
  imports Et_Station Et_Llist Et_SysConfig
begin

text \<open>
  The start of an ET system: after the check of its configuration, the initialisation of its memory
  and the creation of GrandCentral with all events in its input list (\<^verbatim>\<open>et_init_mem_sys\<close>,
  \<^verbatim>\<open>et_init_mem_event\<close>, \<^verbatim>\<open>et_grandcentral_station_create\<close> and the part of
  \<^verbatim>\<open>et_system_start\<close> between the mapping of the memory and the start of the threads, in
  \<^verbatim>\<open>src/src/external/et/src/libsrc/et_system.c\<close>).

  The name of the host, the version and the addresses of the data buffers are left out.
\<close>

definition et_init_mem_sys :: "et_sys_config \<Rightarrow> et_mem \<Rightarrow> et_mem" where
  "et_init_mem_sys c s = (let
       s = upd_sys (\<lambda>y. y\<lparr>sy_heartbeat := 0, sy_nstations := 0, sy_ntemps := 0, sy_nprocesses := 0,
             sy_nattachments := 0, sy_stat_head := ET_GRANDCENTRAL, sy_stat_tail := ET_GRANDCENTRAL\<rparr>) s;
       s = upd_sys (fold et_init_process (map int [0..<nat ET_ATTACHMENTS_MAX])) s;
       s = fold et_init_attachment (map int [0..<nat ET_ATTACHMENTS_MAX]) s
     in upd_sys (sy_config_update (\<lambda>_. c)) s)"

definition et_init_mem_event :: "et_mem \<Rightarrow> et_mem" where
  "et_init_mem_event s = fold (\<lambda>i. upd_event i (\<lambda>e. (et_init_event e)
       \<lparr>e_filename := y_filename (sy_config (m_sys s)) @ ''_temp'' @ decimal i, e_place := int i\<rparr>))
     [0..<nat (nevents s)] s"

text \<open>The configuration of GrandCentral.\<close>

definition gc_config :: et_stat_config where
  "gc_config = foldl (\<lambda>sc f. snd (f sc)) et_station_config_init
     [\<lambda>sc. et_station_config_setuser sc ET_STATION_USER_MULTI,
      \<lambda>sc. et_station_config_setrestore sc ET_STATION_RESTORE_GC,
      \<lambda>sc. et_station_config_setselect sc ET_STATION_SELECT_ALL,
      \<lambda>sc. et_station_config_setblock sc ET_STATION_BLOCKING,
      \<lambda>sc. et_station_config_setprescale sc 1]"

text \<open>
  The loop over the events: \<open>left\<close> is \<^verbatim>\<open>count\<close>, the number of events that the group \<open>index\<close> has
  still to get.  \<open>None\<close> is the access to a group that does not exist.
\<close>

fun fill_grandcentral :: "nat list \<Rightarrow> int list \<Rightarrow> nat \<Rightarrow> int \<Rightarrow> et_mem \<Rightarrow> (int \<times> et_mem) option" where
  "fill_grandcentral [] groups index left s = Some (ET_OK, s)"
| "fill_grandcentral (e # es) groups index left s =
     (if left = 0 \<and> index \<ge> length groups then None
      else let (left', index') = (if left = 0 then (groups ! index, Suc index) else (left, index));
               s1 = upd_event e (e_group_update (\<lambda>_. int index')) s
        in case et_llist_write_gc [e] s1 of None \<Rightarrow> None
         | Some (c, s2) \<Rightarrow> if c \<noteq> ET_OK then Some (ET_ERROR, s2)
             else fill_grandcentral es groups index' (left' - 1) s2)"

definition et_grandcentral_station_create :: "et_id \<Rightarrow> int \<Rightarrow> et_mem \<Rightarrow> (int \<times> et_mem) res" where
  "et_grandcentral_station_create h pid s =
     res_bind (et_station_create (ET_ERROR, None) h (Some ''GRAND_CENTRAL'') (Some gc_config) pid True s)
       (\<lambda>((status, _), s1). if status \<noteq> ET_OK then Go (ET_ERROR, s1)
         else case fill_grandcentral [0..<nat (nevents s1)] (y_groups (sy_config (m_sys s1))) 0 0 s1 of
           None \<Rightarrow> Crash
         | Some (c, s2) \<Rightarrow> if c \<noteq> ET_OK then Go (ET_ERROR, s2)
             else Go (ET_OK, snd (conductor_start True (et_init_stats_station ET_GRANDCENTRAL s2))))"

text \<open>The identifier of the system itself, which is not alive yet (\<^verbatim>\<open>et_id_init\<close>).\<close>

definition et_id_init :: et_id where
  "et_id_init = \<lparr>i_locality = ET_LOCAL, i_alive = False, i_closed = False, i_proc = ET_SYS, i_group = 0\<rparr>"

definition start_memory :: "et_sys_config \<Rightarrow> int \<Rightarrow> et_mem \<Rightarrow> (int \<times> et_mem) res" where
  "start_memory c pid s =
     (case et_system_config_check c of (checked, c) \<Rightarrow>
      if checked \<noteq> ET_OK then Go (ET_ERROR, s)
      else let s = et_init_mem_event (et_init_histogram (et_init_mem_station (et_init_mem_sys c s)))
        in res_bind (et_grandcentral_station_create et_id_init pid s) (\<lambda>(status, s).
          if status < 0 then Go (ET_ERROR, s) else Go (ET_OK, s)))"


end
