(* ===== verification/Et_StationSystem.thy ===== *)
theory Et_StationSystem
  imports Et_StationRoute Et_Station Et_Samples Et_Kept
begin

text \<open>
  The stations of a running system as a whole: the station list, the counter
  of the stations and their states agree, and create, remove, attach and
  detach of et\_station.c keep it so.
\<close>

section \<open>The invariant\<close>

definition station_system :: "et_mem \<Rightarrow> et_stat_id list list \<Rightarrow> bool" where
  "station_system s gs \<longleftrightarrow> stations s gs \<and> sy_nstations (m_sys s) = int (length (concat gs))
     \<and> (\<forall>i. in_array s i \<longrightarrow> (if i \<in> set (concat gs) then status_of i s \<in> {ET_STATION_IDLE, ET_STATION_ACTIVE}
          else status_of i s = ET_STATION_UNUSED))"

text \<open>What it looks at of a station.\<close>

definition station_view :: "et_mem \<Rightarrow> et_stat_id \<Rightarrow> int list" where
  "station_view s i = [next_link s i, prev_link s i, nextpar_link s i, prevpar_link s i, num_of s i,
     c_flow_mode (config_of i s)]"

lemma stations_cong:
  assumes S: "stations s gs" and v: "\<And>i. i \<in> set (concat gs) \<Longrightarrow> station_view t i = station_view s i"
    and y: "tail_of t = tail_of s" "sy_config (m_sys t) = sy_config (m_sys s)"
  shows "stations t gs"
proof -
  note D = stationsD [OF S]
  have eq: "next_link t i = next_link s i" "prev_link t i = prev_link s i" "nextpar_link t i = nextpar_link s i"
    "prevpar_link t i = prevpar_link s i" "num_of t i = num_of s i" "in_parallel t i = in_parallel s i"
    if "i \<in> set (concat gs)" for i
    using v [OF that] by (simp_all add: station_view_def)
  have ia: "in_array t = in_array s" using y(2) by (simp add: in_array_def fun_eq_iff)
  have "dll (next_link t) (prev_link t) (- 1) (map hd gs) (- 1)"
  proof -
    have "set (map hd gs) \<subseteq> set (concat gs)" using heads_subset [OF D(3)] by simp
    then show ?thesis using D(6) eq(1,2) by (subst dll_cong) auto
  qed
  moreover have "dll (nextpar_link t) (prevpar_link t) (- 1) g (- 1)
      \<and> (tl g \<noteq> [] \<longrightarrow> (\<forall>i \<in> set g. in_parallel t i)) \<and> (\<forall>i \<in> set (tl g). prev_link t i = - 1)" if g: "g \<in> set gs" for g
  proof -
    have sub: "i \<in> set g \<Longrightarrow> i \<in> set (concat gs)" for i using g by auto
    then have "dll (nextpar_link t) (prevpar_link t) (- 1) g (- 1)"
      using D(8) [OF g] eq(3,4) by (subst dll_cong) auto
    moreover have "i \<in> set (tl g) \<Longrightarrow> i \<in> set g" for i by (cases g) auto
    ultimately show ?thesis using D(9,10) [OF g] eq(2,6) sub by auto
  qed
  ultimately show ?thesis
    unfolding stations_def using D(1-5,7) eq(5) y(1) ia by simp
qed

lemma relinked_sys:
  assumes "relinked s t"
  shows "sy_nstations (m_sys t) = sy_nstations (m_sys s)" "sy_config (m_sys t) = sy_config (m_sys s)"
    "max_stations t = max_stations s"
proof -
  have y: "set_tail 0 (t\<lparr>m_stats := m_stats s\<rparr>) = set_tail 0 s" using assms by (simp add: relinked_def)
  have "m_sys (set_tail 0 (t\<lparr>m_stats := m_stats s\<rparr>)) = m_sys (set_tail 0 s)" using y by simp
  then have "(m_sys t)\<lparr>sy_stat_tail := 0\<rparr> = (m_sys s)\<lparr>sy_stat_tail := 0\<rparr>" by (simp add: set_tail_def)
  then show "sy_nstations (m_sys t) = sy_nstations (m_sys s)" "sy_config (m_sys t) = sy_config (m_sys s)"
    "max_stations t = max_stations s"
    by (cases "m_sys t"; cases "m_sys s"; simp)+
qed

lemma relinked_name: "relinked s t \<Longrightarrow> s_name (m_stats t i) = s_name (m_stats s i)"
proof -
  assume "relinked s t"
  then have "bare (m_stats t i) = bare (m_stats s i)" by (simp add: relinked_def)
  then show ?thesis by (cases "m_stats t i"; cases "m_stats s i"; simp add: bare_def)
qed

lemma station_systemD:
  assumes "station_system s gs"
  shows "stations s gs" "sy_nstations (m_sys s) = int (length (concat gs))"
    "\<And>i. in_array s i \<Longrightarrow> i \<in> set (concat gs) \<Longrightarrow> status_of i s \<in> {ET_STATION_IDLE, ET_STATION_ACTIVE}"
    "\<And>i. in_array s i \<Longrightarrow> i \<notin> set (concat gs) \<Longrightarrow> status_of i s = ET_STATION_UNUSED"
  using assms by (auto simp: station_system_def split: if_splits)

lemma station_systemI:
  assumes "stations s gs" "sy_nstations (m_sys s) = int (length (concat gs))"
    "\<And>i. in_array s i \<Longrightarrow> if i \<in> set (concat gs) then status_of i s \<in> {ET_STATION_IDLE, ET_STATION_ACTIVE}
          else status_of i s = ET_STATION_UNUSED"
  shows "station_system s gs"
  using assms unfolding station_system_def by blast

section \<open>A place for a new station\<close>

lemma in_array_iff: "in_array s i \<longleftrightarrow> i \<in> set (map int [0..<max_stations s])"
  by (auto simp: in_array_def image_iff intro!: bexI [of _ "nat i"])

lemma unused_exists:
  assumes S: "station_system s gs" and n: "sy_nstations (m_sys s) < y_nstations (sy_config (m_sys s))"
  obtains i where "find (\<lambda>i. status_of i s = ET_STATION_UNUSED) (map int [0..<max_stations s]) = Some i"
    "in_array s i" "i \<notin> set (concat gs)"
proof -
  let ?xs = "map int [0..<max_stations s]"
  note D = station_systemD [OF S]
  have "\<not> set ?xs \<subseteq> set (concat gs)"
  proof
    assume "set ?xs \<subseteq> set (concat gs)"
    then have "card (set ?xs) \<le> card (set (concat gs))" by (intro card_mono) simp_all
    also have "\<dots> \<le> length (concat gs)" by (rule card_length)
    also have "\<dots> < max_stations s" using D(2) n by simp
    also have "card (set ?xs) = max_stations s" by (simp add: card_image)
    finally show False by simp
  qed
  then obtain j where "j \<in> set ?xs" "j \<notin> set (concat gs)" by blast
  then have "j \<in> set ?xs \<and> status_of j s = ET_STATION_UNUSED" using D(4) [of j] in_array_iff by blast
  then obtain i where i: "find (\<lambda>i. status_of i s = ET_STATION_UNUSED) ?xs = Some i"
    using find_None_iff [of "\<lambda>i. status_of i s = ET_STATION_UNUSED" ?xs]
    by (cases "find (\<lambda>i. status_of i s = ET_STATION_UNUSED) ?xs") blast+
  then have "status_of i s = ET_STATION_UNUSED" "i \<in> set ?xs" by (auto simp: find_Some_iff)
  then show thesis using that [OF i] D(3) [of i] in_array_iff by force
qed

lemma filter_only: "distinct xs \<Longrightarrow> i \<in> set xs \<Longrightarrow> (\<And>x. x \<in> set xs \<Longrightarrow> P x \<longleftrightarrow> x = i) \<Longrightarrow> filter P xs = [i]"
proof (induction xs)
  case (Cons x xs)
  show ?case
  proof (cases "x = i")
    case True
    then have "filter P xs = []" using Cons.prems by (auto simp: filter_empty_conv)
    then show ?thesis using True Cons.prems by simp
  next
    case False
    then show ?thesis using Cons by auto
  qed
qed simp

text \<open>The memory with the new station, which is in no list yet, after its conductor has started.\<close>

definition with_station :: "et_stat_id \<Rightarrow> string \<Rightarrow> et_stat_config \<Rightarrow> int \<Rightarrow> et_mem \<Rightarrow> et_mem" where
  "with_station i nm sc pid s = set_status i ET_STATION_IDLE (new_station i nm sc pid (add_stations 1 s))"

lemma with_station_mem [simp]:
  "m_sys (with_station i nm sc pid s) = (m_sys s)\<lparr>sy_nstations := sy_nstations (m_sys s) + 1\<rparr>"
  "j \<noteq> i \<Longrightarrow> m_stats (with_station i nm sc pid s) j = m_stats s j"
  "next_link (with_station i nm sc pid s) i = - 1" "prev_link (with_station i nm sc pid s) i = - 1"
  "nextpar_link (with_station i nm sc pid s) i = - 1" "prevpar_link (with_station i nm sc pid s) i = - 1"
  "num_of (with_station i nm sc pid s) i = i" "config_of i (with_station i nm sc pid s) = sc"
  "status_of i (with_station i nm sc pid s) = ET_STATION_IDLE"
  "s_name (m_stats (with_station i nm sc pid s) i) = nm"
  by (simp_all add: with_station_def new_station_def et_init_station_def)

lemma creating_only:
  assumes S: "station_system s gs" and i: "in_array s i" "i \<notin> set (concat gs)"
  shows "filter (\<lambda>st. status_of st (new_station i nm sc pid (add_stations 1 s)) = ET_STATION_CREATING)
    (map int [0..<max_stations (new_station i nm sc pid (add_stations 1 s))]) = [i]"
proof -
  let ?s = "new_station i nm sc pid (add_stations 1 s)"
  note D = station_systemD [OF S]
  have m: "max_stations ?s = max_stations s" by (simp add: new_station_def)
  show ?thesis
    unfolding m
  proof (rule filter_only)
    show "distinct (map int [0..<max_stations s])" by (simp add: distinct_map)
    show "i \<in> set (map int [0..<max_stations s])" using i(1) in_array_iff by blast
    show "(status_of x ?s = ET_STATION_CREATING) = (x = i)" if "x \<in> set (map int [0..<max_stations s])" for x
    proof (cases "x = i")
      case False
      have "in_array s x" using that in_array_iff by blast
      then have "status_of x s \<noteq> ET_STATION_CREATING" using D(3,4) [of x] by (cases "x \<in> set (concat gs)") auto
      then show ?thesis using False by (simp add: new_station_def)
    qed (simp add: new_station_def)
  qed
qed

lemma conductor_starts:
  assumes S: "station_system s gs" and i: "in_array s i" "i \<notin> set (concat gs)" "i \<noteq> ET_GRANDCENTRAL"
    and l: "c_select_mode sc \<noteq> ET_STATION_SELECT_USER \<or> loaded"
  shows "snd (conductor_start loaded (new_station i nm sc pid (add_stations 1 s))) = with_station i nm sc pid s"
proof -
  have "config_of i (new_station i nm sc pid (add_stations 1 s)) = sc" by (simp add: new_station_def)
  then show ?thesis
    using i(3) l creating_only [OF S i(1,2)] unfolding conductor_start_def with_station_def by auto
qed

lemma conductor_fails:
  assumes S: "station_system s gs" and i: "in_array s i" "i \<notin> set (concat gs)"
    and l: "c_select_mode sc = ET_STATION_SELECT_USER" "\<not> loaded"
  shows "snd (conductor_start loaded (new_station i nm sc pid (add_stations 1 s)))
    = new_station i nm sc pid (add_stations 1 s)"
proof -
  have "config_of i (new_station i nm sc pid (add_stations 1 s)) = sc" by (simp add: new_station_def)
  then show ?thesis using l creating_only [OF S i] unfolding conductor_start_def by auto
qed

lemma with_station_ok:
  assumes S: "station_system s gs" and i: "in_array s i" "i \<notin> set (concat gs)"
  shows "stations (with_station i nm sc pid s) gs" "loose_station (with_station i nm sc pid s) i gs"
proof -
  have "station_view (with_station i nm sc pid s) j = station_view s j" if "j \<in> set (concat gs)" for j
  proof -
    have "j \<noteq> i" using that i(2) by auto
    then show ?thesis by (simp add: station_view_def)
  qed
  then show "stations (with_station i nm sc pid s) gs"
    using stations_cong [OF station_systemD(1) [OF S]] by simp
  show "loose_station (with_station i nm sc pid s) i gs"
    using i by (simp add: loose_station_def in_array_def)
qed

lemma insert_station_length:
  "insert_station cfg i pos ppos gs = Some gs' \<Longrightarrow> mset (concat gs') = mset (concat gs) + {#i#}"
proof -
  assume a: "insert_station cfg i pos ppos gs = Some gs'"
  have g: "mset (group_insert i ppos g) = mset g + {#i#}" for g
  proof -
    have "mset (take m g) + mset (drop m g) = mset g" for m
      by (metis append_take_drop_id mset_append)
    then show ?thesis by (simp add: group_insert_def Let_def)
  qed
  show ?thesis
  proof (cases "1 \<le> pos \<and> pos < int (length gs)")
    case True
    define k where "k = nat pos"
    have k: "k < length gs" using True unfolding k_def by linarith
    have s1: "mset (concat gs) = mset (concat (take k gs)) + mset (gs ! k) + mset (concat (drop (Suc k) gs))"
      by (subst id_take_nth_drop [OF k]) simp
    have s2: "mset (concat gs) = mset (concat (take k gs)) + mset (concat (drop k gs))"
      by (metis append_take_drop_id concat_append mset_append)
    show ?thesis
      using a True g s1 s2 by (auto simp: insert_station_def Let_def k_def [symmetric] split: if_splits)
  next
    case False
    then have "gs' = gs @ [[i]]" using a unfolding insert_station_def by (subst (asm) if_not_P) simp_all
    then show ?thesis by simp
  qed
qed

lemma insert_station_set:
  assumes "insert_station cfg i pos ppos gs = Some gs'"
  shows "set (concat gs') = insert i (set (concat gs))" "length (concat gs') = Suc (length (concat gs))"
proof -
  have m: "mset (concat gs') = mset (concat gs) + {#i#}" using insert_station_length [OF assms] .
  have "set_mset (mset (concat gs')) = set_mset (mset (concat gs) + {#i#})" by (simp only: m)
  then show "set (concat gs') = insert i (set (concat gs))" by (simp only: set_mset_mset) simp
  have "size (mset (concat gs')) = size (mset (concat gs) + {#i#})" by (simp only: m)
  then show "length (concat gs') = Suc (length (concat gs))" by (simp only: size_mset) simp
qed

text \<open>A station that is not put into the lists is given up.\<close>

definition give_up :: "et_stat_id \<Rightarrow> et_mem \<Rightarrow> et_mem" where
  "give_up i s = add_stations (- 1) (set_status i ET_STATION_UNUSED
     (upd_os (CondSignal (ListOut i)) (upd_station i (s_conductor_update (\<lambda>_. ET_THREAD_KILL)) s)))"

lemma give_up_mem [simp]:
  "m_sys (give_up i s) = (m_sys s)\<lparr>sy_nstations := sy_nstations (m_sys s) - 1\<rparr>"
  "j \<noteq> i \<Longrightarrow> m_stats (give_up i s) j = m_stats s j"
  "status_of i (give_up i s) = ET_STATION_UNUSED"
  by (simp_all add: give_up_def upd_os_def)

lemma name_unused:
  assumes "usable h = ET_OK" "i_locality h = ET_LOCAL"
    and "\<And>j. in_array s j \<Longrightarrow> status_of j s \<noteq> ET_STATION_UNUSED \<Longrightarrow> s_name (m_stats s j) \<noteq> nm"
  shows "et_station_exists (0, None) h (Some nm) s = (0, None)"
proof -
  have "find (\<lambda>i. status_of i s \<noteq> ET_STATION_UNUSED \<and> s_name (m_stats s i) = nm) (map int [0..<max_stations s]) = None"
    unfolding find_None_iff using assms(3) in_array_iff by blast
  then show ?thesis using assms by (simp add: et_station_exists_def)
qed

lemma create_station_ok:
  assumes S: "station_system s gs" and h: "usable h = ET_OK" "i_locality h = ET_LOCAL"
    and nm: "nm \<noteq> ''GRAND_CENTRAL''" "\<And>j. in_array s j \<Longrightarrow> status_of j s \<noteq> ET_STATION_UNUSED \<Longrightarrow> s_name (m_stats s j) \<noteq> nm"
    and room: "sy_nstations (m_sys s) < y_nstations (sy_config (m_sys s))"
    and l: "c_select_mode sc \<noteq> ET_STATION_SELECT_USER \<or> loaded"
  shows "\<exists>i t. i \<notin> set (concat gs) \<and> in_array s i
     \<and> (\<forall>j. s_name (m_stats t j) = (if j = i then nm else s_name (m_stats s j)))
     \<and> (\<forall>j. config_of j t = (if j = i then sc else config_of j s))
     \<and> (case insert_station ((\<lambda>j. config_of j s)(i := sc)) i pos ppos gs of
          None \<Rightarrow> create_station h nm sc pos ppos pid loaded s = Go ((ET_ERROR, None), t) \<and> station_system t gs
        | Some gs' \<Rightarrow> create_station h nm sc pos ppos pid loaded s = Go ((ET_OK, Some i), t) \<and> station_system t gs')"
proof -
  obtain i where i: "find (\<lambda>i. status_of i s = ET_STATION_UNUSED) (map int [0..<max_stations s]) = Some i"
    "in_array s i" "i \<notin> set (concat gs)" using unused_exists [OF S room] by blast
  note D = station_systemD [OF S]
  have gc: "ET_GRANDCENTRAL \<in> set (concat gs)" using stationsD(1,2) [OF D(1)] by (cases gs) auto
  then have i0: "i \<noteq> ET_GRANDCENTRAL" using i(3) by auto
  let ?s = "with_station i nm sc pid s"
  note ex = name_unused [OF h nm(2)]
  have cr: "create_station h nm sc pos ppos pid loaded s = res_bind (station_insert i pos ppos ?s) (\<lambda>(status, s3).
               if status \<noteq> ET_OK then Go ((ET_ERROR, None), give_up i s3) else Go ((ET_OK, Some i), s3))"
    unfolding give_up_def using ex nm(1) room i(1) conductor_starts [OF S i(2,3) i0 l, of nm pid]
    by (simp add: create_station_def Let_def)
  have st: "status_of j ?s = (if j = i then ET_STATION_IDLE else status_of j s)" for j by simp
  have W: "stations ?s gs" "loose_station ?s i gs" by (rule with_station_ok [OF S i(2,3)])+
  have n: "sy_nstations (m_sys ?s) = int (length (concat gs)) + 1" using D(2) by simp
  have cfg: "(\<lambda>j. config_of j ?s) = (\<lambda>j. config_of j s)(i := sc)" by (auto simp: fun_eq_iff)
  note I = station_insert_ok [OF W n, of pos ppos, unfolded cfg]
  show ?thesis
  proof (cases "insert_station ((\<lambda>j. config_of j s)(i := sc)) i pos ppos gs")
    case None
    have "create_station h nm sc pos ppos pid loaded s = Go ((ET_ERROR, None), give_up i ?s)"
      using I None cr by simp
    moreover have "station_system (give_up i ?s) gs"
    proof -
      have "stations (give_up i ?s) gs"
      proof (rule stations_cong [OF D(1)])
        show "station_view (give_up i ?s) j = station_view s j" if "j \<in> set (concat gs)" for j
        proof -
          have "j \<noteq> i" using that i(3) by auto
          then show ?thesis by (simp add: station_view_def)
        qed
      qed simp_all
      moreover have "status_of j (give_up i ?s) = (if j = i then ET_STATION_UNUSED else status_of j s)" for j by simp
      ultimately show ?thesis using D(2-4) i(3) by (auto simp: station_system_def in_array_def)
    qed
    moreover have "s_name (m_stats (give_up i ?s) j) = (if j = i then nm else s_name (m_stats s j))" for j
      by (cases "j = i") (simp_all add: give_up_def upd_os_def)
    moreover have "config_of j (give_up i ?s) = (if j = i then sc else config_of j s)" for j
      by (cases "j = i") (simp_all add: give_up_def upd_os_def)
    ultimately show ?thesis using None i(2,3) by (intro exI [of _ i] exI [of _ "give_up i ?s"]) simp
  next
    case (Some gs')
    obtain t where t: "station_insert i pos ppos ?s = Go (ET_OK, t)" "stations t gs'" "relinked ?s t"
      using I Some by auto
    have "station_system t gs'"
    proof -
      have "status_of j t = (if j = i then ET_STATION_IDLE else status_of j s)" for j
        using relinkedD(4) [OF t(3), of j] st [of j] by simp
      moreover have "in_array t j = in_array s j" for j using relinkedD(3) [OF t(3), of j] by (simp add: in_array_def)
      ultimately show ?thesis
        using D(3,4) t(2) n relinked_sys(1) [OF t(3)] insert_station_set [OF Some] i(3)
        by (auto simp: station_system_def)
    qed
    moreover have "config_of j t = (if j = i then sc else config_of j s)" for j
      using relinkedD(1) [OF t(3), of j] by simp
    moreover have "s_name (m_stats t j) = (if j = i then nm else s_name (m_stats s j))" for j
      using relinked_name [OF t(3), of j] by simp
    ultimately show ?thesis using Some cr t(1) i(2,3) by (intro exI [of _ i] exI [of _ t]) simp
  qed
qed


section \<open>Removing and attaching\<close>

lemma drop_station_set:
  assumes S: "stations s gs" and i: "i \<in> set (concat gs)"
  shows "set (concat (drop_station i gs)) = set (concat gs) - {i}"
    "length (concat (drop_station i gs)) = length (concat gs) - 1"
proof -
  note D = stationsD [OF S]
  obtain g where "g \<in> set gs" "i \<in> set g" using i by auto
  then obtain as bs where gs: "gs = as @ g # bs" by (meson split_list)
  have dr: "drop_station i gs = as @ (if remove1 i g = [] then bs else remove1 i g # bs)"
    unfolding gs by (rule drop_station_split) (use D(3,4) gs \<open>i \<in> set g\<close> in auto)
  then have c: "concat (drop_station i gs) = concat as @ remove1 i g @ concat bs" by simp
  have "distinct g" "i \<notin> set (concat as)" "i \<notin> set (concat bs)" using D(4) gs \<open>i \<in> set g\<close> by auto
  then show "set (concat (drop_station i gs)) = set (concat gs) - {i}"
    unfolding c using gs by (auto simp: set_remove1_eq)
  have "0 < length g" using \<open>i \<in> set g\<close> by (cases g) auto
  then show "length (concat (drop_station i gs)) = length (concat gs) - 1"
    unfolding c using gs \<open>i \<in> set g\<close> by (cases "length g") (simp_all add: length_remove1)
qed

lemma int_minus_one: "0 < n \<Longrightarrow> int n - 1 = int (n - 1)"
  by simp

lemma remove_station_ok:
  assumes S: "station_system s gs" and h: "usable h = ET_OK" "i_locality h = ET_LOCAL"
    and i: "i \<in> set (concat gs)" "i \<noteq> ET_GRANDCENTRAL" "d_nattachments (s_data (m_stats s i)) \<le> 0"
    and env: "\<And>u. same_stations u (env u)"
  shows "\<exists>t. et_station_remove far h i env s = Go (ET_OK, t) \<and> station_system t (drop_station i gs)
     \<and> (\<forall>j. s_name (m_stats t j) = s_name (m_stats s j) \<and> config_of j t = config_of j s)"
proof -
  note D = station_systemD [OF S]
  obtain u where u: "station_remove i s = Go u" "stations u (drop_station i gs)" "relinked s u"
    using station_remove_ok [OF D(1) i(1,2)] by blast
  have ia: "in_array s i" "0 \<le> i" using stationsD(5) [OF D(1) i(1)] by (auto simp: in_array_def)
  let ?t = "give_up i (env u)"
  have e: "\<And>j. station_view (env u) j = station_view u j" "\<And>j. status_of j (env u) = status_of j u"
    "tail_of (env u) = tail_of u" "sy_config (m_sys (env u)) = sy_config (m_sys u)"
    "sy_nstations (m_sys (env u)) = sy_nstations (m_sys u)" using env [of u] by (simp_all add: same_stations_def station_view_def)
  have "et_station_remove far h i env s = Go (ET_OK, ?t)"
    using h i ia u(1) by (simp add: et_station_remove_def give_up_def in_array_def)
  moreover have "station_system ?t (drop_station i gs)"
  proof -
    note X = drop_station_set [OF D(1) i(1)]
    have "stations ?t (drop_station i gs)"
    proof (rule stations_cong [OF u(2)])
      show "station_view ?t j = station_view u j" if "j \<in> set (concat (drop_station i gs))" for j
      proof -
        have "j \<noteq> i" using that X(1) by auto
        then show ?thesis using e(1) [of j] by (simp add: station_view_def)
      qed
    qed (use e in simp_all)
    moreover have stj: "status_of j ?t = (if j = i then ET_STATION_UNUSED else status_of j s)" for j
      using e(2) [of j] relinkedD(4) [OF u(3), of j] by simp
    moreover have "sy_nstations (m_sys ?t) = int (length (concat (drop_station i gs)))"
    proof -
      have "concat gs \<noteq> []" using i(1) by (metis empty_iff list.set(1))
      then have "0 < length (concat gs)" by (simp only: length_greater_0_conv not_False_eq_True)
      then have "int (length (concat gs)) - 1 = int (length (concat (drop_station i gs)))"
        unfolding X(2) by (rule int_minus_one)
      then show ?thesis using e(5) D(2) relinked_sys(1) [OF u(3)] by simp
    qed
    moreover have "in_array ?t j = in_array s j" for j
      using e(4) relinkedD(3) [OF u(3), of j] by (simp add: in_array_def)
    moreover have "if j \<in> set (concat (drop_station i gs)) then status_of j ?t \<in> {ET_STATION_IDLE, ET_STATION_ACTIVE}
          else status_of j ?t = ET_STATION_UNUSED" if j: "in_array s j" for j
            unfolding X(1) stj using D(3) [OF j] D(4) [OF j] by (simp only: Diff_iff singleton_iff simp_thms split: if_splits) blast
    ultimately show ?thesis by (intro station_systemI) blast+
  qed
  moreover have "s_name (m_stats ?t j) = s_name (m_stats s j) \<and> config_of j ?t = config_of j s" for j
    using env [of u] relinked_name [OF u(3), of j] relinkedD(1) [OF u(3), of j]
    by (cases "j = i") (simp_all add: give_up_def upd_os_def same_stations_def)
  ultimately show ?thesis by blast
qed

lemma station_system_cong:
  assumes S: "station_system s gs" and v: "\<And>j. station_view t j = station_view s j"
    and y: "tail_of t = tail_of s" "sy_config (m_sys t) = sy_config (m_sys s)" "sy_nstations (m_sys t) = sy_nstations (m_sys s)"
    and st: "\<And>j. status_of j t = status_of j s \<or> status_of j t \<in> {ET_STATION_IDLE, ET_STATION_ACTIVE}
      \<and> status_of j s \<in> {ET_STATION_IDLE, ET_STATION_ACTIVE}"
  shows "station_system t gs"
proof -
  note D = station_systemD [OF S]
  have "stations t gs" using stations_cong [OF D(1) v y(1,2)] .
  moreover have "in_array t j = in_array s j" for j using y(2) by (simp add: in_array_def)
  moreover have "if j \<in> set (concat gs) then status_of j t \<in> {ET_STATION_IDLE, ET_STATION_ACTIVE}
          else status_of j t = ET_STATION_UNUSED" if "in_array s j" for j
  proof (cases "j \<in> set (concat gs)")
    case True
    then show ?thesis using D(3) [OF that True] st [of j] by (auto simp only: if_True)
  next
    case False
    then show ?thesis using D(4) [OF that False] st [of j] by (auto simp only: if_False)
  qed
  ultimately show ?thesis using D(2) y(3) unfolding station_system_def by metis
qed

lemma attach_station_ok:
  assumes S: "station_system s gs" and st: "status_of st s \<in> {ET_STATION_IDLE, ET_STATION_ACTIVE}"
  shows "station_system (attach_station h st a pid s) gs"
proof (rule station_system_cong [OF S])
  show "station_view (attach_station h st a pid s) j = station_view s j" for j
    by (simp add: station_view_def attach_station_def Let_def et_init_attachment_def upd_attach_def)
  show "status_of j (attach_station h st a pid s) = status_of j s \<or>
     status_of j (attach_station h st a pid s) \<in> {ET_STATION_IDLE, ET_STATION_ACTIVE}
      \<and> status_of j s \<in> {ET_STATION_IDLE, ET_STATION_ACTIVE}" for j
    using st by (auto simp: attach_station_def Let_def et_init_attachment_def upd_attach_def)
qed (simp_all add: attach_station_def Let_def et_init_attachment_def upd_attach_def)

lemma station_system_same:
  assumes "station_system s gs" and "same_stations s t"
  shows "station_system t gs"
  using assms(2) by (intro station_system_cong [OF assms(1)]) (simp_all add: same_stations_def station_view_def)

text \<open>A station whose selection routine is not found is cleared again.\<close>

lemma create_not_loaded:
  assumes S: "station_system s gs" and h: "usable h = ET_OK" "i_locality h = ET_LOCAL"
    and nm: "nm \<noteq> ''GRAND_CENTRAL''" "\<And>j. in_array s j \<Longrightarrow> status_of j s \<noteq> ET_STATION_UNUSED \<Longrightarrow> s_name (m_stats s j) \<noteq> nm"
    and room: "sy_nstations (m_sys s) < y_nstations (sy_config (m_sys s))"
    and l: "c_select_mode sc = ET_STATION_SELECT_USER" "\<not> loaded"
  shows "\<exists>i t. i \<notin> set (concat gs) \<and> create_station h nm sc pos ppos pid loaded s = Go ((ET_ERROR, None), t)
     \<and> station_system t gs \<and> (\<forall>j. j \<noteq> i \<longrightarrow> s_name (m_stats t j) = s_name (m_stats s j) \<and> config_of j t = config_of j s)"
proof -
  obtain i where i: "find (\<lambda>i. status_of i s = ET_STATION_UNUSED) (map int [0..<max_stations s]) = Some i"
    "in_array s i" "i \<notin> set (concat gs)" using unused_exists [OF S room] by blast
  note D = station_systemD [OF S]
  let ?u = "new_station i nm sc pid (add_stations 1 s)"
  let ?t = "upd_station i et_init_station (add_stations (- 1) ?u)"
  have u: "status_of i ?u = ET_STATION_CREATING" by (simp add: new_station_def)
  have "create_station h nm sc pos ppos pid loaded s = Go ((ET_ERROR, None), ?t)"
    using name_unused [OF h nm(2)] nm(1) room i(1) conductor_fails [OF S i(2,3) l] u
    by (simp add: create_station_def Let_def)
  moreover have o: "m_stats ?t j = m_stats s j" if "j \<noteq> i" for j using that by (simp add: new_station_def)
  moreover have "station_system ?t gs"
  proof (rule station_systemI)
    show "stations ?t gs"
    proof (rule stations_cong [OF D(1)])
      show "station_view ?t j = station_view s j" if "j \<in> set (concat gs)" for j
      proof -
        have "j \<noteq> i" using that i(3) by auto
        then show ?thesis unfolding station_view_def using o by presburger
      qed
    qed (simp_all add: new_station_def)
    show "sy_nstations (m_sys ?t) = int (length (concat gs))" using D(2) by (simp add: new_station_def)
    show "if j \<in> set (concat gs) then status_of j ?t \<in> {ET_STATION_IDLE, ET_STATION_ACTIVE}
        else status_of j ?t = ET_STATION_UNUSED" if j: "in_array ?t j" for j
    proof (cases "j = i")
      case True
      then show ?thesis using i(3) by (simp add: et_init_station_def new_station_def)
    next
      case False
      have "in_array s j" using j by (simp add: in_array_def new_station_def)
      then show ?thesis using D(3,4) [of j] unfolding o [OF False] by simp
    qed
  qed
  ultimately show ?thesis using i(3) by (intro exI [of _ i] exI [of _ ?t]) simp
qed

end
