(* ===== verification/Et_KeptConductor.thy ===== *)
theory Et_KeptConductor
  imports Et_Kept Et_StationChain
begin

text \<open>
  What the conductors leave alone.  A relation that sees neither the links between events nor the
  transfer mutex of a station, the mark of a round robin group, the output lists and the input lists of the
  stations \<open>D\<close> is kept by a round of a conductor, when \<open>D\<close> contains the stations that are met
  downstream.
\<close>

section \<open>The conductor\<close>

definition res_in :: "(et_mem \<Rightarrow> bool) \<Rightarrow> ('a \<Rightarrow> bool) \<Rightarrow> 'a res \<Rightarrow> bool" where
  "res_in P Q r = (case r of Go a \<Rightarrow> Q a | Exits t \<Rightarrow> P t | Asleep t \<Rightarrow> P t | _ \<Rightarrow> True)"

lemma res_in_simps [simp]:
  "res_in P Q (Go a) = Q a" "res_in P Q (Exits t) = P t" "res_in P Q (Asleep t) = P t" "res_in P Q Crash" "res_in P Q Spin"
  by (simp_all add: res_in_def)

lemma res_in_bind: "res_in P Q r \<Longrightarrow> (\<And>a. Q a \<Longrightarrow> res_in P Q' (f a)) \<Longrightarrow> res_in P Q' (res_bind r f)"
  by (cases r) (simp_all add: res_in_def)

text \<open>The heads \<open>H\<close> of groups and the stations \<open>D\<close>, which the links ahead do not leave before GrandCentral.\<close>

definition closed_under :: "et_stat_id set \<Rightarrow> et_stat_id set \<Rightarrow> et_mem \<Rightarrow> bool" where
  "closed_under H D s \<longleftrightarrow> H \<subseteq> D \<and> (\<forall>st \<in> H. st \<noteq> ET_GRANDCENTRAL \<longrightarrow> next_station st s \<in> H)
     \<and> (\<forall>st \<in> D. s_nextparallel (m_stats s st) > - 1 \<longrightarrow> s_nextparallel (m_stats s st) \<in> D)"

lemma group_closed: "closed_under H D s \<Longrightarrow> st \<in> D \<Longrightarrow> group_from n st s = Some g \<Longrightarrow> set g \<subseteq> D"
proof (induction n arbitrary: st g)
  case 0
  then show ?case by (subst (asm) group_from.simps) (auto split: if_splits)
next
  case (Suc n)
  show ?case
  proof (cases "s_nextparallel (m_stats s st) > - 1")
    case True
    with Suc.prems obtain g' where g: "g = st # g'" "group_from n (s_nextparallel (m_stats s st)) s = Some g'"
      by (subst (asm) group_from.simps) auto
    have "s_nextparallel (m_stats s st) \<in> D" using Suc.prems(1,2) True by (simp add: closed_under_def)
    then show ?thesis using Suc.IH [OF Suc.prems(1) _ g(2)] Suc.prems(2) g(1) by simp
  next
    case False
    then show ?thesis using Suc.prems by (subst (asm) group_from.simps) auto
  qed
qed

locale deal_relation = link_relation +
  fixes H :: "et_stat_id set" and D :: "et_stat_id set"
  assumes lists: "st \<in> D \<Longrightarrow> R s (upd_list (ListIn st) f s)" "R s (upd_list (ListOut st) f s)"
    and other: "R s (upd_os c s)" "R s (s\<lparr>m_sys := (m_sys s)\<lparr>sy_ntemps := sy_ntemps (m_sys s) - 1\<rparr>\<rparr>)"
      "R s (upd_station st (s_waslast_update w) s)" "R s (upd_station st (s_mutex_update b) s)"
    and closed: "R s t \<Longrightarrow> closed_under H D s \<Longrightarrow> closed_under H D t"
begin

abbreviation "kept s \<equiv> res_in (R s) (R s)"
abbreviation "kept2 s \<equiv> res_in (R s) (\<lambda>sp. R s (fst sp))"

lemma rel_upd2: "R s t \<Longrightarrow> st \<in> D \<Longrightarrow> R s (upd_list (ListIn st) f t)" "R s t \<Longrightarrow> R s (upd_list (ListOut st) f t)"
  "R s t \<Longrightarrow> R s (put_next e q t)" "R s t \<Longrightarrow> R s (upd_os c t)"
  "R s t \<Longrightarrow> R s (link_run es t)" "R s t \<Longrightarrow> R s (upd_station st (s_waslast_update w) t)"
  "R s t \<Longrightarrow> R s (upd_station st (s_mutex_update b) t)"
  by (auto intro: trans lists linked other rel_link_run)

lemma rel_llist_write_gc:
  assumes "et_llist_write_gc pe s = Some (c, t)" and gc: "ET_GRANDCENTRAL \<in> D"
  shows "R s t"
proof (cases "int (length pe) > nevents s - cnt_of (ListIn ET_GRANDCENTRAL) s")
  case True
  then show ?thesis using assms by (simp add: et_llist_write_gc_def refl)
next
  case False
  obtain s1 where s1: "(if cnt_of (ListIn ET_GRANDCENTRAL) s = 0 then Some (put_first (ListIn ET_GRANDCENTRAL) (Some (hd pe)) s)
      else do { l \<leftarrow> last_of (ListIn ET_GRANDCENTRAL) s; Some (put_next l (Some (hd pe)) s) }) = Some s1"
    "t = upd_list (ListIn ET_GRANDCENTRAL) (\<lambda>l. l\<lparr>l_lastevent := Some (last pe),
         l_events_in := l_events_in l + word_of_int (int (length pe)), l_cnt := l_cnt l + int (length pe)\<rparr>) (link_run pe s1)"
    using assms False unfolding et_llist_write_gc_def by (auto simp: Let_def split: bind_splits)
  have "R s s1" using s1(1) by (auto split: if_splits bind_splits intro: lists gc linked)
  then show ?thesis unfolding s1(2) by (intro rel_upd2 gc)
qed

lemma rel_llist_read: "et_llist_read (ListOut st) s = Some (a, t) \<Longrightarrow> R s t"
  by (auto simp: et_llist_read_def Let_def split: if_splits bind_splits intro: refl lists)

lemma kept_deliver:
  assumes "R s t" and st: "st \<in> D"
  shows "kept s (deliver st k chunk t)"
proof (cases "et_llist_write (ListIn st) chunk (set_try st k (lock_list (ListIn st) t))")
  case (Some nu)
  obtain n u where nu: "nu = (n, u)" by (cases nu)
  have "R s (set_try st k (lock_list (ListIn st) t))" using assms by (intro rel_upd2)
  then have "R s u" using trans rel_llist_write [OF Some [unfolded nu] lists(1) [OF st]] by blast
  then show ?thesis using st by (simp add: deliver_def Let_def Some nu rel_upd2)
qed (simp add: deliver_def Let_def)

lemma rel_drop_temps: "R s (drop_temps es s)"
proof -
  have "R s (fold (\<lambda>e s. (upd_os (Unlink (e_filename (m_events s e))) s)
       \<lparr>m_sys := (m_sys s)\<lparr>sy_ntemps := sy_ntemps (m_sys s) - 1\<rparr>\<rparr>) xs s)" for xs s
  proof (induction xs arbitrary: s)
    case (Cons x xs)
    have "R s ((upd_os (Unlink (e_filename (m_events s x))) s)\<lparr>m_sys := (m_sys s)\<lparr>sy_ntemps := sy_ntemps (m_sys s) - 1\<rparr>\<rparr>)"
      using trans [OF other(1,2)] by (simp add: m_sys_upd)
    then show ?case using Cons trans by (simp only: fold_simps)
  qed (simp add: refl)
  then show ?thesis by (simp add: drop_temps_def)
qed

lemma kept_trans: "R s t \<Longrightarrow> kept t r \<Longrightarrow> kept s r" "R s t \<Longrightarrow> kept2 t q \<Longrightarrow> kept2 s q"
  by (cases r; auto intro: trans) (cases q; auto intro: trans)

lemma kept_feed_gc:
  assumes gc: "ET_GRANDCENTRAL \<in> D"
  shows "kept2 (fst sp) (feed_gc sp)"
proof -
  obtain s p where sp: "sp = (s, p)" by (cases sp)
  let ?put = "if p_first p then map fst (p_events p) else undealt (p_events p)"
  have d: "R s (lock_list (ListIn ET_GRANDCENTRAL) (drop_temps ?put s))"
    by (intro rel_upd2 rel_drop_temps gc)
  show ?thesis
  proof (cases "et_llist_write_gc ?put (lock_list (ListIn ET_GRANDCENTRAL) (drop_temps ?put s))")
    case None
    then show ?thesis by (simp add: sp feed_gc_def Let_def refl)
  next
    case (Some ct)
    obtain c t where ct: "ct = (c, t)" by (cases ct)
    have "R s t" using trans [OF d rel_llist_write_gc [OF _ gc]] Some ct by blast
    then show ?thesis by (simp add: sp feed_gc_def Let_def Some ct refl rel_upd2 gc)
  qed
qed

lemma kept_feed:
  assumes st: "st \<in> D"
  shows "kept2 (fst sp) (feed usr st sp)"
proof (cases "st = ET_GRANDCENTRAL")
  case True
  then show ?thesis using kept_feed_gc st by (simp add: feed_def)
next
  case False
  obtain s p where sp: "sp = (s, p)" by (cases sp)
  obtain ch es t w where e: "select_events usr st s p = (ch, es, t, w)" by (metis prod_cases4)
  show ?thesis
    using False by (auto simp: feed_def sp e lists st intro!: res_in_bind [where Q = "R s"] kept_deliver refl)
qed

lemma kept2_bind: "kept2 s r \<Longrightarrow> (\<And>t p. R s t \<Longrightarrow> kept2 t (f (t, p))) \<Longrightarrow> kept2 s (res_bind r f)"
  by (erule res_in_bind) (auto intro: kept_trans)

lemma kept_feed_all: "set sts \<subseteq> D \<Longrightarrow> kept2 (fst sp) (feed_all usr sts sp)"
proof (induction sts arbitrary: sp)
  case (Cons st sts)
  show ?case
    unfolding feed_all.simps
  proof (rule kept2_bind [OF kept_feed])
    show "st \<in> D" using Cons.prems by simp
  next
    fix t p assume "R (fst sp) t"
    show "kept2 t (case (t, p) of (s, p) \<Rightarrow> if 0 < p_left p \<and> sts \<noteq> [] then feed_all usr sts (s, p\<lparr>p_first := False\<rparr>)
        else Go (s, p))"
      using Cons.IH [of "(t, p\<lparr>p_first := False\<rparr>)"] Cons.prems by (simp add: refl)
  qed
qed (simp add: refl)

lemma rel_rr_start: "R s (snd (rr_start g looking start s))"
proof (induction g arbitrary: looking start s)
  case (Cons st sts)
  have "R s (snd (rr_start sts l b (upd_station st (s_waslast_update (\<lambda>_. 0)) s)))" for l b
    using trans [OF other(3) Cons.IH] .
  then show ?case using Cons.IH by (simp add: Let_def)
qed (simp add: refl)

lemma kept_rr_deal: "set sts \<subseteq> D \<Longrightarrow> kept2 (fst sp) (rr_deal left n k sts arr sp)"
proof (induction sts arbitrary: k arr sp)
  case (Cons st sts)
  obtain s p where sp: "sp = (s, p)" by (cases sp)
  let ?s = "if int k = rr_last left n then upd_station st (s_waslast_update (\<lambda>_. 1)) s else s"
  have s: "R s ?s" by (simp add: refl other)
  have D: "st \<in> D" "set sts \<subseteq> D" using Cons.prems by simp_all
  have IH: "kept2 v (rr_deal left n k' sts arr' (v, q))" for k' arr' v q
    using Cons.IH [OF D(2), of "(v, q)"] by simp
  show ?case
    unfolding rr_deal.simps sp Let_def prod.case fst_conv
    using kept_trans(2) [OF s IH] IH
    by (auto simp del: Let_def intro!: res_in_bind [where Q = "R s"] kept_deliver refl other D intro: kept_trans)
qed (simp add: refl)

lemma kept_rr_group:
  assumes "set g \<subseteq> D"
  shows "kept2 (fst sp) (rr_group g sp)"
proof -
  obtain s p where sp: "sp = (s, p)" by (cases sp)
  let ?active = "filter (\<lambda>st. status_of st s = ET_STATION_ACTIVE) g"
  obtain st s1 where r: "rr_start g False None s = (st, s1)" by (cases "rr_start g False None s")
  have "R s s1" using rel_rr_start [of s g False None] r by simp
  then have "kept2 s (rr_deal left n k (dropWhile P ?active @ takeWhile P ?active) arr (s1, p))" for P left n k arr
  proof (rule kept_trans(2))
    have "set (dropWhile P ?active @ takeWhile P ?active) \<subseteq> D"
      using assms by (auto dest!: set_dropWhileD set_takeWhileD)
    then show "kept2 s1 (rr_deal left n k (dropWhile P ?active @ takeWhile P ?active) arr (s1, p))"
      using kept_rr_deal [where sp = "(s1, p)"] by simp
  qed
  then show ?thesis by (simp add: rr_group_def sp r Let_def)
qed

lemma kept_eq_deal: "set sts \<subseteq> D \<Longrightarrow> kept2 (fst sp) (eq_deal sts ks k sp)"
proof (induction sts ks k sp rule: eq_deal.induct)
  case (1 st sts n ks k s p)
  show ?case
  proof (cases "n < 1")
    case False
    let ?c = "if p_first p then take (nat n) (drop k (map fst (p_events p))) else take (nat n) (undealt (p_events p))"
    show ?thesis
      using False 1(2) [OF False HOL.refl] 1(3)
      by (auto simp: Let_def intro!: res_in_bind [OF kept_deliver [OF refl]] intro: kept_trans(2))
  qed (use 1 in simp)
qed (simp_all add: refl)

lemma kept_eq_group:
  assumes "set g \<subseteq> D"
  shows "kept2 (fst sp) (eq_group g sp)"
proof -
  obtain s p where sp: "sp = (s, p)" by (cases sp)
  show ?thesis
    using assms kept_eq_deal [where sp = "(s, p)"]
    by (auto simp: eq_group_def sp Let_def split: option.split) (metis (no_types, lifting) filter_is_subset order_trans)
qed

lemma kept_feed_group:
  assumes c: "closed_under H D (fst sp)" and st: "st \<in> D"
  shows "kept2 (fst sp) (feed_group usr st sp)"
proof -
  obtain s p where sp: "sp = (s, p)" by (cases sp)
  note K = kept_rr_group [of _ "(s, p)"] kept_eq_group [of _ "(s, p)"] kept_feed_all [of _ "(s, p)"] kept_feed [OF st, of "(s, p)"]
  show ?thesis
  proof (cases "group_from (max_stations s) st s")
    case None
    then show ?thesis using K(4) by (auto simp: feed_group_def sp Let_def refl)
  next
    case (Some g)
    then have g: "set g \<subseteq> D" using group_closed c st sp by simp
    then have "set (filter (\<lambda>st. status_of st s = ET_STATION_ACTIVE) g) \<subseteq> D" by auto
    then show ?thesis using K(1,2) [OF g] K(3) K(4) Some by (auto simp: feed_group_def sp Let_def refl)
  qed
qed

lemma next_closed: "closed_under H D s \<Longrightarrow> st \<in> H \<Longrightarrow> st \<noteq> ET_GRANDCENTRAL \<Longrightarrow> next_station st s \<in> H"
  by (simp add: closed_under_def)

lemma heads: "closed_under H D s \<Longrightarrow> st \<in> H \<Longrightarrow> st \<in> D"
  by (auto simp: closed_under_def)

lemma kept_pass_loop: "closed_under H D (fst sp) \<Longrightarrow> st \<in> H \<Longrightarrow> kept2 (fst sp) (pass_loop n usr st sp)"
proof (induction n arbitrary: st sp)
  case 0
  show ?case
    by (subst pass_loop.simps) (auto simp: refl intro!: kept2_bind [OF kept_feed_group [OF 0(1) heads [OF 0]]])
next
  case (Suc n)
  show ?case
  proof (subst pass_loop.simps, cases "p_left (snd sp) > 0")
    case True
    have "kept2 (fst sp) (res_bind (feed_group usr st sp) (\<lambda>(s, p). if st = ET_GRANDCENTRAL then Go (s, p)
        else pass_loop n usr (next_station st s) (s, p\<lparr>p_first := False\<rparr>)))"
    proof (rule kept2_bind [OF kept_feed_group [OF Suc.prems(1) heads [OF Suc.prems]]])
      fix t p assume "R (fst sp) t"
      then have "closed_under H D t" by (rule closed [OF _ Suc.prems(1)])
      then show "kept2 t (case (t, p) of (s, p) \<Rightarrow> if st = ET_GRANDCENTRAL then Go (s, p)
        else pass_loop n usr (next_station st s) (s, p\<lparr>p_first := False\<rparr>))"
        using Suc.IH [of "(t, p\<lparr>p_first := False\<rparr>)"] next_closed Suc.prems(2) by (simp add: refl)
    qed
    then show "kept2 (fst sp) (if 0 < p_left (snd sp) then res_bind (feed_group usr st sp) (\<lambda>(s, p).
         if st = ET_GRANDCENTRAL then Go (s, p)
         else case Suc n of 0 \<Rightarrow> Spin | Suc n' \<Rightarrow> pass_loop n' usr (next_station st s) (s, p\<lparr>p_first := False\<rparr>)) else Go sp)"
      using True by (simp only: if_True nat.case)
  qed (simp add: refl)
qed

theorem kept_conductor_deal:
  assumes c: "closed_under H D s"
    and hd: "\<And>t h. R s t \<Longrightarrow> (if in_parallel t st then first_parallel (max_stations t) st t else Some st) = Some h
      \<Longrightarrow> next_station h t \<in> H"
  shows "kept s (conductor_deal usr st s)"
proof (cases "et_llist_read (ListOut st) (lock_list (ListOut st) s)")
  case None
  then show ?thesis by (simp add: conductor_deal_def)
next
  case (Some x)
  obtain n evs s1 where x: "x = ((n, evs), s1)" by (metis prod.exhaust)
  have s1: "R s s1" using trans [OF lists(2) rel_llist_read] Some x by blast
  let ?s3 = "transfer True st (unlock_list (ListOut st) s1)"
  have s3: "R s ?s3" "R s (transfer False st (unlock_list (ListOut st) s1))" by (intro rel_upd2 s1)+
  show ?thesis
  proof (cases "if in_parallel ?s3 st then first_parallel (max_stations ?s3) st ?s3 else Some st")
    case h: (Some h)
    let ?p = "pass_loop (max_stations ?s3) usr (next_station h ?s3)
      (?s3, \<lparr>p_events = map (\<lambda>e. (e, False)) evs, p_left = n, p_first = True\<rparr>)"
    have "kept2 ?s3 ?p"
      using kept_pass_loop [of "(?s3, \<lparr>p_events = map (\<lambda>e. (e, False)) evs, p_left = n, p_first = True\<rparr>)"]
        closed [OF s3(1) c] hd [OF s3(1) h] by (simp only: fst_conv)
    then have K: "kept2 s ?p" using kept_trans(2) [OF s3(1)] by blast
    show ?thesis
    proof (cases "n < 0")
      case False
      have "conductor_deal usr st s = (case ?p of
                Go (s4, p) \<Rightarrow> Go (transfer False st s4)
              | Exits s4 \<Rightarrow> Exits (transfer False st s4)
              | Crash \<Rightarrow> Crash | Asleep s4 \<Rightarrow> Asleep s4 | Spin \<Rightarrow> Spin)"
        using Some x False h
        unfolding conductor_deal_def Let_def by (simp only: option.case prod.case if_False)
      then show ?thesis using K by (cases ?p) (auto intro!: rel_upd2)
    next
      case True
      then show ?thesis using Some x s3(2) by (simp add: conductor_deal_def Let_def)
    qed
  next
    case None
    then show ?thesis
      using Some x s3(2)
      unfolding conductor_deal_def Let_def by (simp only: option.case prod.case) (cases "n < 0"; simp)
  qed
qed

end

section \<open>All input lists\<close>

text \<open>A relation that does not see the lists at all is kept wherever the links lead to.\<close>

locale conductor_relation = list_relation +
  assumes conduct: "R s (upd_station st (s_waslast_update w) s)" "R s (upd_station st (s_mutex_update b) s)"

sublocale conductor_relation \<subseteq> deal: deal_relation R UNIV UNIV
  by unfold_locales (simp_all add: upd upd_more conduct closed_under_def)

context conductor_relation
begin

lemma kept_deal: "deal.kept s (conductor_deal usr st s)"
  by (rule deal.kept_conductor_deal) (simp_all add: closed_under_def)

lemma kept_conductor_wait: "(\<And>env s. env \<in> set envs \<Longrightarrow> R s (env s)) \<Longrightarrow> deal.kept s (conductor_wait st envs s)"
proof (induction envs arbitrary: s)
  case Nil
  show ?case by (subst conductor_wait.simps) (simp add: refl)
next
  case (Cons env envs)
  then have "R s (env s)" "deal.kept (env s) (conductor_wait st envs (env s))" by simp_all
  then show ?case
    by (subst conductor_wait.simps) (auto simp: Let_def refl intro: deal.kept_trans)
qed

theorem kept_conductor_round: "(\<And>env s. env \<in> set envs \<Longrightarrow> R s (env s)) \<Longrightarrow> deal.kept s (conductor_round usr st envs s)"
  unfolding conductor_round_def
  by (rule res_in_bind [OF kept_conductor_wait]) (auto intro: deal.kept_trans(1) kept_deal)

end

interpretation stations_kept: conductor_relation same_stations
  by unfold_locales (simp_all add: same_stations_def upd_station_def)

end
