(* ===== verification/Et_StationInfo.thy ===== *)
theory Et_StationInfo
  imports Et_Station
begin

text \<open>
  The parameters of the stations of a running system (the second half of
  \<^verbatim>\<open>src/src/external/et/src/libsrc/et_station.c\<close>): reading them and changing them while events flow.
\<close>

section \<open>Reading\<close>

text \<open>
  What the routines that read a station have in common; \<open>used\<close> says that the station must not be
  unused.
\<close>

definition station_value :: "bool \<Rightarrow> et_id \<Rightarrow> et_stat_id \<Rightarrow> 'a \<Rightarrow> et_mem \<Rightarrow> int \<times> 'a option" where
  "station_value used h st x s =
     (if usable h \<noteq> ET_OK then (usable h, None)
      else if \<not> in_array s st then (ET_ERROR, None)
      else if used \<and> status_of st s = ET_STATION_UNUSED then (ET_ERROR, None)
      else (ET_OK, Some x))"

definition et_station_isattached :: "int \<Rightarrow> et_id \<Rightarrow> et_stat_id \<Rightarrow> et_att_id \<Rightarrow> et_mem \<Rightarrow> int" where
  "et_station_isattached far h st a s =
     (if i_locality h = ET_REMOTE then far
      else if usable h \<noteq> ET_OK then usable h
      else if \<not> in_array s st then ET_ERROR
      else if a < 0 \<or> a \<ge> max_attachments s then ET_ERROR
      else if d_att (s_data (m_stats s st)) a = a then 1 else 0)"

type_synonym 'a reading = "int \<times> 'a option \<Rightarrow> et_id \<Rightarrow> et_stat_id \<Rightarrow> et_mem \<Rightarrow> int \<times> 'a option"

definition et_station_getattachments :: "int reading" where
  "et_station_getattachments far h st s = (if i_locality h = ET_REMOTE then far
     else station_value True h st (d_nattachments (s_data (m_stats s st))) s)"

definition et_station_getstatus :: "int reading" where
  "et_station_getstatus far h st s = (if i_locality h = ET_REMOTE then far
     else station_value False h st (status_of st s) s)"

definition et_station_getinputcount :: "int reading" where
  "et_station_getinputcount far h st s = (if i_locality h = ET_REMOTE then far
     else station_value False h st (cnt_of (ListIn st) s) s)"

definition et_station_getoutputcount :: "int reading" where
  "et_station_getoutputcount far h st s = (if i_locality h = ET_REMOTE then far
     else station_value False h st (cnt_of (ListOut st) s) s)"

definition et_station_getblock :: "int reading" where
  "et_station_getblock far h st s = (if i_locality h = ET_REMOTE then far
     else station_value True h st (c_block_mode (config_of st s)) s)"

definition et_station_getuser :: "int reading" where
  "et_station_getuser far h st s = (if i_locality h = ET_REMOTE then far
     else station_value True h st (c_user_mode (config_of st s)) s)"

definition et_station_getrestore :: "int reading" where
  "et_station_getrestore far h st s = (if i_locality h = ET_REMOTE then far
     else station_value True h st (c_restore_mode (config_of st s)) s)"

definition et_station_getprescale :: "int reading" where
  "et_station_getprescale far h st s = (if i_locality h = ET_REMOTE then far
     else station_value True h st (c_prescale (config_of st s)) s)"

definition et_station_getcue :: "int reading" where
  "et_station_getcue far h st s = (if i_locality h = ET_REMOTE then far
     else station_value True h st (c_cue (config_of st s)) s)"

definition et_station_getselectwords :: "int list reading" where
  "et_station_getselectwords far h st s = (if i_locality h = ET_REMOTE then far
     else station_value True h st (c_select (config_of st s)) s)"

definition et_station_getselect :: "int reading" where
  "et_station_getselect far h st s = (if i_locality h = ET_REMOTE then far
     else station_value True h st (c_select_mode (config_of st s)) s)"

text \<open>The names of a user's selection routine: the library and the function are for clients in C, the
  class for clients in Java (\<open>java\<close>, the value of \<^verbatim>\<open>lang\<close>).\<close>

definition et_station_getlib :: "bool \<Rightarrow> string reading" where
  "et_station_getlib java far h st s = (if java then (ET_ERROR, None)
     else if i_locality h = ET_REMOTE then far
     else station_value True h st (c_lib (config_of st s)) s)"

definition et_station_getfunction :: "bool \<Rightarrow> string reading" where
  "et_station_getfunction java far h st s = (if java then (ET_ERROR, None)
     else if i_locality h = ET_REMOTE then far
     else station_value True h st (c_fname (config_of st s)) s)"

definition et_station_getclass :: "bool \<Rightarrow> string reading" where
  "et_station_getclass java far h st s = (if \<not> java then (ET_ERROR, None)
     else if i_locality h = ET_REMOTE then far
     else station_value True h st (c_classs (config_of st s)) s)"

section \<open>Changing\<close>

text \<open>What the routines that change a station have in common; \<open>bad\<close> is the check that needs its configuration.\<close>

definition change_config ::
  "et_id \<Rightarrow> et_stat_id \<Rightarrow> (et_mem \<Rightarrow> bool) \<Rightarrow> (et_stat_config \<Rightarrow> et_stat_config) \<Rightarrow> et_mem \<Rightarrow> int \<times> et_mem" where
  "change_config h st bad f s =
     (if usable h \<noteq> ET_OK then (usable h, s)
      else if \<not> in_array s st then (ET_ERROR, s)
      else if bad s then (ET_ERROR, s)
      else (ET_OK, upd_station st (s_config_update f) s))"

text \<open>Some of them take the mutex of the input list.\<close>

definition with_input_mutex :: "et_stat_id \<Rightarrow> int \<times> et_mem \<Rightarrow> et_mem \<Rightarrow> (int \<times> et_mem) res" where
  "with_input_mutex st result s =
     (if fst result = ET_OK \<and> l_mutex (glist (ListIn st) s) then Asleep s else Go result)"

definition shares_events :: "et_stat_config \<Rightarrow> bool" where
  "shares_events c \<longleftrightarrow> c_select_mode c = ET_STATION_SELECT_RROBIN \<or> c_select_mode c = ET_STATION_SELECT_EQUALCUE"

definition et_station_setblock :: "int \<Rightarrow> et_id \<Rightarrow> et_stat_id \<Rightarrow> int \<Rightarrow> et_mem \<Rightarrow> int \<times> et_mem" where
  "et_station_setblock far h st v s =
     (if st = ET_GRANDCENTRAL then (ET_ERROR, s)
      else if v \<noteq> ET_STATION_BLOCKING \<and> v \<noteq> ET_STATION_NONBLOCKING then (ET_ERROR, s)
      else if i_locality h \<noteq> ET_LOCAL then (far, s)
      else change_config h st (\<lambda>s. shares_events (config_of st s) \<and> v = ET_STATION_NONBLOCKING)
        (c_block_mode_update (\<lambda>_. v)) s)"

definition et_station_setuser :: "int \<Rightarrow> et_id \<Rightarrow> et_stat_id \<Rightarrow> int \<Rightarrow> et_mem \<Rightarrow> int \<times> et_mem" where
  "et_station_setuser far h st v s =
     (if st = ET_GRANDCENTRAL then (ET_ERROR, s)
      else if v < 0 then (ET_ERROR, s)
      else if i_locality h \<noteq> ET_LOCAL then (far, s)
      else change_config h st (\<lambda>_. False) (c_user_mode_update (\<lambda>_. v)) s)"

definition et_station_setrestore :: "int \<Rightarrow> et_id \<Rightarrow> et_stat_id \<Rightarrow> int \<Rightarrow> et_mem \<Rightarrow> int \<times> et_mem" where
  "et_station_setrestore far h st v s =
     (if st = ET_GRANDCENTRAL then (ET_ERROR, s)
      else if v \<noteq> ET_STATION_RESTORE_OUT \<and> v \<noteq> ET_STATION_RESTORE_IN \<and> v \<noteq> ET_STATION_RESTORE_GC then (ET_ERROR, s)
      else if i_locality h \<noteq> ET_LOCAL then (far, s)
      else change_config h st (\<lambda>s. shares_events (config_of st s) \<and> v = ET_STATION_RESTORE_IN)
        (c_restore_mode_update (\<lambda>_. v)) s)"

definition et_station_setprescale :: "int \<Rightarrow> et_id \<Rightarrow> et_stat_id \<Rightarrow> int \<Rightarrow> et_mem \<Rightarrow> (int \<times> et_mem) res" where
  "et_station_setprescale far h st v s =
     (if st = ET_GRANDCENTRAL then Go (ET_ERROR, s)
      else if v < 1 then Go (ET_ERROR, s)
      else if i_locality h \<noteq> ET_LOCAL then Go (far, s)
      else with_input_mutex st (change_config h st (\<lambda>s. shares_events (config_of st s) \<and> v \<noteq> 1)
        (c_prescale_update (\<lambda>_. v)) s) s)"

definition et_station_setcue :: "int \<Rightarrow> et_id \<Rightarrow> et_stat_id \<Rightarrow> int \<Rightarrow> et_mem \<Rightarrow> (int \<times> et_mem) res" where
  "et_station_setcue far h st v s =
     (if st = ET_GRANDCENTRAL then Go (ET_ERROR, s)
      else if i_locality h \<noteq> ET_LOCAL then Go (far, s)
      else with_input_mutex st (change_config h st (\<lambda>s. v < 1 \<or> v > nevents s) (c_cue_update (\<lambda>_. v)) s) s)"

definition et_station_setselectwords :: "int \<Rightarrow> et_id \<Rightarrow> et_stat_id \<Rightarrow> int list \<Rightarrow> et_mem \<Rightarrow> (int \<times> et_mem) res" where
  "et_station_setselectwords far h st v s =
     (if st = ET_GRANDCENTRAL then Go (ET_ERROR, s)
      else if i_locality h \<noteq> ET_LOCAL then Go (far, s)
      else with_input_mutex st (change_config h st (\<lambda>_. False)
        (c_select_update (\<lambda>_. take ET_STATION_SELECT_INTS v)) s) s)"

end
