(* ===== verification/Et_StationSteps.thy ===== *)
theory Et_StationSteps
  imports Et_StationSystem Et_KeptConductor Et_StationInfo
begin

text \<open>
  Running systems and the steps of their stations: what keeps the lists of stations, their states,
  their number and their names in order.
\<close>

section \<open>Running systems\<close>

text \<open>
  Besides the lists being in order, the names of the stations are different, and the configuration of
  each is legal: a station that shares its events with the others of its group is parallel and blocking,
  one that gives the events of a dead client back to its group is parallel, one with a routine of the user names it.
\<close>

definition station_config_ok :: "et_stat_config \<Rightarrow> bool" where
  "station_config_ok c \<longleftrightarrow> stat_config_wf c \<and> (shares_events c \<longrightarrow> c_flow_mode c = ET_STATION_PARALLEL
     \<and> c_block_mode c = ET_STATION_BLOCKING \<and> c_prescale c = 1 \<and> c_restore_mode c \<noteq> ET_STATION_RESTORE_IN)
     \<and> (c_restore_mode c = ET_STATION_RESTORE_REDIST \<longrightarrow> c_flow_mode c = ET_STATION_PARALLEL)
     \<and> (c_select_mode c = ET_STATION_SELECT_USER \<longrightarrow> 4 \<le> length (c_lib c) \<and> c_fname c \<noteq> [])"

text \<open>What the check of a configuration looks at when the setters have made it.\<close>

lemma check_cases:
  assumes wf: "stat_config_wf c"
  shows "et_station_config_check s c = (if c_user_mode c > y_nattachments (sy_config (m_sys s)) then ET_ERROR
     else if c_select_mode c = ET_STATION_SELECT_USER \<and> (length (c_lib c) < 4 \<or> length (c_fname c) < 1) then ET_ERROR
     else if shares_events c \<and> (c_flow_mode c = ET_STATION_SERIAL \<or> c_block_mode c = ET_STATION_NONBLOCKING
          \<or> c_restore_mode c = ET_STATION_RESTORE_IN \<or> c_prescale c \<noteq> 1) then ET_ERROR
     else if c_restore_mode c = ET_STATION_RESTORE_REDIST \<and> c_flow_mode c \<noteq> ET_STATION_PARALLEL then ET_ERROR
     else if c_block_mode c = ET_STATION_NONBLOCKING \<and> c_cue c > nevents s then ET_ERROR else ET_OK)"
proof -
  have "(c_flow_mode c \<noteq> ET_STATION_SERIAL \<and> c_flow_mode c \<noteq> ET_STATION_PARALLEL) = False"
    "(c_restore_mode c \<noteq> ET_STATION_RESTORE_OUT \<and> c_restore_mode c \<noteq> ET_STATION_RESTORE_IN
       \<and> c_restore_mode c \<noteq> ET_STATION_RESTORE_GC \<and> c_restore_mode c \<noteq> ET_STATION_RESTORE_REDIST) = False"
    "(c_select_mode c \<noteq> ET_STATION_SELECT_ALL \<and> c_select_mode c \<noteq> ET_STATION_SELECT_MATCH
       \<and> c_select_mode c \<noteq> ET_STATION_SELECT_USER \<and> c_select_mode c \<noteq> ET_STATION_SELECT_RROBIN
       \<and> c_select_mode c \<noteq> ET_STATION_SELECT_EQUALCUE) = False"
    "(c_block_mode c \<noteq> ET_STATION_BLOCKING \<and> c_block_mode c \<noteq> ET_STATION_NONBLOCKING) = False"
    "(c_user_mode c < 0) = False" "(c_prescale c < 1) = False" "(c_cue c < 1) = False"
    "(c_select_mode c = ET_STATION_SELECT_RROBIN \<or> c_select_mode c = ET_STATION_SELECT_EQUALCUE) = shares_events c"
    "(c_block_mode c = ET_STATION_BLOCKING) = (\<not> c_block_mode c = ET_STATION_NONBLOCKING)"
    using wf unfolding stat_config_wf_def shares_events_def by (blast | linarith | simp)+
  note f = this
  show ?thesis unfolding et_station_config_check_def Let_def f(1-8) nevents_def simp_thms if_False unfolding f(9)
    by (cases "c_block_mode c = ET_STATION_NONBLOCKING") (simp_all only: simp_thms if_False if_True)
qed

lemma config_checked:
  assumes wf: "stat_config_wf c" and C: "et_station_config_check s c \<noteq> ET_ERROR"
  shows "station_config_ok c"
proof -
  have "c_flow_mode c \<noteq> ET_STATION_SERIAL \<Longrightarrow> c_flow_mode c = ET_STATION_PARALLEL"
    "c_block_mode c \<noteq> ET_STATION_NONBLOCKING \<Longrightarrow> c_block_mode c = ET_STATION_BLOCKING"
    using wf by (auto simp: stat_config_wf_def)
  then show ?thesis using C wf unfolding check_cases [OF wf] station_config_ok_def by (simp only: not_less not_less_eq split: if_split_asm) auto
qed
text \<open>At the creation of a station nothing more is asked for, apart from the limits of the system.\<close>

lemma config_check_iff:
  "station_config_ok c \<Longrightarrow> et_station_config_check s c = ET_OK \<longleftrightarrow>
     c_user_mode c \<le> y_nattachments (sy_config (m_sys s))
     \<and> (c_block_mode c = ET_STATION_NONBLOCKING \<longrightarrow> c_cue c \<le> nevents s)"
proof -
  assume ok: "station_config_ok c"
  then have wf: "stat_config_wf c" by (simp add: station_config_ok_def)
  have f: "(c_select_mode c = ET_STATION_SELECT_USER \<and> (length (c_lib c) < 4 \<or> length (c_fname c) < 1)) = False"
    "(shares_events c \<and> (c_flow_mode c = ET_STATION_SERIAL \<or> c_block_mode c = ET_STATION_NONBLOCKING
          \<or> c_restore_mode c = ET_STATION_RESTORE_IN \<or> c_prescale c \<noteq> 1)) = False"
    "(c_restore_mode c = ET_STATION_RESTORE_REDIST \<and> c_flow_mode c \<noteq> ET_STATION_PARALLEL) = False"
    using ok unfolding station_config_ok_def by fastforce+
  show ?thesis unfolding check_cases [OF wf] f by auto
qed

definition running :: "et_mem \<Rightarrow> et_stat_id list list \<Rightarrow> bool" where
  "running s gs \<longleftrightarrow> station_system s gs \<and> inj_on (\<lambda>i. s_name (m_stats s i)) (set (concat gs))
     \<and> s_name (m_stats s ET_GRANDCENTRAL) = ''GRAND_CENTRAL''
     \<and> (\<forall>i \<in> set (concat gs). station_config_ok (config_of i s))"

lemma running_gc: "running s gs \<Longrightarrow> ET_GRANDCENTRAL \<in> set (concat gs)"
  using stationsD(1,2) station_systemD(1) unfolding running_def by (cases gs) force+

lemma running_names:
  assumes R: "running s gs" and S: "station_system t gs'" and sub: "set (concat gs') \<subseteq> set (concat gs)"
    and n: "\<And>j. j \<in> set (concat gs') \<Longrightarrow> s_name (m_stats t j) = s_name (m_stats s j) \<and> config_of j t = config_of j s"
  shows "running t gs'"
proof -
  have "ET_GRANDCENTRAL \<in> set (concat gs')"
    using stationsD(1,2) [OF station_systemD(1) [OF S]] by (cases gs') auto
  moreover have "inj_on (\<lambda>i. s_name (m_stats t i)) (set (concat gs'))"
  proof (rule inj_onI)
    fix x y assume "x \<in> set (concat gs')" "y \<in> set (concat gs')" "s_name (m_stats t x) = s_name (m_stats t y)"
    then show "x = y" using R n sub unfolding running_def inj_on_def by (metis subset_iff)
  qed
  moreover have "station_config_ok (config_of i t)" if "i \<in> set (concat gs')" for i
    using R n [OF that] that sub unfolding running_def by (metis subset_iff)
  ultimately show ?thesis using R S n [of ET_GRANDCENTRAL] unfolding running_def by simp
qed

lemma existing_found:
  assumes R: "running s gs" and h: "usable h = ET_OK" "i_locality h = ET_LOCAL"
    and j: "in_array s j" "status_of j s \<noteq> ET_STATION_UNUSED" "s_name (m_stats s j) = nm"
  shows "\<exists>i. et_station_exists (0, None) h (Some nm) s = (1, Some i)"
proof -
  have "\<exists>j \<in> set (map int [0..<max_stations s]). status_of j s \<noteq> ET_STATION_UNUSED \<and> s_name (m_stats s j) = nm"
    using j in_array_iff by blast
  then obtain i where "find (\<lambda>i. status_of i s \<noteq> ET_STATION_UNUSED \<and> s_name (m_stats s i) = nm)
      (map int [0..<max_stations s]) = Some i"
    using find_None_iff [of "\<lambda>i. status_of i s \<noteq> ET_STATION_UNUSED \<and> s_name (m_stats s i) = nm" "map int [0..<max_stations s]"]
    by (cases "find (\<lambda>i. status_of i s \<noteq> ET_STATION_UNUSED \<and> s_name (m_stats s i) = nm) (map int [0..<max_stations s])") blast+
  then show ?thesis using h by (simp add: et_station_exists_def)
qed

lemma running_create:
  assumes R: "running s gs" and h: "usable h = ET_OK" "i_locality h = ET_LOCAL" and ok: "station_config_ok sc"
    and c: "create_station h nm sc pos ppos pid loaded s = Go (r, t)"
  shows "\<exists>gs'. running t gs'"
proof (cases "\<exists>j. in_array s j \<and> status_of j s \<noteq> ET_STATION_UNUSED \<and> s_name (m_stats s j) = nm")
  case True
  then obtain i where "et_station_exists (0, None) h (Some nm) s = (1, Some i)" using existing_found [OF R h] by blast
  then have "t = s" using c by (auto simp: create_station_def Let_def split: if_splits)
  then show ?thesis using R by blast
next
  case False
  have S: "station_system s gs" using R by (simp add: running_def)
  note D = station_systemD [OF S]
  have gc: "in_array s ET_GRANDCENTRAL" using stationsD(5) [OF D(1) running_gc [OF R]] by simp
  have nm: "nm \<noteq> ''GRAND_CENTRAL''"
    using False gc D(3) [OF gc running_gc [OF R]] R unfolding running_def by force
  have new: "\<And>j. in_array s j \<Longrightarrow> status_of j s \<noteq> ET_STATION_UNUSED \<Longrightarrow> s_name (m_stats s j) \<noteq> nm" using False by blast
  show ?thesis
  proof (cases "sy_nstations (m_sys s) < y_nstations (sy_config (m_sys s))")
    case room: True
    have other: "j \<noteq> i" if "i \<notin> set (concat gs)" "j \<in> set (concat gs)" for i j using that by blast
    show ?thesis
    proof (cases "c_select_mode sc \<noteq> ET_STATION_SELECT_USER \<or> loaded")
      case True
      obtain i t' where i: "i \<notin> set (concat gs)" "in_array s i"
        and n: "\<And>j. s_name (m_stats t' j) = (if j = i then nm else s_name (m_stats s j))"
        and cf: "\<And>j. config_of j t' = (if j = i then sc else config_of j s)"
        and cr: "case insert_station ((\<lambda>j. config_of j s)(i := sc)) i pos ppos gs of
          None \<Rightarrow> create_station h nm sc pos ppos pid loaded s = Go ((ET_ERROR, None), t') \<and> station_system t' gs
        | Some gs' \<Rightarrow> create_station h nm sc pos ppos pid loaded s = Go ((ET_OK, Some i), t') \<and> station_system t' gs'"
        using create_station_ok [OF S h nm new room True, of pos ppos pid] by blast
      show ?thesis
      proof (cases "insert_station ((\<lambda>j. config_of j s)(i := sc)) i pos ppos gs")
        case None
        then have "station_system t gs" "t = t'" using cr c by simp_all
        then have "running t gs" using n cf other [OF i(1)] by (intro running_names [OF R]) auto
        then show ?thesis by blast
      next
        case (Some gs')
        then have t: "station_system t gs'" "t = t'" using cr c by simp_all
        have set': "set (concat gs') = insert i (set (concat gs))" using insert_station_set [OF Some] by simp
        have "inj_on (\<lambda>i. s_name (m_stats t i)) (insert i (set (concat gs)))"
        proof (rule inj_onI)
          fix x y assume xy: "x \<in> insert i (set (concat gs))" "y \<in> insert i (set (concat gs))"
            "s_name (m_stats t x) = s_name (m_stats t y)"
          have "s_name (m_stats s z) \<noteq> nm" if "z \<in> set (concat gs)" for z
            using new [of z] stationsD(5) [OF D(1) that] D(3) [of z] that by force
          then show "x = y" using xy n R unfolding running_def inj_on_def t(2) by (metis insertE)
        qed
        moreover have "s_name (m_stats t ET_GRANDCENTRAL) = ''GRAND_CENTRAL''"
          using n [of ET_GRANDCENTRAL] other [OF i(1) running_gc [OF R]] R unfolding running_def t(2) by simp
        moreover have "station_config_ok (config_of j t)" if "j \<in> insert i (set (concat gs))" for j
          using that ok R cf unfolding running_def t(2) by auto
        ultimately show ?thesis using t(1) set' unfolding running_def by metis
      qed
    next
      case False
      then obtain i where i: "i \<notin> set (concat gs)" "station_system t gs"
          "\<And>j. j \<noteq> i \<Longrightarrow> s_name (m_stats t j) = s_name (m_stats s j) \<and> config_of j t = config_of j s"
        using create_not_loaded [OF S h nm new room, of sc loaded pos ppos pid] c by auto
      then have "running t gs" using other [OF i(1)] by (intro running_names [OF R]) auto
      then show ?thesis by blast
    qed
  next
    case False
    then have "t = s" using c name_unused [OF h new] by (simp add: create_station_def)
    then show ?thesis using R by blast
  qed
qed

lemma running_same: "running s gs \<Longrightarrow> same_stations s t \<Longrightarrow> running t gs"
  by (rule running_names, assumption, rule station_system_same) (auto simp: running_def same_stations_def)

lemma running_cong:
  assumes R: "running s gs" and v: "\<And>j. station_view t j = station_view s j"
    and n: "\<And>j. s_name (m_stats t j) = s_name (m_stats s j)" "\<And>j. config_of j t = config_of j s"
    and y: "tail_of t = tail_of s" "sy_config (m_sys t) = sy_config (m_sys s)" "sy_nstations (m_sys t) = sy_nstations (m_sys s)"
    and st: "\<And>j. status_of j t = status_of j s \<or> status_of j t \<in> {ET_STATION_IDLE, ET_STATION_ACTIVE}
      \<and> status_of j s \<in> {ET_STATION_IDLE, ET_STATION_ACTIVE}"
  shows "running t gs"
  using station_system_cong [OF _ v y st] R n unfolding running_def by simp

lemma running_run:
  assumes R: "running s gs" and m: "always same_stations m" and c: "run_cmd m s = Go (a, t)"
  shows "running t gs"
proof -
  have "outcome_in (same_stations s) (snd (m s))" using m by (simp add: always_def)
  then have "same_stations s t" using c by (auto simp: run_cmd_def outcome_in_def split: outcome.splits)
  then show ?thesis using running_same [OF R] by blast
qed

lemma in_use:
  assumes R: "running s gs" and st: "in_array s st" "status_of st s \<noteq> ET_STATION_UNUSED"
  shows "st \<in> set (concat gs)" "status_of st s \<in> {ET_STATION_IDLE, ET_STATION_ACTIVE}"
proof -
  note D = station_systemD [of s gs]
  have S: "station_system s gs" using R by (simp add: running_def)
  show u: "st \<in> set (concat gs)" using D(4) [OF S st(1)] st(2) by blast
  show "status_of st s \<in> {ET_STATION_IDLE, ET_STATION_ACTIVE}" using D(3) [OF S st(1) u] .
qed

lemma running_remove:
  assumes R: "running s gs" and env: "\<And>u. same_stations u (env u)"
    and st: "status_of st s \<noteq> ET_STATION_UNUSED" and c: "et_station_remove far h st env s = Go (r, t)"
  shows "\<exists>gs'. running t gs'"
proof (cases "t = s")
  case False
  have S: "station_system s gs" using R by (simp add: running_def)
  have a: "0 \<le> st" "st \<noteq> ET_GRANDCENTRAL" "i_locality h = ET_LOCAL" "usable h = ET_OK"
    "st < y_nstations (sy_config (m_sys s))" "\<not> d_nattachments (s_data (m_stats s st)) > 0"
    using c False unfolding et_station_remove_def by (auto split: if_splits)
  have u: "st \<in> set (concat gs)" by (rule in_use(1) [OF R _ st]) (use a in \<open>simp add: in_array_def\<close>)
  obtain t' where t': "et_station_remove far h st env s = Go (ET_OK, t')" "station_system t' (drop_station st gs)"
    "\<And>j. s_name (m_stats t' j) = s_name (m_stats s j) \<and> config_of j t' = config_of j s"
    using remove_station_ok [OF S a(4,3) u a(2) _ env, of far] a(6) by auto
  have "running t' (drop_station st gs)"
    by (rule running_names [OF R t'(2)])
      (use drop_station_set(1) [OF station_systemD(1) [OF S] u] t'(3) in auto)
  then show ?thesis using t'(1) c by auto
qed (use R in blast)

lemma running_attach:
  assumes R: "running s gs" and c: "et_station_attach far h st pid s = (r, t)"
  shows "running t gs"
proof (cases "t = s")
  case False
  then obtain a where t: "t = attach_station h st a pid s"
    and st: "status_of st s \<in> {ET_STATION_IDLE, ET_STATION_ACTIVE}"
    using c by (auto simp: et_station_attach_def Let_def split: if_splits option.splits)
  show ?thesis
    unfolding t
  proof (rule running_cong [OF R])
    show "status_of j (attach_station h st a pid s) = status_of j s \<or>
     status_of j (attach_station h st a pid s) \<in> {ET_STATION_IDLE, ET_STATION_ACTIVE}
      \<and> status_of j s \<in> {ET_STATION_IDLE, ET_STATION_ACTIVE}" for j
      using st by (auto simp: attach_station_def Let_def et_init_attachment_def upd_attach_def)
  qed (simp_all add: station_view_def attach_station_def Let_def et_init_attachment_def upd_attach_def)
qed (use R in simp)

lemma running_proc: "running s gs \<Longrightarrow> running (upd_proc i f s) gs"
  by (erule running_cong) (simp_all add: station_view_def)

lemma running_data: "running s gs \<Longrightarrow> (\<And>d. d_status (f d) = d_status d) \<Longrightarrow> running (upd_station st (s_data_update f) s) gs"
  by (erule running_cong) (simp_all add: station_view_def)

lemma running_detach:
  assumes R: "running s gs" and c: "et_station_detach far h a ws w0 s = Go (r, t)"
    and st: "status_of (a_stat (sy_attach (m_sys s) a)) s \<in> {ET_STATION_IDLE, ET_STATION_ACTIVE}"
  shows "running t gs"
proof (cases "t = s")
  case False
  let ?st = "a_stat (sy_attach (m_sys s) a)"
  let ?u = "add_attachments (- 1) (upd_attach a (\<lambda>x. x\<lparr>a_num := - 1, a_status := ET_ATT_UNUSED\<rparr>) s)"
  have c': "detach_station h a ?st ws w0 s = Go (r, t)"
    using c False unfolding et_station_detach_def by (auto simp: Let_def split: if_splits)
  have u: "running ?u gs" "running (set_status ?st ET_STATION_IDLE ?u) gs"
    by (rule running_cong [OF R]; use st in \<open>auto simp: station_view_def upd_attach_def\<close>)+
  obtain x v where v: "(if d_nattachments (s_data (m_stats ?u ?st)) = 1 \<and> ?st \<noteq> ET_GRANDCENTRAL
         then run_cmd (et_flush_events a ?st ws) (set_status ?st ET_STATION_IDLE ?u) else Go ((), ?u)) = Go (x, v)"
    and w: "res_bind (run_cmd (et_restore_events a ?st w0) v) (\<lambda>(_, s).
          let s = upd_station ?st (s_data_update (\<lambda>d. d\<lparr>d_nattachments := d_nattachments d - 1,
                d_att := (d_att d)(a := - 1)\<rparr>)) s
          in Go (ET_OK, if m_cleanup s \<noteq> 1 \<and> i_proc h \<noteq> ET_SYS
            then upd_proc (i_proc h) (\<lambda>p. p\<lparr>pr_nattachments := pr_nattachments p - 1,
                   pr_att := (pr_att p)(a := - 1)\<rparr>) s
            else s)) = Go (r, t)"
    using c' unfolding detach_station_def Let_def
    by (cases "if d_nattachments (s_data (m_stats ?u ?st)) = 1 \<and> ?st \<noteq> ET_GRANDCENTRAL
         then run_cmd (et_flush_events a ?st ws) (set_status ?st ET_STATION_IDLE ?u) else Go ((), ?u)") auto
  have "running v gs"
    using v u running_run [OF u(2) stations_kept.always_flush] by (auto split: if_splits)
  then obtain y z where z: "running z gs" "run_cmd (et_restore_events a ?st w0) v = Go (y, z)"
    using w running_run [OF _ stations_kept.always_restore_events]
    by (cases "run_cmd (et_restore_events a ?st w0) v") auto
  show ?thesis
  proof -
    let ?d = "\<lambda>d. d\<lparr>d_nattachments := d_nattachments d - 1, d_att := (d_att d)(a := - 1)\<rparr>"
    let ?z = "upd_station ?st (s_data_update ?d) z"
    have "running ?z gs" by (rule running_data [OF z(1)]) simp
    moreover have "t = ?z \<or> (\<exists>f. t = upd_proc (i_proc h) f ?z)"
      using w unfolding z(2) Let_def res_bind.simps prod.case by (auto split: if_splits)
    ultimately show ?thesis using running_proc by blast
  qed
qed (use R in simp)

lemma running_config:
  assumes R: "running s gs" and c: "change_config h st bad f s = (r, t)" and f: "\<And>c. c_flow_mode (f c) = c_flow_mode c"
    and ok: "\<not> bad s \<Longrightarrow> station_config_ok (config_of st s) \<Longrightarrow> station_config_ok (f (config_of st s))"
  shows "running t gs"
proof (cases "t = s")
  case False
  then have t: "t = upd_station st (s_config_update f) s" and b: "\<not> bad s"
    using c by (auto simp: change_config_def split: if_splits)
  have "station_system s gs" using R by (simp add: running_def)
  then have "station_system t gs"
    unfolding t by (rule station_system_cong) (simp_all add: station_view_def f)
  moreover have "(\<lambda>i. s_name (m_stats t i)) = (\<lambda>i. s_name (m_stats s i))" by (simp add: t fun_eq_iff)
  moreover have "station_config_ok (config_of i t)" if "i \<in> set (concat gs)" for i
  proof -
    have "station_config_ok (config_of i s)" using R that unfolding running_def by blast
    then show ?thesis using ok [OF b] unfolding t by (cases "i = st") simp_all
  qed
  ultimately show ?thesis using R unfolding running_def by metis
qed (use R in simp)

section \<open>Steps of a running system\<close>

text \<open>
  What a client that shares the memory and the threads of the system do with the stations: the
  routines of et\_station.c but \<^verbatim>\<open>et_station_setposition\<close>, any routine on events (\<open>m\<close>, its result dropped), up to
  any of its assignments, and the rounds of the conductors.  The configurations that the client makes are those of the routines for configurations.  A client
  removes a station that exists and detaches an attachment whose station exists: the code does not check this.
\<close>

inductive station_step :: "et_mem \<Rightarrow> et_mem \<Rightarrow> bool" where
  create: "usable h = ET_OK \<Longrightarrow> i_locality h = ET_LOCAL \<Longrightarrow> (\<And>c. sc = Some c \<Longrightarrow> stat_config_wf c)
    \<Longrightarrow> et_station_create_at far h name sc pos ppos pid loaded s = Go (r, t) \<Longrightarrow> station_step s t"
| remove: "status_of st s \<noteq> ET_STATION_UNUSED \<Longrightarrow> (\<And>u. same_stations u (env u))
    \<Longrightarrow> et_station_remove far' h st env s = Go (c, t) \<Longrightarrow> station_step s t"
| attach: "et_station_attach far'' h st pid s = (r', t) \<Longrightarrow> station_step s t"
| detach: "status_of (a_stat (sy_attach (m_sys s) a)) s \<in> {ET_STATION_IDLE, ET_STATION_ACTIVE}
    \<Longrightarrow> et_station_detach far' h a ws w0 s = Go (c, t) \<Longrightarrow> station_step s t"
| setblock: "et_station_setblock far' h st v s = (c, t) \<Longrightarrow> station_step s t"
| setuser: "et_station_setuser far' h st v s = (c, t) \<Longrightarrow> station_step s t"
| setrestore: "et_station_setrestore far' h st v s = (c, t) \<Longrightarrow> station_step s t"
| setprescale: "et_station_setprescale far' h st v s = Go (c, t) \<Longrightarrow> station_step s t"
| setcue: "et_station_setcue far' h st v s = Go (c, t) \<Longrightarrow> station_step s t"
| setselectwords: "length ws' = ET_STATION_SELECT_INTS \<Longrightarrow> et_station_setselectwords far' h st ws' s = Go (c, t) \<Longrightarrow> station_step s t"
| events: "always same_stations (m :: unit cmd) \<Longrightarrow> t \<in> set (fst (m s)) \<Longrightarrow> station_step s t"
| conduct: "(\<And>env u. env \<in> set envs \<Longrightarrow> same_stations u (env u))
    \<Longrightarrow> conductor_round usr st envs s = Go t \<Longrightarrow> station_step s t"

lemma running_mutex:
  assumes "running s gs" and "with_input_mutex st (change_config h st bad f s) s = Go (c, t)"
    and "\<And>c. c_flow_mode (f c) = c_flow_mode c"
    and "\<not> bad s \<Longrightarrow> station_config_ok (config_of st s) \<Longrightarrow> station_config_ok (f (config_of st s))"
  shows "running t gs"
proof -
  have "change_config h st bad f s = (c, t)" using assms(2) by (simp add: with_input_mutex_def split: if_splits)
  then show ?thesis using running_config [OF assms(1)] assms(3,4) by blast
qed

lemma running_step:
  assumes "station_step s t" and R: "running s gs"
  shows "\<exists>gs'. running t gs'"
  using assms
proof cases
  case (create h sc far name pos ppos pid loaded r)
  show ?thesis
  proof (cases "t = s")
    case False
    define c where "c = (case sc of None \<Rightarrow> et_station_config_init | Some c \<Rightarrow> c)"
    obtain nm where "create_station h nm c pos ppos pid loaded s = Go (r, t)" "et_station_config_check s c \<noteq> ET_ERROR"
      using create(2,4) False unfolding et_station_create_at_def c_def [symmetric]
      by (auto simp: Let_def split: option.splits if_splits)
    moreover have "stat_config_wf c" using create(3) stat_config_wf_calls [of "[]"]
      by (auto simp: c_def stat_config_calls_def split: option.split)
    ultimately show ?thesis using running_create [OF R create(1,2) config_checked] by blast
  qed (use R in blast)
next
  case (remove st env far h c)
  then show ?thesis using running_remove [OF R remove(2,1)] by blast
next
  case (attach far h st pid r)
  then show ?thesis using running_attach [OF R] by blast
next
  case (detach a far h ws w0 c)
  then show ?thesis using running_detach [OF R] by blast
next
  case (setblock far h st v c)
  then have "running t gs"
    using R by (auto simp: et_station_setblock_def station_config_ok_def stat_config_wf_def shares_events_def split: if_splits elim!: running_config [OF R])
  then show ?thesis ..
next
  case (setuser far h st v c)
  then have "running t gs"
    using R by (auto simp: et_station_setuser_def station_config_ok_def stat_config_wf_def shares_events_def split: if_splits elim!: running_config [OF R])
  then show ?thesis ..
next
  case (setrestore far h st v c)
  then have "running t gs"
    using R by (auto simp: et_station_setrestore_def station_config_ok_def stat_config_wf_def shares_events_def split: if_splits elim!: running_config [OF R])
  then show ?thesis ..
next
  case (setprescale far h st v c)
  then have "running t gs"
    using R by (auto simp: et_station_setprescale_def station_config_ok_def stat_config_wf_def shares_events_def split: if_splits elim!: running_mutex [OF R])
  then show ?thesis ..
next
  case (setcue far h st v c)
  then have "running t gs"
    using R by (auto simp: et_station_setcue_def station_config_ok_def stat_config_wf_def shares_events_def split: if_splits elim!: running_mutex [OF R])
  then show ?thesis ..
next
  case (setselectwords far h st ws c)
  then have "running t gs"
    using R by (auto simp: et_station_setselectwords_def station_config_ok_def stat_config_wf_def shares_events_def split: if_splits elim!: running_mutex [OF R])
  then show ?thesis ..
next
  case (events m)
  then have "same_stations s t" by (simp add: always_def)
  then show ?thesis using running_same [OF R] by blast
next
  case (conduct envs usr st)
  then have "same_stations s t" using stations_kept.kept_conductor_round [of envs s usr st] by simp
  then show ?thesis using running_same [OF R] by blast
qed

end
