(* ===== verification/Et_StartFacts.thy ===== *)
theory Et_StartFacts
  imports Et_Start Et_StationSteps Et_LlistSpec Et_Holdings
begin

text \<open>
  The start of a system makes a running system: GrandCentral is the only station, it is active, all
  events are in its input list, and each has the number of its group.
\<close>

section \<open>Initialised memory\<close>

lemma fold_stations:
  "distinct xs \<Longrightarrow> m_stats (fold (\<lambda>st. upd_station st f) xs s) i = (if i \<in> set xs then f (m_stats s i) else m_stats s i)"
  "m_sys (fold (\<lambda>st. upd_station st f) xs s) = m_sys s" "m_events (fold (\<lambda>st. upd_station st f) xs s) = m_events s"
  by (induction xs arbitrary: s) (auto simp: upd_station_def)

lemma fold_events:
  "distinct xs \<Longrightarrow> m_events (fold (\<lambda>i. upd_event i (f i)) xs s) e = (if e \<in> set xs then f e (m_events s e) else m_events s e)"
  "m_sys (fold (\<lambda>i. upd_event i (f i)) xs s) = m_sys s" "m_stats (fold (\<lambda>i. upd_event i (f i)) xs s) = m_stats s"
  by (induction xs arbitrary: s) (auto simp: upd_event_def)

lemma fold_attachments:
  "m_stats (fold et_init_attachment xs s) = m_stats s" "m_events (fold et_init_attachment xs s) = m_events s"
  "sy_nstations (m_sys (fold et_init_attachment xs s)) = sy_nstations (m_sys s)"
  "sy_stat_tail (m_sys (fold et_init_attachment xs s)) = sy_stat_tail (m_sys s)"
  by (induction xs arbitrary: s) (simp_all add: et_init_attachment_def upd_attach_def)

lemma fold_processes:
  "sy_nstations (fold et_init_process xs y) = sy_nstations y" "sy_stat_tail (fold et_init_process xs y) = sy_stat_tail y"
  by (induction xs arbitrary: y) (simp_all add: et_init_process_def)

text \<open>The memory before GrandCentral is created.\<close>

definition fresh_memory :: "et_sys_config \<Rightarrow> et_mem \<Rightarrow> et_mem" where
  "fresh_memory c s = et_init_mem_event (et_init_histogram (et_init_mem_station (et_init_mem_sys c s)))"

definition blank_station :: "et_station \<Rightarrow> et_station" where
  "blank_station p = (et_init_station (p\<lparr>s_list_in := (s_list_in p)\<lparr>l_mutex := False\<rparr>,
     s_list_out := (s_list_out p)\<lparr>l_mutex := False\<rparr>\<rparr>))\<lparr>s_mutex := False\<rparr>"

lemma fresh_memory_reads:
  "sy_config (m_sys (fresh_memory c s)) = c" "sy_nstations (m_sys (fresh_memory c s)) = 0"
  "sy_stat_tail (m_sys (fresh_memory c s)) = ET_GRANDCENTRAL" "nevents (fresh_memory c s) = y_nevents c"
  "m_stats (fresh_memory c s) i = (if 0 \<le> i \<and> i < y_nstations c then blank_station (m_stats s i) else m_stats s i)"
  "e < nat (y_nevents c) \<Longrightarrow> m_events (fresh_memory c s) e = (et_init_event (m_events s e))
     \<lparr>e_filename := y_filename c @ ''_temp'' @ decimal e, e_place := int e\<rparr>"
proof -
  have sys: "sy_config (m_sys (et_init_mem_sys c s)) = c" "sy_nstations (m_sys (et_init_mem_sys c s)) = 0"
    "sy_stat_tail (m_sys (et_init_mem_sys c s)) = ET_GRANDCENTRAL" "m_stats (et_init_mem_sys c s) = m_stats s"
    "m_events (et_init_mem_sys c s) = m_events s"
    by (simp_all add: et_init_mem_sys_def Let_def fold_attachments fold_processes)
  have d: "distinct (map int [0..<n])" for n by (simp add: distinct_map)
  have i: "i \<in> set (map int [0..<nat n]) \<longleftrightarrow> 0 \<le> i \<and> i < n" for i n by (auto simp: image_iff intro!: bexI [of _ "nat i"])
  let ?st = "et_init_mem_station (et_init_mem_sys c s)"
  have st: "m_sys ?st = m_sys (et_init_mem_sys c s)" "m_events ?st = m_events s"
    "\<And>i. m_stats ?st i = (if 0 \<le> i \<and> i < y_nstations c then blank_station (m_stats s i) else m_stats s i)"
    unfolding et_init_mem_station_def by (simp_all add: fold_stations d i sys blank_station_def del: set_map)
  have h: "m_sys (et_init_histogram u) = m_sys u" "m_events (et_init_histogram u) = m_events u"
    "m_stats (et_init_histogram u) = m_stats u" "nevents (et_init_histogram u) = nevents u" for u
    by (simp_all add: et_init_histogram_def nevents_def)
  show "sy_config (m_sys (fresh_memory c s)) = c" "sy_nstations (m_sys (fresh_memory c s)) = 0"
    "sy_stat_tail (m_sys (fresh_memory c s)) = ET_GRANDCENTRAL" "nevents (fresh_memory c s) = y_nevents c"
    "m_stats (fresh_memory c s) i = (if 0 \<le> i \<and> i < y_nstations c then blank_station (m_stats s i) else m_stats s i)"
    unfolding fresh_memory_def et_init_mem_event_def nevents_def by (simp_all add: fold_events h st sys)
  show "m_events (fresh_memory c s) e = (et_init_event (m_events s e))
     \<lparr>e_filename := y_filename c @ ''_temp'' @ decimal e, e_place := int e\<rparr>" if "e < nat (y_nevents c)"
    unfolding fresh_memory_def et_init_mem_event_def nevents_def using that by (simp add: fold_events h st sys)
qed

section \<open>Filling GrandCentral\<close>

text \<open>The numbers of the groups, one per event; the first group of \<open>gs\<close> has the number \<open>i + 1\<close>.\<close>

fun group_numbers :: "nat \<Rightarrow> int list \<Rightarrow> int list" where
  "group_numbers i [] = []"
| "group_numbers i (g # gs) = replicate (nat g) (int (Suc i)) @ group_numbers (Suc i) gs"

lemma length_group_numbers: "\<forall>g \<in> set gs. 1 \<le> g \<Longrightarrow> int (length (group_numbers i gs)) = sum_list gs"
  by (induction gs arbitrary: i) auto

definition filled :: "nat list \<Rightarrow> et_mem \<Rightarrow> et_mem \<Rightarrow> bool" where
  "filled es s t \<longleftrightarrow> (\<forall>q. q \<noteq> ListIn ET_GRANDCENTRAL \<longrightarrow> glist q t = glist q s) \<and> m_sys t = m_sys s
     \<and> (\<forall>e. e_priority (m_events t e) = e_priority (m_events s e) \<and> e_owner (m_events t e) = e_owner (m_events s e))
     \<and> (\<forall>e. e \<notin> set es \<longrightarrow> e_group (m_events t e) = e_group (m_events s e)) \<and> same_stations s t
     \<and> l_mutex (glist (ListIn ET_GRANDCENTRAL) t) = l_mutex (glist (ListIn ET_GRANDCENTRAL) s)"

lemma link_eq_group: "link_eq a b \<Longrightarrow> e_group b = e_group a"
  by (cases a; cases b; simp add: link_eq_def)

lemma fill_one:
  assumes xs: "ev_list s (ListIn ET_GRANDCENTRAL) xs" and e: "e \<notin> set xs" "e_owner (m_events s e) = ET_SYS"
    and room: "int (length xs) < nevents s"
  shows "\<exists>t. et_llist_write_gc [e] (upd_event e (e_group_update (\<lambda>_. g)) s) = Some (ET_OK, t)
     \<and> ev_list t (ListIn ET_GRANDCENTRAL) (xs @ [e]) \<and> filled [e] s t \<and> e_group (m_events t e) = g"
proof -
  let ?r = "ListIn ET_GRANDCENTRAL"
  let ?u = "upd_event e (e_group_update (\<lambda>_. g)) s"
  have u: "ev_list ?u ?r xs"
  proof -
    have "chain (m_events ?u) (first_of ?r s) xs = chain (m_events s) (first_of ?r s) xs"
      by (rule chain_cong) auto
    then show ?thesis using xs e by (auto simp: ev_list_def)
  qed
  obtain t where t: "et_llist_write_gc [e] ?u = Some (ET_OK, t)" "ev_list t ?r (xs @ [e])"
    "frame ?r (set xs \<union> {e}) ?u t" "l_mutex (glist ?r t) = l_mutex (glist ?r ?u)"
    using et_llist_write_gc_ok [OF u, of "[e]"] e room by auto
  have ow: "e_owner (m_events t x) = e_owner (m_events s x)" for x
  proof (cases "x \<in> set (xs @ [e])")
    case True
    then show ?thesis using t(2) xs e(2) by (auto simp: ev_list_def)
  next
    case False
    then show ?thesis using t(3) by (simp add: frame_def)
  qed
  have le: "link_eq (m_events ?u x) (m_events t x)" for x using t(3) by (simp add: frame_def)
  have pr: "e_priority (m_events t x) = e_priority (m_events s x)" for x using link_eq_priority [OF le [of x]] by simp
  have gr: "e_group (m_events t x) = (if x = e then g else e_group (m_events s x))" for x
    using link_eq_group [OF le [of x]] by simp
  have "same_stations ?u t" using stations_kept.deal.rel_llist_write_gc [OF t(1)] by simp
  then have "same_stations s t" by (rule stations_kept.trans [OF stations_kept.upd(2)])
  then have "filled [e] s t" using t(3,4) ow pr gr by (auto simp: filled_def frame_def)
  then show ?thesis using t(1,2) gr [of e] by auto
qed

lemma filled_trans: "filled es s t \<Longrightarrow> filled fs t u \<Longrightarrow> filled (es @ fs) s u"
  unfolding filled_def using stations_kept.trans by (auto simp: fun_eq_iff)

lemma fill_ok:
  assumes xs: "ev_list s (ListIn ET_GRANDCENTRAL) xs" and es: "distinct (xs @ es)"
    and ow: "\<forall>e \<in> set es. e_owner (m_events s e) = ET_SYS" and room: "int (length (xs @ es)) \<le> nevents s"
    and G: "drop index groups = G @ rest" "\<forall>g \<in> set G. 1 \<le> g" "0 \<le> left" "int (length es) \<le> left + sum_list G"
  shows "\<exists>t. fill_grandcentral es groups index left s = Some (ET_OK, t) \<and> ev_list t (ListIn ET_GRANDCENTRAL) (xs @ es)
     \<and> filled es s t \<and> map (\<lambda>e. e_group (m_events t e)) es
         = take (length es) (replicate (nat left) (int index) @ group_numbers index G)"
  using assms
proof (induction es arbitrary: s xs index left G)
  case Nil
  then show ?case by (simp add: filled_def stations_kept.refl)
next
  case (Cons e es)
  define left' where "left' = (if left = 0 then hd G else left)"
  define index' where "index' = (if left = 0 then Suc index else index)"
  define G' where "G' = (if left = 0 then tl G else G)"
  have g: "G \<noteq> [] \<and> index < length groups \<and> groups ! index = hd G" if "left = 0"
  proof -
    have "G \<noteq> []" using Cons.prems(8) that by auto
    moreover then have i: "index < length groups" using Cons.prems(5) by (metis append_is_Nil_conv drop_eq_Nil not_le)
    ultimately show ?thesis using Cons.prems(5) by (metis hd_append2 hd_drop_conv_nth)
  qed
  have G': "drop index' groups = G' @ rest" "\<forall>g \<in> set G'. 1 \<le> g" "1 \<le> left'"
    "int (length (e # es)) \<le> left' + sum_list G'"
  proof -
    show "drop index' groups = G' @ rest"
      using g Cons.prems(5) by (cases G) (auto simp: index'_def G'_def drop_Suc tl_drop [symmetric])
    show "\<forall>g \<in> set G'. 1 \<le> g" using Cons.prems(6) by (cases G) (auto simp: G'_def)
    show "1 \<le> left'" using Cons.prems(6,7) g by (cases G) (auto simp: left'_def)
    show "int (length (e # es)) \<le> left' + sum_list G'"
      using Cons.prems(8) g by (cases G) (auto simp: left'_def G'_def)
  qed
  have nums: "replicate (nat left) (int index) @ group_numbers index G = replicate (nat left') (int index') @ group_numbers index' G'"
    using g by (cases G) (auto simp: left'_def index'_def G'_def)
  obtain u where u: "et_llist_write_gc [e] (upd_event e (e_group_update (\<lambda>_. int index')) s) = Some (ET_OK, u)"
    "ev_list u (ListIn ET_GRANDCENTRAL) (xs @ [e])" "filled [e] s u" "e_group (m_events u e) = int index'"
    using fill_one [OF Cons.prems(1), of e "int index'"] Cons.prems(2-4) by auto
  have f: "fill_grandcentral (e # es) groups index left s = fill_grandcentral es groups index' (left' - 1) u"
    using g u(1) by (auto simp: left'_def index'_def)
  obtain t where t: "fill_grandcentral es groups index' (left' - 1) u = Some (ET_OK, t)"
    "ev_list t (ListIn ET_GRANDCENTRAL) ((xs @ [e]) @ es)" "filled es u t"
    "map (\<lambda>e. e_group (m_events t e)) es
       = take (length es) (replicate (nat (left' - 1)) (int index') @ group_numbers index' G')"
    using Cons.IH [OF u(2) _ _ _ G'(1,2), of "left' - 1"] Cons.prems(2-4) G'(3,4) u(3)
    by (auto simp: filled_def nevents_def)
  have "e \<notin> set es" using Cons.prems(2) by simp
  then have "e_group (m_events t e) = int index'" using t(3) u(4) by (simp add: filled_def)
  moreover have "nat left' = Suc (nat (left' - 1))" using G'(3) by simp
  ultimately have "map (\<lambda>e. e_group (m_events t e)) (e # es)
     = take (length (e # es)) (replicate (nat left') (int index') @ group_numbers index' G')"
    using t(4) by simp
  then show ?case using f t(1,2) filled_trans [OF u(3) t(3)] nums by simp
qed

section \<open>The start\<close>

lemma gc_config_fields [simp]:
  "c_flow_mode gc_config = ET_STATION_SERIAL" "c_select_mode gc_config = ET_STATION_SELECT_ALL"
  "c_init gc_config = ET_STRUCT_OK" "c_user_mode gc_config = ET_STATION_USER_MULTI"
  "c_restore_mode gc_config = ET_STATION_RESTORE_GC" "c_block_mode gc_config = ET_STATION_BLOCKING"
  "c_prescale gc_config = 1"
  by (simp_all add: gc_config_def et_station_config_init_def et_station_config_setuser_def
      et_station_config_setrestore_def et_station_config_setselect_def et_station_config_setblock_def
      et_station_config_setprescale_def)

lemma gc_config_ok: "station_config_ok gc_config"
proof (rule config_checked)
  show "stat_config_wf gc_config"
    by (simp add: stat_config_wf_def gc_config_def et_station_config_init_def et_station_config_setuser_def
      et_station_config_setrestore_def et_station_config_setselect_def et_station_config_setblock_def
      et_station_config_setprescale_def)
  show "et_station_config_check mem0 gc_config \<noteq> ET_ERROR"
    by (simp add: et_station_config_check_def samples)
qed

abbreviation gc_created :: "et_sys_config \<Rightarrow> int \<Rightarrow> et_mem \<Rightarrow> et_mem" where
  "gc_created c pid s \<equiv> new_station ET_GRANDCENTRAL ''GRAND_CENTRAL'' gc_config pid (add_stations 1 (fresh_memory c s))"

lemma create_gc:
  assumes "et_system_config_check c0 = (ET_OK, c)"
  shows "et_station_create far et_id_init (Some ''GRAND_CENTRAL'') (Some gc_config) pid loaded (fresh_memory c s)
     = Go ((ET_OK, None), gc_created c pid s)"
proof -
  let ?u = "fresh_memory c s"
  have n: "0 < y_nstations c" "0 < y_nattachments c" using check_ok [OF assms] by simp_all
  have "[0..<nat (y_nstations c)] = 0 # [Suc 0..<nat (y_nstations c)]" using n(1) by (simp add: upt_conv_Cons)
  then have f: "find (\<lambda>i. status_of i ?u = ET_STATION_UNUSED) (map int [0..<max_stations ?u]) = Some ET_GRANDCENTRAL"
    using n(1) by (simp add: fresh_memory_reads blank_station_def et_init_station_def)
  have x: "et_station_exists (0, None) et_id_init (Some ''GRAND_CENTRAL'') ?u = (ET_ERROR_DEAD, None)"
    by (simp add: et_station_exists_def et_id_init_def usable_def)
  have "et_station_config_check ?u gc_config = ET_OK"
    using n(2) by (simp add: et_station_config_check_def fresh_memory_reads)
  moreover have "create_station et_id_init ''GRAND_CENTRAL'' gc_config ET_END ET_END pid loaded ?u = Go ((ET_OK, None), gc_created c pid s)"
    unfolding create_station_def x using f n(1) by (simp add: fresh_memory_reads)
  ultimately show ?thesis
    by (simp add: et_station_create_def et_station_create_at_def et_id_init_def)
qed

lemma gc_created_reads:
  "sy_config (m_sys (gc_created c pid s)) = c" "sy_nstations (m_sys (gc_created c pid s)) = 1"
  "tail_of (gc_created c pid s) = ET_GRANDCENTRAL" "nevents (gc_created c pid s) = y_nevents c"
  "m_events (gc_created c pid s) = m_events (fresh_memory c s)"
  by (simp_all add: new_station_def fresh_memory_reads nevents_def)

lemma gc_created_station:
  assumes "0 < y_nstations c"
  shows "status_of j (gc_created c pid s) = (if j = ET_GRANDCENTRAL then ET_STATION_CREATING
      else if j < y_nstations c \<and> 0 \<le> j then ET_STATION_UNUSED else status_of j s)"
    "config_of ET_GRANDCENTRAL (gc_created c pid s) = gc_config"
    "s_name (m_stats (gc_created c pid s) ET_GRANDCENTRAL) = ''GRAND_CENTRAL''"
    "num_of (gc_created c pid s) ET_GRANDCENTRAL = ET_GRANDCENTRAL"
    "next_link (gc_created c pid s) ET_GRANDCENTRAL = - 1" "prev_link (gc_created c pid s) ET_GRANDCENTRAL = - 1"
    "nextpar_link (gc_created c pid s) ET_GRANDCENTRAL = - 1" "prevpar_link (gc_created c pid s) ET_GRANDCENTRAL = - 1"
    "0 \<le> stat_of r \<Longrightarrow> stat_of r < y_nstations c \<Longrightarrow>
      cnt_of r (gc_created c pid s) = 0 \<and> l_lasthigh (glist r (gc_created c pid s)) = 0 \<and> \<not> l_mutex (glist r (gc_created c pid s))"
    "\<not> (0 \<le> stat_of r \<and> stat_of r < y_nstations c) \<Longrightarrow> glist r (gc_created c pid s) = glist r s"
  using assms
  by (cases r; auto simp: new_station_def upd_station_def fresh_memory_reads blank_station_def et_init_station_def
      et_init_llist_def glist.simps)+

lemma stations_gc:
  assumes "0 < y_nstations c" and "same_stations (gc_created c pid s) t"
  shows "stations t [[ET_GRANDCENTRAL]]"
proof -
  note S = gc_created_station [OF assms(1), where pid = pid and s = s] gc_created_reads [where c = c and pid = pid and s = s]
  note T = assms(2) [unfolded same_stations_def]
  have "in_array t ET_GRANDCENTRAL" using T S assms(1) by (simp add: in_array_def)
  then show ?thesis using T S by (simp add: stations_def)
qed

lemma stats_station_same: "same_stations s (et_init_stats_station st s)"
  unfolding et_init_stats_station_def Let_def o_def
  by (rule stations_kept.trans [OF stations_kept.upd(1) stations_kept.upd(1)])

lemma start_conductor:
  assumes n: "0 < y_nstations c" and T: "same_stations (gc_created c pid s) t"
  shows "snd (conductor_start True t) = set_status ET_GRANDCENTRAL ET_STATION_ACTIVE t"
proof -
  note S = gc_created_station [OF n, where pid = pid and s = s] gc_created_reads [where c = c and pid = pid and s = s]
  have st: "status_of j t = status_of j (gc_created c pid s)" for j using T by (simp add: same_stations_def)
  have c: "sy_config (m_sys t) = c" using T S by (simp add: same_stations_def)
  have "filter (\<lambda>st. status_of st t = ET_STATION_CREATING) (map int [0..<max_stations t]) = [ET_GRANDCENTRAL]"
  proof (rule filter_only)
    show "distinct (map int [0..<max_stations t])" by (simp add: distinct_map)
    show "ET_GRANDCENTRAL \<in> set (map int [0..<max_stations t])" using n c by (auto simp: image_iff)
    show "(status_of x t = ET_STATION_CREATING) = (x = ET_GRANDCENTRAL)" if "x \<in> set (map int [0..<max_stations t])" for x
      using that c unfolding st by (auto simp: S)
  qed
  moreover have "config_of ET_GRANDCENTRAL t = gc_config" using T S(2) by (simp add: same_stations_def)
  ultimately show ?thesis by (simp add: conductor_start_def)
qed

lemma running_start:
  assumes n: "0 < y_nstations c" and T: "same_stations (gc_created c pid s) t"
  shows "running (set_status ET_GRANDCENTRAL ET_STATION_ACTIVE t) [[ET_GRANDCENTRAL]]"
proof -
  let ?t = "set_status ET_GRANDCENTRAL ET_STATION_ACTIVE t"
  note S = gc_created_station [OF n, where pid = pid and s = s] gc_created_reads [where c = c and pid = pid and s = s]
  have st: "status_of j t = status_of j (gc_created c pid s)" for j using T by (simp add: same_stations_def)
  have c: "sy_config (m_sys t) = c" "sy_nstations (m_sys t) = 1" "s_name (m_stats t ET_GRANDCENTRAL) = ''GRAND_CENTRAL''"
    using T S by (simp_all add: same_stations_def)
  have "stations ?t [[ET_GRANDCENTRAL]]"
    by (rule stations_cong [OF stations_gc [OF n T]]) (simp_all add: station_view_def)
  moreover have "if j \<in> set (concat [[ET_GRANDCENTRAL]]) then status_of j ?t \<in> {ET_STATION_IDLE, ET_STATION_ACTIVE}
      else status_of j ?t = ET_STATION_UNUSED" if "in_array ?t j" for j
    using that c st [of j] S(1) [of j] by (auto simp: in_array_def)
  moreover have "sy_nstations (m_sys ?t) = int (length (concat [[ET_GRANDCENTRAL]]))" by (simp add: c)
  ultimately have "station_system ?t [[ET_GRANDCENTRAL]]" by (intro station_systemI) blast+
  moreover have "config_of ET_GRANDCENTRAL ?t = gc_config" using T S(2) by (simp add: same_stations_def)
  ultimately show ?thesis using c(3) gc_config_ok by (simp add: running_def)
qed

text \<open>The lists of stations that do not exist are empty.\<close>

definition no_lists_outside :: "et_sys_config \<Rightarrow> et_mem \<Rightarrow> bool" where
  "no_lists_outside c s \<longleftrightarrow> (\<forall>r. \<not> (0 \<le> stat_of r \<and> stat_of r < y_nstations c) \<longrightarrow>
     cnt_of r s = 0 \<and> l_lasthigh (glist r s) = 0)"

lemma start_run:
  assumes ok: "et_system_config_check c0 = (ET_OK, c)" and g: "\<forall>g \<in> set (take (nat (y_groupCount c)) (y_groups c)). 1 \<le> g"
    and out: "no_lists_outside c s"
  shows "\<exists>t. start_memory c0 pid s = Go (ET_OK, t) \<and> running t [[ET_GRANDCENTRAL]]
     \<and> status_of ET_GRANDCENTRAL t = ET_STATION_ACTIVE \<and> config_of ET_GRANDCENTRAL t = gc_config
     \<and> holds t ((\<lambda>_. [])(ListIn ET_GRANDCENTRAL := [0..<nat (y_nevents c)])) {}
     \<and> map (\<lambda>e. e_group (m_events t e)) [0..<nat (y_nevents c)]
         = take (nat (y_nevents c)) (group_numbers 0 (take (nat (y_groupCount c)) (y_groups c)))"
proof -
  let ?u = "gc_created c pid s" and ?es = "[0..<nat (y_nevents c)]" and ?G = "take (nat (y_groupCount c)) (y_groups c)"
  let ?r = "ListIn ET_GRANDCENTRAL"
  have n: "0 < y_nstations c" "0 < y_nevents c" "y_nevents c \<le> sum_list ?G"
    using check_ok [OF ok] groups_sum_at_most [OF g] by simp_all
  note S = gc_created_station [OF n(1), where pid = pid and s = s] gc_created_reads [where c = c and pid = pid and s = s]
  have ev: "e_owner (m_events ?u e) = ET_SYS \<and> pri_of e ?u = ET_LOW" if "e < nat (y_nevents c)" for e
    using fresh_memory_reads(6) [OF that] S by (simp add: et_init_event_def)
  have "ev_list ?u ?r []" using S(9) [of ?r] n(1) by (simp add: ev_list_def)
  then obtain t where t: "fill_grandcentral ?es (y_groups c) 0 0 ?u = Some (ET_OK, t)" "ev_list t ?r ?es" "filled ?es ?u t"
      "map (\<lambda>e. e_group (m_events t e)) ?es = take (length ?es) (group_numbers 0 ?G)"
    using fill_ok [of ?u "[]" ?es 0 "y_groups c" ?G "drop (nat (y_groupCount c)) (y_groups c)" 0] n g ev S by auto
  have T1: "same_stations ?u t" using t(3) by (simp add: filled_def)
  let ?v = "et_init_stats_station ET_GRANDCENTRAL t"
  have T: "same_stations ?u ?v" using stations_kept.trans [OF T1 stats_station_same] .
  let ?w = "set_status ET_GRANDCENTRAL ET_STATION_ACTIVE ?v"
  have m: "sy_config (m_sys ?u) = c" "nevents ?u = y_nevents c" using S by simp_all
  have gc: "et_grandcentral_station_create et_id_init pid (fresh_memory c s) = Go (ET_OK, ?w)"
    unfolding et_grandcentral_station_create_def create_gc [OF ok] res_bind.simps prod.case m
    using t(1) start_conductor [OF n(1) T] by simp
  have st: "start_memory c0 pid s = Go (ET_OK, ?w)"
    unfolding start_memory_def fresh_memory_def [symmetric] Let_def using ok by (simp add: gc)
  have "config_of ET_GRANDCENTRAL ?w = gc_config" using T S(2) by (simp add: same_stations_def)
  moreover have e: "m_events ?w = m_events t" "nevents ?w = y_nevents c"
    using T1 m by (simp_all add: et_init_stats_station_def Let_def nevents_def same_stations_def)
  moreover have "holds ?w ((\<lambda>_. [])(?r := ?es)) {}"
  proof -
    have gl: "cnt_of r ?w = cnt_of r t \<and> first_of r ?w = first_of r t \<and> last_of r ?w = last_of r t
        \<and> l_lasthigh (glist r ?w) = l_lasthigh (glist r t)" for r
      by (cases r; simp add: et_init_stats_station_def Let_def glist.simps upd_station_def upd_list.simps)
    have "list_ok ?w r (((\<lambda>_. [])(?r := ?es)) r)" for r
    proof (cases "r = ?r")
      case True
      have "pri_of e t = ET_LOW" if "e < nat (y_nevents c)" for e using ev [OF that] t(3) by (simp add: filled_def)
      then show ?thesis using t(2) True gl e n(2) by (auto simp: list_ok_def ev_list_def)
    next
      case False
      have "cnt_of r ?u = 0 \<and> l_lasthigh (glist r ?u) = 0"
        using S(9,10) [of r] out unfolding no_lists_outside_def by (cases "0 \<le> stat_of r \<and> stat_of r < y_nstations c") auto
      then have "cnt_of r t = 0 \<and> l_lasthigh (glist r t) = 0" using t(3) False by (simp add: filled_def)
      then have "cnt_of r ?w = 0 \<and> l_lasthigh (glist r ?w) = 0" using gl [of r] by simp
      then show ?thesis using False unfolding list_ok_def ev_list_def by (auto simp: pri_sorted_def)
    qed
    moreover have "set (((\<lambda>_. [])(?r := ?es)) r) \<inter> set (((\<lambda>_. [])(?r := ?es)) q) = {}" if "r \<noteq> q" for r q
      using that by auto
    ultimately show ?thesis using n(2) e unfolding holds_def by auto
  qed
  ultimately show ?thesis
    using st running_start [OF n(1) T] t(4) by (intro exI [of _ ?w]) simp
qed

end
