(* ===== verification/Et_StationFaults.thy ===== *)
theory Et_StationFaults
  imports Et_StartFacts
begin

text \<open>
  Two ways out of a running system: a station that is moved to the end of the list keeps its link to
  the station behind its old place, and an attachment can be detached more than once.
\<close>

section \<open>Moving a station to the end\<close>

lemma main_walk_never:
  assumes w: "main_walk s pos c p = Some r" and p: "p \<in> M" "pos < c"
    and M: "\<And>i. i \<in> M \<Longrightarrow> next_link s i \<in> M \<and> 0 \<le> next_link s i"
  shows False
proof -
  have "s = s \<longrightarrow> p \<in> M \<longrightarrow> pos < c \<longrightarrow> False"
    by (rule main_walk.raw_induct [where P = "\<lambda>s' pos c p r. s' = s \<longrightarrow> p \<in> M \<longrightarrow> pos < c \<longrightarrow> False", OF _ w])
      (use M in \<open>force simp: Let_def split: if_splits\<close>)
  then show False using p by blast
qed

text \<open>A station that is alone at its place.\<close>

lemma unlink_alone:
  assumes S: "stations s (as @ [st] # b # bs)" and st: "as \<noteq> []"
  shows "\<exists>u. station_remove st s = Go u \<and> stations u (as @ b # bs) \<and> relinked s u \<and> next_link u st = hd b"
proof -
  let ?gs = "as @ [st] # b # bs"
  note D = stationsD [OF S]
  have i: "st \<in> set (concat ?gs)" "st \<noteq> ET_GRANDCENTRAL"
    using D(2,4) st by (cases as; auto)+
  obtain u where u: "station_remove st s = Go u" "stations u (drop_station st ?gs)" "relinked s u"
    using station_remove_ok [OF S i] by blast
  obtain as' a where as: "as = as' @ [a]" using st by (metis rev_exhaust)
  have A: "stations s (as' @ a # [st] # b # bs)" using S as by simp
  note C = stations_around [OF A]
  have n: "next_link s st = hd b" "prev_link s st = hd a" "st \<noteq> hd a" using C(2,5,6) by auto
  have p: "- 1 < prev_link s st" using C(7) [of "hd a"] n(2) by (auto simp: in_array_def)
  have "[st] \<in> set ?gs" by simp
  then have q: "nextpar_link s st = - 1" using D(8) [of "[st]"] by simp
  have "unlink_main st s = Go u" using u(1) p q by (simp add: station_remove_def split: if_splits)
  then have "next_link u st = hd b"
    using n by (auto simp: unlink_main_def Let_def at_station_def split: if_splits)
  moreover have "drop_station st ?gs = as @ b # bs" using drop_station_split [OF D(4,3)] by simp
  ultimately show ?thesis using u by metis
qed

lemma dll_next: "dll nx pv a xs b \<Longrightarrow> x \<in> set xs \<Longrightarrow> x \<noteq> last xs \<Longrightarrow> nx x \<in> set xs"
  by (induction xs arbitrary: a) (auto split: if_splits)

theorem move_to_end:
  assumes S: "station_system s (as @ [st] # b # bs)" and st: "as \<noteq> []"
  shows "\<exists>t. move_station st ET_END ppos s = Go (ET_OK, t)
     \<and> (\<forall>n. (next_link t ^^ n) st \<in> {st} \<union> hd ` set (b # bs)) \<and> main_walk t ET_END 1 ET_GRANDCENTRAL = None"
proof -
  let ?gs = "as @ [st] # b # bs" and ?hs = "as @ b # bs"
  have S': "stations s ?gs" and n: "sy_nstations (m_sys s) = int (length (concat ?gs))"
    using station_systemD [OF S] by simp_all
  note D = stationsD [OF S']
  obtain u where u: "station_remove st s = Go u" "stations u ?hs" "relinked s u" "next_link u st = hd b"
    using unlink_alone [OF S' st] by blast
  note U = stationsD [OF u(2)]
  let ?H = "map hd ?hs" and ?l = "hd (last (b # bs))"
  have f: "station_find st s = Go (Some (int (length as), 0))"
    using station_find_ok [OF S' n, of "length as" 0] by simp
  obtain x H where H: "?H = x # H" "x = ET_GRANDCENTRAL" using U(1,2) by (cases ?hs) auto
  have heads: "set ?H \<subseteq> set (concat ?hs)" using heads_subset [OF U(3)] by (simp only: set_map)
  have in_u: "y \<in> set ?H \<Longrightarrow> in_array u y \<and> num_of u y = y" for y
    using U(5) heads by blast
  have d: "dll (next_link u) (prev_link u) (- 1) (x # H) (- 1)" using U(6) H(1) by simp
  have w: "main_walk u ET_END 1 ET_GRANDCENTRAL = Some (?l, - 1)"
  proof -
    have "set H \<subseteq> set ?H" unfolding H(1) by auto
    then have "\<forall>y \<in> set H. 0 \<le> y" using in_u unfolding in_array_def by blast
    moreover have "last (x # H) = ?l" unfolding H(1) [symmetric] by (simp add: last_map)
    ultimately show ?thesis using main_walk_run [OF d, of ET_END 1] H(2) by simp
  qed
  let ?t = "append_station st ?l u"
  have len: "3 \<le> length (concat ?gs)"
  proof -
    have "0 < length (concat as)" "0 < length b" using st D(3) by (cases as; auto)+
    moreover have "length (concat ?gs) = length (concat as) + 1 + length b + length (concat bs)" by simp
    ultimately show ?thesis by linarith
  qed
  then have m: "move_station st ET_END ppos s = Go (ET_OK, ?t)"
    using f u(1) w relinked_sys(1) [OF u(3)] n by (simp add: move_station_def station_insert_def)
  have l: "?l \<in> hd ` set (b # bs)" using last_in_set [of "b # bs"] by blast
  then have lH: "?l \<in> set ?H" by auto
  have stH: "st \<notin> set ?H" proof -
    have "st \<notin> set (concat ?hs)" using D(4) by auto
    then show ?thesis using heads by blast
  qed
  have num: "num_of u ?l = ?l" "num_of u st = st"
    using in_u [OF lH] relinkedD(2) [OF u(3), of st] D(5) [of st] by auto
  have nx: "next_link ?t i = (if i = ?l then st else next_link u i)" for i
    using num stH lH by (auto simp: append_station_def Let_def set_tail_def)
  have step: "next_link ?t i \<in> {st} \<union> hd ` set (b # bs)" if "i \<in> {st} \<union> hd ` set (b # bs)" for i
  proof -
    have "dll (next_link u) (prev_link u) (hd (last as)) (map hd (b # bs)) (- 1)"
      using U(6) st by (simp add: dll_append last_map)
    moreover have "last (map hd (b # bs)) = ?l" by (simp add: last_map)
    ultimately have "i \<in> hd ` set (b # bs) \<Longrightarrow> i \<noteq> ?l \<Longrightarrow> next_link u i \<in> hd ` set (b # bs)"
      using dll_next [of "next_link u" "prev_link u" _ "map hd (b # bs)" "- 1" i] by simp
    then show ?thesis using that u(4) nx [of i] by (auto split: if_splits)
  qed
  have "(next_link ?t ^^ n) st \<in> {st} \<union> hd ` set (b # bs)" for n
  proof (induction n)
    case (Suc n)
    then show ?case using step by (simp only: funpow.simps o_apply)
  qed simp
  moreover have "main_walk ?t ET_END 1 ET_GRANDCENTRAL = None"
  proof (rule ccontr)
    assume "main_walk ?t ET_END 1 ET_GRANDCENTRAL \<noteq> None"
    then obtain r where r: "main_walk ?t ET_END 1 ET_GRANDCENTRAL = Some r" by auto
    show False
    proof (rule main_walk_never [OF r, of "{st} \<union> set ?H"])
      show "ET_GRANDCENTRAL \<in> {st} \<union> set ?H" using H by simp
      show "next_link ?t i \<in> {st} \<union> set ?H \<and> 0 \<le> next_link ?t i" if i: "i \<in> {st} \<union> set ?H" for i
      proof -
        have "next_link ?t i \<in> {st} \<union> set ?H"
        proof (cases "i = st \<or> i = ?l")
          case True
          then show ?thesis using nx [of i] u(4) by auto
        next
          case False
          then have "i \<in> set ?H" "i \<noteq> last ?H" using i by (auto simp: last_map)
          then show ?thesis using dll_next [OF U(6)] nx [of i] False by auto
        qed
        moreover have "0 \<le> y" if "y \<in> {st} \<union> set ?H" for y
          using that in_u D(5) [of st] by (auto simp: in_array_def)
        ultimately show ?thesis by blast
      qed
    qed simp
  qed
  ultimately show ?thesis using m by blast
qed

section \<open>Detaching twice\<close>

lemma collect_none: "\<forall>e \<in> set es. e_owner (m_events s e) \<noteq> att \<Longrightarrow> collect att es s = ([], Done ([], []) s)"
  by (induction es) (simp_all add: prog_defs)

lemma restore_events_none:
  assumes "\<forall>e < nat (nevents s). e_owner (m_events s e) \<noteq> att"
  shows "run_cmd (et_restore_events att st w0) s = Go (ET_OK, s)"
proof -
  have c: "collect att [0..<nat (nevents s)] s = ([], Done ([], []) s)" using collect_none assms by simp
  then show ?thesis by (simp add: run_cmd_def et_restore_events_def load_def bind_def ret_def)
qed

text \<open>The input list is empty, so nothing is flushed.\<close>

lemma flush_empty:
  assumes "cnt_of (ListIn st) s = 0" "\<not> l_mutex (glist (ListIn st) s)" "\<not> quitting att s" "st \<noteq> ET_GRANDCENTRAL" "1 \<le> nevents s"
  shows "\<exists>t. run_cmd (et_flush_events att st ws) s = Go ((), t) \<and> m_sys t = m_sys s \<and> m_events t = m_events s
     \<and> same_stations s t"
proof -
  let ?t = "upd_list (ListIn st) (l_mutex_update (\<lambda>_. False)) (upd_list (ListIn st) (l_mutex_update (\<lambda>_. True)) s)"
  have "read_begin st ET_ASYNC att ws s = ([upd_list (ListIn st) (l_mutex_update (\<lambda>_. True)) s, ?t], Done ET_ERROR_EMPTY ?t)"
    using assms by (simp add: read_begin_def et_llist_lock_def et_llist_unlock_def count_hist_def Let_def prog_defs)
  then have "et_flush_events att st ws s = ([upd_list (ListIn st) (l_mutex_update (\<lambda>_. True)) s, ?t], Done () ?t)"
    using assms by (simp add: et_flush_events_def et_station_nread_def Let_def prog_defs)
  moreover have "same_stations s ?t" by (rule stations_kept.trans [OF stations_kept.upd(1) stations_kept.upd(1)])
  ultimately show ?thesis by (intro exI [of _ ?t]) (simp add: run_cmd_def)
qed

text \<open>What a process knows of an attachment is left out here.\<close>

abbreviation attachments_at :: "et_stat_id \<Rightarrow> et_mem \<Rightarrow> int" where
  "attachments_at st s \<equiv> d_nattachments (s_data (m_stats s st))"

lemma detach_once:
  assumes h: "usable h = ET_OK" "i_locality h = ET_LOCAL" "i_proc h = ET_SYS" and a: "0 \<le> a" "a < ET_ATTACHMENTS_MAX" "a < max_attachments s"
    and st: "a_stat (sy_attach (m_sys s) a) = st" "0 \<le> st" and n: "attachments_at st s = n"
    and e: "\<forall>e < nat (nevents s). e_owner (m_events s e) \<noteq> a"
    and one: "n = 1 \<Longrightarrow> cnt_of (ListIn st) s = 0 \<and> \<not> l_mutex (glist (ListIn st) s) \<and> \<not> quitting a s
       \<and> st \<noteq> ET_GRANDCENTRAL \<and> 1 \<le> nevents s"
  shows "\<exists>t. et_station_detach far h a ws w0 s = Go (ET_OK, t) \<and> attachments_at st t = n - 1
     \<and> sy_nattachments (m_sys t) = sy_nattachments (m_sys s) - 1 \<and> a_stat (sy_attach (m_sys t) a) = st
     \<and> (\<forall>b. b \<noteq> a \<longrightarrow> sy_attach (m_sys t) b = sy_attach (m_sys s) b)
     \<and> quitting a t = quitting a s \<and> m_events t = m_events s \<and> sy_config (m_sys t) = sy_config (m_sys s)
     \<and> (n \<noteq> 1 \<longrightarrow> glist (ListIn st) t = glist (ListIn st) s \<and> status_of st t = status_of st s)
     \<and> (n = 1 \<longrightarrow> status_of st t = ET_STATION_IDLE)"
proof -
  let ?u = "add_attachments (- 1) (upd_attach a (\<lambda>x. x\<lparr>a_num := - 1, a_status := ET_ATT_UNUSED\<rparr>) s)"
  let ?f = "\<lambda>s. upd_station st (s_data_update (\<lambda>d. d\<lparr>d_nattachments := d_nattachments d - 1, d_att := (d_att d)(a := - 1)\<rparr>)) s"
  have d: "et_station_detach far h a ws w0 s = detach_station h a st ws w0 s"
    using h a st by (simp add: et_station_detach_def)
  have nv: "nevents ?u = nevents s" by (simp add: nevents_def upd_attach_def)
  show ?thesis
  proof (cases "n = 1")
    case True
    let ?v = "set_status st ET_STATION_IDLE ?u"
    have nv2: "nevents ?v = nevents s" using nv by simp
    obtain w where w: "run_cmd (et_flush_events a st ws) ?v = Go ((), w)" "m_sys w = m_sys ?v" "m_events w = m_events ?v"
        "same_stations ?v w"
      using flush_empty [of st ?v a ws] one [OF True] nv2
      by (auto simp: glist.simps upd_attach_def)
    have "run_cmd (et_restore_events a st w0) w = Go (ET_OK, w)"
      by (rule restore_events_none) (use e w in \<open>simp add: nevents_def upd_attach_def\<close>)
    then have "et_station_detach far h a ws w0 s = Go (ET_OK, ?f w)"
      unfolding d detach_station_def Let_def using w(1) n True one h(3) by (simp add: upd_attach_def)
    moreover have "attachments_at st (?f w) = n - 1" "status_of st (?f w) = ET_STATION_IDLE"
      using w(4) n by (simp_all add: same_stations_def upd_attach_def)
    ultimately show ?thesis using w(2,3) True st by (intro exI [of _ "?f w"]) (simp add: upd_attach_def)
  next
    case False
    have "run_cmd (et_restore_events a st w0) ?u = Go (ET_OK, ?u)"
      by (rule restore_events_none) (use e nv in \<open>simp add: upd_attach_def\<close>)
    then have "et_station_detach far h a ws w0 s = Go (ET_OK, ?f ?u)"
      unfolding d detach_station_def Let_def using n False h(3) by (simp add: upd_attach_def)
    then show ?thesis using False n st
      by (intro exI [of _ "?f ?u"]) (simp add: upd_attach_def glist.simps)
  qed
qed

end
