(* ===== verification/Et_Fix.thy ===== *)
theory Et_Fix
  imports Et_StationSystem
begin

text \<open>
  The repair of the lists of stations after the death of a client (\<^verbatim>\<open>et_fix_linkedlist\<close>,
  \<^verbatim>\<open>et_fix_stations\<close>, \<^verbatim>\<open>et_fix_attachments\<close>, \<^verbatim>\<open>et_fix_natts\<close> and \<^verbatim>\<open>et_fix_nprocs\<close> of
  \<^verbatim>\<open>src/src/external/et/src/libsrc/et_system.c\<close>).  \<open>None\<close> of the walks along the links is a walk that
  does not end; \<open>Crash\<close> is also here an access outside of the array of stations.
\<close>

section \<open>Links\<close>

partial_function (option) fix_parallel :: "et_stat_id \<Rightarrow> et_mem \<Rightarrow> et_mem res option" where
  "fix_parallel p s = (let q = nextpar_link s p in
     if q > - 1 then
       (if \<not> in_array s q then Some Crash
        else fix_parallel q (link_next q (- 1) (link_prev q (- 1) (link_prevpar q (num_of s p) s))))
     else Some (Go s))"

partial_function (option) fix_main :: "et_stat_id \<Rightarrow> et_mem \<Rightarrow> et_mem res option" where
  "fix_main p s = (let n = next_link s p in
     if n > - 1 then
       (if \<not> in_array s n then Some Crash
        else let s1 = link_prev n (num_of s p) s in
          if in_parallel s1 n
          then Option.bind (fix_parallel n (link_prevpar n (- 1) s1))
                 (\<lambda>r. case r of Go s2 \<Rightarrow> fix_main n s2 | _ \<Rightarrow> Some Crash)
          else fix_main n (link_nextpar n (- 1) (link_prevpar n (- 1) s1)))
     else Some (Go (set_tail (num_of s p) s)))"

definition et_fix_linkedlist :: "et_mem \<Rightarrow> et_mem res" where
  "et_fix_linkedlist s = (case fix_main (sy_stat_head (m_sys s)) s of None \<Rightarrow> Spin | Some r \<Rightarrow> r)"

section \<open>Stations\<close>

text \<open>The search for the station with the number \<open>k\<close>.\<close>

partial_function (option) in_parallel_list :: "et_mem \<Rightarrow> int \<Rightarrow> et_stat_id \<Rightarrow> bool option" where
  "in_parallel_list s k p = (let q = nextpar_link s p in
     if q > - 1 then (if num_of s q = k then Some True else in_parallel_list s k q) else Some False)"

partial_function (option) in_main_list :: "et_mem \<Rightarrow> int \<Rightarrow> et_stat_id \<Rightarrow> bool option" where
  "in_main_list s k p = (let n = next_link s p in
     if n > - 1 then
       (if num_of s n = k then Some True
        else if in_parallel s n
          then Option.bind (in_parallel_list s k n) (\<lambda>found. if found then Some True else in_main_list s k n)
          else in_main_list s k n)
     else Some False)"

text \<open>The station \<open>st\<close>; the second component is the number of stations counted so far.\<close>

definition fix_station :: "et_stat_id \<Rightarrow> et_mem \<times> int \<Rightarrow> (et_mem \<times> int) option" where
  "fix_station st sn = (case sn of (s, n) \<Rightarrow>
     if status_of st s = ET_STATION_CREATING then Some (upd_station st et_init_station s, n)
     else if status_of st s \<noteq> ET_STATION_UNUSED then
       Option.bind (in_main_list s (num_of s st) ET_GRANDCENTRAL) (\<lambda>found.
         Some (if found then s
               else upd_station st et_init_station (upd_os (CondSignal (ListOut st))
                 (upd_station st (s_conductor_update (\<lambda>_. ET_THREAD_KILL)) s)), n + 1))
     else Some (s, n))"

fun fix_each :: "et_stat_id list \<Rightarrow> et_mem \<times> int \<Rightarrow> (et_mem \<times> int) option" where
  "fix_each [] sn = Some sn"
| "fix_each (st # sts) sn = Option.bind (fix_station st sn) (fix_each sts)"

definition et_fix_stations :: "et_mem \<Rightarrow> et_mem res" where
  "et_fix_stations s = (case fix_each (map int [1..<max_stations s]) (s, 1) of
       None \<Rightarrow> Spin
     | Some (t, n) \<Rightarrow> Go (if n \<noteq> sy_nstations (m_sys t) then upd_sys (sy_nstations_update (\<lambda>_. n)) t else t))"

section \<open>Attachments and processes\<close>

definition et_fix_attachments :: "et_mem \<Rightarrow> et_mem" where
  "et_fix_attachments s = fold (\<lambda>i s.
     if a_num (sy_attach (m_sys s) i) \<noteq> - 1
       \<and> \<not> list_ex (\<lambda>j. d_att (s_data (m_stats s j)) i = i \<and> status_of j s = ET_STATION_ACTIVE) (map int [0..<max_stations s])
     then let s1 = fold (\<lambda>j. upd_proc j (\<lambda>p. p\<lparr>pr_att := (pr_att p)(i := - 1)\<rparr>))
                (map int [0..<nat (y_nprocesses (sy_config (m_sys s)))]) s
       in add_attachments (- 1) (et_init_attachment i s1)
     else s) (map int [0..<nat (max_attachments s)]) s"

text \<open>The attachments that are registered under their own number.\<close>

definition att_count :: "(int \<Rightarrow> int) \<Rightarrow> et_mem \<Rightarrow> int" where
  "att_count att s = int (length (filter (\<lambda>j. att j = j) (map int [0..<nat (max_attachments s)])))"

abbreviation (input) "ET_PROC_OPEN \<equiv> (1 :: int)"

definition et_fix_natts :: "et_mem \<Rightarrow> et_mem" where
  "et_fix_natts s = (let
       (s1, natts) = fold (\<lambda>i (s, n). if status_of i s \<noteq> ET_STATION_ACTIVE then (s, n)
           else let k = att_count (d_att (s_data (m_stats s i))) s
             in (upd_station i (s_data_update (d_nattachments_update (\<lambda>_. k))) s, n + k))
         (map int [0..<max_stations s]) (s, 0);
       s2 = upd_sys (sy_nattachments_update (\<lambda>_. natts)) s1
     in fold (\<lambda>i s. if pr_status (sy_proc (m_sys s) i) \<noteq> ET_PROC_OPEN then s
           else upd_proc i (pr_nattachments_update (\<lambda>_. att_count (pr_att (sy_proc (m_sys s) i)) s)) s)
         (map int [0..<nat (y_nprocesses (sy_config (m_sys s)))]) s2)"

definition et_fix_nprocs :: "et_mem \<Rightarrow> et_mem" where
  "et_fix_nprocs s = upd_sys (sy_nprocesses_update (\<lambda>_. int (length (filter
       (\<lambda>i. pr_status (sy_proc (m_sys s) i) = ET_PROC_OPEN) (map int [0..<nat (y_nprocesses (sy_config (m_sys s)))]))))) s"

end
