(* ===== verification/Et_FixLinks.thy ===== *)
theory Et_FixLinks
  imports Et_Fix
begin

text \<open>
  The repair of the lists of stations: it needs only the links ahead, and these are in order whichever
  assignment of \<^verbatim>\<open>station_insert\<close> and \<^verbatim>\<open>station_remove\<close> a client dies behind.
\<close>

section \<open>Forward links\<close>

text \<open>\<open>path f xs e\<close>: the links \<open>f\<close> lead through \<open>xs\<close> and end with \<open>e\<close>.\<close>

fun path :: "(et_stat_id \<Rightarrow> et_stat_id) \<Rightarrow> et_stat_id list \<Rightarrow> et_stat_id \<Rightarrow> bool" where
  "path f [] e = True"
| "path f [x] e = (f x = e)"
| "path f (x # y # xs) e = (f x = y \<and> path f (y # xs) e)"

lemma path_cong: "(\<And>x. x \<in> set xs \<Longrightarrow> g x = f x) \<Longrightarrow> path g xs e = path f xs e"
  by (induction f xs e rule: path.induct) auto

lemma path_dll: "dll f pv a xs b \<Longrightarrow> path f xs b"
  by (induction f xs b arbitrary: a rule: path.induct) auto

lemma relinked_trans: "relinked s t \<Longrightarrow> relinked t u \<Longrightarrow> relinked s u"
proof -
  assume a: "relinked s t" "relinked t u"
  have "set_tail 0 (u\<lparr>m_stats := m_stats s\<rparr>) = (set_tail 0 (u\<lparr>m_stats := m_stats t\<rparr>))\<lparr>m_stats := m_stats s\<rparr>"
    by (simp add: set_tail_def)
  also have "\<dots> = (set_tail 0 t)\<lparr>m_stats := m_stats s\<rparr>" using a(2) by (simp add: relinked_def)
  also have "\<dots> = set_tail 0 (t\<lparr>m_stats := m_stats s\<rparr>)" by (simp add: set_tail_def)
  finally show "relinked s u" using a by (simp add: relinked_def)
qed

text \<open>The repair of one group changes the members behind its head.\<close>

lemma fix_parallel_run:
  assumes "path (nextpar_link s) (p # l) (- 1)" and "distinct (p # l)"
    and "\<And>i. i \<in> set (p # l) \<Longrightarrow> in_array s i \<and> num_of s i = i"
  shows "\<exists>t. fix_parallel p s = Some (Go t) \<and> (\<forall>i. nextpar_link t i = nextpar_link s i)
     \<and> dll (nextpar_link t) (prevpar_link t) p l (- 1) \<and> (\<forall>i \<in> set l. prev_link t i = - 1)
     \<and> (\<forall>i. i \<notin> set l \<longrightarrow> m_stats t i = m_stats s i) \<and> relinked s t \<and> m_sys t = m_sys s"
  using assms
proof (induction l arbitrary: p s)
  case Nil
  then show ?case by (subst fix_parallel.simps) simp
next
  case (Cons q l)
  let ?s = "link_next q (- 1) (link_prev q (- 1) (link_prevpar q p s))"
  have q: "nextpar_link s p = q" "in_array s q" "num_of s p = p" "0 \<le> q" "q \<noteq> p" "q \<notin> set l" "p \<notin> set l" "distinct l"
    using Cons.prems(1,2) Cons.prems(3) [of q] Cons.prems(3) [of p] by (auto simp: in_array_def)
  have rl: "relinked s ?s" by (intro relinked_upd relinked_refl) (simp_all add: bare_def)
  have np: "nextpar_link ?s i = nextpar_link s i" for i by simp
  have "path (nextpar_link ?s) (q # l) (- 1)" using Cons.prems(1) path_cong [of "q # l" "nextpar_link ?s" "nextpar_link s"] np by simp
  then obtain t where t: "fix_parallel q ?s = Some (Go t)" "\<forall>i. nextpar_link t i = nextpar_link ?s i"
     "dll (nextpar_link t) (prevpar_link t) q l (- 1)" "\<forall>i \<in> set l. prev_link t i = - 1"
     "\<forall>i. i \<notin> set l \<longrightarrow> m_stats t i = m_stats ?s i" "relinked ?s t" "m_sys t = m_sys ?s"
  proof -
    have "in_array ?s i \<and> num_of ?s i = i" if "i \<in> set (q # l)" for i
      using Cons.prems(3) [of i] relinkedD(2,3) [OF rl, of i] that by simp
    moreover have "distinct (q # l)" using Cons.prems(2) by simp
    ultimately show thesis using Cons.IH [of ?s q] \<open>path (nextpar_link ?s) (q # l) (- 1)\<close> that by blast
  qed
  have "fix_parallel p s = Some (Go t)"
    using q t(1) by (subst fix_parallel.simps) (simp add: Let_def)
  moreover have "relinked s t"
    by (rule relinked_trans [OF rl t(6)])
  moreover have "m_stats t q = m_stats ?s q" using t(5) q(6) by blast
  moreover have "nextpar_link t q = hd (l @ [- 1])"
  proof -
    have "path (nextpar_link s) (q # l) (- 1)" using Cons.prems(1) by simp
    then show ?thesis using t(2) np by (cases l) auto
  qed
  ultimately show ?case using t(2-5,7) np by (intro exI [of _ t]) (auto simp: in_array_def)
qed

text \<open>What is true of a group whose links back may be wrong.\<close>

definition group_ahead :: "et_mem \<Rightarrow> et_stat_id list \<Rightarrow> bool" where
  "group_ahead s g \<longleftrightarrow> (if in_parallel s (hd g) then path (nextpar_link s) g (- 1) \<and> (\<forall>i \<in> set g. in_parallel s i)
     else tl g = [])"

definition group_linked :: "et_mem \<Rightarrow> et_stat_id list \<Rightarrow> bool" where
  "group_linked s g \<longleftrightarrow> dll (nextpar_link s) (prevpar_link s) (- 1) g (- 1) \<and> (\<forall>i \<in> set (tl g). prev_link s i = - 1)"

lemma group_linked_cong:
  "(\<And>i. i \<in> set g \<Longrightarrow> m_stats t i = m_stats s i) \<Longrightarrow> group_linked t g = group_linked s g"
proof -
  assume e: "\<And>i. i \<in> set g \<Longrightarrow> m_stats t i = m_stats s i"
  then have "dll (nextpar_link t) (prevpar_link t) (- 1) g (- 1) = dll (nextpar_link s) (prevpar_link s) (- 1) g (- 1)"
    by (intro dll_cong) simp
  moreover have "prev_link t i = prev_link s i" if "i \<in> set (tl g)" for i
    using e [of i] that by (cases g) auto
  ultimately show ?thesis by (simp add: group_linked_def)
qed

lemma group_ahead_cong:
  assumes "\<And>i. i \<in> set g \<Longrightarrow> nextpar_link t i = nextpar_link s i \<and> in_parallel t i = in_parallel s i" and "g \<noteq> []"
  shows "group_ahead t g = group_ahead s g"
  unfolding group_ahead_def using assms path_cong [of g "nextpar_link t" "nextpar_link s"] by auto

text \<open>One group: the link back of its head and the links of the others.\<close>

lemma fix_group_run:
  assumes g: "group_ahead s (n # l)" "distinct (n # l)" and d: "\<And>i. i \<in> set (n # l) \<Longrightarrow> in_array s i \<and> num_of s i = i"
  shows "\<exists>t. (let s1 = link_prev n p s in
          if in_parallel s1 n
          then Option.bind (fix_parallel n (link_prevpar n (- 1) s1))
                 (\<lambda>r. case r of Go s2 \<Rightarrow> fix_main n s2 | _ \<Rightarrow> Some Crash)
          else fix_main n (link_nextpar n (- 1) (link_prevpar n (- 1) s1))) = fix_main n t
     \<and> group_linked t (n # l) \<and> prev_link t n = p \<and> next_link t n = next_link s n
     \<and> (\<forall>i. i \<notin> set (n # l) \<longrightarrow> m_stats t i = m_stats s i) \<and> relinked s t \<and> m_sys t = m_sys s"
proof (cases "in_parallel s n")
  case True
  let ?s = "link_prevpar n (- 1) (link_prev n p s)"
  have rl: "relinked s ?s" by (intro relinked_upd relinked_refl) (simp_all add: bare_def)
  have "path (nextpar_link ?s) (n # l) (- 1)"
    using g(1) True path_cong [of "n # l" "nextpar_link ?s" "nextpar_link s"] by (simp add: group_ahead_def)
  moreover have "in_array ?s i \<and> num_of ?s i = i" if "i \<in> set (n # l)" for i
    using d [OF that] relinkedD(2,3) [OF rl, of i] by simp
  ultimately obtain t where t: "fix_parallel n ?s = Some (Go t)" "\<forall>i. nextpar_link t i = nextpar_link ?s i"
     "dll (nextpar_link t) (prevpar_link t) n l (- 1)" "\<forall>i \<in> set l. prev_link t i = - 1"
     "\<forall>i. i \<notin> set l \<longrightarrow> m_stats t i = m_stats ?s i" "relinked ?s t" "m_sys t = m_sys ?s"
    using fix_parallel_run [of ?s n l] g(2) by blast
  have n: "m_stats t n = m_stats ?s n" using t(5) g(2) by simp
  have "nextpar_link s n = hd (l @ [- 1])" using g(1) True by (cases l) (auto simp: group_ahead_def)
  then have "group_linked t (n # l)" using t(3,4) n by (simp add: group_linked_def)
  then show ?thesis using t(1,5,7) n True relinked_trans [OF rl t(6)] by (intro exI [of _ t]) simp
next
  case False
  let ?s = "link_nextpar n (- 1) (link_prevpar n (- 1) (link_prev n p s))"
  have "relinked s ?s" by (intro relinked_upd relinked_refl) (simp_all add: bare_def)
  moreover have "l = []" using g(1) False by (simp add: group_ahead_def)
  ultimately show ?thesis using False by (intro exI [of _ ?s]) (simp add: group_linked_def)
qed

lemma fix_main_run:
  assumes "path (next_link s) (p # map hd gs) (- 1)" and "distinct (p # concat gs)" and "[] \<notin> set gs"
    and "\<And>i. i \<in> set (p # concat gs) \<Longrightarrow> in_array s i \<and> num_of s i = i" and "\<And>g. g \<in> set gs \<Longrightarrow> group_ahead s g"
  shows "\<exists>t. fix_main p s = Some (Go t) \<and> (\<forall>i. i \<notin> set (concat gs) \<longrightarrow> m_stats t i = m_stats s i)
     \<and> dll (next_link t) (prev_link t) p (map hd gs) (- 1) \<and> (\<forall>g \<in> set gs. group_linked t g)
     \<and> relinked s t \<and> tail_of t = last (p # map hd gs)"
  using assms
proof (induction gs arbitrary: p s)
  case Nil
  have "fix_main p s = Some (Go (set_tail p s))" using Nil.prems(1,4) by (subst fix_main.simps) simp
  then show ?case by (auto simp: set_tail_def relinked_def)
next
  case (Cons g gs)
  obtain n l where g: "g = n # l" using Cons.prems(3) by (cases g) auto
  have n: "next_link s p = n" "in_array s n" "0 \<le> n" "num_of s p = p" "distinct (n # l)" "p \<noteq> n"
    using Cons.prems(1,2,4) Cons.prems(4) [of n] g by (auto simp: in_array_def)
  have "in_array s i \<and> num_of s i = i" if "i \<in> set (n # l)" for i using Cons.prems(4) [of i] that g by auto
  then obtain u where u: "(let s1 = link_prev n p s in
          if in_parallel s1 n
          then Option.bind (fix_parallel n (link_prevpar n (- 1) s1))
                 (\<lambda>r. case r of Go s2 \<Rightarrow> fix_main n s2 | _ \<Rightarrow> Some Crash)
          else fix_main n (link_nextpar n (- 1) (link_prevpar n (- 1) s1))) = fix_main n u"
     "group_linked u (n # l)" "prev_link u n = p" "next_link u n = next_link s n"
     "\<And>i. i \<notin> set (n # l) \<Longrightarrow> m_stats u i = m_stats s i" "relinked s u" "m_sys u = m_sys s"
    using fix_group_run [of s n l p] Cons.prems(5) [of g] g n(5) by auto
  have f: "fix_main p s = fix_main n u"
    using u(1) n(1-4) by (subst fix_main.simps) (simp add: Let_def)
  have rest: "m_stats u i = m_stats s i" if "i \<in> set (concat gs)" for i
    using u(5) [of i] that Cons.prems(2) g by auto
  have heads: "set (map hd gs) \<subseteq> set (concat gs)" using heads_subset Cons.prems(3) by (metis list.set_intros(2) set_map)
  have "\<exists>t. fix_main n u = Some (Go t) \<and> (\<forall>i. i \<notin> set (concat gs) \<longrightarrow> m_stats t i = m_stats u i)
     \<and> dll (next_link t) (prev_link t) n (map hd gs) (- 1) \<and> (\<forall>g \<in> set gs. group_linked t g)
     \<and> relinked u t \<and> tail_of t = last (n # map hd gs)"
  proof (rule Cons.IH)
    show "path (next_link u) (n # map hd gs) (- 1)"
    proof -
      have "path (next_link s) (n # map hd gs) (- 1)" using Cons.prems(1) g by simp
      moreover have "next_link u i = next_link s i" if "i \<in> set (n # map hd gs)" for i
      proof (cases "i = n")
        case False
        then have "i \<in> set (concat gs)" using that heads by (metis set_ConsD subsetD)
        then show ?thesis using rest [of i] by simp
      qed (use u(4) in simp)
      ultimately show ?thesis using path_cong [of "n # map hd gs" "next_link u" "next_link s"] by simp
    qed
    show "distinct (n # concat gs)" using Cons.prems(2) g by auto
    show "[] \<notin> set gs" using Cons.prems(3) by simp
    show "in_array u i \<and> num_of u i = i" if "i \<in> set (n # concat gs)" for i
      using Cons.prems(4) [of i] relinkedD(2,3) [OF u(6), of i] that g by auto
    show "group_ahead u h" if h: "h \<in> set gs" for h
    proof -
      have "m_stats u i = m_stats s i" if "i \<in> set h" for i using rest [of i] that h by auto
      moreover have "h \<noteq> []" using h Cons.prems(3) by auto
      ultimately show ?thesis using Cons.prems(5) [of h] h group_ahead_cong [of h u s] by simp
    qed
  qed
  then obtain t where t: "fix_main n u = Some (Go t)" "\<And>i. i \<notin> set (concat gs) \<Longrightarrow> m_stats t i = m_stats u i"
     "dll (next_link t) (prev_link t) n (map hd gs) (- 1)" "\<forall>g \<in> set gs. group_linked t g"
     "relinked u t" "tail_of t = last (n # map hd gs)" by blast
  have tn: "m_stats t i = m_stats u i" if "i \<in> set (n # l)" for i
    using t(2) [of i] that Cons.prems(2) g by auto
  have "group_linked t g" using u(2) group_linked_cong [of g t u] tn g by simp
  moreover have "next_link t n = hd (map hd gs @ [- 1])"
  proof -
    have "path (next_link s) (n # map hd gs) (- 1)" using Cons.prems(1) g by simp
    then show ?thesis using tn [of n] u(4) by (cases gs) auto
  qed
  moreover have "m_stats t i = m_stats s i" if "i \<notin> set (concat (g # gs))" for i
    using that t(2) [of i] u(5) [of i] g by auto
  ultimately show ?case
    using f t(1,3,4,6) tn [of n] u(3) g relinked_trans [OF u(6) t(5)] by (intro exI [of _ t]) simp
qed

text \<open>
  The lists as a client that dies may leave them: the links ahead are in order, the links back and the
  mark of the last station may be wrong.
\<close>

definition stations_ahead :: "et_mem \<Rightarrow> et_stat_id list list \<Rightarrow> bool" where
  "stations_ahead s gs \<longleftrightarrow> gs \<noteq> [] \<and> hd gs = [ET_GRANDCENTRAL] \<and> [] \<notin> set gs \<and> distinct (concat gs)
     \<and> (\<forall>i \<in> set (concat gs). in_array s i \<and> num_of s i = i) \<and> path (next_link s) (map hd gs) (- 1)
     \<and> (\<forall>g \<in> set (tl gs). group_ahead s g) \<and> group_linked s [ET_GRANDCENTRAL] \<and> prev_link s ET_GRANDCENTRAL = - 1
     \<and> sy_stat_head (m_sys s) = ET_GRANDCENTRAL"

theorem fix_linkedlist_ok:
  assumes "stations_ahead s gs"
  shows "\<exists>t. et_fix_linkedlist s = Go t \<and> stations t gs \<and> relinked s t"
proof -
  note A = assms [unfolded stations_ahead_def]
  obtain rest where gs: "gs = [ET_GRANDCENTRAL] # rest" using A by (cases gs) auto
  obtain t where t: "fix_main ET_GRANDCENTRAL s = Some (Go t)" "\<And>i. i \<notin> set (concat rest) \<Longrightarrow> m_stats t i = m_stats s i"
     "dll (next_link t) (prev_link t) ET_GRANDCENTRAL (map hd rest) (- 1)" "\<forall>g \<in> set rest. group_linked t g"
     "relinked s t" "tail_of t = last (ET_GRANDCENTRAL # map hd rest)"
    using fix_main_run [of s ET_GRANDCENTRAL rest] A gs by auto
  have z: "m_stats t ET_GRANDCENTRAL = m_stats s ET_GRANDCENTRAL" using t(2) A gs by simp
  have "next_link s ET_GRANDCENTRAL = hd (map hd rest @ [- 1])" using A gs by (cases rest) auto
  then have d: "dll (next_link t) (prev_link t) (- 1) (map hd gs) (- 1)" using t(3) z A gs by simp
  have l: "\<forall>g \<in> set gs. group_linked t g"
    using t(4) A group_linked_cong [of "[ET_GRANDCENTRAL]" t s] z gs by simp
  have p: "\<forall>g \<in> set gs. tl g \<noteq> [] \<longrightarrow> (\<forall>i \<in> set g. in_parallel t i)"
    using A relinkedD(1) [OF t(5)] gs by (auto simp: group_ahead_def split: if_splits)
  have i: "\<forall>i \<in> set (concat gs). in_array t i \<and> num_of t i = i"
    using A relinkedD(2,3) [OF t(5)] by simp
  have "tail_of t = hd (last gs)" using t(6) gs by (simp add: last_map)
  then have "stations t gs"
    using A d l p i unfolding stations_def group_linked_def by blast
  then show ?thesis using t(1,5) A by (simp add: et_fix_linkedlist_def)
qed

end
