(* ===== verification/Et_FixCrash.thy ===== *)
theory Et_FixCrash
  imports Et_FixLinks
begin

text \<open>
  A client that dies inside \<^verbatim>\<open>station_insert\<close> or \<^verbatim>\<open>station_remove\<close>: the assignments of the two
  routines in their order, and the repair of the lists from the memory behind each of them.
\<close>

section \<open>The assignments of the routines\<close>

definition run_steps :: "(et_mem \<Rightarrow> et_mem) list \<Rightarrow> et_mem \<Rightarrow> et_mem" where
  "run_steps fs s = fold (\<lambda>f. f) fs s"

definition append_steps :: "et_stat_id \<Rightarrow> et_stat_id \<Rightarrow> et_mem \<Rightarrow> (et_mem \<Rightarrow> et_mem) list" where
  "append_steps st p s = [link_prev st (num_of s p), set_tail (num_of s st), link_next p (num_of s st)]"

definition put_steps :: "et_stat_id \<Rightarrow> et_stat_id \<Rightarrow> et_stat_id \<Rightarrow> et_mem \<Rightarrow> (et_mem \<Rightarrow> et_mem) list" where
  "put_steps st p n s = [link_next st n, link_prev st (num_of s p), link_prev n (num_of s st), link_next p (num_of s st)]"

definition join_steps :: "et_stat_id \<Rightarrow> et_stat_id \<Rightarrow> et_stat_id \<Rightarrow> et_mem \<Rightarrow> (et_mem \<Rightarrow> et_mem) list" where
  "join_steps st q n s = [link_nextpar st n, link_prevpar st (num_of s q)]
     @ (if n > - 1 then [link_prevpar n (num_of s st)] else []) @ [link_nextpar q (num_of s st)]"

definition insert_steps :: "et_stat_id \<Rightarrow> int \<Rightarrow> int \<Rightarrow> et_mem \<Rightarrow> (et_mem \<Rightarrow> et_mem) list" where
  "insert_steps st pos ppos s =
     (if sy_nstations (m_sys s) < 3 then append_steps st ET_GRANDCENTRAL s
      else case main_walk s pos 1 ET_GRANDCENTRAL of None \<Rightarrow> []
      | Some (p, n) \<Rightarrow>
         if n < 0 then append_steps st p s
         else if in_parallel s st \<and> in_parallel s n \<and> ppos \<noteq> ET_NEWHEAD then
           if et_station_compare_parallel (config_of n s) (config_of st s) = 0 then []
           else if ppos = 0 then []
           else (case par_walk s ppos 1 n of None \<Rightarrow> [] | Some (q, m) \<Rightarrow> join_steps st q m s)
         else put_steps st p n s)"

definition main_steps :: "et_stat_id \<Rightarrow> et_mem \<Rightarrow> (et_mem \<Rightarrow> et_mem) list" where
  "main_steps st s = (let p = prev_link s st in
     [if tail_of s = st then set_tail (num_of s p) else link_prev (next_link s st) (num_of s p),
      link_next p (next_link s st)])"

definition promote_steps :: "et_stat_id \<Rightarrow> et_mem \<Rightarrow> (et_mem \<Rightarrow> et_mem) list" where
  "promote_steps st s = (let p = prev_link s st; q = nextpar_link s st in
     [link_prev q (prev_link s st), link_next q (next_link s st), link_prevpar q (- 1),
      if tail_of s = st then set_tail (num_of s q) else link_prev (next_link s st) q, link_next p q])"

definition parallel_steps :: "et_stat_id \<Rightarrow> et_mem \<Rightarrow> (et_mem \<Rightarrow> et_mem) list" where
  "parallel_steps st s = (let p = prevpar_link s st in
     (if nextpar_link s st > - 1 then [link_prevpar (nextpar_link s st) (num_of s p)] else [])
     @ [link_nextpar p (nextpar_link s st)]
     @ (if s_waslast (m_stats s st) = 1 then [upd_station p (s_waslast_update (\<lambda>_. 1))] else []))"

definition remove_steps :: "et_stat_id \<Rightarrow> et_mem \<Rightarrow> (et_mem \<Rightarrow> et_mem) list" where
  "remove_steps st s =
     (if in_parallel s st then
        if prev_link s st > - 1 then
          if nextpar_link s st < 0 then main_steps st s else promote_steps st s
        else parallel_steps st s
      else main_steps st s)"

text \<open>Run to their end they are the routines.\<close>

lemma insert_steps_run: "station_insert st pos ppos s = Go (c, t) \<Longrightarrow> run_steps (insert_steps st pos ppos s) s = t"
  unfolding station_insert_def insert_steps_def
  by (auto simp: run_steps_def append_steps_def append_station_def put_steps_def put_before_def join_steps_def join_group_def
      Let_def set_tail_def split: if_splits option.splits)

lemma remove_steps_run:
  "station_remove st s = Go t \<Longrightarrow> nextpar_link s st \<noteq> st \<Longrightarrow> run_steps (remove_steps st s) s = t"
  unfolding station_remove_def remove_steps_def
  by (auto simp: run_steps_def main_steps_def unlink_main_def promote_steps_def promote_second_def parallel_steps_def
      unlink_parallel_def Let_def at_station_def set_tail_def in_array_def split: if_splits)

section \<open>Dying in between\<close>

text \<open>Nothing but links back, the mark of the tail and what concerns stations in no list has changed.\<close>

definition backward :: "et_stat_id list list \<Rightarrow> et_mem \<Rightarrow> et_mem \<Rightarrow> bool" where
  "backward gs s t \<longleftrightarrow> relinked s t \<and> sy_stat_head (m_sys t) = sy_stat_head (m_sys s)
     \<and> (\<forall>i \<in> set (map hd gs). next_link t i = next_link s i) \<and> (\<forall>i \<in> set (concat gs). nextpar_link t i = nextpar_link s i)
     \<and> prev_link t ET_GRANDCENTRAL = prev_link s ET_GRANDCENTRAL
     \<and> prevpar_link t ET_GRANDCENTRAL = prevpar_link s ET_GRANDCENTRAL"

lemma backward_refl: "backward gs s s"
  by (simp add: backward_def)

lemma backward_trans: "backward gs s t \<Longrightarrow> backward gs t u \<Longrightarrow> backward gs s u"
  unfolding backward_def by (auto intro: relinked_trans)

lemma relinked_sym: "relinked s t \<Longrightarrow> relinked t s"
proof -
  assume r: "relinked s t"
  have "set_tail 0 (s\<lparr>m_stats := m_stats t\<rparr>) = (set_tail 0 s)\<lparr>m_stats := m_stats t\<rparr>" by (simp add: set_tail_def)
  also have "\<dots> = (set_tail 0 (t\<lparr>m_stats := m_stats s\<rparr>))\<lparr>m_stats := m_stats t\<rparr>" using r by (simp add: relinked_def)
  also have "\<dots> = set_tail 0 t" by (simp add: set_tail_def)
  finally show "relinked t s" using r by (simp add: relinked_def)
qed

lemma backward_sym: "backward gs s t \<Longrightarrow> backward gs t s"
  unfolding backward_def by (auto intro: relinked_sym)

lemma backward_step:
  "i \<noteq> ET_GRANDCENTRAL \<Longrightarrow> backward gs s (link_prev i v s)"
  "i \<noteq> ET_GRANDCENTRAL \<Longrightarrow> backward gs s (link_prevpar i v s)"
  "i \<notin> set (map hd gs) \<Longrightarrow> backward gs s (link_next i v s)"
  "i \<notin> set (concat gs) \<Longrightarrow> backward gs s (link_nextpar i v s)"
  "backward gs s (set_tail v s)" "backward gs s (upd_station i (s_waslast_update (\<lambda>_. v)) s)"
  unfolding backward_def
  by (auto simp: relinked_upd bare_def) (auto simp: relinked_def set_tail_def)

lemma stations_ahead_backward:
  assumes A: "stations_ahead s gs" and b: "backward gs s t"
  shows "stations_ahead t gs"
proof -
  note A' = A [unfolded stations_ahead_def] and b' = b [unfolded backward_def]
  have rl: "relinked s t" using b' by simp
  have "path (next_link t) (map hd gs) (- 1) = path (next_link s) (map hd gs) (- 1)"
    using b' by (intro path_cong) blast
  then have "path (next_link t) (map hd gs) (- 1)" using A' by blast
  moreover have "group_ahead t g" if g: "g \<in> set (tl gs)" for g
  proof -
    have "g \<in> set gs" using g A' by (cases gs) auto
    then have "\<And>i. i \<in> set g \<Longrightarrow> nextpar_link t i = nextpar_link s i \<and> in_parallel t i = in_parallel s i" "g \<noteq> []"
      using b' A' relinkedD(1) [OF rl] by auto
    then have "group_ahead t g = group_ahead s g" by (rule group_ahead_cong)
    then show ?thesis using A' g by simp
  qed
  moreover have "\<forall>i \<in> set (concat gs). in_array t i \<and> num_of t i = i"
    using A' relinkedD(2,3) [OF rl] by simp
  moreover have "ET_GRANDCENTRAL \<in> set (concat gs)" using A' by (cases gs) auto
  then have "nextpar_link t ET_GRANDCENTRAL = nextpar_link s ET_GRANDCENTRAL" using b' by blast
  then have "group_linked t [ET_GRANDCENTRAL]" "prev_link t ET_GRANDCENTRAL = - 1"
    using A' b' by (simp_all add: group_linked_def)
  ultimately show ?thesis using A' b' unfolding stations_ahead_def by simp
qed

lemma stations_ahead:
  assumes S: "stations s gs" and "sy_stat_head (m_sys s) = ET_GRANDCENTRAL"
  shows "stations_ahead s gs"
proof -
  note D = stationsD [OF S]
  obtain rest where gs: "gs = [ET_GRANDCENTRAL] # rest" using D(1,2) by (cases gs) auto
  have "group_ahead s g" if "g \<in> set gs" for g
  proof -
    have "g \<noteq> []" using that D(3) by auto
    then show ?thesis
      using D(8) [OF that] D(9) [OF that] path_dll [of "nextpar_link s" "prevpar_link s" "- 1" g "- 1"]
      by (cases g; cases "tl g") (auto simp: group_ahead_def)
  qed
  moreover have "group_linked s [ET_GRANDCENTRAL]" "prev_link s ET_GRANDCENTRAL = - 1"
    using D(6) D(8) [of "[ET_GRANDCENTRAL]"] gs by (simp_all add: group_linked_def)
  ultimately show ?thesis
    using D assms(2) path_dll [OF D(6)] gs unfolding stations_ahead_def by simp
qed

lemma run_steps_simps [simp]:
  "run_steps [] s = s" "run_steps (f # fs) s = run_steps fs (f s)" "run_steps (fs @ hs) s = run_steps hs (run_steps fs s)"
  by (simp_all add: run_steps_def)

lemma run_backward: "(\<And>f u. f \<in> set fs \<Longrightarrow> backward gs u (f u)) \<Longrightarrow> backward gs s (run_steps fs s)"
  by (induction fs arbitrary: s) (auto intro: backward_refl backward_trans)

text \<open>All assignments but the last are backward: the lists are the old or the new ones.\<close>

lemma die_ahead:
  assumes A: "stations_ahead s gs" and b: "\<And>f u. f \<in> set (butlast fs) \<Longrightarrow> backward gs u (f u)"
    and new: "stations_ahead (run_steps fs s) gs'" and k: "k \<le> length fs"
  shows "\<exists>hs. stations_ahead (run_steps (take k fs) s) hs \<and> (hs = gs \<or> hs = gs')"
proof (cases "k = length fs")
  case False
  then have "set (take k fs) \<subseteq> set (butlast fs)"
    using k by (metis butlast_conv_take diff_Suc_1 le_SucE less_Suc_eq_le set_take_subset_set_take less_imp_diff_less
        Suc_diff_1 le_neq_implies_less length_greater_0_conv less_le_trans list.size(3) not_less_zero)
  then have "backward gs s (run_steps (take k fs) s)" using b by (intro run_backward) auto
  then show ?thesis using stations_ahead_backward [OF A] by blast
qed (use new in auto)

lemma die_repaired:
  assumes "\<exists>hs. stations_ahead u hs \<and> (hs = gs \<or> hs = gs')"
  shows "\<exists>t. et_fix_linkedlist u = Go t \<and> (stations t gs \<or> stations t gs')"
  using assms fix_linkedlist_ok by blast

lemma dll_step: "dll nx pv a xs b \<Longrightarrow> x \<in> set xs \<Longrightarrow> nx x = b \<or> nx x \<in> set (tl xs)"
proof (induction xs arbitrary: a)
  case (Cons y xs)
  show ?case
  proof (cases "x \<in> set xs")
    case True
    then have "nx x = b \<or> nx x \<in> set (tl xs)" using Cons.IH [of y] Cons.prems by simp
    then show ?thesis by (cases xs) auto
  next
    case False
    then show ?thesis using Cons.prems by (cases xs) auto
  qed
qed simp

theorem die_in_insert:
  assumes S: "stations s gs" and f: "loose_station s i gs" and n: "sy_nstations (m_sys s) = int (length (concat gs)) + 1"
    and h: "sy_stat_head (m_sys s) = ET_GRANDCENTRAL" and k: "k \<le> length (insert_steps i pos ppos s)"
  shows "\<exists>t. et_fix_linkedlist (run_steps (take k (insert_steps i pos ppos s)) s) = Go t
     \<and> (stations t gs \<or> (\<exists>gs'. insert_station (\<lambda>j. config_of j s) i pos ppos gs = Some gs' \<and> stations t gs'))"
proof -
  note D = stationsD [OF S] and A = stations_ahead [OF S h]
  obtain rest where gs: "gs = [ET_GRANDCENTRAL] # rest" using D(1,2) by (cases gs) auto
  have i: "i \<notin> set (concat gs)" using f by (simp add: loose_station_def)
  have heads: "set (map hd gs) \<subseteq> set (concat gs)" using heads_subset [OF D(3)] by (simp only: set_map)
  have i': "i \<noteq> ET_GRANDCENTRAL" "i \<notin> set (map hd gs)" using i heads gs by auto
  have rest0: "j \<noteq> ET_GRANDCENTRAL" if "j \<in> set (concat rest)" for j using that D(4) gs by auto
  have hd_rest: "hd ` set rest \<subseteq> set (concat rest)" using heads_subset D(3) gs by (metis list.set_intros(2))
  have ge: "0 \<le> j" if "j \<in> set (concat gs)" for j using D(5) [OF that] by (simp add: in_array_def)
  have app: "\<And>f u. f \<in> set (butlast (append_steps i p s)) \<Longrightarrow> backward gs u (f u)" for p
    using i' by (auto simp: append_steps_def intro: backward_step)
  have bk: "backward gs u (g u)" if "g \<in> set (butlast (insert_steps i pos ppos s))" for g u
  proof (cases "sy_nstations (m_sys s) < 3")
    case True
    then show ?thesis using that app by (simp add: insert_steps_def)
  next
    case False
    have ph: "\<forall>y \<in> set (map hd rest). 0 \<le> y" using ge heads gs by auto
    have dh: "dll (next_link s) (prev_link s) (- 1) (ET_GRANDCENTRAL # map hd rest) (- 1)" using D(6) gs by simp
    obtain p m where w: "main_walk s pos 1 ET_GRANDCENTRAL = Some (p, m)" and m: "m < 0 \<or> m \<in> hd ` set rest"
    proof (cases "1 \<le> pos \<and> pos < 1 + int (length (map hd rest))")
      case True
      then have "nat (pos - 1) < length (map hd rest)" by linarith
      then have "map hd rest ! nat (pos - 1) \<in> set (map hd rest)" by (rule nth_mem)
      then show thesis using that main_walk_run [OF dh ph, of pos 1] True by simp
    next
      case False
      then show thesis using that [of _ "- 1"] main_walk_run [OF dh ph, of pos 1] by auto
    qed
    show ?thesis
    proof (cases "m < 0")
      case True
      then show ?thesis using that app False w by (simp add: insert_steps_def)
    next
      case m0: False
      then obtain b where b: "b \<in> set rest" "m = hd b" using m by auto
      have mr: "m \<in> set (concat rest)" using hd_rest b by auto
      have "b \<noteq> []" using b(1) D(3) gs by auto
      then obtain x H where bx: "b = x # H" by (cases b) auto
      have "set H \<subseteq> set (concat gs)" using b(1) bx gs by auto
      then have pH: "\<forall>y \<in> set H. 0 \<le> y" using ge by blast
      have db: "dll (nextpar_link s) (prevpar_link s) (- 1) (x # H) (- 1)" using D(8) [of b] b(1) bx gs by simp
      obtain q j where q: "par_walk s ppos 1 m = Some (q, j)" and j: "j < 0 \<or> j \<in> set H"
      proof (cases "1 \<le> ppos \<and> ppos < 1 + int (length H)")
        case True
        then have "H ! nat (ppos - 1) \<in> set H" by (intro nth_mem) linarith
        then show thesis using that par_walk_run [OF db pH, of ppos 1] True b(2) bx by simp
      next
        case False
        then show thesis using that [of _ "- 1"] par_walk_run [OF db pH, of ppos 1] b(2) bx by auto
      qed
      have "set H \<subseteq> set (concat rest)" using b(1) bx by auto
      then have "j \<noteq> ET_GRANDCENTRAL" using j rest0 [of j] by auto
      then show ?thesis
        using that False w m0 q i i' rest0 [OF mr]
        by (auto simp: insert_steps_def put_steps_def join_steps_def butlast_append split: if_splits intro: backward_step)
    qed
  qed
  note I = station_insert_ok [OF S f n, of pos ppos]
  show ?thesis
  proof (cases "insert_station (\<lambda>j. config_of j s) i pos ppos gs")
    case None
    then have "run_steps (insert_steps i pos ppos s) s = s" using I insert_steps_run by simp
    then have "\<exists>hs. stations_ahead (run_steps (take k (insert_steps i pos ppos s)) s) hs \<and> (hs = gs \<or> hs = gs)"
      using A by (intro die_ahead [OF A _ _ k] bk) simp_all
    then show ?thesis using die_repaired by blast
  next
    case (Some gs')
    then obtain t where t: "station_insert i pos ppos s = Go (ET_OK, t)" "stations t gs'" "relinked s t" using I by auto
    have "sy_stat_head (m_sys t) = ET_GRANDCENTRAL"
    proof -
      have "sy_stat_head (m_sys (set_tail 0 (t\<lparr>m_stats := m_stats s\<rparr>))) = sy_stat_head (m_sys (set_tail 0 s))"
        using t(3) by (simp add: relinked_def)
      then show ?thesis using h by (simp add: set_tail_def)
    qed
    then have "stations_ahead (run_steps (insert_steps i pos ppos s) s) gs'"
      using stations_ahead [OF t(2)] insert_steps_run [OF t(1)] by simp
    then have "\<exists>hs. stations_ahead (run_steps (take k (insert_steps i pos ppos s)) s) hs \<and> (hs = gs \<or> hs = gs')"
      by (intro die_ahead [OF A _ _ k] bk)
    then show ?thesis using die_repaired Some by blast
  qed
qed

lemma relinked_head: "relinked s t \<Longrightarrow> sy_stat_head (m_sys t) = sy_stat_head (m_sys s)"
proof -
  assume "relinked s t"
  then have "sy_stat_head (m_sys (set_tail 0 (t\<lparr>m_stats := m_stats s\<rparr>))) = sy_stat_head (m_sys (set_tail 0 s))"
    by (simp add: relinked_def)
  then show ?thesis by (simp add: set_tail_def)
qed

theorem die_in_remove:
  assumes S: "stations s gs" and i: "i \<in> set (concat gs)" "i \<noteq> ET_GRANDCENTRAL"
    and h: "sy_stat_head (m_sys s) = ET_GRANDCENTRAL" and k: "k \<le> length (remove_steps i s)"
  shows "\<exists>t. et_fix_linkedlist (run_steps (take k (remove_steps i s)) s) = Go t
     \<and> (stations t gs \<or> stations t (drop_station i gs))"
proof -
  note D = stationsD [OF S] and A = stations_ahead [OF S h]
  obtain rest where gs: "gs = [ET_GRANDCENTRAL] # rest" using D(1,2) by (cases gs) auto
  obtain t where t: "station_remove i s = Go t" "stations t (drop_station i gs)" "relinked s t"
    using station_remove_ok [OF S i] by blast
  have ge: "0 \<le> j" if "j \<in> set (concat gs)" for j using D(5) [OF that] by (simp add: in_array_def)
  have rest0: "j \<noteq> ET_GRANDCENTRAL" if "j \<in> set (concat rest)" for j using that D(4) gs by auto
  have hd_rest: "hd ` set rest \<subseteq> set (concat rest)" using heads_subset D(3) gs by (metis list.set_intros(2))
  obtain g where g: "g \<in> set rest" "i \<in> set g" using i gs by auto
  have gg: "g \<in> set gs" "g \<noteq> []" using g gs by auto
  have next_par: "nextpar_link s i = - 1 \<or> nextpar_link s i \<in> set (tl g)" using dll_step [OF D(8) [OF gg(1)] g(2)] .
  have par_in: "j \<in> set (concat rest) \<and> j \<notin> set (map hd gs) \<and> j \<noteq> hd g" if j: "j \<in> set (tl g)" for j
  proof -
    have jg: "j \<in> set g" "j \<noteq> hd g" using j D(4) gs g gg by (cases g; auto simp: distinct_concat_iff)+
    have dg: "distinct g" using D(4) gg(1) by (simp add: distinct_concat_iff)
    have "j \<noteq> hd g'" if g': "g' \<in> set gs" for g'
    proof
      assume e: "j = hd g'"
      have "g' \<noteq> []" using g' D(3) by auto
      then have "j \<in> set g'" using e by simp
      then have "set g' \<inter> set g \<noteq> {}" using jg by auto
      then have "g' = g" using D(4) g' gg(1) by (auto simp: distinct_concat_iff)
      then show False using e j dg by (cases g) auto
    qed
    then show ?thesis using jg g by auto
  qed
  have not_self: "nextpar_link s i \<noteq> i"
  proof
    assume e: "nextpar_link s i = i"
    then have "i \<in> set (tl g)" using next_par ge i(1) by fastforce
    then obtain P Q where g': "tl g = P @ i # Q" by (meson split_list)
    then have "g = (hd g # P) @ i # Q" using gg(2) by (cases g) auto
    then have "nextpar_link s i = hd (Q @ [- 1])" using D(8) [OF gg(1)] by (metis dll.simps(2) dll_append)
    moreover have "distinct (tl g)" using D(4) gg(1) by (simp add: distinct_concat_iff distinct_tl)
    ultimately show False using e g' ge [OF i(1)] by (cases Q) auto
  qed
  have full: "run_steps (remove_steps i s) s = t" by (rule remove_steps_run [OF t(1) not_self])
  have new: "stations_ahead t (drop_station i gs)"
    using stations_ahead [OF t(2)] relinked_head [OF t(3)] h by simp
  have next_main: "next_link s i \<noteq> ET_GRANDCENTRAL \<or> tail_of s = i" if "prev_link s i > - 1"
  proof -
    have "i \<notin> set (tl g)" using D(10) [OF gg(1)] that by fastforce
    then have "i = hd g" using g(2) gg(2) by (cases g) auto
    then have im: "i \<in> set (map hd rest)" using g(1) by auto
    have d: "dll (next_link s) (prev_link s) ET_GRANDCENTRAL (map hd rest) (- 1)" using D(6) gs by simp
    have "next_link s i = - 1 \<or> next_link s i \<in> set (map hd rest)"
      using dll_step [OF d im] by (cases "map hd rest") auto
    then have "next_link s i = - 1 \<or> next_link s i \<in> set (concat rest)" using hd_rest by (metis set_map subsetD)
    then show ?thesis using rest0 by auto
  qed
  show ?thesis
  proof (cases "in_parallel s i \<and> prev_link s i \<le> - 1")
    case False
    have prev0: "prev_link s i > - 1"
    proof (cases "in_parallel s i")
      case True
      then show ?thesis using False by simp
    next
      case False
      then have "tl g = []" using D(9) [OF gg(1) _ g(2)] by blast
      then have "i = hd g" using g(2) gg(2) by (cases g) auto
      then obtain as bs where "rest = as @ g # bs" using g(1) by (meson split_list)
      then have gs2: "gs = (([ET_GRANDCENTRAL] # as)) @ g # bs" using gs by simp
      then obtain as' a where "gs = as' @ a # g # bs" using gs2 by (metis append_Cons append_butlast_last_id append_eq_Cons_conv append.assoc append_Nil list.distinct(1))
      then have "prev_link s i = hd a" "in_array s (hd a)"
        using stations_around(5,7) [of s as' a g bs] S \<open>i = hd g\<close> by auto
      then show ?thesis by (simp add: in_array_def)
    qed
    have b: "backward gs u (f u)" if f: "f \<in> set (butlast (remove_steps i s))" for f u
    proof (cases "nextpar_link s i < 0 \<or> \<not> in_parallel s i")
      case True
      then show ?thesis
        using f prev0 next_main by (auto simp: remove_steps_def main_steps_def Let_def split: if_splits intro: backward_step)
    next
      case False
      then have "nextpar_link s i \<in> set (tl g)" using next_par by auto
      then have "nextpar_link s i \<noteq> ET_GRANDCENTRAL" "nextpar_link s i \<notin> set (map hd gs)" using par_in rest0 by blast+
      then show ?thesis
        using f prev0 next_main False
        by (auto simp: remove_steps_def promote_steps_def Let_def split: if_splits intro: backward_step)
    qed
    have "stations_ahead (run_steps (remove_steps i s) s) (drop_station i gs)" using new full by simp
    then show ?thesis by (intro die_repaired die_ahead [OF A _ _ k] b)
  next
    case par: True
    have rs: "remove_steps i s = parallel_steps i s" using par by (simp add: remove_steps_def)
    define fs where "fs = (if nextpar_link s i > - 1 then [link_prevpar (nextpar_link s i) (num_of s (prevpar_link s i))] else [])
      @ [link_nextpar (prevpar_link s i) (nextpar_link s i)]"
    define ws where "ws = (if s_waslast (m_stats s i) = 1 then [upd_station (prevpar_link s i) (s_waslast_update (\<lambda>_. 1))] else [])"
    have st: "remove_steps i s = fs @ ws" unfolding rs parallel_steps_def fs_def ws_def Let_def by simp
    have b: "backward gs u (f u)" if f: "f \<in> set (butlast fs)" for f u
    proof (cases "nextpar_link s i > - 1")
      case True
      then have "nextpar_link s i \<in> set (tl g)" using next_par by auto
      then have "nextpar_link s i \<noteq> ET_GRANDCENTRAL" using par_in rest0 by blast
      then show ?thesis using f True by (auto simp: fs_def intro: backward_step)
    qed (use f in \<open>simp add: fs_def\<close>)
    have wsb: "backward hs u (run_steps (take m ws) u)" for hs u m
      by (rule run_backward) (auto simp: ws_def dest!: in_set_takeD intro: backward_step)
    have t': "run_steps ws (run_steps fs s) = t" using full st by simp
    have "backward (drop_station i gs) t (run_steps fs s)"
      using wsb [of _ "run_steps fs s" "length ws"] t' backward_sym by simp
    then have new': "stations_ahead (run_steps fs s) (drop_station i gs)" using stations_ahead_backward [OF new] by blast
    show ?thesis
    proof (cases "k \<le> length fs")
      case True
      have "\<exists>hs. stations_ahead (run_steps (take k fs) s) hs \<and> (hs = gs \<or> hs = drop_station i gs)"
        by (intro die_ahead [OF A _ new' True] b)
      then show ?thesis using die_repaired True st by simp
    next
      case False
      then have "take k (remove_steps i s) = fs @ take (k - length fs) ws" using st by simp
      then show ?thesis
        using fix_linkedlist_ok [OF stations_ahead_backward [OF new' wsb]] by simp blast
    qed
  qed
qed

end
