(* ===== verification/Et_FixStations.thy ===== *)
theory Et_FixStations
  imports Et_FixLinks
begin

text \<open>
  The repair of the states and of the number of the stations (\<^verbatim>\<open>et_fix_stations\<close>), once the lists are in
  order again.
\<close>

section \<open>Stations that are in no list\<close>

lemma in_parallel_list_run:
  assumes "dll (nextpar_link s) pv a (x # H) (- 1)" and "\<forall>y \<in> set H. 0 \<le> y \<and> num_of s y = y"
  shows "in_parallel_list s k x = Some (k \<in> set H)"
  using assms
proof (induction H arbitrary: a x)
  case Nil
  then show ?case by (subst in_parallel_list.simps) simp
next
  case (Cons y H)
  then have "nextpar_link s x = y" "0 \<le> y" "num_of s y = y" by auto
  then show ?case using Cons by (subst in_parallel_list.simps) auto
qed

lemma in_main_list_run:
  assumes "dll (next_link s) pv a (x # map hd gs) (- 1)" and "[] \<notin> set gs"
    and "\<forall>i \<in> set (concat gs). 0 \<le> i \<and> num_of s i = i"
    and "\<And>g. g \<in> set gs \<Longrightarrow> dll (nextpar_link s) (prevpar_link s) (- 1) g (- 1)"
    and "\<And>g. g \<in> set gs \<Longrightarrow> tl g \<noteq> [] \<Longrightarrow> in_parallel s (hd g)"
  shows "in_main_list s k x = Some (k \<in> set (concat gs))"
  using assms
proof (induction gs arbitrary: a x)
  case Nil
  then show ?case by (subst in_main_list.simps) simp
next
  case (Cons g gs)
  obtain y H where g: "g = y # H" using Cons.prems(2) by (cases g) auto
  have y: "next_link s x = y" "0 \<le> y" "num_of s y = y" "\<forall>z \<in> set H. 0 \<le> z \<and> num_of s z = z"
    using Cons.prems(1,3) g by auto
  have p: "in_parallel_list s k y = Some (k \<in> set H)"
    using in_parallel_list_run [of s "prevpar_link s" "- 1" y H k] Cons.prems(4) [of g] g y(4) by simp
  have r: "in_main_list s k y = Some (k \<in> set (concat gs))"
    using Cons.IH [of x y] Cons.prems g by simp
  have h: "in_parallel s y \<or> H = []" using Cons.prems(5) [of g] g by auto
  show ?case
    using y p r h g by (subst in_main_list.simps) (auto simp: Let_def)
qed

lemma in_list:
  assumes S: "stations s gs" and k: "k \<noteq> ET_GRANDCENTRAL"
  shows "in_main_list s k ET_GRANDCENTRAL = Some (k \<in> set (concat gs))"
proof -
  note D = stationsD [OF S]
  obtain rest where gs: "gs = [ET_GRANDCENTRAL] # rest" using D(1,2) by (cases gs) auto
  have "in_main_list s k ET_GRANDCENTRAL = Some (k \<in> set (concat rest))"
  proof (rule in_main_list_run)
    show "dll (next_link s) (prev_link s) (- 1) (ET_GRANDCENTRAL # map hd rest) (- 1)" using D(6) gs by simp
    show "\<forall>i \<in> set (concat rest). 0 \<le> i \<and> num_of s i = i" using D(5) gs by (auto simp: in_array_def)
    show "in_parallel s (hd g)" if "g \<in> set rest" "tl g \<noteq> []" for g
      using D(9) [of g "hd g"] that gs by (cases g) auto
  qed (use D(3,8) gs in auto)
  then show ?thesis using k gs by simp
qed

text \<open>A station that is not in the lists but looks as if it were in use.\<close>

definition stray :: "et_mem \<Rightarrow> et_stat_id list list \<Rightarrow> et_stat_id \<Rightarrow> bool" where
  "stray s gs i \<longleftrightarrow> i \<notin> set (concat gs) \<and> status_of i s \<noteq> ET_STATION_UNUSED \<and> status_of i s \<noteq> ET_STATION_CREATING"

definition cleared :: "et_stat_id list list \<Rightarrow> et_stat_id list \<Rightarrow> et_mem \<Rightarrow> et_mem \<Rightarrow> bool" where
  "cleared gs sts s t \<longleftrightarrow> stations t gs \<and> sy_nstations (m_sys t) = sy_nstations (m_sys s) \<and> sy_config (m_sys t) = sy_config (m_sys s)
     \<and> (\<forall>j. j \<notin> set sts \<or> j \<in> set (concat gs) \<longrightarrow> m_stats t j = m_stats s j)
     \<and> (\<forall>j \<in> set sts. j \<notin> set (concat gs) \<longrightarrow> status_of j t = ET_STATION_UNUSED)"

lemma fix_each_run:
  assumes "stations s gs" and "distinct sts" and "ET_GRANDCENTRAL \<notin> set sts"
    and "\<And>i. i \<in> set (concat gs) \<Longrightarrow> status_of i s \<in> {ET_STATION_IDLE, ET_STATION_ACTIVE}"
    and "\<And>i. i \<in> set sts \<Longrightarrow> stray s gs i \<Longrightarrow> num_of s i = i"
  shows "\<exists>t. fix_each sts (s, n) = Some (t, n + int (length (filter (\<lambda>i. i \<in> set (concat gs)) sts))
       + int (length (filter (stray s gs) sts))) \<and> cleared gs sts s t"
  using assms
proof (induction sts arbitrary: s n)
  case Nil
  then show ?case by (simp add: cleared_def)
next
  case (Cons i sts)
  note D = stationsD [OF Cons.prems(1)]
  let ?k = "if stray s gs i \<or> i \<in> set (concat gs) then 1 else 0 :: int"
  obtain u where u: "fix_station i (s, n) = Some (u, n + ?k)" "stations u gs" "sy_nstations (m_sys u) = sy_nstations (m_sys s)"
    "sy_config (m_sys u) = sy_config (m_sys s)" "\<And>j. j \<noteq> i \<or> j \<in> set (concat gs) \<Longrightarrow> m_stats u j = m_stats s j"
    "i \<notin> set (concat gs) \<Longrightarrow> status_of i u = ET_STATION_UNUSED"
  proof (cases "i \<in> set (concat gs)")
    case True
    then have "status_of i s \<noteq> ET_STATION_CREATING" "status_of i s \<noteq> ET_STATION_UNUSED" "num_of s i = i"
      using Cons.prems(4) [OF True] D(5) [OF True] by auto
    then have "fix_station i (s, n) = Some (s, n + 1)"
      using in_list [OF Cons.prems(1), of i] Cons.prems(3) True by (simp add: fix_station_def)
    then show thesis using that [of s] True Cons.prems(1) by auto
  next
    case False
    define f where "f = (\<lambda>t. upd_station i et_init_station t)"
    have cl: "stations (f t) gs \<and> sy_nstations (m_sys (f t)) = sy_nstations (m_sys s) \<and> sy_config (m_sys (f t)) = sy_config (m_sys s)
        \<and> (\<forall>j. j \<noteq> i \<or> j \<in> set (concat gs) \<longrightarrow> m_stats (f t) j = m_stats s j) \<and> status_of i (f t) = ET_STATION_UNUSED"
      if "m_sys t = m_sys s" "\<And>j. j \<noteq> i \<Longrightarrow> m_stats t j = m_stats s j" for t
    proof -
      have o: "m_stats (f t) j = m_stats s j" if "j \<noteq> i" for j using that \<open>\<And>j. j \<noteq> i \<Longrightarrow> m_stats t j = m_stats s j\<close> by (simp add: f_def)
      have "stations (f t) gs"
      proof (rule stations_cong [OF Cons.prems(1)])
        show "station_view (f t) j = station_view s j" if "j \<in> set (concat gs)" for j
          using o [of j] that False unfolding station_view_def by metis
      qed (use that(1) in \<open>simp_all add: f_def\<close>)
      moreover have "m_sys (f t) = m_sys s" using that(1) by (simp add: f_def)
      moreover have "status_of i (f t) = ET_STATION_UNUSED" by (simp add: f_def et_init_station_def)
      ultimately show ?thesis using o False by auto
    qed
    consider "status_of i s = ET_STATION_CREATING" | "status_of i s = ET_STATION_UNUSED" | "stray s gs i"
      using False by (auto simp: stray_def)
    then show thesis
    proof cases
      case 1
      then have "fix_station i (s, n) = Some (f s, n + ?k)" using False by (simp add: fix_station_def stray_def f_def)
      then show thesis using that [of "f s"] cl [of s] by blast
    next
      case 2
      then show thesis using that [of s] False Cons.prems(1) by (simp add: fix_station_def stray_def)
    next
      case 3
      then have "num_of s i = i" using Cons.prems(5) [of i] by simp
      then have "fix_station i (s, n) = Some (f (upd_os (CondSignal (ListOut i))
                 (upd_station i (s_conductor_update (\<lambda>_. ET_THREAD_KILL)) s)), n + ?k)"
        using 3 in_list [OF Cons.prems(1), of i] Cons.prems(3) False by (simp add: fix_station_def stray_def f_def)
      moreover note cl [of "upd_os (CondSignal (ListOut i)) (upd_station i (s_conductor_update (\<lambda>_. ET_THREAD_KILL)) s)"]
      ultimately show thesis using that by (simp add: upd_os_def)
    qed
  qed
  have st: "stray u gs j = stray s gs j \<and> num_of u j = num_of s j" if "j \<in> set sts" for j
  proof -
    have "m_stats u j = m_stats s j" by (rule u(5)) (use Cons.prems(2) that in auto)
    then show ?thesis by (simp add: stray_def)
  qed
  obtain t where t: "fix_each sts (u, n + ?k) = Some (t, n + ?k + int (length (filter (\<lambda>i. i \<in> set (concat gs)) sts))
       + int (length (filter (stray u gs) sts)))" "cleared gs sts u t"
    using Cons.IH [OF u(2), of "n + ?k"] Cons.prems u(5) st by auto
  have "filter (stray u gs) sts = filter (stray s gs) sts" by (rule filter_cong) (use st in auto)
  then have "fix_each (i # sts) (s, n) = Some (t, n + int (length (filter (\<lambda>i. i \<in> set (concat gs)) (i # sts)))
       + int (length (filter (stray s gs) (i # sts))))"
    using u(1) t(1) by (auto simp: stray_def)
  moreover have "m_stats t j = m_stats s j" if "j \<notin> set (i # sts) \<or> j \<in> set (concat gs)" for j
  proof -
    have "m_stats t j = m_stats u j" using t(2) that unfolding cleared_def by (metis list.set_intros(2))
    also have "\<dots> = m_stats s j" using that by (intro u(5)) auto
    finally show ?thesis .
  qed
  moreover have "status_of i t = ET_STATION_UNUSED" if "i \<notin> set (concat gs)"
  proof -
    have "m_stats t i = m_stats u i" using t(2) Cons.prems(2) unfolding cleared_def by auto
    then show ?thesis using u(6) [OF that] by simp
  qed
  then have "cleared gs (i # sts) s t"
    using t(2) u(3,4) calculation(2) unfolding cleared_def by auto
  ultimately show ?case by blast
qed

text \<open>
  The lists stay, and every station outside of them becomes unused; but each stray one is counted before
  it is removed.
\<close>

theorem fix_stations_ok:
  assumes S: "stations s gs"
    and st: "\<And>i. i \<in> set (concat gs) \<Longrightarrow> status_of i s \<in> {ET_STATION_IDLE, ET_STATION_ACTIVE}"
    and num: "\<And>i. in_array s i \<Longrightarrow> stray s gs i \<Longrightarrow> num_of s i = i"
  shows "\<exists>t. et_fix_stations s = Go t \<and> stations t gs \<and> (\<forall>i \<in> set (concat gs). m_stats t i = m_stats s i)
     \<and> (\<forall>i. in_array s i \<longrightarrow> i \<notin> set (concat gs) \<longrightarrow> status_of i t = ET_STATION_UNUSED)
     \<and> sy_nstations (m_sys t) = int (length (concat gs)) + int (card {i. in_array s i \<and> stray s gs i})"
proof -
  note D = stationsD [OF S]
  let ?sts = "map int [1..<max_stations s]"
  have gc: "ET_GRANDCENTRAL \<in> set (concat gs)" using D(1,2) by (cases gs) auto
  have i: "i \<in> set ?sts \<longleftrightarrow> in_array s i \<and> i \<noteq> ET_GRANDCENTRAL" for i
    by (auto simp: in_array_def image_iff intro!: bexI [of _ "nat i"])
  have d: "distinct ?sts" by (simp add: distinct_map)
  obtain t where t: "fix_each ?sts (s, 1) = Some (t, 1 + int (length (filter (\<lambda>i. i \<in> set (concat gs)) ?sts))
       + int (length (filter (stray s gs) ?sts)))" "cleared gs ?sts s t"
    using fix_each_run [OF S d _ st, of 1] num i by auto
  have "length (filter (\<lambda>i. i \<in> set (concat gs)) ?sts) = card (set (concat gs) - {ET_GRANDCENTRAL})"
  proof -
    have "set (filter (\<lambda>i. i \<in> set (concat gs)) ?sts) = set (concat gs) - {ET_GRANDCENTRAL}"
      using i D(5) by (auto simp del: set_map)
    then show ?thesis using d by (metis distinct_card distinct_filter)
  qed
  moreover have "card (set (concat gs)) = length (concat gs)" using D(4) by (rule distinct_card)
  moreover have "0 < card (set (concat gs))" using gc by (metis card_gt_0_iff List.finite_set empty_iff)
  ultimately have n1: "1 + int (length (filter (\<lambda>i. i \<in> set (concat gs)) ?sts)) = int (length (concat gs))"
    using gc by (simp only: card_Diff_singleton)
  have "set (filter (stray s gs) ?sts) = {i. in_array s i \<and> stray s gs i}"
    using i gc by (auto simp: stray_def simp del: set_map)
  then have n2: "length (filter (stray s gs) ?sts) = card {i. in_array s i \<and> stray s gs i}"
    using d by (metis distinct_card distinct_filter)
  define u where "u = upd_sys (sy_nstations_update (\<lambda>_. int (length (concat gs)) + int (card {i. in_array s i \<and> stray s gs i}))) t"
  have "et_fix_stations s = Go u"
  proof -
    have "et_fix_stations s = Go (if int (length (concat gs)) + int (card {i. in_array s i \<and> stray s gs i}) \<noteq> sy_nstations (m_sys t)
        then u else t)"
      using t(1) n1 n2 unfolding et_fix_stations_def u_def by simp
    moreover have "u = t" if "int (length (concat gs)) + int (card {i. in_array s i \<and> stray s gs i}) = sy_nstations (m_sys t)"
      unfolding u_def that by simp
    ultimately show ?thesis by presburger
  qed
  moreover have "stations u gs"
    using t(2) unfolding cleared_def u_def by (auto intro!: stations_cong [of t] simp: station_view_def)
  moreover have "m_stats u = m_stats t" "sy_nstations (m_sys u) = int (length (concat gs)) + int (card {i. in_array s i \<and> stray s gs i})"
    by (simp_all add: u_def)
  moreover have "m_stats t j = m_stats s j" if "j \<in> set (concat gs)" for j
    using t(2) that unfolding cleared_def by blast
  moreover have "status_of j t = ET_STATION_UNUSED" if "in_array s j" "j \<notin> set (concat gs)" for j
    using t(2) that i [of j] gc unfolding cleared_def by blast
  ultimately show ?thesis by metis
qed

end
