(* ===== verification/Et_StationSpec.thy ===== *)
theory Et_StationSpec
  imports Et_StationFaults Et_FixCrash Et_FixStations
begin

text \<open>
  The properties of the stations of an ET system: creating and removing refine operations on a list of
  groups of stations, the lists are in order in every system that can be reached and are put in order again
  after the death of a client; moving a station to the end of the lists breaks them.
\<close>

section \<open>A running system with three stations\<close>

definition line_name :: "int \<Rightarrow> string" where
  "line_name i = (if i = 0 then ''GRAND_CENTRAL'' else if i = 1 then ''one'' else if i = 2 then ''two'' else [])"

definition mem_line :: et_mem where
  "mem_line = mem0\<lparr>m_sys := system0\<lparr>sy_nstations := 3, sy_stat_tail := 2\<rparr>,
     m_stats := (\<lambda>i. station0\<lparr>s_num := i, s_next := (if i = 0 \<or> i = 1 then i + 1 else - 1),
       s_prev := (if i = 1 \<or> i = 2 then i - 1 else - 1), s_name := line_name i,
       s_data := \<lparr>d_status = (if i = 0 then ET_STATION_ACTIVE else if i = 1 \<or> i = 2 then ET_STATION_IDLE else ET_STATION_UNUSED),
         d_pid_create = 0, d_nattachments = 0, d_att = (\<lambda>_. - 1)\<rparr>\<rparr>)\<rparr>"

definition local_id :: et_id where
  "local_id = \<lparr>i_locality = ET_LOCAL, i_alive = True, i_closed = False, i_proc = 0, i_group = 1\<rparr>"

lemma local_id_usable [simp]: "usable local_id = ET_OK" "i_locality local_id = ET_LOCAL"
  by (simp_all add: local_id_def usable_def)

lemma mem_line_reads [simp]:
  "m_stats mem_line i = station0\<lparr>s_num := i, s_next := (if i = 0 \<or> i = 1 then i + 1 else - 1),
       s_prev := (if i = 1 \<or> i = 2 then i - 1 else - 1), s_name := line_name i,
       s_data := \<lparr>d_status = (if i = 0 then ET_STATION_ACTIVE else if i = 1 \<or> i = 2 then ET_STATION_IDLE else ET_STATION_UNUSED),
         d_pid_create = 0, d_nattachments = 0, d_att = (\<lambda>_. - 1)\<rparr>\<rparr>"
  "sy_nstations (m_sys mem_line) = 3" "tail_of mem_line = 2" "sy_config (m_sys mem_line) = sys_config0"
  "sy_stat_head (m_sys mem_line) = 0"
  by (simp_all add: mem_line_def system0_def)

lemma mem_line_running: "running mem_line [[0], [1], [2]]"
proof -
  have "stations mem_line [[0], [1], [2]]"
    unfolding stations_def by (simp add: in_array_def station0_def sys_config0_def)
  then have "station_system mem_line [[0], [1], [2]]"
    by (rule station_systemI) (auto simp: station0_def)
  moreover have "station_config_ok stat_config0"
    by (simp add: station_config_ok_def stat_config_wf_def stat_config0_def shares_events_def)
  ultimately show ?thesis
    by (simp add: running_def inj_on_def line_name_def station0_def)
qed

lemma res_bind_Go: "res_bind r f = Go y \<Longrightarrow> (\<And>x. r = Go x \<Longrightarrow> f x = Go y \<Longrightarrow> P) \<Longrightarrow> P"
  by (cases r) simp_all

section \<open>Creating, removing and finding stations\<close>

text \<open>C29: On a running system whose lists hold the groups of stations gs, et_station_create_at with a new name,
  a consistent configuration and room for one more station takes an unused entry i of the array and puts
  it where insert_station puts it in gs: behind the last group, in front of the group at the position, or into
  that group; when it may not join the group the call fails and the entry is given back.  In either
  case the system is a running one again.\<close>

theorem et_station_create_at_refines:
  assumes R: "running s gs" and h: "usable h = ET_OK" "i_locality h = ET_LOCAL"
    and nm: "length nm < ET_STATNAME_LENGTH" "\<And>j. j \<in> set (concat gs) \<Longrightarrow> s_name (m_stats s j) \<noteq> nm"
    and pos: "pos = ET_END \<or> 0 < pos" "ppos = ET_END \<or> ppos = ET_NEWHEAD \<or> 0 \<le> ppos"
    and sc: "stat_config_wf sc" "et_station_config_check s sc \<noteq> ET_ERROR"
    and room: "sy_nstations (m_sys s) < y_nstations (sy_config (m_sys s))"
    and l: "c_select_mode sc \<noteq> ET_STATION_SELECT_USER \<or> loaded"
  shows "\<exists>i t. i \<notin> set (concat gs) \<and> in_array s i
     \<and> (case insert_station ((\<lambda>j. config_of j s)(i := sc)) i pos ppos gs of
          None \<Rightarrow> et_station_create_at far h (Some nm) (Some sc) pos ppos pid loaded s = Go ((ET_ERROR, None), t) \<and> running t gs
        | Some gs' \<Rightarrow> et_station_create_at far h (Some nm) (Some sc) pos ppos pid loaded s = Go ((ET_OK, Some i), t)
            \<and> running t gs' \<and> config_of i t = sc \<and> s_name (m_stats t i) = nm)"
proof -
  have S: "station_system s gs" using R by (simp add: running_def)
  note D = station_systemD [OF S]
  have new: "s_name (m_stats s j) \<noteq> nm" if "in_array s j" "status_of j s \<noteq> ET_STATION_UNUSED" for j
    using nm(2) D(4) [of j] that by blast
  have gc: "nm \<noteq> ''GRAND_CENTRAL''" using nm(2) [OF running_gc [OF R]] R by (auto simp: running_def)
  have e: "et_station_create_at far h (Some nm) (Some sc) pos ppos pid loaded s = create_station h nm sc pos ppos pid loaded s"
  proof -
    have "i_alive h" "\<not> i_closed h" using h(1) by (auto simp: usable_def split: if_splits)
    moreover have "\<not> (pos \<noteq> ET_END \<and> pos < 0)" "pos \<noteq> 0" "\<not> (ppos \<noteq> ET_END \<and> ppos \<noteq> ET_NEWHEAD \<and> ppos < 0)"
      using pos by auto
    moreover have "c_init sc = ET_STRUCT_OK" using sc(1) by (simp add: stat_config_wf_def)
    moreover have "\<not> length nm > ET_STATNAME_LENGTH - 1" using nm(1) by simp
    ultimately show ?thesis using h(2) sc(2) gc unfolding et_station_create_at_def Let_def by simp blast
  qed
  obtain i t where i: "i \<notin> set (concat gs)" "in_array s i"
    and f: "\<And>j. s_name (m_stats t j) = (if j = i then nm else s_name (m_stats s j))"
      "\<And>j. config_of j t = (if j = i then sc else config_of j s)"
    and c: "case insert_station ((\<lambda>j. config_of j s)(i := sc)) i pos ppos gs of
          None \<Rightarrow> create_station h nm sc pos ppos pid loaded s = Go ((ET_ERROR, None), t) \<and> station_system t gs
        | Some gs' \<Rightarrow> create_station h nm sc pos ppos pid loaded s = Go ((ET_OK, Some i), t) \<and> station_system t gs'"
    using create_station_ok [OF S h gc new room l, of pos ppos pid] by blast
  have "running t hs" if t: "station_system t hs"
    "hs = gs \<or> insert_station ((\<lambda>j. config_of j s)(i := sc)) i pos ppos gs = Some hs" for hs
  proof -
    obtain r where "create_station h nm sc pos ppos pid loaded s = Go (r, t)"
      using c by (auto split: option.splits)
    then obtain ks where ks: "running t ks" using running_create [OF R h config_checked [OF sc]] by blast
    have "set (concat hs) \<subseteq> set (concat ks)"
    proof
      fix j assume "j \<in> set (concat hs)"
      then have "in_array t j" "status_of j t \<noteq> ET_STATION_UNUSED"
        using stationsD(5) [OF station_systemD(1) [OF t(1)]] station_systemD(3) [OF t(1)] by force+
      then show "j \<in> set (concat ks)" using in_use(1) [OF ks] by blast
    qed
    then show ?thesis by (rule running_names [OF ks t(1)]) simp
  qed
  then show ?thesis using i c f unfolding e by (intro exI [of _ i] exI [of _ t]) (auto split: option.splits)
qed

theorem et_station_create_at_refines_witness:
  "\<exists>i t. et_station_create_at (0, None) local_id (Some ''new'') (Some stat_config0) 2 ET_END 7 True mem_line = Go ((ET_OK, Some i), t)
     \<and> running t [[0], [1], [i], [2]] \<and> config_of i t = stat_config0"
proof -
  have "et_station_config_check mem_line stat_config0 \<noteq> ET_ERROR"
    by (simp add: et_station_config_check_def stat_config0_def sys_config0_def)
  moreover have "stat_config_wf stat_config0" by (simp add: stat_config_wf_def stat_config0_def)
  moreover have "s_name (m_stats mem_line j) \<noteq> ''new''" if "j \<in> set (concat [[0], [1], [2]])" for j
    using that by (auto simp: line_name_def)
  ultimately show ?thesis
    using et_station_create_at_refines [OF mem_line_running, of local_id "''new''" 2 ET_END stat_config0 True "(0, None)" 7]
    by (auto simp: insert_station_def stat_config0_def sys_config0_def station0_def)
qed

text \<open>C30: Removing a station other than GrandCentral without attachments from a running system takes it out of the
  lists: it is deleted from its group, a group that becomes empty disappears, and the next member of a group
  whose head is removed becomes its head.  The system is a running one again, with the entry of the
  station free.\<close>

theorem et_station_remove_refines:
  assumes R: "running s gs" and h: "usable h = ET_OK" "i_locality h = ET_LOCAL"
    and st: "st \<in> set (concat gs)" "st \<noteq> ET_GRANDCENTRAL" "attachments_at st s \<le> 0" and env: "\<And>u. same_stations u (env u)"
  shows "\<exists>t. et_station_remove far h st env s = Go (ET_OK, t) \<and> running t (drop_station st gs)
     \<and> status_of st t = ET_STATION_UNUSED \<and> sy_nstations (m_sys t) = sy_nstations (m_sys s) - 1"
proof -
  have S: "station_system s gs" using R by (simp add: running_def)
  obtain t where t: "et_station_remove far h st env s = Go (ET_OK, t)" "station_system t (drop_station st gs)"
    "\<And>j. s_name (m_stats t j) = s_name (m_stats s j) \<and> config_of j t = config_of j s"
    using remove_station_ok [OF S h st env] by blast
  note X = drop_station_set [OF station_systemD(1) [OF S] st(1)]
  have r: "running t (drop_station st gs)"
    by (rule running_names [OF R t(2)]) (use X(1) t(3) in auto)
  obtain gs' where r': "running t gs'" using r by blast
  have "status_of st t = ET_STATION_UNUSED"
  proof -
    obtain u where "t = give_up st u" using t(1) h st
      by (auto simp: et_station_remove_def give_up_def split: if_splits elim!: res_bind_Go)
    then show ?thesis by simp
  qed
  moreover have "int (length (concat (drop_station st gs))) = int (length (concat gs)) - 1"
  proof -
    have "0 < length (concat gs)" using st(1) by (metis length_pos_if_in_set)
    then show ?thesis unfolding X(2) by (rule int_minus_one [symmetric])
  qed
  ultimately show ?thesis
    using t(1) r station_systemD(2) [OF t(2)] station_systemD(2) [OF S] by simp
qed

theorem et_station_remove_refines_witness:
  "\<exists>t. et_station_remove 0 local_id 1 id mem_line = Go (ET_OK, t) \<and> running t [[0], [2]]"
  using et_station_remove_refines [OF mem_line_running, of local_id 1 id 0]
  by (auto simp: drop_station_def same_stations_def)

text \<open>C31: A station without parallel configuration that has been created at a position is found there: et_station_getposition
  returns the position asked for when there are that many groups, otherwise the place behind the last
  group, and the place 0 in its group.\<close>

theorem et_station_create_getposition:
  assumes R: "running s gs" and h: "usable h = ET_OK" "i_locality h = ET_LOCAL"
    and nm: "length nm < ET_STATNAME_LENGTH" "\<And>j. j \<in> set (concat gs) \<Longrightarrow> s_name (m_stats s j) \<noteq> nm"
    and pos: "pos = ET_END \<or> 0 < pos" "ppos = ET_END \<or> ppos = ET_NEWHEAD \<or> 0 \<le> ppos"
    and sc: "stat_config_wf sc" "et_station_config_check s sc \<noteq> ET_ERROR" "c_flow_mode sc = ET_STATION_SERIAL"
    and room: "sy_nstations (m_sys s) < y_nstations (sy_config (m_sys s))"
    and l: "c_select_mode sc \<noteq> ET_STATION_SELECT_USER \<or> loaded"
  shows "\<exists>i t. et_station_create_at far h (Some nm) (Some sc) pos ppos pid loaded s = Go ((ET_OK, Some i), t)
     \<and> et_station_getposition far' h i t = Go (ET_OK, Some (if 0 < pos \<and> pos < int (length gs) then pos else int (length gs), Some 0))"
proof -
  obtain i t where i: "i \<notin> set (concat gs)" "in_array s i"
     and c: "case insert_station ((\<lambda>j. config_of j s)(i := sc)) i pos ppos gs of
          None \<Rightarrow> et_station_create_at far h (Some nm) (Some sc) pos ppos pid loaded s = Go ((ET_ERROR, None), t) \<and> running t gs
        | Some gs' \<Rightarrow> et_station_create_at far h (Some nm) (Some sc) pos ppos pid loaded s = Go ((ET_OK, Some i), t)
            \<and> running t gs' \<and> config_of i t = sc \<and> s_name (m_stats t i) = nm"
    using et_station_create_at_refines [OF R h nm pos sc(1,2) room l] by blast
  define a where "a = (if 0 < pos \<and> pos < int (length gs) then nat pos else length gs)"
  define gs' where "gs' = take a gs @ [i] # drop a gs"
  have ins: "insert_station ((\<lambda>j. config_of j s)(i := sc)) i pos ppos gs = Some gs'"
  proof (cases "1 \<le> pos \<and> pos < int (length gs)")
    case True
    then show ?thesis using sc(3) by (simp add: insert_station_def Let_def gs'_def a_def)
  next
    case False
    then have "a = length gs" by (auto simp: a_def)
    then show ?thesis unfolding insert_station_def using False by (subst if_not_P) (simp_all add: gs'_def)
  qed
  then have t: "et_station_create_at far h (Some nm) (Some sc) pos ppos pid loaded s = Go ((ET_OK, Some i), t)" "running t gs'"
    using c by simp_all
  have S: "station_system t gs'" using t(2) by (simp add: running_def)
  have a: "a \<le> length gs" by (auto simp: a_def)
  then have n: "gs' ! a = [i]" "a < length gs'" by (simp_all add: gs'_def nth_append)
  have f: "station_find i t = Go (Some (int a, 0))"
    using station_find_ok [OF station_systemD(1,2) [OF S] n(2), of 0] n(1) by simp
  have "i \<in> set (concat gs')" by (simp add: gs'_def)
  then have i': "in_array t i" "status_of i t \<in> {ET_STATION_IDLE, ET_STATION_ACTIVE}"
    using stationsD(5) [OF station_systemD(1) [OF S]] station_systemD(3) [OF S] by blast+
  have "i \<noteq> ET_GRANDCENTRAL" using i(1) running_gc [OF R] by auto
  then have "et_station_getposition far' h i t = Go (ET_OK, Some (int a, Some 0))"
    using i' f h by (auto simp: et_station_getposition_def in_array_def)
  moreover have "int a = (if 0 < pos \<and> pos < int (length gs) then pos else int (length gs))" by (simp add: a_def)
  ultimately show ?thesis using t(1) by auto
qed

theorem et_station_create_getposition_witness:
  "\<exists>i t. et_station_create_at (0, None) local_id (Some ''new'') (Some stat_config0) 2 ET_END 7 True mem_line = Go ((ET_OK, Some i), t)
     \<and> et_station_getposition (0, None) local_id i t = Go (ET_OK, Some (2, Some 0))"
proof -
  have "et_station_config_check mem_line stat_config0 \<noteq> ET_ERROR"
    by (simp add: et_station_config_check_def stat_config0_def sys_config0_def)
  moreover have "stat_config_wf stat_config0" by (simp add: stat_config_wf_def stat_config0_def)
  moreover have "s_name (m_stats mem_line j) \<noteq> ''new''" if "j \<in> set (concat [[0], [1], [2]])" for j
    using that by (auto simp: line_name_def)
  ultimately show ?thesis
    using et_station_create_getposition [OF mem_line_running, of local_id "''new''" 2 ET_END stat_config0 True "(0, None)" 7 "(0, None)"]
    by (simp add: stat_config0_def sys_config0_def)
qed

section \<open>The life of a system\<close>

text \<open>C32: Starting a system whose configuration passes the check initialises its memory to that of a running system: the
  only station is GrandCentral, active, configured as such; all events are owned by the system and are in its input list
  in their order, every other list is empty, and the events have the numbers of the groups that the
  configuration asks for, one group after the other until all events have one (all groups are then used up,
  unless their sizes add up to the number of events only by overflow).\<close>

theorem start_memory_running:
  assumes ok: "et_system_config_check c0 = (ET_OK, c)" and g: "\<forall>g \<in> set (take (nat (y_groupCount c)) (y_groups c)). 1 \<le> g"
    and out: "no_lists_outside c s"
  shows "\<exists>t. start_memory c0 pid s = Go (ET_OK, t) \<and> running t [[ET_GRANDCENTRAL]]
     \<and> status_of ET_GRANDCENTRAL t = ET_STATION_ACTIVE \<and> config_of ET_GRANDCENTRAL t = gc_config
     \<and> holds t ((\<lambda>_. [])(ListIn ET_GRANDCENTRAL := [0..<nat (y_nevents c)])) {}
     \<and> map (\<lambda>e. e_group (m_events t e)) [0..<nat (y_nevents c)]
         = take (nat (y_nevents c)) (group_numbers 0 (take (nat (y_groupCount c)) (y_groups c)))"
  by (rule start_run [OF ok g out])

theorem start_memory_running_witness:
  "\<exists>t. start_memory (sys_config0\<lparr>y_nevents := 3, y_ntemps := 3, y_groupCount := 2, y_groups := [2, 1, 0]\<rparr>) 7 mem0 = Go (ET_OK, t)
     \<and> running t [[0]] \<and> map (\<lambda>e. e_group (m_events t e)) [0, 1, 2] = [1, 1, 2]"
proof -
  let ?c = "sys_config0\<lparr>y_nevents := 3, y_ntemps := 3, y_groupCount := 2, y_groups := [2, 1, 0]\<rparr>"
  have "nat 2 = Suc (Suc 0)" by simp
  then have "et_system_config_check ?c = (ET_OK, ?c)"
    by (simp add: et_system_config_check_def groups_sum_def c_int_same sys_config0_def)
  moreover have "\<forall>g \<in> set (take (nat (y_groupCount ?c)) (y_groups ?c)). 1 \<le> g" by (simp add: numeral_2_eq_2)
  moreover have "no_lists_outside ?c mem0"
    unfolding no_lists_outside_def
  proof (intro allI impI)
    show "cnt_of r mem0 = 0 \<and> l_lasthigh (glist r mem0) = 0" for r
      by (cases r) (simp_all add: glist.simps samples)
  qed
  ultimately have "\<exists>t. start_memory ?c 7 mem0 = Go (ET_OK, t) \<and> running t [[ET_GRANDCENTRAL]]
      \<and> map (\<lambda>e. e_group (m_events t e)) [0..<nat (y_nevents ?c)]
        = take (nat (y_nevents ?c)) (group_numbers 0 (take (nat (y_groupCount ?c)) (y_groups ?c)))"
    using start_memory_running [of ?c ?c mem0 7] by blast
  then show ?thesis by (simp add: upt_rec numeral_2_eq_2)
qed

text \<open>
  What a system can come to: it is started, and then its clients, its conductors and the routines on
  events take steps.
\<close>

inductive reachable :: "et_sys_config \<Rightarrow> et_mem \<Rightarrow> bool" for c where
  start: "et_system_config_check c0 = (ET_OK, c) \<Longrightarrow> \<forall>g \<in> set (take (nat (y_groupCount c)) (y_groups c)). 1 \<le> g
    \<Longrightarrow> no_lists_outside c s \<Longrightarrow> start_memory c0 pid s = Go (ET_OK, t) \<Longrightarrow> reachable c t"
| step: "reachable c s \<Longrightarrow> station_step s t \<Longrightarrow> reachable c t"

lemma reachable_lists: "reachable c s \<Longrightarrow> \<exists>gs. running s gs"
proof (induction rule: reachable.induct)
  case (start c0 s pid t)
  then show ?case using start_run [of c0 c s pid] by auto
next
  case (step s t)
  then show ?case using running_step by blast
qed

text \<open>C33: In every system that can be reached from a start by creating stations, removing stations that are in use,
  attaching, detaching attachments whose station is in use, changing the parameters of stations but their positions,
  transferring events, also when a routine is cut off between two assignments, and by rounds of conductors, the lists
  of stations are in order: they hold exactly the stations in use, whose number is the counter of the system and whose
  names differ.  That the station is in use is a duty of the clients: et_station_remove and et_station_detach
  do not check it.  The move of a station is the subject of C35.\<close>

theorem reachable_running:
  assumes "reachable c s"
  shows "\<exists>gs. running s gs"
  by (rule reachable_lists [OF assms])

lemma start_reachable: "\<exists>t. reachable sys_config0 t \<and> running t [[0]]"
proof -
  have g: "\<forall>g \<in> set (take (nat (y_groupCount sys_config0)) (y_groups sys_config0)). 1 \<le> g"
    by (simp add: sys_config0_def)
  have n: "no_lists_outside sys_config0 mem0"
    unfolding no_lists_outside_def
  proof (intro allI impI)
    show "cnt_of r mem0 = 0 \<and> l_lasthigh (glist r mem0) = 0" for r
      by (cases r) (simp_all add: glist.simps samples)
  qed
  have c: "et_system_config_check sys_config0 = (ET_OK, sys_config0)"
    by (simp add: et_system_config_check_def groups_sum_def c_int_same sys_config0_def)
  show ?thesis using start_run [OF c g n, of 7] reachable.start [OF c g n] by blast
qed

theorem reachable_running_witness: "\<exists>s gs. reachable sys_config0 s \<and> running s gs"
proof -
  obtain t where "reachable sys_config0 t" using start_reachable by blast
  then show ?thesis using reachable_running [of sys_config0 t] by blast
qed

text \<open>C34: The configuration of every station in use of a reachable system is well formed.  A station of a
  round robin or equal cue group is parallel and blocking, has no prescale and does not restore its
  events to its input list; one that restores events to its group is parallel; one that selects with a routine of the
  user has the names of a library and of a routine.  So the routines that change parameters while events flow keep what
  the creation of the station has checked, but for two limits of the system: et_station_config_check accepts the
  configuration of the station exactly when its users do not exceed the number of attachments of the system,
  which et_station_setuser does not check, and, if the station is not blocking, its cue does not exceed the number of
  events, which et_station_setblock does not check.\<close>

theorem reachable_station_config:
  assumes "reachable c s" and st: "in_array s st" "status_of st s \<noteq> ET_STATION_UNUSED"
  shows "stat_config_wf (config_of st s) \<and> (shares_events (config_of st s) \<longrightarrow>
      c_flow_mode (config_of st s) = ET_STATION_PARALLEL \<and> c_block_mode (config_of st s) = ET_STATION_BLOCKING
      \<and> c_prescale (config_of st s) = 1 \<and> c_restore_mode (config_of st s) \<noteq> ET_STATION_RESTORE_IN)
    \<and> (c_restore_mode (config_of st s) = ET_STATION_RESTORE_REDIST \<longrightarrow> c_flow_mode (config_of st s) = ET_STATION_PARALLEL)
    \<and> (c_select_mode (config_of st s) = ET_STATION_SELECT_USER \<longrightarrow>
      4 \<le> length (c_lib (config_of st s)) \<and> c_fname (config_of st s) \<noteq> [])
    \<and> (et_station_config_check s (config_of st s) = ET_OK \<longleftrightarrow>
      c_user_mode (config_of st s) \<le> y_nattachments (sy_config (m_sys s))
      \<and> (c_block_mode (config_of st s) = ET_STATION_NONBLOCKING \<longrightarrow> c_cue (config_of st s) \<le> nevents s))"
proof -
  obtain gs where R: "running s gs" using reachable_lists [OF assms(1)] by blast
  have ok: "station_config_ok (config_of st s)" using R in_use(1) [OF R st] unfolding running_def by blast
  then show ?thesis using config_check_iff [OF ok, of s] unfolding station_config_ok_def by blast
qed

theorem reachable_station_config_witness: "\<exists>s. reachable sys_config0 s \<and> stat_config_wf (config_of 0 s)"
proof -
  obtain t where t: "reachable sys_config0 t" "running t [[0]]" using start_reachable by blast
  have S: "station_system t [[0]]" using t(2) by (simp add: running_def)
  have "in_array t 0" "status_of 0 t \<noteq> ET_STATION_UNUSED"
    using stationsD(5) [OF station_systemD(1) [OF S], of 0] station_systemD(3) [OF S, of 0] by force+
  then show ?thesis using reachable_station_config [OF t(1), of 0] t(1) by blast
qed

section \<open>What goes wrong\<close>

text \<open>C35: et_station_setposition with the position ET_END succeeds for a station that is alone at its place and
  not the last one, but it leaves the link of the station to the one behind its old place.  The list of stations
  then ends in a cycle: from the station one never comes to an end or back to GrandCentral, so that the search for
  the end of the list in a later call never returns.\<close>

theorem et_station_setposition_end_cycles:
  assumes S: "station_system s (as @ [st] # b # bs)" and st: "as \<noteq> []" and h: "usable h = ET_OK" "i_locality h = ET_LOCAL"
    and ppos: "ppos = ET_END \<or> ppos = ET_NEWHEAD \<or> 0 \<le> ppos"
  shows "\<exists>t. et_station_setposition far h st ET_END ppos s = Go (ET_OK, t)
     \<and> (\<forall>n. (next_link t ^^ n) st > ET_GRANDCENTRAL) \<and> main_walk t ET_END 1 ET_GRANDCENTRAL = None"
proof -
  let ?gs = "as @ [st] # b # bs"
  note D = stationsD [OF station_systemD(1) [OF S]]
  obtain t where t: "move_station st ET_END ppos s = Go (ET_OK, t)"
    "\<And>n. (next_link t ^^ n) st \<in> {st} \<union> hd ` set (b # bs)" "main_walk t ET_END 1 ET_GRANDCENTRAL = None"
    using move_to_end [OF S st] by blast
  have heads: "{st} \<union> hd ` set (b # bs) \<subseteq> set (concat ([st] # b # bs))"
    using D(3) heads_subset [of "b # bs"] by auto
  have pos: "0 < j" if "j \<in> set (concat ([st] # b # bs))" for j
  proof -
    have "j \<in> set (concat ?gs)" using that by auto
    then have "0 \<le> j" using D(5) by (auto simp: in_array_def)
    moreover have "j \<noteq> ET_GRANDCENTRAL" using that D(2,4) st by (cases as) auto
    ultimately show ?thesis by simp
  qed
  have i: "st \<in> set (concat ?gs)" by simp
  have "in_array s st" "status_of st s \<in> {ET_STATION_IDLE, ET_STATION_ACTIVE}"
    using D(5) [OF i] station_systemD(3) [OF S _ i] by simp_all
  moreover have "0 < st" using pos by simp
  ultimately have "et_station_setposition far h st ET_END ppos s = move_station st ET_END ppos s"
    using h ppos by (auto simp: et_station_setposition_def in_array_def)
  then show ?thesis using t heads pos by (metis subsetD)
qed

theorem et_station_setposition_end_cycles_witness:
  "\<exists>t. et_station_setposition 0 local_id 1 ET_END ET_END mem_line = Go (ET_OK, t) \<and> (\<forall>n. (next_link t ^^ n) 1 > 0)"
proof -
  have "station_system mem_line ([[0]] @ [1] # [2] # [])" using mem_line_running by (simp add: running_def)
  then show ?thesis using et_station_setposition_end_cycles [of mem_line "[[0]]" 1 "[2]" "[]" local_id ET_END 0] by auto
qed

section \<open>The death of a client\<close>

text \<open>C36: A client may die behind any of the assignments with which station_insert and station_remove change the
  lists of stations.  From the memory it leaves, et_fix_linkedlist of the system comes to an end and leaves lists that
  are in order: either the ones from before the call or the ones the call would have made.\<close>

theorem et_fix_linkedlist_repairs:
  assumes S: "stations s gs" and h: "sy_stat_head (m_sys s) = ET_GRANDCENTRAL"
  shows "(loose_station s i gs \<and> sy_nstations (m_sys s) = int (length (concat gs)) + 1
       \<and> k \<le> length (insert_steps i pos ppos s) \<longrightarrow>
      (\<exists>t. et_fix_linkedlist (run_steps (take k (insert_steps i pos ppos s)) s) = Go t
        \<and> (stations t gs \<or> (\<exists>gs'. insert_station (\<lambda>j. config_of j s) i pos ppos gs = Some gs' \<and> stations t gs'))))
    \<and> (i \<in> set (concat gs) \<and> i \<noteq> ET_GRANDCENTRAL \<and> k \<le> length (remove_steps i s) \<longrightarrow>
      (\<exists>t. et_fix_linkedlist (run_steps (take k (remove_steps i s)) s) = Go t
        \<and> (stations t gs \<or> stations t (drop_station i gs))))"
  using die_in_insert [OF S _ _ h] die_in_remove [OF S _ _ h] by blast

theorem et_fix_linkedlist_repairs_witness:
  "\<exists>t. et_fix_linkedlist (run_steps (take 1 (remove_steps 1 mem_line)) mem_line) = Go t
     \<and> (stations t [[0], [1], [2]] \<or> stations t [[0], [2]])"
proof -
  have S: "stations mem_line [[0], [1], [2]]" using mem_line_running by (simp add: running_def station_system_def)
  have "1 \<le> length (remove_steps 1 mem_line)"
    by (simp add: remove_steps_def main_steps_def Let_def station0_def stat_config0_def)
  then show ?thesis using et_fix_linkedlist_repairs [OF S, of 1 1] by (simp add: drop_station_def)
qed

text \<open>
  Detaching twice: a detached attachment keeps the number of its station, so that et\_station\_detach accepts
  it again.  A station with two attachments becomes idle although one of them is still there.
\<close>

theorem et_station_detach_twice:
  assumes h: "usable h = ET_OK" "i_locality h = ET_LOCAL" "i_proc h = ET_SYS" and a: "0 \<le> a" "a < ET_ATTACHMENTS_MAX" "a < max_attachments s"
    and st: "a_stat (sy_attach (m_sys s) a) = st" "0 < st" and n: "attachments_at st s = 2"
    and e: "\<forall>e < nat (nevents s). e_owner (m_events s e) \<noteq> a" and nv: "1 \<le> nevents s"
    and l: "cnt_of (ListIn st) s = 0" "\<not> l_mutex (glist (ListIn st) s)" "\<not> quitting a s"
  shows "\<exists>t u. et_station_detach far h a ws w0 s = Go (ET_OK, t) \<and> et_station_detach far h a ws w0 t = Go (ET_OK, u)
     \<and> status_of st u = ET_STATION_IDLE \<and> attachments_at st u = 0
     \<and> sy_nattachments (m_sys u) = sy_nattachments (m_sys s) - 2
     \<and> (\<forall>b. b \<noteq> a \<longrightarrow> sy_attach (m_sys u) b = sy_attach (m_sys s) b)"
proof -
  obtain t where t: "et_station_detach far h a ws w0 s = Go (ET_OK, t)" "attachments_at st t = 1"
     "sy_nattachments (m_sys t) = sy_nattachments (m_sys s) - 1" "a_stat (sy_attach (m_sys t) a) = st"
     "\<And>b. b \<noteq> a \<Longrightarrow> sy_attach (m_sys t) b = sy_attach (m_sys s) b" "quitting a t = quitting a s"
     "m_events t = m_events s" "sy_config (m_sys t) = sy_config (m_sys s)" "glist (ListIn st) t = glist (ListIn st) s"
    using detach_once [OF h a st(1) _ n e, of far ws w0] st(2) by auto
  have "\<exists>u. et_station_detach far h a ws w0 t = Go (ET_OK, u) \<and> attachments_at st u = 0
     \<and> sy_nattachments (m_sys u) = sy_nattachments (m_sys t) - 1
     \<and> (\<forall>b. b \<noteq> a \<longrightarrow> sy_attach (m_sys u) b = sy_attach (m_sys t) b) \<and> status_of st u = ET_STATION_IDLE"
    using detach_once [OF h a(1,2) _ t(4) _ t(2), of far ws w0] a(3) st(2) e nv l t(6-9) by (auto simp: nevents_def)
  then show ?thesis using t(1,3,5) by auto
qed

end
