(* ===== verification/Et_SingleCalls.thy ===== *)
theory Et_SingleCalls
  imports Et_Dump
begin

text \<open>
  Writing and dumping a single event: \<^verbatim>\<open>et_station_write\<close> leaves the memory that \<^verbatim>\<open>et_station_nwrite\<close>
  leaves for one event, and \<^verbatim>\<open>et_station_dump\<close> appends the event to the input list of GrandCentral.
\<close>

lemma snd_andthen: "snd (andthen m n s) = (case snd (m s) of Done a t \<Rightarrow> snd (n t) | Blocked t \<Rightarrow> Blocked t | Exited t \<Rightarrow> Exited t | Fault \<Rightarrow> Fault)"
  by (simp add: andthen_def bind_def split: prod.splits outcome.splits)

lemma event_list_commute: "upd_event e g (upd_list r f s) = upd_list r f (upd_event e g s)"
  by (cases r; simp add: upd_list.simps upd_event_def upd_station_def)

lemma open_fixout_done: "\<exists>l t. open_fixout st n s = (l, Done () t) \<and> m_events t = m_events s \<and> cnt_of (ListOut st) t = cnt_of (ListOut st) s
   \<and> l_lasthigh (glist (ListOut st) t) = l_lasthigh (glist (ListOut st) s) \<and> last_of (ListOut st) t = last_of (ListOut st) s
   \<and> (cnt_of (ListOut st) s \<noteq> 0 \<longrightarrow> first_of (ListOut st) t = first_of (ListOut st) s)"
  by (simp add: open_fixout_def prog_defs)

lemma snd_run: "m s = (l, Done a t) \<Longrightarrow> snd (andthen m n s) = snd (n t)"
  by (simp add: snd_andthen)

lemma snd_lock: "\<not> l_mutex (glist r s) \<Longrightarrow> snd (andthen (et_llist_lock r) m s) = snd (m (upd_list r (l_mutex_update (\<lambda>_. True)) s))"
  by (simp add: snd_andthen et_llist_lock_def cond_def store_def)

text \<open>The body of \<^verbatim>\<open>et_station_write\<close> up to the change of the owner.\<close>

definition write_body :: "listref \<Rightarrow> nat \<Rightarrow> unit cmd" where
  "write_body r e = cond (\<lambda>s. cnt_of r s = 0)
            (block [set_first r (Some e), set_last r (Some e),
                    whenp (\<lambda>s. pri_of e s = ET_HIGH)
                      (store (upd_list r (l_lasthigh_update (\<lambda>_. 1))))] skip)
            (cond (\<lambda>s. pri_of e s = ET_LOW)
              (deref (last_of r) (\<lambda>p. block [set_next p (Some e), set_last r (Some e)] skip))
              (bindp (find_lasthigh r)
                (\<lambda>lh. block [link_high r e lh, add_lasthigh r 1] skip)))"

lemma write_body_same:
  assumes ch: "chain (m_events s) (first_of r s) xs" "xs \<noteq> [] \<longrightarrow> last_of r s = Some (last xs)" "cnt_of r s = int (length xs)"
    and srt: "pri_sorted (high (m_events s)) xs" "l_lasthigh (glist r s) = int (length (highs (high (m_events s)) xs))"
    and p: "pri_of e s \<in> {ET_LOW, ET_HIGH}"
  shows "snd (andthen (write_body r e) (andthen (set_owner e ET_SYS) (andthen (add_cnt r 1) m)) s)
     = snd (andthen (nwrite_body r e []) m s)"
proof (cases "xs = []")
  case True
  then show ?thesis using ch(3) p by (simp add: write_body_def nwrite_body_def snd_andthen cond_def block.simps store_def whenp_def ret_def load_def event_list_commute)
next
  case False
  have f: "find_lasthigh r s = ([], Done (lasth (high (m_events s)) xs) s)"
    by (rule find_lasthigh_eq [OF ch(1) srt])
  have b: "snd (bindp (find_lasthigh r) k s) = snd (k (lasth (high (m_events s)) xs) s)" for k :: "nat option \<Rightarrow> unit cmd"
    using f by (simp add: bind_def split: prod.splits)
  show ?thesis using False ch(2,3) p
    by (auto simp: write_body_def nwrite_body_def snd_andthen cond_def block.simps store_def whenp_def ret_def load_def deref_def b link_high_def event_list_commute
        split: option.splits)
qed

lemma write_is_nwrite:
  assumes ok: "out_ok s st xs" and p: "pri_of e s \<in> {ET_LOW, ET_HIGH}"
  shows "snd (et_station_write st e s) = snd (et_station_nwrite st [e] s)"
proof -
  let ?r = "ListOut st" and ?s = "upd_list (ListOut st) (l_mutex_update (\<lambda>_. True)) s"
  obtain l t where t: "open_fixout st 1 ?s = (l, Done () t)" "m_events t = m_events ?s" "cnt_of ?r t = cnt_of ?r ?s"
    "l_lasthigh (glist ?r t) = l_lasthigh (glist ?r ?s)" "last_of ?r t = last_of ?r ?s"
    "cnt_of ?r ?s \<noteq> 0 \<longrightarrow> first_of ?r t = first_of ?r ?s"
    using open_fixout_done by blast
  have B: "snd (andthen (write_body ?r e) (andthen (set_owner e ET_SYS) (andthen (add_cnt ?r 1) m)) t)
     = snd (andthen (nwrite_body ?r e []) m t)" for m
  proof (rule write_body_same [where xs = xs])
    show "chain (m_events t) (first_of ?r t) xs" using ok t(2,6) by (cases xs) (auto simp: out_ok_def out_list_def Let_def)
  qed (use ok t p in \<open>auto simp: out_ok_def out_list_def Let_def\<close>)
  let ?full = "andthen (et_llist_unlock ?r) (ret ET_ERROR)"
  have w: "et_station_write st e = andthen (et_llist_lock ?r) (cond (\<lambda>s. cnt_of ?r s \<ge> nevents s) ?full
      (andthen (open_fixout st 1) (andthen (write_body ?r e) (andthen (set_owner e ET_SYS) (andthen (add_cnt ?r 1)
        (andthen (close_fixout st) (ret ET_OK)))))))"
    by (simp only: et_station_write_def Let_def block.simps write_body_def)
  have n: "et_station_nwrite st [e] = andthen (et_llist_lock ?r) (cond (\<lambda>s. int (length [e]) > nevents s - cnt_of ?r s) ?full
      (andthen (open_fixout st (int (length [e]))) (andthen (nwrite_body ?r e [])
        (andthen (close_fixout st) (ret ET_OK)))))"
    by (simp only: et_station_nwrite_def Let_def block.simps nwrite_body_def list.case)
  have lk: "snd (andthen (et_llist_lock ?r) m s) = snd (m ?s)" for m :: "int cmd"
    using ok by (intro snd_lock) (simp add: out_ok_def)
  have op: "snd (andthen (open_fixout st 1) m ?s) = snd (m t)" for m :: "int cmd"
    by (simp add: snd_andthen t(1))
  show ?thesis unfolding w n lk
  proof (cases "cnt_of ?r s \<ge> nevents s")
    case True
    then show "snd (cond (\<lambda>s. cnt_of ?r s \<ge> nevents s) ?full
      (andthen (open_fixout st 1) (andthen (write_body ?r e) (andthen (set_owner e ET_SYS) (andthen (add_cnt ?r 1)
        (andthen (close_fixout st) (ret ET_OK)))))) ?s) = snd (cond (\<lambda>s. int (length [e]) > nevents s - cnt_of ?r s) ?full
      (andthen (open_fixout st (int (length [e]))) (andthen (nwrite_body ?r e [])
        (andthen (close_fixout st) (ret ET_OK)))) ?s)" by (simp add: cond_def)
  next
    case False
    then show "snd (cond (\<lambda>s. cnt_of ?r s \<ge> nevents s) ?full
      (andthen (open_fixout st 1) (andthen (write_body ?r e) (andthen (set_owner e ET_SYS) (andthen (add_cnt ?r 1)
        (andthen (close_fixout st) (ret ET_OK)))))) ?s) = snd (cond (\<lambda>s. int (length [e]) > nevents s - cnt_of ?r s) ?full
      (andthen (open_fixout st (int (length [e]))) (andthen (nwrite_body ?r e [])
        (andthen (close_fixout st) (ret ET_OK)))) ?s)"
      using op [of "andthen (write_body ?r e) (andthen (set_owner e ET_SYS) (andthen (add_cnt ?r 1) (andthen (close_fixout st) (ret ET_OK))))"]
        op [of "andthen (nwrite_body ?r e []) (andthen (close_fixout st) (ret ET_OK))"] B [of "andthen (close_fixout st) (ret ET_OK)"]
      by (simp add: cond_def [of "\<lambda>s. nevents s \<le> _ s"] cond_def [of "\<lambda>s. nevents s - _ s < _"])
  qed
qed

lemma dump_link_same:
  "snd (andthen (cond (\<lambda>s. cnt_of r s = 0) (set_first r (Some e)) (deref (last_of r) (\<lambda>p. set_next p (Some e))))
      (andthen (set_last r (Some e)) (andthen (set_owner e ET_SYS) (andthen (add_cnt r 1) m))) s)
   = snd (andthen (cond (\<lambda>s. cnt_of r s = 0)
              (block [set_first r (Some e), set_last r (Some e), set_owner e ET_SYS, add_cnt r 1] (nwriteNoPri_loop r e []))
              (deref (last_of r) (\<lambda>p. nwriteNoPri_loop r p [e]))) m s)"
  by (simp add: snd_andthen cond_def block.simps store_def ret_def deref_def fault_def split: option.splits)

lemma et_station_dump_run:
  assumes ok: "in_ok s ET_GRANDCENTRAL xs" and e: "e \<notin> set xs" and room: "int (length xs + 1) \<le> nevents s"
  shows "\<exists>t. snd (et_station_dump e s) = Done ET_OK t \<and> in_ok t ET_GRANDCENTRAL (xs @ [e])
     \<and> frame (ListIn ET_GRANDCENTRAL) (set xs \<union> {e}) s t
     \<and> f_out (gfix ET_GRANDCENTRAL t) = f_out (gfix ET_GRANDCENTRAL s)"
proof -
  let ?r = "ListIn ET_GRANDCENTRAL" and ?z = ET_GRANDCENTRAL
  have ev: "ev_list s ?r xs" "\<not> l_mutex (glist ?r s)" "fi_first (f_in (gfix ?z s)) = None" "fi_start (f_in (gfix ?z s)) = 0"
    using ok by (simp_all add: in_ok_def)
  let ?s1 = "upd_list ?r (l_mutex_update (\<lambda>_. True)) s"
  let ?s2 = "dump_open 1 ?s1"
  have ev1: "ev_list ?s1 ?r xs" using ev(1) by (auto simp: ev_list_def)
  have c: "cnt_of ?r s = int (length xs)" using ev(1) by (simp add: ev_list_def)
  have d: "distinct (xs @ [e])" using e ev(1) by (auto simp: ev_list_def)
  obtain l1 where o: "open_fixin_dump 1 ?s1 = (l1, Done () ?s2)" using open_fixin_dump_eq by blast
  obtain l t where t: "cond (\<lambda>s. cnt_of ?r s = 0)
              (block [set_first ?r (Some e), set_last ?r (Some e), set_owner e ET_SYS, add_cnt ?r 1] (nwriteNoPri_loop ?r e []))
              (deref (last_of ?r) (\<lambda>p. nwriteNoPri_loop ?r p [e])) ?s2 = (l, Done () t)"
     "ev_list t ?r (xs @ [e])" "frame ?r (set xs \<union> set [e]) ?s2 t" "keeps ?r ?s2 t"
    using dump_link_ok [OF ev_list_dump_open [OF ev1] d] by blast
  let ?t = "upd_os (CondSignal ?r) (upd_list ?r (l_mutex_update (\<lambda>_. False)) (upd_fixin ?z (fi_start_update (\<lambda>n. n - 1))
     (upd_list ?r (l_events_in_update (\<lambda>n. n + 1)) t)))"
  have w: "et_station_dump e = andthen (et_llist_lock ?r) (cond (\<lambda>s. cnt_of ?r s \<ge> nevents s) (andthen (et_llist_unlock ?r) (ret ET_ERROR))
      (andthen (open_fixin_dump 1) (andthen (cond (\<lambda>s. cnt_of ?r s = 0) (set_first ?r (Some e)) (deref (last_of ?r) (\<lambda>p. set_next p (Some e))))
      (andthen (set_last ?r (Some e)) (andthen (set_owner e ET_SYS) (andthen (add_cnt ?r 1)
        (andthen (store (upd_list ?r (l_events_in_update (\<lambda>n. n + 1)))) (andthen close_fixin_dump (ret ET_OK)))))))))"
    by (simp only: et_station_dump_def Let_def block.simps)
  have "snd (et_station_dump e s) = snd (andthen (cond (\<lambda>s. cnt_of ?r s = 0) (set_first ?r (Some e)) (deref (last_of ?r) (\<lambda>p. set_next p (Some e))))
      (andthen (set_last ?r (Some e)) (andthen (set_owner e ET_SYS) (andthen (add_cnt ?r 1)
        (andthen (store (upd_list ?r (l_events_in_update (\<lambda>n. n + 1)))) (andthen close_fixin_dump (ret ET_OK)))))) ?s2)"
    unfolding w using room c o
    by (simp add: snd_lock [OF ev(2)] cond_def [of "\<lambda>s. nevents s \<le> _ s"]) (simp add: snd_andthen [of "open_fixin_dump _"])
  also have "\<dots> = Done ET_OK ?t"
    unfolding dump_link_same
    by (subst snd_run, rule t(1)) (simp add: snd_andthen close_fixin_dump_def et_llist_unlock_def store_def ret_def block.simps Let_def)
  finally have D: "snd (et_station_dump e s) = Done ET_OK ?t" .
  have "frame ?r (set xs \<union> {e}) s ?t"
  proof -
    have "frame ?r (set xs \<union> {e}) s ?s2" by (intro frame_dump_open frame_upd frame_refl)
    from frame_trans [OF this] t(3) show ?thesis by (intro frame_upd) auto
  qed
  moreover have "in_ok ?t ?z (xs @ [e])" "f_out (gfix ?z ?t) = f_out (gfix ?z s)"
    using t(2,4) ev(3,4) by (auto simp: in_ok_def ev_list_def keeps_def)
  ultimately show ?thesis using D by blast
qed

section \<open>Writing to a list whose count of high priority events is wrong\<close>

lemma find_lasthigh_nth:
  assumes ch: "chain (m_events s) (first_of r s) ys" and h: "l_lasthigh (glist r s) = int h" "h \<le> length ys"
  shows "find_lasthigh r s = ([], Done (if h = 0 then None else Some (ys ! (h - 1))) s)"
proof (cases "h = 0")
  case False
  then have "step_next (h - 1) (ys ! 0) s = ([], Done (ys ! (h - 1)) s)" "first_of r s = Some (ys ! 0)"
    using step_next_eq [OF ch, of 0 "h - 1"] h ch by (cases ys; simp)+
  then show ?thesis using False h(1)
    by (simp add: find_lasthigh_def cond_def load_def deref_def bind_def ret_def nat_diff_distrib)
qed (use h in \<open>simp add: find_lasthigh_def cond_def ret_def\<close>)

text \<open>A high priority event is linked in behind the first \<open>h\<close> events, when \<open>h\<close> is the count of high priority events.\<close>

lemma write_high_run:
  fixes st :: et_stat_id
  defines "r \<equiv> ListOut st"
  assumes ch: "chain (m_events s) (first_of r s) ys" "cnt_of r s = int (length ys)" "last_of r s = Some (last ys)" "distinct ys"
    and e: "e \<notin> set ys" "pri_of e s = ET_HIGH" and h: "l_lasthigh (glist r s) = int h" "h < length ys"
    and m: "\<not> l_mutex (glist r s)" and room: "int (length ys) < nevents s"
  shows "\<exists>l u. et_station_write st e s = (l, Done ET_OK u)
     \<and> content u r = take h ys @ e # drop h ys"
proof -
  let ?s = "upd_list r (l_mutex_update (\<lambda>_. True)) s"
  obtain l0 t where t: "open_fixout st 1 ?s = (l0, Done () t)" "m_events t = m_events s" "cnt_of r t = cnt_of r s"
    "l_lasthigh (glist r t) = l_lasthigh (glist r s)" "first_of r t = first_of r s" "last_of r t = last_of r s"
    using open_fixout_done [of st 1 ?s] ch(2) h(2) unfolding r_def by auto
  define u where "u = (if h = 0 then put_first r (Some e) (put_next e (first_of r t) t)
     else put_next (ys ! (h - 1)) (Some e) (put_next e (next_of (ys ! (h - 1)) t) t))"
  have c: "chain (m_events u) (first_of r u) (take h ys @ e # drop h ys)" "cnt_of r u = cnt_of r s"
  proof -
    have "chain (m_events u) (first_of r u) (take h ys @ e # drop h ys)"
    proof (cases "h = 0")
      case True
      then show ?thesis using chain_push_upd [OF ch(1) e(1)] t(2,5) by (simp add: u_def)
    next
      case False
      then have l: "last (take h ys) = ys ! (h - 1)" "take h ys \<noteq> []" using h(2) False by (cases h; auto simp: take_Suc_conv_app_nth)+
      have a: "chain (m_events t) (first_of r t) (take h ys @ drop h ys)" unfolding append_take_drop_id t(2,5) by (rule ch(1))
      have "distinct (take h ys @ drop h ys)" "e \<notin> set (take h ys @ drop h ys)"
        unfolding append_take_drop_id using ch(4) e(1) by simp_all
      from chain_insert_upd [OF a l(2) this] show ?thesis
        using False h(2) nth_mem [of "h - 1" ys] e(1) unfolding l(1) by (auto simp: u_def simp del: nth_mem)
    qed
    then show "chain (m_events u) (first_of r u) (take h ys @ e # drop h ys)" "cnt_of r u = cnt_of r s"
      using t(3) by (simp_all add: u_def)
  qed
  have f: "find_lasthigh r t = ([], Done (if h = 0 then None else Some (ys ! (h - 1))) t)"
    using find_lasthigh_nth [of t r ys h] ch(1) t h by simp
  then have b: "snd (bindp (find_lasthigh r) k t) = snd (k (if h = 0 then None else Some (ys ! (h - 1))) t)" for k :: "nat option \<Rightarrow> unit cmd"
    by (simp add: bind_def split: prod.splits)
  let ?v = "upd_list r (l_cnt_update (\<lambda>n. n + 1)) (upd_event e (e_owner_update (\<lambda>_. ET_SYS)) (upd_list r (l_lasthigh_update (\<lambda>n. n + 1)) u))"
  have w: "et_station_write st e = andthen (et_llist_lock r) (cond (\<lambda>s. cnt_of r s \<ge> nevents s) (andthen (et_llist_unlock r) (ret ET_ERROR))
      (andthen (open_fixout st 1) (andthen (write_body r e) (andthen (set_owner e ET_SYS) (andthen (add_cnt r 1)
        (andthen (close_fixout st) (ret ET_OK)))))))"
    by (simp only: et_station_write_def Let_def block.simps write_body_def r_def)
  have n: "cnt_of r t \<noteq> 0" "pri_of e t \<noteq> ET_LOW" "cnt_of r ?s < nevents ?s"
    using t(2,3) ch(2) h(2) e(2) room by auto
  have "ys ! (h - 1) \<noteq> last ys" if "h \<noteq> 0"
    using h(2) that ch(4) by (subst last_conv_nth) (auto simp: nth_eq_iff_index_eq)
  then have eend: "last_of r t = Some (ys ! (h - 1)) \<longleftrightarrow> False" if "0 < h" using that ch(3) t(6) by auto
  have "snd (et_station_write st e s) = snd (andthen (close_fixout st) (ret ET_OK) ?v)"
    unfolding w snd_lock [OF m]
    using n t(1) b
    by (simp add: cond_def [of "\<lambda>s. nevents s \<le> _ s"]) (simp add: snd_andthen [of "open_fixout _ _"] write_body_def snd_andthen cond_def block.simps store_def
      ret_def link_high_def load_def u_def eend [simplified])
  moreover obtain v where v: "snd (andthen (close_fixout st) (ret ET_OK) ?v) = Done ET_OK v" "m_events v = m_events ?v"
     "first_of r v = first_of r ?v" "cnt_of r v = cnt_of r ?v"
    unfolding r_def by (simp add: snd_andthen close_fixout_def et_llist_unlock_def block.simps store_def ret_def Let_def)
  ultimately have "et_station_write st e s = (fst (et_station_write st e s), Done ET_OK v)" by (simp add: prod_eq_iff)
  moreover have "content v r = take h ys @ e # drop h ys"
  proof -
    have "chain (m_events v) (first_of r v) (take h ys @ e # drop h ys)"
      using c(1) by (subst chain_cong [where h = "m_events u"]) (simp_all add: v)
    moreover have "nat (cnt_of r v) = length (take h ys @ e # drop h ys)" using c(2) ch(2) h(2) by (simp add: v)
    ultimately show ?thesis unfolding content_def using walk_chain by metis
  qed
  ultimately show ?thesis by blast
qed

section \<open>Properties\<close>

text \<open>C10: \<^verbatim>\<open>et_station_write\<close> does for one event what \<^verbatim>\<open>et_station_nwrite\<close> does for an array of one:
  called for an idle output list and an event of low or high priority, the two routines, which are written
  separately and link, count and own the event in different orders, return the same status, also when the list is
  full, and leave the same memory.\<close>

theorem et_station_write_single:
  assumes "out_ok s st xs" and "pri_of e s \<in> {ET_LOW, ET_HIGH}"
  shows "snd (et_station_write st e s) = snd (et_station_nwrite st [e] s)"
  by (rule write_is_nwrite [OF assms])

lemma et_station_write_single_witness:
  "snd (et_station_write 1 7 mem_out) = snd (et_station_nwrite 1 [7] mem_out)"
  using et_station_write_single [OF mem_out_ok, of 7] by (simp add: mem_out_def ev0_def)

end
