(* ===== verification/Et_SystemLists.thy ===== *)
theory Et_SystemLists
  imports Et_RestoreSpec Et_Kept Et_SingleCalls
begin

text \<open>
  The properties of the list routines that the ET system process uses to move and to recover
  events.
\<close>

lemma mem_in_pri: "pri_list mem_in (ListIn 1) [2, 3, 4]"
  by (simp add: pri_list_def mem_in_def ev_list_def list0_def fix0_def ev0_def pri_sorted_def)

text \<open>C21: \<^verbatim>\<open>et_llist_write\<close> on a list that is in the order of priority and has room for the
  events puts every event of the array (high priority first) behind the events of its priority
  that are there already; it returns the number of events, keeps the mutex and changes nothing
  but the list and the links of these events: with the events of before, the memory it leaves is the memory of before
  with another list in this place.\<close>

theorem et_llist_write_order:
  assumes "pri_list s r xs" and "loose s es" and "set xs \<inter> set es = {}" and "es \<noteq> []"
    and "int (length xs + length es) \<le> nevents s"
  shows "\<exists>t. et_llist_write r es s = Some (int (length es), t)
     \<and> pri_list t r (highs (high (m_events s)) xs @ highs (high (m_events s)) es
         @ lows (high (m_events s)) xs @ lows (high (m_events s)) es)
     \<and> frame r (set xs \<union> set es) s t \<and> l_mutex (glist r t) = l_mutex (glist r s)
     \<and> t\<lparr>m_events := m_events s\<rparr> = upd_list r (\<lambda>_. glist r t) s
     \<and> (\<forall>e. \<exists>n. m_events t e = (m_events s e)\<lparr>e_next := n\<rparr>)"
  using et_llist_write_ok [OF assms] only_list_write [of r es s] unfolding only_list_def by blast

lemma et_llist_write_order_witness:
  "\<exists>t. et_llist_write (ListIn 1) [5, 7] mem_in = Some (2, t) \<and> pri_list t (ListIn 1) [5, 2, 3, 4, 7]"
  using et_llist_write_order [OF mem_in_pri, of "[5, 7]"]
  by (auto simp: mem_in_def loose_def ev0_def pri_sorted_def)

text \<open>C22: \<^verbatim>\<open>et_restore\<close> on a list that is not full takes as many events of the array (high priority
  first) as there is room for, gives them to the system and puts them in front of the events of
  their priority; it returns \<^verbatim>\<open>ET_OK\<close> and the number written, and leaves the other lists and
  events alone.\<close>

theorem et_restore_order:
  assumes "pri_list s r xs" and "distinct es" and "set xs \<inter> set es = {}" and "es \<noteq> []"
    and "pri_sorted (high (m_events s)) es" and "\<forall>e \<in> set es. pri_of e s \<in> {ET_LOW, ET_HIGH}"
    and "int (length xs) < nevents s" and "n = min (length es) (nat (nevents s) - length xs)"
  shows "\<exists>t. et_restore r es s = Some ((ET_OK, Some (int n)), t)
     \<and> pri_list t r (highs (high (m_events s)) (take n es) @ highs (high (m_events s)) xs
         @ lows (high (m_events s)) (take n es) @ lows (high (m_events s)) xs)
     \<and> frame r (set xs \<union> set (take n es)) s t"
  using restore_list_ok [OF assms(1-7), of True] assms(8) unfolding et_restore_def by auto

lemma et_restore_order_witness:
  "\<exists>t. et_restore (ListIn 1) [5, 7] mem_in = Some ((ET_OK, Some 2), t) \<and> pri_list t (ListIn 1) [5, 7, 2, 3, 4]"
  using et_restore_order [OF mem_in_pri, of "[5, 7]" 2]
  by (auto simp: mem_in_def ev0_def pri_sorted_def)

definition mem_redist :: et_mem where
  "mem_redist = upd_event 8 (e_priority_update (\<lambda>_. ET_HIGH))
     (upd_list (ListOut 1) (\<lambda>l. l\<lparr>l_cnt := 1, l_lasthigh := 0, l_firstevent := Some 6,
        l_lastevent := Some 6\<rparr>) mem0)"

text \<open>C23: \<^verbatim>\<open>et_restore\<close> leaves the number of high priority events of an output list as it was.  When it
  puts high priority events in front of such a list (\<^verbatim>\<open>ET_STATION_RESTORE_REDIST\<close>), that number \<open>h\<close> is
  too small, and the next \<^verbatim>\<open>et_station_write\<close> of a high priority event puts it behind the first \<open>h\<close>
  events and not behind all of high priority: the new event overtakes as many older events of its own
  priority as have been restored.\<close>

theorem et_restore_lasthigh:
  assumes xs: "out_ok s st xs" and es: "distinct es" "set xs \<inter> set es = {}" "es \<noteq> []" "\<forall>a \<in> set es. pri_of a s = ET_HIGH"
    and e: "e \<notin> set (xs @ es)" "pri_of e s = ET_HIGH" and room: "int (length xs + length es) < nevents s"
  defines "h \<equiv> length (highs (high (m_events s)) xs)"
  shows "\<exists>t l u. et_restore (ListOut st) es s = Some ((ET_OK, Some (int (length es))), t)
       \<and> content t (ListOut st) = es @ xs \<and> l_lasthigh (glist (ListOut st) t) = int h
       \<and> et_station_write st e t = (l, Done ET_OK u)
       \<and> content u (ListOut st) = take h (es @ xs) @ [e] @ drop h (es @ xs)
       \<and> length (highs (high (m_events s)) (drop h (es @ xs))) = length es"
proof -
  let ?r = "ListOut st" and ?hi = "high (m_events s)"
  have p: "pri_list s ?r xs" "l_lasthigh (glist ?r s) = int h" "\<not> l_mutex (glist ?r s)" "xs = highs ?hi xs @ lows ?hi xs"
    using xs pri_sorted_split by (auto simp: out_ok_def out_list_def Let_def pri_list_def ev_list_def h_def)
  have hs: "highs ?hi es = es" "lows ?hi es = []" "pri_sorted ?hi es"
    using es(4) by (auto simp: highs_def lows_def pri_sorted_def sorted_wrt_iff_nth_less)
  have n: "min (length es) (nat (nevents s) - length xs) = length es" using room by simp
  obtain t where t: "et_restore ?r es s = Some ((ET_OK, Some (int (length es))), t)" "pri_list t ?r (es @ xs)"
    "frame ?r (set xs \<union> set es) s t" "l_mutex (glist ?r t) = l_mutex (glist ?r s)" "l_lasthigh (glist ?r t) = l_lasthigh (glist ?r s)"
    using restore_list_ok [OF p(1) es(1-3) hs(3), of True] es(4) room p(4) unfolding n et_restore_def by (auto simp: hs)
  have ev: "ev_list t ?r (es @ xs)" using t(2) by (simp add: pri_list_def)
  have "h < length (es @ xs)" unfolding h_def using es(3) by (simp add: highs_def less_add_eq_less trans_le_add2 order_le_less_trans [OF length_filter_le])
  then obtain l u where "et_station_write st e t = (l, Done ET_OK u)" "content u ?r = take h (es @ xs) @ e # drop h (es @ xs)"
    using write_high_run [of t st "es @ xs" e h] ev e t(3-5) p(2,3) room es(3) frame_pri [OF t(3)]
    by (auto simp: ev_list_def nevents_def frame_def)
  moreover have "length (highs ?hi (drop h (es @ xs))) = length es"
  proof -
    obtain A C where A: "xs = A @ C" "length A = h" "\<forall>a \<in> set A. ?hi a" "\<forall>c \<in> set C. \<not> ?hi c"
    proof (rule that)
      show "xs = highs ?hi xs @ lows ?hi xs" by (rule p(4))
    qed (auto simp: h_def highs_def lows_def)
    have "\<forall>a \<in> set (es @ A). ?hi a" using A(3) es(4) by auto
    then have "\<forall>a \<in> set (drop h (es @ A)). ?hi a" using in_set_dropD [of _ h "es @ A"] by blast
    then have "filter ?hi (drop h (es @ A)) = drop h (es @ A)" by (simp only: filter_id_conv)
    moreover have "filter ?hi C = []" using A(4) by (simp add: filter_empty_conv)
    moreover have "drop h (es @ xs) = drop h (es @ A) @ C" using A(2) by (simp add: A(1))
    ultimately have "highs ?hi (drop h (es @ xs)) = drop h (es @ A)" by (simp only: highs_def filter_append append_Nil2)
    then show ?thesis using A(2) by simp
  qed
  ultimately show ?thesis using t(1,5) p(2) ev_list_content [OF ev] by auto
qed

lemma et_restore_lasthigh_witness:
  "\<exists>t l u. et_restore (ListOut 1) [5] mem_redist = Some ((ET_OK, Some 1), t) \<and> content t (ListOut 1) = [5, 6]
     \<and> et_station_write 1 8 t = (l, Done ET_OK u) \<and> content u (ListOut 1) = [8, 5, 6]"
proof -
  have "out_ok mem_redist 1 [6]"
    by (simp add: mem_redist_def out_ok_def out_list_def Let_def list0_def fix0_def ev0_def pri_sorted_def)
  moreover have "pri_of 5 mem_redist = ET_HIGH" "pri_of 8 mem_redist = ET_HIGH" "pri_of 6 mem_redist = ET_LOW"
    "nevents mem_redist = 20"
    by (simp_all add: mem_redist_def ev0_def)
  ultimately show ?thesis using et_restore_lasthigh [of mem_redist 1 "[6]" "[5]" 8] by (simp add: highs_def) blast
qed

end
