(* ===== verification/Et_ConductorSpec.thy ===== *)
theory Et_ConductorSpec
  imports Et_ConductorRound Et_Samples
begin

text \<open>
  The properties of the conductor: a round ends and moves every event exactly once; what the
  selection schemes give to a station.
\<close>

section \<open>Concrete systems\<close>

abbreviation activate :: "et_stat_id \<Rightarrow> et_mem \<Rightarrow> et_mem" where
  "activate st \<equiv> upd_station st (s_data_update (d_status_update (\<lambda>_. ET_STATION_ACTIVE)))"

lemma activate_mem [simp]:
  "glist r (activate st s) = glist r s" "m_events (activate st s) = m_events s"
  by (cases r; simp add: glist.simps upd_station_def)+

text \<open>Station 1 has events in its output list; only GrandCentral is behind it.\<close>

definition mem_round :: et_mem where
  "mem_round = activate 0 mem_out"

lemma mem_round_holds: "holds mem_round (\<lambda>r. if r = ListOut 1 then [5, 6] else []) {}"
  by (auto simp: mem_round_def mem_out_def holds_def list_ok_def ev_list_def list0_def ev0_def pri_sorted_def)

lemma mem_round_route: "route (max_stations mem_round) True (next_station 1 mem_round) mem_round"
  by (simp add: mem_round_def mem_out_def next_station_def route.simps samples upd_station_def upd_list.simps upd_event_def)

text \<open>Two active stations of a group; the round has put the event 7 somewhere before.\<close>

definition mem_rr :: et_mem where
  "mem_rr = activate 2 (activate 3 mem0)"

definition pass_rr :: pass where
  "pass_rr = \<lparr>p_events = [(7, True), (8, False), (9, False)], p_left = 2, p_first = False\<rparr>"

section \<open>One event for a station\<close>

text \<open>The same event is delivered to the empty input lists of several stations.\<close>

lemma deliver_one:
  assumes "cnt_of (ListIn st) s = 0" and "1 \<le> nevents s"
  shows "\<exists>u. deliver st k [e] s = Go u \<and> content u (ListIn st) = [e]
     \<and> (\<forall>q. q \<noteq> ListIn st \<longrightarrow> glist q u = glist q s) \<and> m_events u = m_events s \<and> m_sys u = m_sys s"
proof -
  let ?r = "ListIn st"
  have n: "\<not> 1 > nevents s - 0" using assms(2) by simp
  let ?s1 = "set_try st k (lock_list ?r s)"
  have w: "et_llist_write ?r [e] ?s1 = Some (1, upd_list ?r (\<lambda>l. l\<lparr>l_events_in := l_events_in l + 1, l_cnt := l_cnt l + 1\<rparr>)
      (put_last ?r (Some e) (put_first ?r (Some e) ?s1)))"
    using assms by (simp add: et_llist_write_def Let_def)
  then show ?thesis using assms by (simp add: deliver_def Let_def content_def)
qed

lemma rr_num_one: "0 < n \<Longrightarrow> rr_num (int n) n i = 1"
  by (simp add: rr_num_def)

lemma waslast_mem [simp]:
  "m_events (upd_station st (s_waslast_update w) s) = m_events s"
  "nevents (upd_station st (s_waslast_update w) s) = nevents s"
  by (simp_all add: upd_station_def nevents_def)

lemma rr_deal_same:
  assumes "distinct sts" and "\<forall>st \<in> set sts. cnt_of (ListIn st) s = 0" and "1 \<le> nevents s" and n: "0 < n"
  shows "\<exists>t. rr_deal (int n) n k sts (replicate (length sts) e) (s, p) = Go (t, p\<lparr>p_left := p_left p - int (length sts)\<rparr>)
     \<and> (\<forall>st \<in> set sts. content t (ListIn st) = [e]) \<and> (\<forall>q. q \<notin> ListIn ` set sts \<longrightarrow> glist q t = glist q s)
     \<and> m_events t = m_events s"
  using assms(1-3)
proof (induction sts arbitrary: s p k)
  case (Cons st sts)
  define s1 where "s1 = (if int k = rr_last (int n) n then upd_station st (s_waslast_update (\<lambda>_. 1)) s else s)"
  have s1: "glist q s1 = glist q s" "m_events s1 = m_events s" "nevents s1 = nevents s" for q by (simp_all add: s1_def)
  obtain u where u: "deliver st (l_events_try (glist (ListIn st) s1) + word_of_int 1) [e] s1 = Go u" "content u (ListIn st) = [e]"
    "\<forall>q. q \<noteq> ListIn st \<longrightarrow> glist q u = glist q s1" "m_events u = m_events s1" "m_sys u = m_sys s1"
    using deliver_one [of st s1 "l_events_try (glist (ListIn st) s1) + word_of_int 1" e] Cons.prems s1 by auto
  let ?p = "p\<lparr>p_left := p_left p - 1\<rparr>"
  have "cnt_of (ListIn x) u = 0" if "x \<in> set sts" for x
  proof -
    have "ListIn x \<noteq> ListIn st" using that Cons.prems(1) by auto
    then show ?thesis using u(3) s1(1) that Cons.prems(2) by simp
  qed
  then have c: "\<forall>x \<in> set sts. cnt_of (ListIn x) u = 0" "1 \<le> nevents u"
    using u(5) Cons.prems(3) s1(3) by (simp_all add: nevents_def)
  obtain t where t: "rr_deal (int n) n (Suc k) sts (replicate (length sts) e) (u, ?p) = Go (t, ?p\<lparr>p_left := p_left ?p - int (length sts)\<rparr>)"
    "\<forall>st \<in> set sts. content t (ListIn st) = [e]" "\<forall>q. q \<notin> ListIn ` set sts \<longrightarrow> glist q t = glist q u" "m_events t = m_events u"
    using Cons.IH [OF _ c, of "Suc k" ?p] Cons.prems(1) by auto
  have "rr_deal (int n) n k (st # sts) (replicate (length (st # sts)) e) (s, p)
      = rr_deal (int n) n (Suc k) sts (replicate (length sts) e) (u, ?p)"
    using u(1) unfolding s1_def by (simp add: rr_num_one [OF n])
  moreover have "content t (ListIn st) = [e]"
    using t(3,4) u(2) Cons.prems(1) by (auto simp: content_def)
  ultimately show ?case using t u(3,4) s1 by (intro exI [of _ t]) auto
qed simp

lemma rr_start_mem: "glist q (snd (rr_start g looking start s)) = glist q s"
  "m_events (snd (rr_start g looking start s)) = m_events s" "nevents (snd (rr_start g looking start s)) = nevents s"
  by (induction g arbitrary: looking start s) (simp_all add: Let_def)

lemma rr_scan_first: "\<forall>d \<in> set ds. snd d \<Longrightarrow> rr_scan n 0 1 (ds @ (e, False) # es) = [e]"
  by (induction ds) auto

section \<open>Properties\<close>

text \<open>C24: a turn of the endless loop of \<^verbatim>\<open>et_conductor\<close> for a station with events in its output list
  ends without an error; the output list is then empty, the other output lists are as they were,
  no event has left an input list, and every event that was in a list is still in exactly one
  (\<open>holds\<close>): events are neither lost nor duplicated.  It is required that the stations downstream
  lead to GrandCentral and that round robin groups are only found directly behind the station.\<close>

theorem conductor_deal_conserves:
  assumes "holds s L {}" and "L (ListOut st) \<noteq> []"
    and "(if c_flow_mode (config_of st s) = ET_STATION_PARALLEL then first_parallel (max_stations s) st s else Some st) = Some h"
    and "route (max_stations s) True (next_station h s) s"
  shows "\<exists>t L'. conductor_deal usr st s = Go t \<and> holds t L' {} \<and> L' (ListOut st) = []
     \<and> (\<forall>st'. st' \<noteq> st \<longrightarrow> L' (ListOut st') = L (ListOut st'))
     \<and> (\<forall>st'. set (L (ListIn st')) \<subseteq> set (L' (ListIn st')))
     \<and> (\<Union>q. set (L' q)) = (\<Union>q. set (L q))"
  using conductor_deal_ok [OF assms, of usr] by blast

lemma conductor_deal_conserves_witness:
  "\<exists>t L'. conductor_deal (\<lambda>_ _. True) 1 mem_round = Go t \<and> holds t L' {} \<and> L' (ListOut 1) = []
     \<and> (\<Union>q. set (L' q)) = {5, 6}"
proof -
  have u: "(\<Union>q. set (if q = ListOut 1 then [5, 6] else [])) = {5, 6 :: nat}" by (auto split: if_splits)
  have "(if c_flow_mode (config_of 1 mem_round) = ET_STATION_PARALLEL
      then first_parallel (max_stations mem_round) 1 mem_round else Some 1) = Some 1"
    by (simp add: mem_round_def mem_out_def samples upd_station_def upd_list.simps upd_event_def)
  from conductor_deal_conserves [OF mem_round_holds _ this mem_round_route, of "\<lambda>_ _. True"] show ?thesis
    unfolding u by auto
qed

text \<open>C25: the plan of the equal cue algorithm exists for every non-empty group and every number of
  events; it hands out all of them, no number is negative, and no station that gets events is more
  than one event ahead of another afterwards.\<close>

theorem equal_cue_plan_balanced:
  assumes "counts \<noteq> []" and "0 \<le> left"
  shows "\<exists>ns. equal_cue_plan counts left = Some ns \<and> length ns = length counts \<and> (\<forall>n \<in> set ns. 0 \<le> n)
     \<and> sum_list ns = left
     \<and> (\<forall>i < length counts. \<forall>j < length counts. 0 < ns ! i \<longrightarrow> counts ! i + ns ! i \<le> counts ! j + ns ! j + 1)"
  using equal_cue_plan_fair [OF assms] unfolding fair_def .

lemma equal_cue_plan_balanced_witness:
  "\<exists>ns. equal_cue_plan [3, 0, 1] 5 = Some ns \<and> length ns = 3 \<and> sum_list ns = 5"
  using equal_cue_plan_balanced [of "[3, 0, 1]" 5] by auto

text \<open>C26: \<^verbatim>\<open>shellSort\<close> ends, the first array is in ascending order, and the pairs of entries of the
  two arrays are those from before.\<close>

theorem shellSort_sorts:
  assumes "length a = n" and "length b = n"
  shows "\<exists>a' b'. shellSort n a b = (a', b') \<and> sorted a' \<and> length b' = n \<and> mset (zip a' b') = mset (zip a b)"
  using shellSort_ok [OF assms] by (cases "shellSort n a b") blast

lemma shellSort_sorts_witness:
  "\<exists>a' b'. shellSort 3 [5, 1, 4] [1, 2, 3] = (a', b') \<and> sorted a' \<and> mset (zip a' b') = {#(5, 1), (1, 2), (4, 3)#}"
  using shellSort_sorts [of "[5, 1, 4]" 3 "[1, 2, 3]"] by auto

text \<open>C27: of the events that have not been put anywhere and that its selection wants, a blocking
  station gets every \<^verbatim>\<open>prescale\<close>-th one, counted by \<^verbatim>\<open>events_try\<close> over all rounds, and a
  nonblocking one the first ones up to what its cue lacks; these are marked and no others.  The exception is the
  first stop of a round when it is a blocking station without prescale that takes all events: it is given all events
  at once, they are counted, and instead of a mark on each of them the round is told that all have been written.\<close>

theorem select_events_chosen:
  assumes "distinct (map fst (p_events p))" and "c = config_of st s" and "l = glist (ListIn st) s"
    and "sc \<longleftrightarrow> c_select_mode c = ET_STATION_SELECT_ALL \<and> p_first p \<and> c_prescale c = 1 \<and> c_block_mode c = ET_STATION_BLOCKING"
    and "ws = filter (\<lambda>e. c_select_mode c = ET_STATION_SELECT_ALL \<or> select_func usr st s e) (undealt (p_events p))"
    and "select_events usr st s p = (chunk, es', t, wa)"
  shows "if sc then chunk = map fst (p_events p) \<and> es' = p_events p
         \<and> t = l_events_try l + of_nat (length (p_events p)) \<and> wa
     else (c_block_mode c = ET_STATION_BLOCKING \<longrightarrow> chunk = every (word_of_int (c_prescale c)) (l_events_try l) ws
          \<and> t = l_events_try l + of_nat (length ws))
     \<and> (c_block_mode c = ET_STATION_NONBLOCKING \<longrightarrow> chunk = take (nat (c_cue c - l_cnt l)) ws \<and> t = l_events_try l)
     \<and> undealt es' = filter (\<lambda>e. e \<notin> set chunk) (undealt (p_events p)) \<and> \<not> wa"
proof -
  let ?f = "\<lambda>e. c_select_mode c = ET_STATION_SELECT_ALL \<or> select_func usr st s e"
  note c = assms(2,3)
  consider "sc" | "\<not> sc" "c_block_mode c = ET_STATION_BLOCKING"
    | "\<not> sc" "c_block_mode c = ET_STATION_NONBLOCKING" "l_cnt l < c_cue c"
    | "\<not> sc" "c_block_mode c \<noteq> ET_STATION_BLOCKING" "\<not> (c_block_mode c = ET_STATION_NONBLOCKING \<and> l_cnt l < c_cue c)"
    by blast
  then show ?thesis
  proof cases
    case 1
    then show ?thesis using assms(4,6) by (auto simp: select_events_def Let_def c)
  next
    case 2
    then have b: "pick_blocking ?f (word_of_int (c_prescale c)) (p_events p) (l_events_try l) = (chunk, es', t)" "\<not> wa"
      using assms(4,6) by (auto simp: select_events_def Let_def c split: prod.splits if_splits)
    from pick_blocking_eq [OF b(1)] pick_blocking_takes [OF assms(1) b(1)] show ?thesis
      using 2 b(2) assms(5) by (simp add: takes_def)
  next
    case 3
    then have "pick_cue ?f (c_cue c - l_cnt l) (p_events p) = (chunk, es')" "t = l_events_try l" "\<not> wa"
      using assms(6) by (auto simp: select_events_def Let_def c split: prod.splits if_splits)
    with pick_cue_eq [of "c_cue c - l_cnt l" ?f "p_events p"] pick_cue_takes [OF assms(1), of ?f "c_cue c - l_cnt l"] 3
    show ?thesis by (simp add: takes_def assms(5))
  next
    case 4
    then have "chunk = [] \<and> es' = p_events p \<and> t = l_events_try l \<and> \<not> wa"
      using assms(6) by (auto simp: select_events_def Let_def c split: if_splits)
    then show ?thesis using 4 by auto
  qed
qed

lemma select_events_chosen_witness:
  "\<exists>es' t wa. select_events (\<lambda>_ _. True) 2 mem_rr pass_rr = ([8, 9], es', t, wa) \<and> undealt es' = []"
proof -
  obtain chunk es' t wa where s: "select_events (\<lambda>_ _. True) 2 mem_rr pass_rr = (chunk, es', t, wa)"
    by (cases "select_events (\<lambda>_ _. True) 2 mem_rr pass_rr")
  have c: "config_of 2 mem_rr = stat_config0" "glist (ListIn 2) mem_rr = list0"
    by (simp_all add: mem_rr_def mem0_def station0_def upd_station_def)
      (simp add: glist.simps mem0_def station0_def)
  from select_events_chosen [OF _ c(1) [symmetric] c(2) [symmetric] refl refl s] have
    "chunk = [8, 9] \<and> undealt es' = []"
    by (simp add: pass_rr_def stat_config0_def list0_def)
  then show ?thesis using s by blast
qed

text \<open>C28: when a round has put events elsewhere already, the round robin algorithm looks for the
  events of the \<open>i\<close>-th station from position \<open>i\<close> of all events on instead of from the \<open>i\<close>-th
  event that is left.  With as many events left as the group has active stations, and the first of them behind at least as
  many events, all put before, as there are other active stations, every active station, its input list empty before, is given that first
  event, which is then in the input lists of all of them; the round ends as if all had been put, although all other lists are as before, so
  that the other events that are left are in no list to which they have been put.\<close>

theorem rr_group_duplicates:
  assumes "distinct g" and "active = filter (\<lambda>st. status_of st s = ET_STATION_ACTIVE) g" and "active \<noteq> []"
    and "\<forall>st \<in> set active. cnt_of (ListIn st) s = 0" and "1 \<le> nevents s"
    and "\<not> p_first p" and "p_left p = int (length active)"
    and "p_events p = ds @ (e, False) # es" and "\<forall>d \<in> set ds. snd d" and "length active \<le> length ds + 1"
  shows "\<exists>t p'. rr_group g (s, p) = Go (t, p') \<and> p_left p' = 0
     \<and> (\<forall>st \<in> set active. content t (ListIn st) = [e])
     \<and> (\<forall>r. r \<notin> ListIn ` set active \<longrightarrow> content t r = content s r)"
proof -
  let ?n = "length active"
  obtain start s1 where r: "rr_start g False None s = (start, s1)" by fastforce
  then have s1: "glist q s1 = glist q s" "m_events s1 = m_events s" "nevents s1 = nevents s" for q
    using rr_start_mem(1) [of q g False None s] rr_start_mem(2,3) [of g False None s] by simp_all
  define first where "first = (case start of Some st \<Rightarrow> st | None \<Rightarrow> hd active)"
  define order where "order = dropWhile (\<lambda>st. st \<noteq> first) active @ takeWhile (\<lambda>st. st \<noteq> first) active"
  have "mset order = mset active"
    unfolding order_def by (metis mset_append takeWhile_dropWhile_id union_commute)
  then have o: "distinct order" "set order = set active" "length order = ?n"
    using assms(1,2) by (metis distinct_filter mset_eq_imp_distinct_iff, metis mset_eq_setD, metis mset_eq_length)
  have "rr_events p ?n i = [e]" if "i < ?n" for i
  proof -
    have "i \<le> length ds" "\<forall>d \<in> set (drop i ds). snd d" using that assms(9,10) by (auto dest: in_set_dropD)
    then show ?thesis using assms(3,6-8) rr_scan_first [of "drop i ds"] by (simp add: rr_events_def rr_num_one)
  qed
  then have "map (rr_events p ?n) [0..<?n] = replicate ?n [e]" by (intro replicate_eqI) auto
  then have arr: "concat (map (rr_events p ?n) [0..<?n]) = replicate (length order) e" by (simp add: o(3) concat_replicate_trivial map_replicate_const)
  have G: "rr_group g (s, p) = rr_deal (int ?n) ?n 0 order (replicate (length order) e) (s1, p)"
    unfolding rr_group_def prod.case Let_def assms(2) [symmetric] r first_def [symmetric] unfolding order_def [symmetric] arr assms(7) ..
  obtain t where "rr_deal (int ?n) ?n 0 order (replicate (length order) e) (s1, p) = Go (t, p\<lparr>p_left := p_left p - int (length order)\<rparr>)"
    "\<forall>st \<in> set order. content t (ListIn st) = [e]" "\<forall>q. q \<notin> ListIn ` set order \<longrightarrow> glist q t = glist q s1" "m_events t = m_events s1"
    using rr_deal_same [where sts = order and s = s1 and n = ?n and k = 0 and e = e and p = p] o assms(3-5) s1 by auto
  then show ?thesis unfolding G using o(2,3) s1 assms(7) by (auto simp: content_def)
qed

lemma rr_group_duplicates_witness:
  "\<exists>t p'. rr_group [2, 3] (mem_rr, pass_rr) = Go (t, p') \<and> p_left p' = 0
     \<and> content t (ListIn 2) = [8] \<and> content t (ListIn 3) = [8]"
proof -
  have st: "status_of 2 mem_rr = ET_STATION_ACTIVE" "status_of 3 mem_rr = ET_STATION_ACTIVE"
    by (simp_all add: mem_rr_def mem0_def station0_def upd_station_def)
  have "glist r mem_rr = list0" "nevents mem_rr = 20" for r by (simp_all add: mem_rr_def)
  then show ?thesis
    using rr_group_duplicates [of "[2, 3]" "[2, 3]" mem_rr pass_rr "[(7, True)]" 8 "[(9, False)]"] st
    by (simp add: pass_rr_def list0_def) blast
qed

end
