(* ===== verification/Et_OpenConfig.thy ===== *)
theory Et_OpenConfig
  imports Et_ConfigInterface Et_Address
begin

text \<open>
  The configuration with which a client opens an ET system
  (\<^verbatim>\<open>src/src/external/et/src/libsrc/et_openconfig.c\<close>, the structure \<^verbatim>\<open>et_open_config\<close> of
  \<^verbatim>\<open>et_private.h\<close>).  The linked list of broadcast addresses is the list of its addresses; the
  addresses that \<^verbatim>\<open>etNetGetBroadcastAddrs\<close> finds on the host are an argument where the source
  calls it.  A result \<open>None\<close> means a store outside an array.  The list of the host's own
  interfaces, which only \<^verbatim>\<open>et_network.c\<close> reads, is left out.
\<close>

section \<open>The configuration\<close>

record et_open_config =
  o_init :: int
  o_wait :: int
  o_cast :: int
  o_ttl :: int
  o_mode :: int
  o_debug_default :: int
  o_udpport :: int
  o_multiport :: int
  o_serverport :: int
  o_policy :: int
  o_tcpSendBufSize :: int
  o_tcpRecvBufSize :: int
  o_tcpNoDelay :: int
  o_timeout :: "int \<times> int"
  o_host :: string
  o_interface :: string
  o_bcastaddrs :: "string list"
  o_mcastaddrs :: "string list"

abbreviation (input) "ET_OPEN_NOWAIT \<equiv> (0 :: int)"
abbreviation (input) "ET_OPEN_WAIT \<equiv> (1 :: int)"
abbreviation (input) "ET_MULTICAST \<equiv> (0 :: int)"
abbreviation (input) "ET_BROADCAST \<equiv> (1 :: int)"
abbreviation (input) "ET_DIRECT \<equiv> (2 :: int)"
abbreviation (input) "ET_BROADANDMULTICAST \<equiv> (3 :: int)"
abbreviation (input) "ET_HOST_AS_REMOTE \<equiv> (0 :: int)"
abbreviation (input) "ET_HOST_AS_LOCAL \<equiv> (1 :: int)"
abbreviation (input) "ET_POLICY_FIRST \<equiv> (0 :: int)"
abbreviation (input) "ET_POLICY_LOCAL \<equiv> (1 :: int)"
abbreviation (input) "ET_POLICY_ERROR \<equiv> (2 :: int)"
abbreviation (input) "ET_DEBUG_NONE \<equiv> (0 :: int)"
abbreviation (input) "ET_DEBUG_SEVERE \<equiv> (1 :: int)"
abbreviation (input) "ET_DEBUG_ERROR \<equiv> (2 :: int)"
abbreviation (input) "ET_DEBUG_WARN \<equiv> (3 :: int)"
abbreviation (input) "ET_DEBUG_INFO \<equiv> (4 :: int)"
abbreviation (input) "ET_MULTICAST_TTL \<equiv> (32 :: int)"
abbreviation (input) "ET_UDP_PORT \<equiv> (11111 :: int)"
abbreviation (input) "ET_SUBNET_ALL \<equiv> ''.subnetsAll''"
abbreviation (input) "ET_HOST_LOCAL \<equiv> ''.local''"

text \<open>\<^verbatim>\<open>ET_BROADCAST_PORT\<close>, \<^verbatim>\<open>ET_MULTICAST_PORT\<close> and \<^verbatim>\<open>ET_SERVER_PORT\<close> are all \<open>ET_UDP_PORT\<close>.\<close>

definition et_open_config_init :: "string list option \<Rightarrow> et_open_config" where
  "et_open_config_init bcast =
     \<lparr>o_init = ET_STRUCT_OK, o_wait = ET_OPEN_NOWAIT, o_cast = ET_BROADCAST, o_ttl = ET_MULTICAST_TTL,
      o_mode = ET_HOST_AS_LOCAL, o_debug_default = ET_DEBUG_ERROR, o_udpport = ET_UDP_PORT,
      o_multiport = ET_UDP_PORT, o_serverport = ET_UDP_PORT, o_policy = ET_POLICY_FIRST,
      o_tcpSendBufSize = 0, o_tcpRecvBufSize = 0, o_tcpNoDelay = 1, o_timeout = (0, 0),
      o_host = ET_HOST_LOCAL, o_interface = [],
      o_bcastaddrs = (case bcast of None \<Rightarrow> [] | Some l \<Rightarrow> l), o_mcastaddrs = []\<rparr>"

section \<open>Setters and getters\<close>

definition et_open_config_setwait :: "et_open_config \<Rightarrow> int \<Rightarrow> int \<times> et_open_config" where
  "et_open_config_setwait sc val =
     (if o_init sc \<noteq> ET_STRUCT_OK then (ET_ERROR, sc)
      else if val \<noteq> ET_OPEN_NOWAIT \<and> val \<noteq> ET_OPEN_WAIT then (ET_ERROR, sc)
      else (ET_OK, sc\<lparr>o_wait := val\<rparr>))"

definition et_open_config_getwait :: "et_open_config \<Rightarrow> int \<times> int" where
  "et_open_config_getwait sc = (ET_OK, o_wait sc)"

definition et_open_config_setcast :: "et_open_config \<Rightarrow> int \<Rightarrow> int \<times> et_open_config" where
  "et_open_config_setcast sc val =
     (if o_init sc \<noteq> ET_STRUCT_OK then (ET_ERROR, sc)
      else if val \<noteq> ET_MULTICAST \<and> val \<noteq> ET_BROADCAST \<and> val \<noteq> ET_BROADANDMULTICAST
         \<and> val \<noteq> ET_DIRECT then (ET_ERROR, sc)
      else (ET_OK, sc\<lparr>o_cast := val\<rparr>))"

definition et_open_config_getcast :: "et_open_config \<Rightarrow> int \<times> int" where
  "et_open_config_getcast sc = (ET_OK, o_cast sc)"

definition et_open_config_setTTL :: "et_open_config \<Rightarrow> int \<Rightarrow> int \<times> et_open_config" where
  "et_open_config_setTTL sc val =
     (if o_init sc \<noteq> ET_STRUCT_OK then (ET_ERROR, sc)
      else if val < 0 \<or> val > 254 then (ET_ERROR, sc)
      else (ET_OK, sc\<lparr>o_ttl := val\<rparr>))"

definition et_open_config_getTTL :: "et_open_config \<Rightarrow> int \<times> int" where
  "et_open_config_getTTL sc = (ET_OK, o_ttl sc)"

definition et_open_config_setmode :: "et_open_config \<Rightarrow> int \<Rightarrow> int \<times> et_open_config" where
  "et_open_config_setmode sc val =
     (if o_init sc \<noteq> ET_STRUCT_OK then (ET_ERROR, sc)
      else if val \<noteq> ET_HOST_AS_LOCAL \<and> val \<noteq> ET_HOST_AS_REMOTE then (ET_ERROR, sc)
      else (ET_OK, sc\<lparr>o_mode := val\<rparr>))"

definition et_open_config_getmode :: "et_open_config \<Rightarrow> int \<times> int" where
  "et_open_config_getmode sc = (ET_OK, o_mode sc)"

definition et_open_config_setdebugdefault :: "et_open_config \<Rightarrow> int \<Rightarrow> int \<times> et_open_config" where
  "et_open_config_setdebugdefault sc val =
     (if o_init sc \<noteq> ET_STRUCT_OK then (ET_ERROR, sc)
      else if val \<noteq> ET_DEBUG_NONE \<and> val \<noteq> ET_DEBUG_SEVERE \<and> val \<noteq> ET_DEBUG_ERROR
         \<and> val \<noteq> ET_DEBUG_WARN \<and> val \<noteq> ET_DEBUG_INFO then (ET_ERROR, sc)
      else (ET_OK, sc\<lparr>o_debug_default := val\<rparr>))"

definition et_open_config_getdebugdefault :: "et_open_config \<Rightarrow> int \<times> int" where
  "et_open_config_getdebugdefault sc = (ET_OK, o_debug_default sc)"

definition et_open_config_setport :: "et_open_config \<Rightarrow> int \<Rightarrow> int \<times> et_open_config" where
  "et_open_config_setport sc val =
     (if o_init sc \<noteq> ET_STRUCT_OK then (ET_ERROR, sc)
      else if val < 1024 \<or> val > 65535 then (ET_ERROR, sc)
      else (ET_OK, sc\<lparr>o_udpport := val\<rparr>))"

definition et_open_config_getport :: "et_open_config \<Rightarrow> int \<times> int" where
  "et_open_config_getport sc = (ET_OK, o_udpport sc)"

definition et_open_config_setmultiport :: "et_open_config \<Rightarrow> int \<Rightarrow> int \<times> et_open_config" where
  "et_open_config_setmultiport sc val =
     (if o_init sc \<noteq> ET_STRUCT_OK then (ET_ERROR, sc)
      else if val < 1024 \<or> val > 65535 then (ET_ERROR, sc)
      else (ET_OK, sc\<lparr>o_multiport := val\<rparr>))"

definition et_open_config_getmultiport :: "et_open_config \<Rightarrow> int \<times> int" where
  "et_open_config_getmultiport sc = (ET_OK, o_multiport sc)"

definition et_open_config_setserverport :: "et_open_config \<Rightarrow> int \<Rightarrow> int \<times> et_open_config" where
  "et_open_config_setserverport sc val =
     (if o_init sc \<noteq> ET_STRUCT_OK then (ET_ERROR, sc)
      else if val < 1024 \<or> val > 65535 then (ET_ERROR, sc)
      else (ET_OK, sc\<lparr>o_serverport := val\<rparr>))"

definition et_open_config_getserverport :: "et_open_config \<Rightarrow> int \<times> int" where
  "et_open_config_getserverport sc = (ET_OK, o_serverport sc)"

definition et_open_config_setpolicy :: "et_open_config \<Rightarrow> int \<Rightarrow> int \<times> et_open_config" where
  "et_open_config_setpolicy sc val =
     (if o_init sc \<noteq> ET_STRUCT_OK then (ET_ERROR, sc)
      else if val \<noteq> ET_POLICY_FIRST \<and> val \<noteq> ET_POLICY_LOCAL \<and> val \<noteq> ET_POLICY_ERROR then (ET_ERROR, sc)
      else (ET_OK, sc\<lparr>o_policy := val\<rparr>))"

definition et_open_config_getpolicy :: "et_open_config \<Rightarrow> int \<times> int" where
  "et_open_config_getpolicy sc = (ET_OK, o_policy sc)"

definition et_open_config_settimeout :: "et_open_config \<Rightarrow> int \<times> int \<Rightarrow> int \<times> et_open_config" where
  "et_open_config_settimeout sc val =
     (if o_init sc \<noteq> ET_STRUCT_OK then (ET_ERROR, sc) else (ET_OK, sc\<lparr>o_timeout := val\<rparr>))"

definition et_open_config_gettimeout :: "et_open_config \<Rightarrow> int \<times> int \<times> int" where
  "et_open_config_gettimeout sc = (ET_OK, o_timeout sc)"

definition et_open_config_sethost :: "et_open_config \<Rightarrow> string option \<Rightarrow> int \<times> et_open_config" where
  "et_open_config_sethost sc val =
     (if o_init sc \<noteq> ET_STRUCT_OK then (ET_ERROR, sc)
      else case val of None \<Rightarrow> (ET_ERROR, sc)
      | Some v \<Rightarrow> if length v > ET_FUNCNAME_LENGTH - 1 then (ET_ERROR, sc)
                  else (ET_OK, sc\<lparr>o_host := v\<rparr>))"

definition et_open_config_gethost :: "et_open_config \<Rightarrow> int \<times> string" where
  "et_open_config_gethost sc = (ET_OK, o_host sc)"

definition et_open_config_setinterface :: "et_open_config \<Rightarrow> string option \<Rightarrow> int \<times> et_open_config" where
  "et_open_config_setinterface sc val =
     (if o_init sc \<noteq> ET_STRUCT_OK then (ET_ERROR, sc)
      else if codanetIsDottedDecimal val = None then (ET_ERROR, sc)
      else case val of None \<Rightarrow> (ET_ERROR, sc)
      | Some v \<Rightarrow> if length v > ET_IPADDRSTRLEN - 1 then (ET_ERROR, sc)
                  else (ET_OK, sc\<lparr>o_interface := v\<rparr>))"

text \<open>
  \<^verbatim>\<open>strncpy\<close> copies at most \<^verbatim>\<open>ET_IPADDRSTRLEN - 1\<close> characters and adds the terminating zero
  only when there is room among these: \<open>None\<close> is a buffer left without one.
\<close>

definition et_open_config_getinterface :: "et_open_config \<Rightarrow> int \<times> string option" where
  "et_open_config_getinterface sc =
     (ET_OK, if length (o_interface sc) < ET_IPADDRSTRLEN - 1 then Some (o_interface sc) else None)"

definition et_open_config_settcp ::
  "et_open_config \<Rightarrow> int \<Rightarrow> int \<Rightarrow> int \<Rightarrow> int \<times> et_open_config" where
  "et_open_config_settcp sc rBufSize sBufSize noDelay =
     (if o_init sc \<noteq> ET_STRUCT_OK then (ET_ERROR, sc)
      else if rBufSize < 0 \<or> sBufSize < 0 then (ET_ERROR, sc)
      else (ET_OK, sc\<lparr>o_tcpRecvBufSize := rBufSize, o_tcpSendBufSize := sBufSize,
                      o_tcpNoDelay := (if noDelay < 0 then 1 else noDelay)\<rparr>))"

definition et_open_config_gettcp :: "et_open_config \<Rightarrow> int \<times> int \<times> int \<times> int" where
  "et_open_config_gettcp sc =
     (ET_OK, o_tcpRecvBufSize sc, o_tcpSendBufSize sc, o_tcpNoDelay sc)"

section \<open>Broadcast and multicast addresses\<close>

text \<open>An address copied into \<^verbatim>\<open>char addr[16]\<close> of a new list item has to fit with its zero.\<close>

definition et_open_config_addbroadcast ::
  "string list option \<Rightarrow> et_open_config \<Rightarrow> string option \<Rightarrow> (int \<times> et_open_config) option" where
  "et_open_config_addbroadcast bcast sc val =
     (if o_init sc \<noteq> ET_STRUCT_OK then Some (ET_ERROR, sc)
      else case val of None \<Rightarrow> Some (ET_ERROR, sc)
      | Some v \<Rightarrow>
        if v = ET_SUBNET_ALL then
          Some (ET_OK, sc\<lparr>o_bcastaddrs := (case bcast of None \<Rightarrow> [] | Some l \<Rightarrow> l)\<rparr>)
        else if codanetIsDottedDecimal (Some v) = None then Some (ET_ERROR, sc)
        else if v \<in> set (o_bcastaddrs sc) then Some (ET_OK, sc)
        else if length v \<ge> ET_IPADDRSTRLEN then None
        else Some (ET_OK, sc\<lparr>o_bcastaddrs := o_bcastaddrs sc @ [v]\<rparr>))"

definition et_open_config_removebroadcast ::
  "et_open_config \<Rightarrow> string option \<Rightarrow> int \<times> et_open_config" where
  "et_open_config_removebroadcast sc val =
     (if o_init sc \<noteq> ET_STRUCT_OK then (ET_ERROR, sc)
      else case val of None \<Rightarrow> (ET_ERROR, sc)
      | Some v \<Rightarrow>
        if o_bcastaddrs sc = [] then (ET_OK, sc)
        else if v = ET_SUBNET_ALL then (ET_OK, sc\<lparr>o_bcastaddrs := []\<rparr>)
        else if codanetIsDottedDecimal (Some v) = None then (ET_ERROR, sc)
        else (ET_OK, sc\<lparr>o_bcastaddrs := addr_remove v (o_bcastaddrs sc)\<rparr>))"

definition et_open_config_addmulticast ::
  "et_open_config \<Rightarrow> string option \<Rightarrow> int \<times> et_open_config" where
  "et_open_config_addmulticast sc val =
     (if o_init sc \<noteq> ET_STRUCT_OK then (ET_ERROR, sc)
      else case val of None \<Rightarrow> (ET_ERROR, sc)
      | Some v \<Rightarrow>
        if length v \<ge> ET_IPADDRSTRLEN \<or> length v < 7 then (ET_ERROR, sc)
        else (case codanetIsDottedDecimal (Some v) of None \<Rightarrow> (ET_ERROR, sc)
          | Some intVals \<Rightarrow>
              if intVals ! 0 < 224 \<or> intVals ! 0 > 239 then (ET_ERROR, sc)
              else if v \<in> set (o_mcastaddrs sc) then (ET_OK, sc)
              else if length (o_mcastaddrs sc) = ET_MAXADDRESSES then (ET_ERROR, sc)
              else (ET_OK, sc\<lparr>o_mcastaddrs := o_mcastaddrs sc @ [v]\<rparr>)))"

definition et_open_config_removemulticast ::
  "et_open_config \<Rightarrow> string option \<Rightarrow> (int \<times> et_open_config) option" where
  "et_open_config_removemulticast sc val =
     (if o_init sc \<noteq> ET_STRUCT_OK then Some (ET_ERROR, sc)
      else case val of None \<Rightarrow> Some (ET_ERROR, sc)
      | Some v \<Rightarrow>
        if length v \<ge> ET_IPADDRSTRLEN \<or> length v < 7 then Some (ET_ERROR, sc)
        else (case first_number v of None \<Rightarrow> None
          | Some firstnumber \<Rightarrow>
            Some (if firstnumber < 224 \<or> firstnumber > 239 then (ET_ERROR, sc)
                  else (ET_OK, sc\<lparr>o_mcastaddrs := addr_remove v (o_mcastaddrs sc)\<rparr>))))"

section \<open>The setters keep the contract of the interface\<close>

abbreviation port_legal :: "int \<Rightarrow> bool" where
  "port_legal v \<equiv> 1024 \<le> v \<and> v \<le> 65535"

lemmas open_config_simps = et_open_config_setwait_def et_open_config_getwait_def
  et_open_config_setcast_def et_open_config_getcast_def et_open_config_setTTL_def
  et_open_config_getTTL_def et_open_config_setmode_def et_open_config_getmode_def
  et_open_config_setdebugdefault_def et_open_config_getdebugdefault_def et_open_config_setport_def
  et_open_config_getport_def et_open_config_setmultiport_def et_open_config_getmultiport_def
  et_open_config_setserverport_def et_open_config_getserverport_def et_open_config_setpolicy_def
  et_open_config_getpolicy_def et_open_config_settimeout_def et_open_config_gettimeout_def
  et_open_config_sethost_def et_open_config_gethost_def et_open_config_settcp_def
  et_open_config_gettcp_def

interpretation open_wait: config_field o_init "\<lambda>v. v \<in> {ET_OPEN_NOWAIT, ET_OPEN_WAIT}" id
    et_open_config_setwait et_open_config_getwait
  by unfold_locales (auto simp: open_config_simps)

interpretation open_cast: config_field o_init
    "\<lambda>v. v \<in> {ET_MULTICAST, ET_BROADCAST, ET_BROADANDMULTICAST, ET_DIRECT}" id
    et_open_config_setcast et_open_config_getcast
  by unfold_locales (auto simp: open_config_simps)

interpretation open_TTL: config_field o_init "\<lambda>v. 0 \<le> v \<and> v \<le> 254" id
    et_open_config_setTTL et_open_config_getTTL
  by unfold_locales (auto simp: open_config_simps)

interpretation open_mode: config_field o_init "\<lambda>v. v \<in> {ET_HOST_AS_LOCAL, ET_HOST_AS_REMOTE}" id
    et_open_config_setmode et_open_config_getmode
  by unfold_locales (auto simp: open_config_simps)

interpretation open_debugdefault: config_field o_init "\<lambda>v. v \<in> {ET_DEBUG_NONE..ET_DEBUG_INFO}" id
    et_open_config_setdebugdefault et_open_config_getdebugdefault
  by unfold_locales (auto simp: open_config_simps)

interpretation open_port: config_field o_init port_legal id
    et_open_config_setport et_open_config_getport
  by unfold_locales (auto simp: open_config_simps)

interpretation open_multiport: config_field o_init port_legal id
    et_open_config_setmultiport et_open_config_getmultiport
  by unfold_locales (auto simp: open_config_simps)

interpretation open_serverport: config_field o_init port_legal id
    et_open_config_setserverport et_open_config_getserverport
  by unfold_locales (auto simp: open_config_simps)

interpretation open_policy: config_field o_init
    "\<lambda>v. v \<in> {ET_POLICY_FIRST, ET_POLICY_LOCAL, ET_POLICY_ERROR}" id
    et_open_config_setpolicy et_open_config_getpolicy
  by unfold_locales (auto simp: open_config_simps)

interpretation open_timeout: config_field o_init "\<lambda>_. True" id
    et_open_config_settimeout et_open_config_gettimeout
  by unfold_locales (auto simp: open_config_simps)

interpretation open_host: config_field o_init
    "\<lambda>v. v \<noteq> None \<and> length (the v) < ET_FUNCNAME_LENGTH" the
    et_open_config_sethost et_open_config_gethost
proof unfold_locales
  show "o_init (snd (et_open_config_sethost c v)) = o_init c" for c v
    by (cases v) (simp_all add: et_open_config_sethost_def)
  show "o_init c \<noteq> ET_STRUCT_OK \<or> \<not> (v \<noteq> None \<and> length (the v) < ET_FUNCNAME_LENGTH) \<Longrightarrow>
      et_open_config_sethost c v = (ET_ERROR, c)" for c v
    by (cases v) (auto simp: et_open_config_sethost_def)
qed (auto simp: et_open_config_sethost_def et_open_config_gethost_def)

interpretation open_tcp: config_field o_init "\<lambda>(r, b, d). 0 \<le> r \<and> 0 \<le> b"
    "\<lambda>(r, b, d). (r, b, if d < 0 then 1 else d)"
    "\<lambda>sc (r, b, d). et_open_config_settcp sc r b d" et_open_config_gettcp
  by unfold_locales (auto simp: et_open_config_settcp_def et_open_config_gettcp_def split: if_splits)

section \<open>Properties\<close>

text \<open>C18: an address of at most 15 characters that \<^verbatim>\<open>et_open_config_setinterface\<close> accepts is
  handed out again by \<^verbatim>\<open>et_open_config_getinterface\<close>, except that an address of exactly 15
  characters is copied without its terminating zero.\<close>

theorem et_open_config_interface_roundtrip:
  assumes "et_open_config_setinterface sc (Some v) = (ET_OK, sc')"
  shows "length v \<le> 15 \<and> et_open_config_getinterface sc' = (ET_OK, if length v < 15 then Some v else None)"
  using assms by (auto simp: et_open_config_setinterface_def et_open_config_getinterface_def split: if_splits)

lemma et_open_config_interface_roundtrip_witness:
  "et_open_config_getinterface (snd (et_open_config_setinterface (et_open_config_init None)
     (Some ''129.157.229.110''))) = (ET_OK, None)"
proof -
  have "codanetIsDottedDecimal (Some ''129.157.229.110'') = Some [129, 157, 229, 110]" by code_simp
  then have "et_open_config_setinterface (et_open_config_init None) (Some ''129.157.229.110'')
    = (ET_OK, snd (et_open_config_setinterface (et_open_config_init None) (Some ''129.157.229.110'')))"
    by (simp add: et_open_config_setinterface_def et_open_config_init_def)
  from et_open_config_interface_roundtrip [OF this] show ?thesis by simp
qed

text \<open>C19: \<^verbatim>\<open>et_open_config_addbroadcast\<close> accepts a dotted-decimal address with any text behind
  it, and copies the whole string into an array of 16 characters: an address that is not in
  the list and has 16 or more characters is stored beyond the array.\<close>

theorem et_open_config_addbroadcast_overflow:
  assumes "o_init sc = ET_STRUCT_OK" and "v = dotted [a, b, c, d] @ rest"
    and "a < 256" and "b < 256" and "c < 256" and "d < 256" and "rest = [] \<or> \<not> is_digit (hd rest)"
    and "v \<notin> set (o_bcastaddrs sc)"
  shows "et_open_config_addbroadcast bcast sc (Some v) =
     (if length v < 16 then Some (ET_OK, sc\<lparr>o_bcastaddrs := o_bcastaddrs sc @ [v]\<rparr>) else None)"
proof -
  have "codanetIsDottedDecimal (Some v) = Some [int a, int b, int c, int d]"
    using assms(2-7) by (simp add: read_dotted_rest)
  moreover have "v \<noteq> ET_SUBNET_ALL"
  proof -
    obtain x xs where "decimal a = x # xs" using decimal_digits(2) by (cases "decimal a") auto
    then have "is_digit (hd v)" using decimal_digits(1) [of a] assms(2) by (simp add: dotted_def)
    then show ?thesis by (auto simp: is_digit_def)
  qed
  ultimately show ?thesis using assms(1,8) by (simp add: et_open_config_addbroadcast_def)
qed

lemma et_open_config_addbroadcast_overflow_witness:
  "et_open_config_addbroadcast None (et_open_config_init None) (Some (dotted [129, 57, 29, 255] @ ''/255.255.255.0'')) = None"
proof -
  have len: "length (dotted [129, 57, 29, 255] @ ''/255.255.255.0'') = 27" by code_simp
  show ?thesis
    using et_open_config_addbroadcast_overflow [of "et_open_config_init None" _ 129 57 29 255 "''/255.255.255.0''"] len
    by (simp add: et_open_config_init_def is_digit_def)
qed

text \<open>C20: an address that \<^verbatim>\<open>et_open_config_addmulticast\<close> has added is removed again by
  \<^verbatim>\<open>et_open_config_removemulticast\<close>, unless its first dot comes after the third character
  (a sign, blanks or zeros in front): then the removal stores beyond its array of four.\<close>

theorem et_open_config_multicast_roundtrip:
  assumes "et_open_config_addmulticast sc (Some v) = (ET_OK, sc')" and "v \<notin> set (o_mcastaddrs sc)"
  shows "et_open_config_removemulticast sc' (Some v) = (if strcspn_dot v \<le> 3 then Some (ET_OK, sc) else None)"
proof -
  have r: "remove1 v (xs @ [v]) = xs" if "v \<notin> set xs" for xs :: "string list"
    using that by (simp add: remove1_append)
  obtain i where i: "codanetIsDottedDecimal (Some v) = Some i" "224 \<le> i ! 0" "i ! 0 \<le> 239"
    and ok: "o_init sc = ET_STRUCT_OK" "length v < 16" "7 \<le> length v"
      "sc' = sc\<lparr>o_mcastaddrs := o_mcastaddrs sc @ [v]\<rparr>"
    using assms by (auto simp: et_open_config_addmulticast_def split: option.splits if_splits)
  show ?thesis
  proof (cases "strcspn_dot v \<le> 3")
    case True
    with dotted_first_number [OF i(1)] i(2,3) ok r [OF assms(2)] show ?thesis
      by (simp add: et_open_config_removemulticast_def addr_remove_remove1)
  next
    case False
    with ok show ?thesis by (simp add: et_open_config_removemulticast_def first_number_def)
  qed
qed

lemma et_open_config_multicast_roundtrip_witness:
  "et_open_config_removemulticast (snd (et_open_config_addmulticast (et_open_config_init None)
     (Some ''+239.200.0.0''))) (Some ''+239.200.0.0'') = None"
proof -
  have "codanetIsDottedDecimal (Some ''+239.200.0.0'') = Some [239, 200, 0, 0]" by code_simp
  then have "et_open_config_addmulticast (et_open_config_init None) (Some ''+239.200.0.0'')
    = (ET_OK, snd (et_open_config_addmulticast (et_open_config_init None) (Some ''+239.200.0.0'')))"
    by (simp add: et_open_config_addmulticast_def et_open_config_init_def)
  from et_open_config_multicast_roundtrip [OF this] show ?thesis
    by (simp add: et_open_config_init_def strcspn_dot_def)
qed

end
