(* ===== verification/Et_Event.thy ===== *)
theory Et_Event
  imports Et_Station
begin

text \<open>
  The calls with which an attachment obtains events and gives them back
  (\<^verbatim>\<open>src/src/external/et/src/libsrc/et_event.c\<close>): \<^verbatim>\<open>et_event_new\<close>, \<^verbatim>\<open>et_event_get\<close>, \<^verbatim>\<open>et_event_put\<close>,
  \<^verbatim>\<open>et_event_dump\<close>, their versions for several events and for groups of events, and the access to the
  fields of an event.

  The calls are crashable programs on the shared memory around those of \<^verbatim>\<open>et_readwrite.c\<close>.  The
  arrays of the caller are lists, pointers that the caller has to give are given, and the number of
  an attachment is within the array of attachments.  The address of the data in the memory of the
  calling process is left out.
\<close>

unbundle bit_operations_syntax

section \<open>What a call meets\<close>

text \<open>
  \<open>v_far\<close> is the answer of the routine for a system that is not shared or not on this host,
  \<open>v_wakes\<close> what happens while the call waits for events, \<open>v_alive\<close> whether the system is alive when this
  is asked again after a wake-up, \<open>v_sleeps\<close> what other processes do during each \<^verbatim>\<open>nanosleep\<close> (nothing any
  more when the list is used up), \<open>v_tries\<close> the number of tries for a temporary event (30 seconds in clock ticks).
  The last ones say for which events memory can be created, mapped, unmapped and removed.
\<close>

record event_env =
  v_far :: "int \<times> nat list \<times> int"
  v_wakes :: "wake list"
  v_alive :: bool
  v_sleeps :: "(et_mem \<Rightarrow> et_mem) list"
  v_tries :: int
  v_create :: "nat \<Rightarrow> bool"
  v_attach :: "nat \<Rightarrow> bool"
  v_munmap :: "nat \<Rightarrow> bool"
  v_remove :: "nat \<Rightarrow> bool"

section \<open>Checks\<close>

abbreviation wait_of :: "int \<Rightarrow> int" where
  "wait_of mode \<equiv> mode AND 3"

text \<open>\<open>dt\<close>: a time is given.\<close>

definition mode_ok :: "int \<Rightarrow> bool \<Rightarrow> bool" where
  "mode_ok mode dt \<longleftrightarrow> wait_of mode \<in> {ET_SLEEP, ET_TIMED, ET_ASYNC} \<and> (wait_of mode = ET_TIMED \<longrightarrow> dt)"

text \<open>A system that is not shared has a routine of its own; then the system must be alive and the identifier open.\<close>

definition local_call :: "et_id \<Rightarrow> 'a \<Rightarrow> (int \<Rightarrow> 'a) \<Rightarrow> 'a cmd \<Rightarrow> 'a cmd" where
  "local_call h far err m =
     (if i_locality h = ET_REMOTE \<or> i_locality h = ET_LOCAL_NOSHARE then ret far
      else if usable h \<noteq> ET_OK then ret (err (usable h)) else m)"

abbreviation inactive :: "et_att_id \<Rightarrow> et_mem \<Rightarrow> bool" where
  "inactive att s \<equiv> a_status (sy_attach (m_sys s) att) \<noteq> ET_ATT_ACTIVE"

text \<open>A reader that is woken up may have been so because the system died.\<close>

definition woken :: "event_env \<Rightarrow> int \<Rightarrow> int" where
  "woken v c = (if c = ET_ERROR_WAKEUP \<and> \<not> v_alive v then ET_ERROR_DEAD else c)"

text \<open>The time until which a read waits, in seconds and nanoseconds, from the interval given and the time of day.\<close>

definition abs_time :: "int \<times> int \<Rightarrow> int \<times> int \<Rightarrow> int \<times> int" where
  "abs_time delta now = (let nsec_total = snd delta + 1000 * snd now in
     if nsec_total \<ge> 1000000000 then (fst delta + fst now + 1, nsec_total - 1000000000)
     else (fst delta + fst now, nsec_total))"

section \<open>New events\<close>

abbreviation "set_event e f \<equiv> store (upd_event e f)"

abbreviation temps_used :: "et_mem \<Rightarrow> bool" where
  "temps_used s \<equiv> sy_ntemps (m_sys s) \<ge> y_ntemps (sy_config (m_sys s))"

abbreviation event_size :: "et_mem \<Rightarrow> 64 word" where
  "event_size s \<equiv> y_event_size (sy_config (m_sys s))"

definition et_event_make :: "event_env \<Rightarrow> nat \<Rightarrow> 64 word \<Rightarrow> int cmd" where
  "et_event_make v e sz =
     cond temps_used (ret ET_ERROR_TOOMANY)
       (andthen (store (upd_sys (sy_ntemps_update (\<lambda>n. n + 1))))
         (if \<not> v_create v e then ret ET_ERROR
          else block [set_event e et_init_event_new, set_event e (e_temp_update (\<lambda>_. ET_EVENT_TEMP)),
            set_event e (e_length_update (\<lambda>_. sz)), set_event e (e_memsize_update (\<lambda>_. sz))] (ret ET_OK)))"

text \<open>The loop that sleeps until there are temporary events again; the result is \<^verbatim>\<open>num_try\<close>.\<close>

fun wait_temps :: "int \<Rightarrow> int \<Rightarrow> (et_mem \<Rightarrow> et_mem) list \<Rightarrow> (int \<times> (et_mem \<Rightarrow> et_mem) list) cmd" where
  "wait_temps tries n [] = cond temps_used (ret (max n tries, [])) (ret (n, []))"
| "wait_temps tries n (env # envs) =
     cond (\<lambda>s. temps_used s \<and> n < tries) (andthen (store env) (wait_temps tries (n + 1) envs)) (ret (n, env # envs))"

text \<open>
  \<^verbatim>\<open>goto try_again\<close>.  Every try but the last is behind a sleep, so that one more than there are
  \<open>sleeps\<close> are enough.
\<close>

fun make_try :: "nat \<Rightarrow> event_env \<Rightarrow> 64 word \<Rightarrow> nat \<Rightarrow> (et_mem \<Rightarrow> et_mem) list \<Rightarrow> (int \<times> (et_mem \<Rightarrow> et_mem) list) cmd" where
  "make_try 0 v sz e sleeps = blocked"
| "make_try (Suc k) v sz e sleeps = bindp (et_event_make v e sz) (\<lambda>status.
     if status = ET_ERROR_TOOMANY then
       bindp (wait_temps (v_tries v) 0 sleeps) (\<lambda>(num_try, sleeps').
         if num_try \<ge> v_tries v then ret (status, sleeps') else make_try k v sz e sleeps')
     else ret (status, sleeps))"

fun make_all :: "event_env \<Rightarrow> 64 word \<Rightarrow> (et_mem \<Rightarrow> et_mem) list \<Rightarrow> nat list \<Rightarrow> int cmd" where
  "make_all v sz sleeps [] = ret ET_OK"
| "make_all v sz sleeps (e # es) = bindp (make_try (Suc (length sleeps)) v sz e sleeps) (\<lambda>(status, sleeps').
     if status \<noteq> ET_OK then ret status else make_all v sz sleeps' es)"

text \<open>The event gets its own data space.\<close>

fun init_events :: "64 word \<Rightarrow> nat list \<Rightarrow> unit cmd" where
  "init_events sz [] = skip"
| "init_events sz (e # es) = block [set_event e et_init_event_new, set_event e (e_length_update (\<lambda>_. sz)),
     load event_size (\<lambda>n. set_event e (e_memsize_update (\<lambda>_. n)))] (init_events sz es)"

definition prepare_events :: "event_env \<Rightarrow> 64 word \<Rightarrow> nat list \<Rightarrow> int cmd" where
  "prepare_events v sz es = cond (\<lambda>s. sz > event_size s) (make_all v sz (v_sleeps v) es)
     (andthen (init_events sz es) (ret ET_OK))"

text \<open>For very large events no more than there are temporary ones.\<close>

definition ask_for :: "64 word \<Rightarrow> int \<Rightarrow> et_mem \<Rightarrow> int" where
  "ask_for sz num s = (if event_size s < sz \<and> y_ntemps (sy_config (m_sys s)) < num
     then y_ntemps (sy_config (m_sys s)) else num)"

text \<open>What follows the read: the result is the status, the pointers stored and \<^verbatim>\<open>*nread\<close>.\<close>

definition finish_new :: "event_env \<Rightarrow> et_att_id \<Rightarrow> 64 word \<Rightarrow> int \<times> nat list \<Rightarrow> (int \<times> nat list \<times> int) cmd" where
  "finish_new v att sz r = (case r of (status, pe) \<Rightarrow>
     if status \<noteq> ET_OK then ret (woken v status, pe, 0)
     else bindp (prepare_events v sz pe) (\<lambda>status.
       if status \<noteq> ET_OK then ret (status, pe, 0)
       else andthen (store (upd_attach att (a_events_make_update (\<lambda>n. n + of_nat (length pe)))))
         (ret (ET_OK, pe, int (length pe)))))"

definition et_events_new_group ::
  "et_id \<Rightarrow> et_att_id \<Rightarrow> int \<Rightarrow> bool \<Rightarrow> 64 word \<Rightarrow> int \<Rightarrow> int \<Rightarrow> event_env \<Rightarrow> (int \<times> nat list \<times> int) cmd" where
  "et_events_new_group h att mode dt sz num gr v =
     (if num = 0 then ret (ET_OK, [], 0)
      else if att < 0 \<or> num < 0 \<or> gr < 1 then ret (ET_ERROR, [], 0)
      else if \<not> mode_ok mode dt then ret (ET_ERROR, [], 0)
      else local_call h (v_far v) (\<lambda>c. (c, [], 0))
        (cond (\<lambda>s. gr > y_groupCount (sy_config (m_sys s))) (ret (ET_ERROR, [], 0))
          (load (ask_for sz num) (\<lambda>num.
            cond (inactive att) (ret (ET_ERROR, [], 0))
              (bindp (et_station_nread_group ET_GRANDCENTRAL (wait_of mode) att (v_wakes v) num gr)
                (finish_new v att sz))))))"

definition et_events_new ::
  "et_id \<Rightarrow> et_att_id \<Rightarrow> int \<Rightarrow> bool \<Rightarrow> 64 word \<Rightarrow> int \<Rightarrow> event_env \<Rightarrow> (int \<times> nat list \<times> int) cmd" where
  "et_events_new h att mode dt sz num v =
     (if i_group h \<noteq> 0 then et_events_new_group h att mode dt sz num (i_group h) v
      else if num = 0 then ret (ET_OK, [], 0)
      else if att < 0 \<or> num < 0 then ret (ET_ERROR, [], 0)
      else if \<not> mode_ok mode dt then ret (ET_ERROR, [], 0)
      else local_call h (v_far v) (\<lambda>c. (c, [], 0))
        (load (ask_for sz num) (\<lambda>num.
          cond (inactive att) (ret (ET_ERROR, [], 0))
            (bindp (et_station_nread ET_GRANDCENTRAL (wait_of mode) att (v_wakes v) num)
              (finish_new v att sz)))))"

definition et_event_new_group ::
  "et_id \<Rightarrow> et_att_id \<Rightarrow> int \<Rightarrow> bool \<Rightarrow> 64 word \<Rightarrow> int \<Rightarrow> event_env \<Rightarrow> (int \<times> nat list) cmd" where
  "et_event_new_group h att mode dt sz gr v =
     bindp (et_events_new_group h att mode dt sz 1 gr v) (\<lambda>(status, pe, n). ret (status, pe))"

definition et_event_new ::
  "et_id \<Rightarrow> et_att_id \<Rightarrow> int \<Rightarrow> bool \<Rightarrow> 64 word \<Rightarrow> event_env \<Rightarrow> (int \<times> nat list) cmd" where
  "et_event_new h att mode dt sz v =
     (if i_group h \<noteq> 0 then et_event_new_group h att mode dt sz (i_group h) v
      else if att < 0 then ret (ET_ERROR, [])
      else if \<not> mode_ok mode dt then ret (ET_ERROR, [])
      else local_call h (fst (v_far v), fst (snd (v_far v))) (\<lambda>c. (c, []))
        (cond (inactive att) (ret (ET_ERROR, []))
          (bindp (et_station_read ET_GRANDCENTRAL (wait_of mode) att (v_wakes v)) (\<lambda>r.
            bindp (finish_new v att sz r) (\<lambda>(status, pe, n). ret (status, pe))))))"

section \<open>Getting events from a station\<close>

text \<open>The data of temporary events are mapped into the memory of the process.\<close>

fun map_temps :: "event_env \<Rightarrow> nat list \<Rightarrow> bool cmd" where
  "map_temps v [] = ret True"
| "map_temps v (e # es) = cond (\<lambda>s. e_temp (m_events s e) = ET_EVENT_TEMP \<and> \<not> v_attach v e) (ret False) (map_temps v es)"

definition finish_get :: "event_env \<Rightarrow> et_att_id \<Rightarrow> int \<times> nat list \<Rightarrow> (int \<times> nat list \<times> int) cmd" where
  "finish_get v att r = (case r of (status, pe) \<Rightarrow>
     if status \<noteq> ET_OK then ret (woken v status, pe, 0)
     else bindp (map_temps v pe) (\<lambda>ok.
       if \<not> ok then ret (ET_ERROR, pe, 0)
       else andthen (store (upd_attach att (a_events_get_update (\<lambda>n. n + of_nat (length pe)))))
         (ret (ET_OK, pe, int (length pe)))))"

abbreviation station_of :: "et_att_id \<Rightarrow> et_mem \<Rightarrow> et_stat_id" where
  "station_of att s \<equiv> a_stat (sy_attach (m_sys s) att)"

definition et_events_get ::
  "et_id \<Rightarrow> et_att_id \<Rightarrow> int \<Rightarrow> bool \<Rightarrow> int \<Rightarrow> event_env \<Rightarrow> (int \<times> nat list \<times> int) cmd" where
  "et_events_get h att mode dt num v =
     (if num = 0 then ret (ET_OK, [], 0)
      else if att < 0 \<or> num < 0 then ret (ET_ERROR, [], 0)
      else if \<not> mode_ok mode dt then ret (ET_ERROR, [], 0)
      else local_call h (v_far v) (\<lambda>c. (c, [], 0))
        (cond (inactive att) (ret (ET_ERROR, [], 0))
          (load (station_of att) (\<lambda>st.
            if st = ET_GRANDCENTRAL then ret (ET_ERROR, [], 0)
            else bindp (et_station_nread st (wait_of mode) att (v_wakes v) num) (finish_get v att)))))"

definition et_event_get ::
  "et_id \<Rightarrow> et_att_id \<Rightarrow> int \<Rightarrow> bool \<Rightarrow> event_env \<Rightarrow> (int \<times> nat list) cmd" where
  "et_event_get h att mode dt v =
     (if att < 0 then ret (ET_ERROR, [])
      else if \<not> mode_ok mode dt then ret (ET_ERROR, [])
      else local_call h (fst (v_far v), fst (snd (v_far v))) (\<lambda>c. (c, []))
        (cond (inactive att) (ret (ET_ERROR, []))
          (load (station_of att) (\<lambda>st.
            if st = ET_GRANDCENTRAL then ret (ET_ERROR, [])
            else bindp (et_station_read st (wait_of mode) att (v_wakes v)) (\<lambda>r.
              bindp (finish_get v att r) (\<lambda>(status, pe, n). ret (status, pe)))))))"

section \<open>Putting events\<close>

text \<open>Only the owner may put an event, and its data must fit into its memory.\<close>

definition may_put :: "et_att_id \<Rightarrow> nat \<Rightarrow> et_mem \<Rightarrow> bool" where
  "may_put att e s \<longleftrightarrow> e_length (m_events s e) \<le> e_memsize (m_events s e) \<and> e_owner (m_events s e) = att"

text \<open>The data of a temporary event are unmapped; \<open>k\<close> follows when this succeeds.\<close>

definition unmap_then :: "event_env \<Rightarrow> nat \<Rightarrow> int cmd \<Rightarrow> int cmd" where
  "unmap_then v e k = cond (\<lambda>s. e_temp (m_events s e) = ET_EVENT_TEMP)
     (if v_munmap v e then andthen (load (\<lambda>s. e_filename (m_events s e)) (\<lambda>f. store (upd_os (Munmap f)))) k
      else ret ET_ERROR) k"

definition et_event_put :: "et_id \<Rightarrow> et_att_id \<Rightarrow> nat \<Rightarrow> event_env \<Rightarrow> int cmd" where
  "et_event_put h att e v =
     (if att < 0 then ret ET_ERROR
      else local_call h (fst (v_far v)) (\<lambda>c. c)
        (cond (\<lambda>s. \<not> may_put att e s) (ret ET_ERROR)
          (unmap_then v e
            (load (station_of att) (\<lambda>st. load (\<lambda>s. e_age (m_events s e)) (\<lambda>age.
              andthen (set_event e (e_age_update (\<lambda>_. ET_EVENT_USED)))
                (bindp (et_station_write st e) (\<lambda>status.
                  if status \<noteq> ET_OK then andthen (set_event e (e_age_update (\<lambda>_. age))) (ret status)
                  else andthen (store (upd_attach att (a_events_put_update (\<lambda>n. n + 1)))) (ret ET_OK)))))))))"

text \<open>The age is kept in \<^verbatim>\<open>modify\<close> meanwhile.\<close>

fun age_events :: "event_env \<Rightarrow> nat list \<Rightarrow> int cmd" where
  "age_events v [] = ret ET_OK"
| "age_events v (e # es) = unmap_then v e (block
     [load (\<lambda>s. e_age (m_events s e)) (\<lambda>a. set_event e (e_modify_update (\<lambda>_. a))),
      set_event e (e_age_update (\<lambda>_. ET_EVENT_USED))] (age_events v es))"

fun unage_events :: "nat list \<Rightarrow> unit cmd" where
  "unage_events [] = skip"
| "unage_events (e # es) = block [load (\<lambda>s. e_modify (m_events s e)) (\<lambda>a. set_event e (e_age_update (\<lambda>_. a))),
     set_event e (e_modify_update (\<lambda>_. 0))] (unage_events es)"

definition et_events_put :: "et_id \<Rightarrow> et_att_id \<Rightarrow> nat list \<Rightarrow> event_env \<Rightarrow> int cmd" where
  "et_events_put h att es v =
     (if es = [] then ret ET_OK
      else if att < 0 then ret ET_ERROR
      else local_call h (fst (v_far v)) (\<lambda>c. c)
        (cond (\<lambda>s. \<exists>e \<in> set es. \<not> may_put att e s) (ret ET_ERROR)
          (bindp (age_events v es) (\<lambda>status.
            if status \<noteq> ET_OK then ret status
            else load (station_of att) (\<lambda>st.
              bindp (et_station_nwrite st es) (\<lambda>status.
                if status \<noteq> ET_OK then andthen (unage_events es) (ret status)
                else andthen (store (upd_attach att (a_events_put_update (\<lambda>n. n + of_nat (length es))))) (ret ET_OK)))))))"

section \<open>Dumping events\<close>

text \<open>The data of temporary events are removed; the result is the status and the number of them.\<close>

fun remove_temps :: "event_env \<Rightarrow> nat list \<Rightarrow> int \<Rightarrow> (int \<times> int) cmd" where
  "remove_temps v [] n = ret (ET_OK, n)"
| "remove_temps v (e # es) n = cond (\<lambda>s. e_temp (m_events s e) = ET_EVENT_TEMP)
     (if v_remove v e then andthen (load (\<lambda>s. e_filename (m_events s e)) (\<lambda>f. store (upd_os (TempRemove f))))
        (remove_temps v es (n + 1))
      else ret (ET_ERROR, n))
     (remove_temps v es n)"

definition et_event_dump :: "et_id \<Rightarrow> et_att_id \<Rightarrow> nat \<Rightarrow> event_env \<Rightarrow> int cmd" where
  "et_event_dump h att e v =
     (if att < 0 then ret ET_ERROR
      else local_call h (fst (v_far v)) (\<lambda>c. c)
        (cond (\<lambda>s. e_owner (m_events s e) \<noteq> att) (ret ET_ERROR)
          (bindp (remove_temps v [e] 0) (\<lambda>(status, temp).
            if status \<noteq> ET_OK then ret ET_ERROR
            else bindp (et_station_dump e) (\<lambda>status.
              if status \<noteq> ET_OK then andthen (set_event e (e_owner_update (\<lambda>_. att))) (ret status)
              else block [whenp (\<lambda>_. temp > 0) (store (upd_sys (sy_ntemps_update (\<lambda>n. n - 1)))),
                  store (upd_attach att (a_events_dump_update (\<lambda>n. n + 1)))] (ret ET_OK))))))"

definition et_events_dump :: "et_id \<Rightarrow> et_att_id \<Rightarrow> nat list \<Rightarrow> event_env \<Rightarrow> int cmd" where
  "et_events_dump h att es v =
     (if es = [] then ret ET_OK
      else if att < 0 then ret ET_ERROR
      else local_call h (fst (v_far v)) (\<lambda>c. c)
        (cond (\<lambda>s. \<exists>e \<in> set es. e_owner (m_events s e) \<noteq> att) (ret ET_ERROR)
          (bindp (remove_temps v es 0) (\<lambda>(status, ntemps).
            if status \<noteq> ET_OK then ret ET_ERROR
            else bindp (et_station_ndump es) (\<lambda>status.
              if status \<noteq> ET_OK then ret status
              else block [whenp (\<lambda>_. ntemps > 0) (store (upd_sys (sy_ntemps_update (\<lambda>n. n - ntemps)))),
                  store (upd_attach att (a_events_dump_update (\<lambda>n. n + of_nat (length es))))] (ret ET_OK))))))"

section \<open>Access to the fields of an event\<close>

text \<open>A setter returns its status and the event; a getter the value, its argument being given.\<close>

definition et_event_getgroup :: "et_event \<Rightarrow> int" where "et_event_getgroup p = e_group p"

definition et_event_setpriority :: "int \<Rightarrow> et_event \<Rightarrow> int \<times> et_event" where
  "et_event_setpriority pri p = (if pri \<noteq> ET_HIGH \<and> pri \<noteq> ET_LOW then (ET_ERROR, p) else (ET_OK, p\<lparr>e_priority := pri\<rparr>))"

definition et_event_getpriority :: "et_event \<Rightarrow> int" where "et_event_getpriority p = e_priority p"

definition et_event_setlength :: "64 word \<Rightarrow> et_event \<Rightarrow> int \<times> et_event" where
  "et_event_setlength len p = (if len > e_memsize p then (ET_ERROR, p) else (ET_OK, p\<lparr>e_length := len\<rparr>))"

definition et_event_getlength :: "et_event \<Rightarrow> 64 word" where "et_event_getlength p = e_length p"

definition et_event_setcontrol :: "int list \<Rightarrow> et_event \<Rightarrow> int \<times> et_event" where
  "et_event_setcontrol con p = (if length con < 1 \<or> length con > ET_STATION_SELECT_INTS then (ET_ERROR, p)
     else (ET_OK, p\<lparr>e_control := con @ drop (length con) (e_control p)\<rparr>))"

definition et_event_getcontrol :: "et_event \<Rightarrow> int list" where
  "et_event_getcontrol p = take ET_STATION_SELECT_INTS (e_control p)"

definition et_event_setdatastatus :: "int \<Rightarrow> et_event \<Rightarrow> int \<times> et_event" where
  "et_event_setdatastatus d p = (if d \<noteq> ET_DATA_OK \<and> d \<noteq> ET_DATA_CORRUPT \<and> d \<noteq> ET_DATA_POSSIBLY_CORRUPT then (ET_ERROR, p)
     else (ET_OK, p\<lparr>e_datastatus := d\<rparr>))"

definition et_event_getdatastatus :: "et_event \<Rightarrow> int" where "et_event_getdatastatus p = e_datastatus p"

abbreviation (input) "ET_ENDIAN_BIG \<equiv> (0 :: int)"
abbreviation (input) "ET_ENDIAN_LITTLE \<equiv> (1 :: int)"
abbreviation (input) "ET_ENDIAN_LOCAL \<equiv> (2 :: int)"
abbreviation (input) "ET_ENDIAN_NOTLOCAL \<equiv> (3 :: int)"
abbreviation (input) "ET_ENDIAN_SWITCH \<equiv> (4 :: int)"

definition swap32 :: "32 word \<Rightarrow> 32 word" where
  "swap32 x = (drop_bit 24 x AND 0x000000FF) OR (drop_bit 8 x AND 0x0000FF00)
     OR (push_bit 8 x AND 0x00FF0000) OR (push_bit 24 x AND 0xFF000000)"

text \<open>\<open>mine\<close> is the byte order of this host.\<close>

definition et_event_setendian :: "int \<Rightarrow> int \<Rightarrow> et_event \<Rightarrow> int \<times> et_event" where
  "et_event_setendian mine endian p =
     (if endian \<notin> {ET_ENDIAN_BIG, ET_ENDIAN_LITTLE, ET_ENDIAN_LOCAL, ET_ENDIAN_NOTLOCAL, ET_ENDIAN_SWITCH} then (ET_ERROR, p)
      else (ET_OK, p\<lparr>e_byteorder :=
        (if endian = ET_ENDIAN_BIG \<or> endian = ET_ENDIAN_LITTLE then (if mine = endian then 0x04030201 else 0x01020304)
         else if endian = ET_ENDIAN_LOCAL then 0x04030201
         else if endian = ET_ENDIAN_NOTLOCAL then 0x01020304
         else swap32 (e_byteorder p))\<rparr>))"

definition et_event_getendian :: "int \<Rightarrow> et_event \<Rightarrow> int" where
  "et_event_getendian mine p = (if e_byteorder p = 0x04030201 then mine
     else if mine = ET_ENDIAN_BIG then ET_ENDIAN_LITTLE else ET_ENDIAN_BIG)"

definition et_event_needtoswap :: "et_event \<Rightarrow> int" where
  "et_event_needtoswap p = (if e_byteorder p = 0x04030201 then 0 else 1)"

definition et_event_CODAswap :: "et_event \<Rightarrow> int" where "et_event_CODAswap p = ET_ERROR"

end
