(* ===== verification/Et_GroupRead.thy ===== *)
theory Et_GroupRead
  imports Et_StationRead Et_RestoreSpec
begin

text \<open>
  What \<^verbatim>\<open>et_station_nread_group\<close> takes from a list: the first events of the group, in their order,
  up to the number asked for.  They are unlinked one by one while the list is scanned.
\<close>

text \<open>A list without the first \<open>n\<close> elements that satisfy \<open>P\<close>.\<close>

fun without :: "(nat \<Rightarrow> bool) \<Rightarrow> nat \<Rightarrow> nat list \<Rightarrow> nat list" where
  "without P n [] = []"
| "without P 0 zs = zs"
| "without P (Suc n) (z # zs) = (if P z then without P n zs else z # without P (Suc n) zs)"

lemma without_0 [simp]: "without P 0 zs = zs"
  by (cases zs) simp_all

lemma without_set: "distinct zs \<Longrightarrow> set (without P n zs) = set zs - set (take n (filter P zs))"
proof (induction P n zs rule: without.induct)
  case (3 P n z zs)
  have "z \<notin> set (take k (filter P zs))" for k using 3(3) by (auto dest: in_set_takeD)
  then show ?case using 3 by auto
qed simp_all

lemma without_length: "length (without P n zs) + length (take n (filter P zs)) = length zs"
  by (induction P n zs rule: without.induct) auto

lemma without_distinct: "distinct zs \<Longrightarrow> distinct (without P n zs)"
proof (induction P n zs rule: without.induct)
  case (3 P n z zs)
  then show ?case by (auto simp: without_set)
qed simp_all

lemma without_sorted: "sorted_wrt R zs \<Longrightarrow> sorted_wrt R (without P n zs)"
proof (induction P n zs rule: without.induct)
  case (3 P n z zs)
  have "set (without P m zs) \<subseteq> set zs" for m
  proof (induction P m zs rule: without.induct)
    case (3 P n z zs)
    then show ?case by auto
  qed simp_all
  then show ?case using 3 by auto
qed simp_all

text \<open>The chain of a list that is scanned: \<open>A\<close> has been passed over, \<open>zs\<close> is still to be looked at.\<close>

definition scan_ok :: "et_mem \<Rightarrow> listref \<Rightarrow> nat list \<Rightarrow> nat list \<Rightarrow> nat option \<Rightarrow> eptr \<Rightarrow> bool" where
  "scan_ok s r A zs prev pev \<longleftrightarrow> chain (m_events s) (first_of r s) (A @ zs) \<and> distinct (A @ zs)
     \<and> (A @ zs \<noteq> [] \<longrightarrow> last_of r s = Some (last (A @ zs))) \<and> prev = (if A = [] then None else Some (last A))
     \<and> (zs \<noteq> [] \<longrightarrow> pev = Some (hd zs))"

lemma scan_pass: "scan_ok s r A (z # zs) prev pev \<Longrightarrow> scan_ok s r (A @ [z]) zs (Some z) (next_of z s)"
  by (cases zs) (auto simp: scan_ok_def)

definition unlink_event :: "listref \<Rightarrow> nat \<Rightarrow> et_att_id \<Rightarrow> nat option \<Rightarrow> et_mem \<Rightarrow> et_mem" where
  "unlink_event r z att prev s = (let
       s1 = upd_event z (e_owner_update (\<lambda>_. att)) s;
       s2 = (case prev of None \<Rightarrow> put_first r (next_of z s) s1 | Some q \<Rightarrow> put_next q (next_of z s) s1)
     in if last_of r s2 = Some z then put_last r prev s2 else s2)"

lemma unlink_mem [simp]:
  "cnt_of r' (unlink_event r z att prev s) = cnt_of r' s" "l_mutex (glist r' (unlink_event r z att prev s)) = l_mutex (glist r' s)"
  "gfix st (unlink_event r z att prev s) = gfix st s" "nevents (unlink_event r z att prev s) = nevents s"
  "e_group (m_events (unlink_event r z att prev s) e) = e_group (m_events s e)"
  by (auto simp: unlink_event_def Let_def split: option.splits)

lemma unlink_frame: "z \<in> E \<Longrightarrow> (\<And>q. prev = Some q \<Longrightarrow> q \<in> E) \<Longrightarrow> frame r E s (unlink_event r z att prev s)"
  by (auto simp: unlink_event_def Let_def intro!: frame_upd split: option.splits)

lemma unlink_owner: "e_owner (m_events (unlink_event r z att prev s) e) = (if e = z then att else e_owner (m_events s e))"
  by (auto simp: unlink_event_def Let_def split: option.splits)

lemma unlink_next: "prev \<noteq> Some z \<Longrightarrow> next_of z (unlink_event r z att prev s) = next_of z s"
  by (auto simp: unlink_event_def Let_def split: option.splits)

lemma scan_take:
  assumes "scan_ok s r A (z # zs) prev pev"
  shows "scan_ok (unlink_event r z att prev s) r A zs prev (next_of z s)"
proof -
  have d: "distinct (A @ z # zs)" and ch: "chain (m_events s) (first_of r s) (A @ z # zs)"
    and la: "last_of r s = Some (last (A @ z # zs))" and p: "prev = (if A = [] then None else Some (last A))"
    using assms by (simp_all add: scan_ok_def)
  let ?t = "unlink_event r z att prev s"
  have zs: "chain (m_events s) (next_of z s) zs" using ch by simp
  have "chain (m_events ?t) (first_of r ?t) (A @ zs)"
  proof (cases "A = []")
    case True
    have "chain (m_events ?t) q zs = chain (m_events s) q zs" for q
      by (rule chain_cong) (simp add: unlink_event_def Let_def p True)
    moreover have "first_of r ?t = next_of z s" by (simp add: unlink_event_def Let_def p True)
    ultimately show ?thesis using zs True by simp
  next
    case False
    have n: "e_next (m_events ?t x) = (if x = last A then next_of z s else e_next (m_events s x))" for x
      by (simp add: unlink_event_def Let_def p False)
    have "chain (m_events ?t) q A = chain (m_events s) q A" for q
      by (rule chain_cong) (use d False n distinct_last_notin_butlast [of A] in auto)
    moreover have "last A \<notin> set zs" using d False by (metis disjoint_iff distinct_append in_set_conv_decomp last_in_set list.set_intros(2))
    then have "chain (m_events ?t) q zs = chain (m_events s) q zs" for q
      by (intro chain_cong) (use n in \<open>auto dest: in_set_butlastD\<close>)
    moreover have "first_of r ?t = first_of r s" by (simp add: unlink_event_def Let_def p False)
    ultimately show ?thesis using ch zs False n by (simp add: chain_end_def)
  qed
  moreover have "A @ zs \<noteq> [] \<longrightarrow> last_of r ?t = Some (last (A @ zs))"
    using la d p by (cases "zs = []"; cases "A = []") (auto simp: unlink_event_def Let_def)
  ultimately show ?thesis using d p zs by (cases zs) (auto simp: scan_ok_def)
qed

lemma unlink_block:
  "\<exists>l. block [set_owner z att, load (next_of z) (\<lambda>n. case prev of None \<Rightarrow> set_first r n | Some q \<Rightarrow> set_next q n),
            whenp (\<lambda>s. last_of r s = Some z) (set_last r prev)] k s
      = (case k (unlink_event r z att prev s) of (l', o') \<Rightarrow> (l @ l', o'))"
  by (cases "k (unlink_event r z att prev s)"; cases prev; cases "last_of r s = Some z")
    (simp_all add: unlink_event_def Let_def prog_defs)

lemma group_scan_run:
  assumes "scan_ok s r A zs prev pev" and "idx < num" and "\<And>e. P e = (e_group (m_events s e) = g)"
  shows "\<exists>l t. group_scan r att g num (length zs) idx prev pev s = (l, Done (take (nat (num - idx)) (filter P zs)) t)
     \<and> (\<exists>pr pv. scan_ok t r (A @ without P (nat (num - idx)) zs) [] pr pv) \<and> frame r (set (A @ zs)) s t
     \<and> cnt_of r t = cnt_of r s \<and> l_mutex (glist r t) = l_mutex (glist r s) \<and> (\<forall>st. gfix st t = gfix st s)
     \<and> (\<forall>e. e_owner (m_events t e) = (if e \<in> set (take (nat (num - idx)) (filter P zs)) then att else e_owner (m_events s e)))"
  using assms
proof (induction zs arbitrary: s A prev pev idx)
  case Nil
  then show ?case by (auto simp: ret_def)
next
  case (Cons z zs)
  obtain m where m: "nat (num - idx) = Suc m" "nat (num - (idx + 1)) = m"
    using Cons.prems(2) by (metis Suc_nat_eq_nat_zadd1 add.commute diff_diff_eq zle_diff1_eq diff_ge_0_iff_ge diff_add_cancel zless_imp_add1_zle)
  have pev: "pev = Some z" using Cons.prems(1) by (simp add: scan_ok_def)
  show ?case
  proof (cases "P z")
    case False
    from Cons.IH [OF scan_pass [OF Cons.prems(1)] Cons.prems(2,3)] show ?thesis
      using False Cons.prems(3) pev m
      by (simp add: deref_def cond_def load_def)
  next
    case True
    let ?t = "unlink_event r z att prev s"
    have sc: "scan_ok ?t r A zs prev (next_of z s)" by (rule scan_take [OF Cons.prems(1)])
    have E: "z \<in> set (A @ z # zs)" "prev = Some q \<Longrightarrow> q \<in> set (A @ z # zs)" for q
      using Cons.prems(1) by (auto simp: scan_ok_def split: if_splits)
    have fr: "frame r (set (A @ z # zs)) s ?t" by (rule unlink_frame [OF E])
    have nz: "prev \<noteq> Some z" using Cons.prems(1) by (auto simp: scan_ok_def split: if_splits)
    define k where "k = (if idx + 1 \<ge> num then ret [z] else load (next_of z) (\<lambda>n.
      bindp (group_scan r att g num (length zs) (idx + 1) prev n) (\<lambda>qs. ret (z # qs))))"
    obtain l where l: "block [set_owner z att, load (next_of z) (\<lambda>n. case prev of None \<Rightarrow> set_first r n | Some q \<Rightarrow> set_next q n),
            whenp (\<lambda>s. last_of r s = Some z) (set_last r prev)] k s = (case k ?t of (l', o') \<Rightarrow> (l @ l', o'))"
      using unlink_block by blast
    have run: "group_scan r att g num (length (z # zs)) idx prev pev s = (case k ?t of (l', o') \<Rightarrow> (l @ l', o'))"
      using True Cons.prems(3) pev l by (simp add: deref_def cond_def k_def)
    have P: "P e = (e_group (m_events ?t e) = g)" for e using Cons.prems(3) by simp
    show ?thesis
    proof (cases "idx + 1 \<ge> num")
      case last: True
      then have "k ?t = ([], Done [z] ?t)" by (simp add: k_def ret_def)
      moreover have "nat (num - idx) = Suc 0" using last Cons.prems(2) by simp
      moreover have "scan_ok ?t r (A @ zs) [] (if A @ zs = [] then None else Some (last (A @ zs))) None" using sc by (auto simp: scan_ok_def)
      ultimately show ?thesis using run True fr by (auto simp: unlink_owner)
    next
      case more: False
      then have "idx + 1 < num" by simp
      from Cons.IH [OF sc this P] obtain l' u where u:
        "group_scan r att g num (length zs) (idx + 1) prev (next_of z s) ?t = (l', Done (take m (filter P zs)) u)"
        "\<exists>pr pv. scan_ok u r (A @ without P m zs) [] pr pv" "frame r (set (A @ zs)) ?t u"
        "cnt_of r u = cnt_of r ?t" "l_mutex (glist r u) = l_mutex (glist r ?t)" "\<forall>st. gfix st u = gfix st ?t"
        "\<forall>e. e_owner (m_events u e) = (if e \<in> set (take m (filter P zs)) then att else e_owner (m_events ?t e))"
        unfolding m by blast
      have "k ?t = (l', Done (z # take m (filter P zs)) u)"
        using more u(1) by (simp add: k_def load_def unlink_next [OF nz] bind_def ret_def)
      moreover have "frame r (set (A @ z # zs)) s u"
        using fr u(3) by (auto simp: frame_def link_eq_def)
      ultimately show ?thesis using run True m(1) u(2,4-7) by (auto simp: unlink_owner)
    qed
  qed
qed

lemma open_nread_done: "\<exists>l t. open_fixin_nread st n s = (l, Done () t) \<and> m_events t = m_events s \<and> glist r t = glist r s
   \<and> frame (ListIn st) E s t \<and> fi_start (f_in (gfix st t)) = fi_start (f_in (gfix st s)) \<and> f_out (gfix st t) = f_out (gfix st s)"
  by (simp add: open_fixin_nread_def prog_defs) (intro frame_upd frame_refl; simp)

lemma group_take_run:
  assumes ev: "ev_list s (ListIn st) xs" and num: "1 \<le> num" and P: "\<And>e. P e = (e_group (m_events s e) = g)"
  shows "\<exists>l t. group_take st att g num s = (l, Done (take (nat num) (filter P xs)) t)
     \<and> ev_list t (ListIn st) (without P (nat num) xs) \<and> frame (ListIn st) (set xs) s t
     \<and> \<not> l_mutex (glist (ListIn st) t) \<and> fi_first (f_in (gfix st t)) = None
     \<and> fi_start (f_in (gfix st t)) = fi_start (f_in (gfix st s)) \<and> f_out (gfix st t) = f_out (gfix st s)
     \<and> (\<forall>e. e_owner (m_events t e) = (if e \<in> set (take (nat num) (filter P xs)) then att else e_owner (m_events s e)))"
proof -
  let ?r = "ListIn st" and ?evs = "take (nat num) (filter P xs)" and ?rest = "without P (nat num) xs"
  obtain l1 u where u: "open_fixin_nread st num s = (l1, Done () u)" "m_events u = m_events s" "glist ?r u = glist ?r s"
    "frame ?r (set xs) s u" "fi_start (f_in (gfix st u)) = fi_start (f_in (gfix st s))" "f_out (gfix st u) = f_out (gfix st s)"
    using open_nread_done [of st num s ?r "set xs"] by blast
  have sc: "scan_ok u ?r [] xs None (first_of ?r u)"
    using ev u(2,3) by (cases xs) (auto simp: scan_ok_def ev_list_def)
  have "P e = (e_group (m_events u e) = g)" for e using P u(2) by simp
  from group_scan_run [OF sc _ this, of 0 num att] num obtain l2 v pr pv where
    v: "group_scan ?r att g num (length xs) 0 None (first_of ?r u) u = (l2, Done ?evs v)"
    and sv: "scan_ok v ?r ?rest [] pr pv" and fv: "frame ?r (set xs) u v"
    and cv: "cnt_of ?r v = cnt_of ?r u" and gv: "\<forall>st. gfix st v = gfix st u"
    and ov: "\<forall>e. e_owner (m_events v e) = (if e \<in> set ?evs then att else e_owner (m_events u e))"
    by auto
  let ?t = "upd_list ?r (l_mutex_update (\<lambda>_. False)) (upd_fixin st (fi_first_update (\<lambda>_. None))
     (upd_list ?r (l_cnt_update (\<lambda>c. c + - int (length ?evs))) v))"
  have c: "cnt_of ?r u = int (length xs)" using ev u(3) by (simp add: ev_list_def)
  have "\<exists>l. group_take st att g num s = (l, Done ?evs ?t)"
    using u(1) v c by (simp add: group_take_def Let_def andthen_def bind_def load_def block.simps store_def et_llist_unlock_def ret_def)
  moreover have "ev_list ?t ?r ?rest"
  proof -
    have d: "distinct xs" using ev by (simp add: ev_list_def)
    have "int (length xs) - int (length ?evs) = int (length ?rest)" using without_length [of P "nat num" xs] by linarith
    moreover have "e_owner (m_events v e) = ET_SYS" if "e \<in> set ?rest" for e
      using that ov u(2) ev without_set [OF d, of P "nat num"] by (simp add: ev_list_def)
    ultimately show ?thesis using sv cv c by (auto simp: ev_list_def scan_ok_def)
  qed
  moreover have "frame ?r (set xs) s ?t" using frame_trans [OF u(4) fv] by (intro frame_upd) simp_all
  ultimately show ?thesis using gv u(2,5,6) ov by auto
qed

end
