(* ===== verification/Et_Circulate.thy ===== *)
theory Et_Circulate
  imports Et_Event Et_ConductorRound Et_SingleCalls Et_GroupRead
begin

text \<open>
  The circulation of events: in a system at rest every event of the system is in exactly one list and
  belongs to the system, or it is in no list and belongs to an attachment; every list is in good order
  and no mutex is taken.  What one call does to a list, and what the calls do to an event of the
  attachment, keep this.
\<close>

section \<open>Events at rest\<close>

definition fix_idle :: "et_mem \<Rightarrow> bool" where
  "fix_idle s \<longleftrightarrow> (\<forall>st. fi_first (f_in (gfix st s)) = None \<and> fi_start (f_in (gfix st s)) = 0
     \<and> fo_start (f_out (gfix st s)) = 0)"

definition circulates :: "et_mem \<Rightarrow> (listref \<Rightarrow> nat list) \<Rightarrow> bool" where
  "circulates s L \<longleftrightarrow> holds s L {} \<and> unlocked s \<and> fix_idle s
     \<and> (\<forall>e. int e < nevents s \<longrightarrow> pri_of e s \<in> {ET_LOW, ET_HIGH}
          \<and> (e_owner (m_events s e) = ET_SYS \<longleftrightarrow> (\<exists>r. e \<in> set (L r))))"

definition circulating :: "et_mem \<Rightarrow> bool" where
  "circulating s \<longleftrightarrow> circulates s (content s)"

lemma list_ok_content: "list_ok s r xs \<Longrightarrow> content s r = xs"
  by (simp add: list_ok_def ev_list_content)

lemma circulates_content: "circulates s L \<Longrightarrow> L = content s"
  by (rule ext) (auto simp: circulates_def holds_def dest: list_ok_content [symmetric])

lemma circulating_iff: "circulating s \<longleftrightarrow> (\<exists>L. circulates s L)"
  using circulates_content unfolding circulating_def by metis

lemma circulatesD:
  assumes "circulates s L"
  shows "list_ok s r (L r)" "\<not> l_mutex (glist r s)" "r \<noteq> q \<Longrightarrow> set (L r) \<inter> set (L q) = {}" "0 < nevents s"
    "int e < nevents s \<Longrightarrow> pri_of e s \<in> {ET_LOW, ET_HIGH}"
    "int e < nevents s \<Longrightarrow> e_owner (m_events s e) = ET_SYS \<longleftrightarrow> (\<exists>r. e \<in> set (L r))"
    "e \<in> set (L r) \<Longrightarrow> int e < nevents s \<and> e_owner (m_events s e) = ET_SYS"
  using assms by (auto simp: circulates_def holds_def unlocked_def list_ok_def ev_list_def)

lemma circulates_in_ok: "circulates s L \<Longrightarrow> in_ok s st (L (ListIn st))"
  using circulatesD(1) [of s L "ListIn st"]
  by (auto simp: circulates_def in_ok_def list_ok_def unlocked_def fix_idle_def)

lemma circulates_out_ok: "circulates s L \<Longrightarrow> out_ok s st (L (ListOut st))"
  using circulatesD(1) [of s L "ListOut st"]
  by (auto simp: circulates_def out_ok_def out_list_def Let_def list_ok_def ev_list_def unlocked_def fix_idle_def)

section \<open>What changes\<close>

text \<open>A call changes the list \<open>r\<close>, the repair record of its station, and the events of the list and \<open>E\<close>.\<close>

lemma circulates_list:
  assumes c: "circulates s L" and fr: "frame r (set (L r) \<union> E) s t" and ok: "list_ok t r zs"
    and E: "\<And>e. e \<in> E \<Longrightarrow> int e < nevents s \<and> e_owner (m_events s e) \<noteq> ET_SYS"
    and zs: "set zs \<subseteq> set (L r) \<union> E"
    and own: "\<And>e. e \<in> set (L r) \<union> E \<Longrightarrow> e \<notin> set zs \<Longrightarrow> e_owner (m_events t e) \<noteq> ET_SYS"
    and fx: "\<not> l_mutex (glist r t)" "fi_first (f_in (gfix (stat_of r) t)) = None"
      "fi_start (f_in (gfix (stat_of r) t)) = 0" "fo_start (f_out (gfix (stat_of r) t)) = 0"
  shows "circulates t (L(r := zs))"
proof -
  note D = circulatesD [OF c]
  have nE: "e \<notin> set (L q)" if "e \<in> E" for e q using E [OF that] D(6) by blast
  have n: "nevents t = nevents s" by (rule frame_nevents [OF fr])
  have oth: "list_ok t q (L q)" if "q \<noteq> r" for q
    by (rule list_ok_frame [OF fr that _ D(1)]) (use D(3) [OF that] nE in blast)
  have hold: "holds t (L(r := zs)) {}"
    unfolding holds_def using oth ok D(3,4) zs nE n by (auto simp: fun_upd_def) blast+
  have un: "unlocked t" using c fr fx(1) by (auto simp: unlocked_def circulates_def frame_def)
  have "fix_idle t" unfolding fix_idle_def
  proof
    fix st
    show "fi_first (f_in (gfix st t)) = None \<and> fi_start (f_in (gfix st t)) = 0 \<and> fo_start (f_out (gfix st t)) = 0"
      using fx(2-4) c fr by (cases "st = stat_of r") (auto simp: circulates_def fix_idle_def frame_def)
  qed
  moreover have "pri_of e t \<in> {ET_LOW, ET_HIGH} \<and> (e_owner (m_events t e) = ET_SYS \<longleftrightarrow> (\<exists>q. e \<in> set ((L(r := zs)) q)))"
    if e: "int e < nevents t" for e
  proof -
    have p: "pri_of e t \<in> {ET_LOW, ET_HIGH}" using D(5) e n by (simp add: frame_pri [OF fr])
    have "e_owner (m_events t e) = ET_SYS \<longleftrightarrow> (\<exists>q. e \<in> set ((L(r := zs)) q))"
    proof (cases "e \<in> set (L r) \<union> E")
      case True
      have "e \<notin> set (L q)" if "q \<noteq> r" for q using True nE D(3) [OF that] by blast
      moreover have "e \<in> set zs \<Longrightarrow> e_owner (m_events t e) = ET_SYS" using ok by (simp add: list_ok_def ev_list_def)
      ultimately show ?thesis using own [OF True] by (auto split: if_splits)
    next
      case False
      then have "m_events t e = m_events s e" using fr by (simp add: frame_def)
      moreover have "(\<exists>q. e \<in> set ((L(r := zs)) q)) \<longleftrightarrow> (\<exists>q. e \<in> set (L q))" using False zs by auto
      ultimately show ?thesis using D(6) e n by simp
    qed
    with p show ?thesis ..
  qed
  ultimately show ?thesis using hold un by (simp add: circulates_def)
qed

text \<open>A list does not see more of the events in it than their links, owners and priorities.\<close>

definition event_view :: "et_event \<Rightarrow> eptr \<times> int \<times> int" where
  "event_view p = (e_next p, e_owner p, e_priority p)"

lemma list_ok_view:
  assumes ok: "list_ok s r xs" and g: "glist r t = glist r s" "nevents t = nevents s"
    and e: "\<And>e. e \<in> set xs \<Longrightarrow> event_view (m_events t e) = event_view (m_events s e)"
  shows "list_ok t r xs"
proof -
  have v: "e_next (m_events t e) = e_next (m_events s e)" "e_owner (m_events t e) = e_owner (m_events s e)"
    "pri_of e t = pri_of e s" if "e \<in> set xs" for e using e [OF that] by (simp_all add: event_view_def)
  have "chain (m_events t) p xs = chain (m_events s) p xs" for p
    by (rule chain_cong) (use v(1) in \<open>auto dest: in_set_butlastD\<close>)
  moreover have "filter (high (m_events t)) xs = filter (high (m_events s)) xs"
    by (rule filter_cong) (use v(3) in auto)
  moreover have "pri_sorted (high (m_events s)) xs \<Longrightarrow> pri_sorted (high (m_events t)) xs"
    unfolding pri_sorted_def by (erule sorted_wrt_mono_rel [rotated]) (use v(3) in auto)
  ultimately show ?thesis using ok v(2,3) unfolding list_ok_def ev_list_def g highs_def by auto
qed

text \<open>What is not in a list is changed, but keeps its owner and a legal priority.\<close>

lemma circulates_view:
  assumes c: "circulates s L" and g: "\<And>r. glist r t = glist r s" "\<And>st. gfix st t = gfix st s" "nevents t = nevents s"
    and e: "\<And>e. event_view (m_events t e) = event_view (m_events s e)
      \<or> e_owner (m_events s e) \<noteq> ET_SYS \<and> e_owner (m_events t e) = e_owner (m_events s e) \<and> pri_of e t \<in> {ET_LOW, ET_HIGH}"
  shows "circulates t L"
proof -
  note D = circulatesD [OF c]
  have "list_ok t r (L r)" for r
    by (rule list_ok_view [OF D(1) g(1,3)]) (use D(7) e in blast)
  moreover have "e_owner (m_events t e) = e_owner (m_events s e)" for e using e [of e] by (auto simp: event_view_def)
  moreover have "pri_of e t \<in> {ET_LOW, ET_HIGH}" if "int e < nevents s" for e
    using e [of e] D(5) [OF that] by (auto simp: event_view_def)
  ultimately show ?thesis
    using D(3,4,6) c g by (auto simp: circulates_def holds_def unlocked_def fix_idle_def)
qed

section \<open>Programs\<close>

text \<open>From \<open>P\<close> the program comes to \<open>Q\<close>, or does not return; it follows no null pointer.\<close>

definition runs :: "('s \<Rightarrow> bool) \<Rightarrow> ('s, 'a) prog \<Rightarrow> ('a \<Rightarrow> 's \<Rightarrow> bool) \<Rightarrow> bool" where
  "runs P m Q \<longleftrightarrow> (\<forall>s. P s \<longrightarrow> (case snd (m s) of Done a t \<Rightarrow> Q a t | Fault \<Rightarrow> False | _ \<Rightarrow> True))"

named_theorems runs_rules \<open>structural rules of the triple without crashes\<close>

lemma runs_ret [runs_rules]: "(\<And>s. P s \<Longrightarrow> Q a s) \<Longrightarrow> runs P (ret a) Q"
  by (simp add: runs_def ret_def)

lemma runs_blocked [runs_rules]: "runs P blocked Q"
  by (simp add: runs_def blocked_def)

lemma runs_exited [runs_rules]: "runs P exited Q"
  by (simp add: runs_def exited_def)

lemma runs_store [runs_rules]: "(\<And>s. P s \<Longrightarrow> Q () (f s)) \<Longrightarrow> runs P (store f) Q"
  by (simp add: runs_def store_def)

lemma runs_load [runs_rules]: "(\<And>x. runs (\<lambda>s. P s \<and> f s = x) (k x) Q) \<Longrightarrow> runs P (load f k) Q"
  by (simp add: runs_def load_def)

lemma runs_bind: "runs P m R \<Longrightarrow> (\<And>a. runs (R a) (k a) Q) \<Longrightarrow> runs P (bindp m k) Q"
  by (fastforce simp: runs_def bind_def split: prod.splits outcome.splits)

lemma runs_andthen: "runs P m (\<lambda>_. R) \<Longrightarrow> runs R n Q \<Longrightarrow> runs P (andthen m n) Q"
  unfolding andthen_def by (rule runs_bind)

lemma runs_cond [runs_rules]: "runs (\<lambda>s. P s \<and> b s) m Q \<Longrightarrow> runs (\<lambda>s. P s \<and> \<not> b s) n Q \<Longrightarrow> runs P (cond b m n) Q"
  by (auto simp: runs_def cond_def)

lemma runs_when [runs_rules]: "runs (\<lambda>s. P s \<and> b s) m (\<lambda>_. Q) \<Longrightarrow> (\<And>s. P s \<Longrightarrow> \<not> b s \<Longrightarrow> Q s) \<Longrightarrow> runs P (whenp b m) (\<lambda>_. Q)"
  by (auto simp: runs_def cond_def whenp_def ret_def)

lemma runs_pre: "runs P' m Q \<Longrightarrow> (\<And>s. P s \<Longrightarrow> P' s) \<Longrightarrow> runs P m Q"
  by (auto simp: runs_def)

lemma runs_post: "runs P m Q' \<Longrightarrow> (\<And>a s. Q' a s \<Longrightarrow> Q a s) \<Longrightarrow> runs P m Q"
  by (fastforce simp: runs_def split: outcome.splits)

lemma runs_at: "(\<And>s0. P s0 \<Longrightarrow> runs (\<lambda>s. s = s0) m Q) \<Longrightarrow> runs P m Q"
  by (auto simp: runs_def)

lemma runs_chl: "chl P m Q C \<Longrightarrow> runs P m Q"
  by (fastforce simp: runs_def chl_def)

lemma runs_done: "runs P m Q \<Longrightarrow> P s \<Longrightarrow> snd (m s) = Done a t \<Longrightarrow> Q a t"
  by (force simp: runs_def)

text \<open>A statement that keeps \<open>P\<close>, before the rest.\<close>

lemma runs_keep [runs_rules]:
  "(\<And>s. P s \<Longrightarrow> P (f s)) \<Longrightarrow> runs P n Q \<Longrightarrow> runs P (andthen (store f) n) Q"
  by (rule runs_andthen) (auto intro: runs_store)

section \<open>Reading\<close>

text \<open>The attachments and the configuration are as before, but for statistics and flags.\<close>

definition same_atts :: "et_mem \<Rightarrow> et_mem \<Rightarrow> bool" where
  "same_atts s t \<longleftrightarrow> (\<forall>a. a_stat (sy_attach (m_sys t) a) = a_stat (sy_attach (m_sys s) a)
     \<and> a_status (sy_attach (m_sys t) a) = a_status (sy_attach (m_sys s) a)) \<and> nevents t = nevents s"

definition same_owners :: "nat set \<Rightarrow> et_mem \<Rightarrow> et_mem \<Rightarrow> bool" where
  "same_owners E s t \<longleftrightarrow> (\<forall>e. e \<notin> E \<longrightarrow> e_owner (m_events t e) = e_owner (m_events s e))"

lemma same_atts_frame: "frame r E s t \<Longrightarrow> same_atts s t"
  by (simp add: same_atts_def frame_def nevents_def)

text \<open>\<open>att\<close> has taken \<open>es\<close> from the input list of \<open>st\<close>.\<close>

definition taken :: "et_mem \<Rightarrow> (listref \<Rightarrow> nat list) \<Rightarrow> et_stat_id \<Rightarrow> et_att_id \<Rightarrow> nat list \<Rightarrow> et_mem \<Rightarrow> bool" where
  "taken s L st att es t \<longleftrightarrow> (\<exists>ys. set (L (ListIn st)) = set es \<union> set ys \<and> circulates t (L(ListIn st := ys)))
     \<and> (\<forall>e \<in> set es. e_owner (m_events t e) = att) \<and> same_owners (set es) s t \<and> same_atts s t"

lemma taken_none:
  assumes c: "circulates s L" and v: "circulates t L" "m_events t = m_events s" "same_atts s t"
  shows "taken s L st att [] t"
  using assms by (auto simp: taken_def same_owners_def intro!: exI [of _ "L (ListIn st)"])

lemma taken_list:
  assumes c: "circulates s L" and att: "0 \<le> att" and xs: "set (L (ListIn st)) = set es \<union> set ys" "set es \<inter> set ys = {}"
    and srt: "\<And>R. sorted_wrt R (L (ListIn st)) \<Longrightarrow> sorted_wrt R ys"
    and ok: "in_ok t st ys" and rest: "read_rest s st (L (ListIn st)) es att t"
  shows "taken s L st att es t"
proof -
  have fr: "frame (ListIn st) (set (L (ListIn st))) s t" and f: "f_out (gfix st t) = f_out (gfix st s)"
    "fi_start (f_in (gfix st t)) = 0" and own: "\<forall>e \<in> set es. e_owner (m_events t e) = att"
    using rest by (simp_all add: read_rest_def)
  note D = circulatesD [OF c]
  have lo: "list_ok t (ListIn st) ys"
  proof -
    have hi: "high (m_events t) = high (m_events s)" by (rule frame_high [OF fr])
    show ?thesis
      using ok D(1) [of "ListIn st"] xs frame_nevents [OF fr] srt
      by (auto simp: list_ok_def in_ok_def hi frame_pri [OF fr] pri_sorted_def)
  qed
  have "circulates t (L(ListIn st := ys))"
  proof (rule circulates_list [OF c _ lo, where E = "{}"])
    show "e_owner (m_events t e) \<noteq> ET_SYS" if "e \<in> set (L (ListIn st)) \<union> {}" "e \<notin> set ys" for e
      using that xs own att by auto
    show "fo_start (f_out (gfix (stat_of (ListIn st)) t)) = 0" using c f(1) by (simp add: circulates_def fix_idle_def)
  qed (use fr ok f xs in \<open>auto simp: in_ok_def\<close>)
  moreover have "same_owners (set es) s t"
    unfolding same_owners_def
  proof (intro allI impI)
    fix e assume e: "e \<notin> set es"
    show "e_owner (m_events t e) = e_owner (m_events s e)"
    proof (cases "e \<in> set ys")
      case True
      then show ?thesis using ok D(7) [of e "ListIn st"] xs by (simp add: in_ok_def ev_list_def)
    next
      case False
      then show ?thesis using e xs fr by (simp add: frame_def)
    qed
  qed
  ultimately show ?thesis using xs own same_atts_frame [OF fr] by (auto simp: taken_def)
qed

lemma taken_head:
  assumes c: "circulates s L" and att: "0 \<le> att" and xs: "L (ListIn st) = es @ ys"
    and ok: "in_ok t st ys" and rest: "read_rest s st (L (ListIn st)) es att t"
  shows "taken s L st att es t"
  by (rule taken_list [OF c att _ _ _ ok rest])
    (use xs circulatesD(1) [OF c, of "ListIn st"] in \<open>auto simp: sorted_wrt_append list_ok_def ev_list_def\<close>)

abbreviation legal_mode :: "int \<Rightarrow> bool" where
  "legal_mode mode \<equiv> mode = ET_SLEEP \<or> mode = ET_TIMED \<or> mode = ET_ASYNC"

text \<open>Reading begins in vain when the list is empty, or when the attachment is told to quit.\<close>

lemma read_begin_vain:
  assumes c: "circulates s L" and m: "legal_mode mode"
    and v: "L (ListIn st) = [] \<or> mode = ET_ASYNC \<and> quitting att s"
  shows "runs (\<lambda>t. t = s) (read_begin st mode att []) (\<lambda>c t. c \<noteq> ET_OK
     \<and> (\<forall>r. glist r t = glist r s) \<and> (\<forall>st. gfix st t = gfix st s) \<and> m_events t = m_events s \<and> same_atts s t)"
proof -
  have mx: "\<not> l_mutex (glist (ListIn st) s)" using circulatesD(2) [OF c] .
  have cn: "L (ListIn st) = [] \<Longrightarrow> cnt_of (ListIn st) s = 0" using circulatesD(1) [OF c, of "ListIn st"] by (simp add: list_ok_def ev_list_def)
  have id: "l_mutex_update (\<lambda>_. False) (l_mutex_update (\<lambda>_. True) (glist (ListIn st) s)) = glist (ListIn st) s"
    using mx by (cases "glist (ListIn st) s") simp
  show ?thesis
    using m v mx cn id
    by (auto simp: runs_def read_begin_def Let_def prog_defs et_llist_lock_def et_llist_unlock_def count_hist_def
        quit_read_def same_atts_def)
qed

lemma vain_taken:
  assumes c: "circulates s L" and v: "\<forall>r. glist r t = glist r s" "\<forall>st. gfix st t = gfix st s" "m_events t = m_events s" "same_atts s t"
  shows "taken s L st att [] t"
  by (rule taken_none [OF c circulates_view [OF c] v(3,4)]) (use v in \<open>auto simp: same_atts_def\<close>)

text \<open>What a read that returns has taken; without success it has taken nothing.\<close>

definition read_result :: "et_mem \<Rightarrow> (listref \<Rightarrow> nat list) \<Rightarrow> et_stat_id \<Rightarrow> et_att_id \<Rightarrow> int \<times> nat list \<Rightarrow> et_mem \<Rightarrow> bool" where
  "read_result s L st att r t \<longleftrightarrow> taken s L st att (snd r) t \<and> (fst r \<noteq> ET_OK \<longrightarrow> snd r = [])"

lemma bind_vain:
  assumes c: "circulates s L" and m: "legal_mode mode" and v: "L (ListIn st) = [] \<or> mode = ET_ASYNC \<and> quitting att s"
  shows "runs (\<lambda>t. t = s) (bindp (read_begin st mode att []) (\<lambda>c. if c \<noteq> ET_OK then ret (c, []) else k)) (read_result s L st att)"
proof (rule runs_bind [OF read_begin_vain [OF c m v]])
  fix c'
  show "runs (\<lambda>t. c' \<noteq> ET_OK \<and> (\<forall>r. glist r t = glist r s) \<and> (\<forall>st. gfix st t = gfix st s) \<and> m_events t = m_events s \<and> same_atts s t)
     (if c' \<noteq> ET_OK then ret (c', []) else k) (read_result s L st att)"
  proof (cases "c' = ET_OK")
    case True
    then show ?thesis by (simp add: runs_def)
  next
    case False
    then show ?thesis using vain_taken [OF c] by (auto simp: read_result_def intro!: runs_ret)
  qed
qed

lemma nread_result:
  assumes c: "circulates s L" and att: "0 \<le> att" and m: "legal_mode mode"
  shows "runs (\<lambda>t. t = s) (et_station_nread st mode att [] num) (read_result s L st att)"
proof (cases "num < 1")
  case True
  have "taken s L st att [] s" by (rule vain_taken [OF c]) (simp_all add: same_atts_def)
  then show ?thesis using True by (auto simp: et_station_nread_def read_result_def intro!: runs_ret)
next
  case num: False
  show ?thesis
  proof (cases "L (ListIn st) = [] \<or> mode = ET_ASYNC \<and> quitting att s")
    case True
    then show ?thesis using bind_vain [OF c m True] num by (simp add: et_station_nread_def Let_def)
  next
    case False
    let ?xs = "L (ListIn st)" and ?n = "min (nat num) (length (L (ListIn st)))"
    have "chl (\<lambda>t. t = s) (et_station_nread st mode att [] num)
       (\<lambda>c t. c = (ET_OK, take ?n ?xs) \<and> in_ok t st (drop ?n ?xs) \<and> read_rest s st ?xs (take ?n ?xs) att t)
       (read_crash s st ?xs ?n att)"
      by (rule et_station_nread_chl [OF circulates_in_ok [OF c]]) (use False num m in auto)
    then show ?thesis
      by (rule runs_post [OF runs_chl])
        (use taken_head [OF c att append_take_drop_id [of ?n ?xs, symmetric]] in \<open>simp add: read_result_def\<close>)
  qed
qed

lemma read_result_one:
  assumes c: "circulates s L" and att: "0 \<le> att" and m: "legal_mode mode"
  shows "runs (\<lambda>t. t = s) (et_station_read st mode att []) (read_result s L st att)"
proof (cases "L (ListIn st) = [] \<or> mode = ET_ASYNC \<and> quitting att s")
  case True
  then show ?thesis using bind_vain [OF c m True] by (simp add: et_station_read_def Let_def)
next
  case False
  let ?xs = "L (ListIn st)"
  have "chl (\<lambda>t. t = s) (et_station_read st mode att [])
     (\<lambda>c t. c = (ET_OK, [hd ?xs]) \<and> in_ok t st (tl ?xs) \<and> read_rest s st ?xs [hd ?xs] att t)
     (read_crash s st ?xs 1 att)"
    by (rule et_station_read_chl [OF circulates_in_ok [OF c]]) (use False m in auto)
  moreover have "?xs = [hd ?xs] @ tl ?xs" using False by simp
  note T = taken_head [OF c att this]
  ultimately show ?thesis
    by (elim runs_post [OF runs_chl]) (simp add: read_result_def T)
qed

text \<open>Reading the events of a group.\<close>

lemma group_take_result:
  assumes c: "circulates s L" and att: "0 \<le> att" and num: "1 \<le> num"
    and b: "ev_list u (ListIn st) (L (ListIn st)) \<and> read_rest s st (L (ListIn st)) [] att u"
  shows "runs (\<lambda>t. t = u) (group_take st att g num) (taken s L st att)"
proof -
  let ?xs = "L (ListIn st)" and ?P = "\<lambda>e. e_group (m_events u e) = g"
  obtain l t where t: "group_take st att g num u = (l, Done (take (nat num) (filter ?P ?xs)) t)"
      "ev_list t (ListIn st) (without ?P (nat num) ?xs)" "frame (ListIn st) (set ?xs) u t"
      "\<not> l_mutex (glist (ListIn st) t)" "fi_first (f_in (gfix st t)) = None"
      "fi_start (f_in (gfix st t)) = fi_start (f_in (gfix st u))" "f_out (gfix st t) = f_out (gfix st u)"
      "\<forall>e. e_owner (m_events t e) = (if e \<in> set (take (nat num) (filter ?P ?xs)) then att else e_owner (m_events u e))"
    using group_take_run [of u st ?xs num ?P g att] b num by blast
  have d: "distinct ?xs" using b by (simp add: ev_list_def)
  have "in_ok t st (without ?P (nat num) ?xs)" using t b by (simp add: in_ok_def read_rest_def)
  moreover have "read_rest s st ?xs (take (nat num) (filter ?P ?xs)) att t"
    using t b frame_trans [of "ListIn st" "set ?xs" s u t] by (auto simp: read_rest_def)
  ultimately have "taken s L st att (take (nat num) (filter ?P ?xs)) t"
    by (intro taken_list [OF c att]) (auto simp: without_set [OF d] without_sorted dest: in_set_takeD)
  then show ?thesis by (simp add: runs_def t(1))
qed

lemma nread_group_result:
  assumes c: "circulates s L" and att: "0 \<le> att" and m: "legal_mode mode"
  shows "runs (\<lambda>t. t = s) (et_station_nread_group st mode att [] num g) (read_result s L st att)"
proof (cases "num < 1")
  case True
  have "taken s L st att [] s" by (rule vain_taken [OF c]) (simp_all add: same_atts_def)
  then show ?thesis using True by (auto simp: et_station_nread_group_def read_result_def intro!: runs_ret)
next
  case num: False
  let ?xs = "L (ListIn st)"
  have cn: "cnt_of (ListIn st) u = int (length ?xs)" if "ev_list u (ListIn st) ?xs" for u using that by (simp add: ev_list_def)
  have take: "runs (\<lambda>t. t = u) (load (\<lambda>s. if num > cnt_of (ListIn st) s then cnt_of (ListIn st) s else num) (\<lambda>n. bindp (group_take st att g n) (k n)))
      (read_result s L st att)"
    if b: "ev_list u (ListIn st) ?xs \<and> read_rest s st ?xs [] att u" and ne: "?xs \<noteq> []"
      and k: "\<And>evs n. runs (taken s L st att evs) (k n evs) (read_result s L st att)" for u k
  proof -
    let ?n = "if num > cnt_of (ListIn st) u then cnt_of (ListIn st) u else num"
    have "1 \<le> ?n" using num ne cn b by (cases ?xs) auto
    from runs_bind [OF group_take_result [OF c att this b] k]
    have "runs (\<lambda>t. t = u) (bindp (group_take st att g ?n) (k ?n)) (read_result s L st att)" .
    then show ?thesis by (simp add: runs_def load_def)
  qed
  let ?I = "\<lambda>u. ev_list u (ListIn st) ?xs \<and> read_rest s st ?xs [] att u"
  have lock: "runs (\<lambda>t. t = s) (et_llist_lock (ListIn st)) (\<lambda>_. ?I)"
    using circulates_in_ok [OF c, of st]
    by (auto simp: et_llist_lock_def in_ok_def ev_list_def read_rest_def intro!: runs_cond runs_blocked runs_store frame_upd)
  have hist: "runs ?I (count_hist st) (\<lambda>_. ?I)"
    by (auto simp: count_hist_def ev_list_def read_rest_def frame_def intro!: runs_when runs_load runs_store)
  show ?thesis
  proof (cases "mode = ET_ASYNC")
    case async: True
    then have eq: "et_station_nread_group st mode att [] num g = bindp (read_begin st mode att []) (\<lambda>c. if c \<noteq> ET_OK then ret (c, [])
        else load (\<lambda>s. if num > cnt_of (ListIn st) s then cnt_of (ListIn st) s else num) (\<lambda>n.
          bindp (group_take st att g n) (\<lambda>evs. ret (ET_OK, evs))))"
      using num by (simp add: et_station_nread_group_def Let_def)
    show ?thesis
    proof (cases "?xs = [] \<or> quitting att s")
      case True
      then show ?thesis unfolding eq by (intro bind_vain [OF c m]) (use async in auto)
    next
      case False
      show ?thesis unfolding eq
      proof (rule runs_bind)
        show "runs (\<lambda>t. t = s) (read_begin st mode att []) (\<lambda>c u. c = ET_OK \<and> ?I u)"
          by (rule runs_post [OF runs_chl [OF read_begin_chl [OF circulates_in_ok [OF c], where n = 1]]])
            (use False async in auto)
        have k: "runs (taken s L st att evs) (ret (ET_OK, evs)) (read_result s L st att)" for evs
          by (rule runs_ret) (simp add: read_result_def)
        show "runs (\<lambda>u. a = ET_OK \<and> ?I u) (if a \<noteq> ET_OK then ret (a, [])
          else load (\<lambda>s. if num > cnt_of (ListIn st) s then cnt_of (ListIn st) s else num) (\<lambda>n.
            bindp (group_take st att g n) (\<lambda>evs. ret (ET_OK, evs)))) (read_result s L st att)" for a
          using take [OF _ _ k] False by (cases "a = ET_OK") (auto intro: runs_at simp: runs_def [of "\<lambda>u. False"])
      qed
    qed
  next
    case False
    let ?timed = "mode = ET_TIMED"
    have eq: "et_station_nread_group st mode att [] num g = andthen (et_llist_lock (ListIn st)) (andthen (count_hist st)
        (group_loop ?timed st att g num True []))"
      using num m False by (auto simp: et_station_nread_group_def Let_def block.simps)
    have loop: "runs (\<lambda>t. t = u) (group_loop ?timed st att g num True []) (read_result s L st att)" if b: "?I u" for u
    proof (cases "?xs = []")
      case True
      then have "cnt_of (ListIn st) u = 0" using b by (simp add: ev_list_def)
      then show ?thesis by (simp add: runs_def cond_def prog_defs Let_def)
    next
      case ne: False
      have k: "runs (taken s L st att evs) (if evs = [] then andthen (et_llist_lock (ListIn st)) (group_loop ?timed st att g n False [])
          else ret (ET_OK, evs)) (read_result s L st att)" for evs n
      proof (cases "evs = []")
        case True
        have "runs P (andthen (et_llist_lock (ListIn st)) (group_loop ?timed st att g n False [])) Q" for P Q
          by (simp add: runs_def prog_defs et_llist_lock_def)
        then show ?thesis using True by simp
      next
        case False
        then show ?thesis by (auto simp: read_result_def intro!: runs_ret)
      qed
      have c1: "\<not> cnt_of (ListIn st) u < 1" using b ne by (cases ?xs) (auto simp: ev_list_def)
      have "runs (\<lambda>t. t = u) (load (\<lambda>s. if num > cnt_of (ListIn st) s then cnt_of (ListIn st) s else num) (\<lambda>n.
          bindp (group_take st att g n) (\<lambda>evs. if evs = [] then andthen (et_llist_lock (ListIn st)) (group_loop ?timed st att g n False [])
          else ret (ET_OK, evs)))) (read_result s L st att)"
        by (rule take [OF b ne k])
      then show ?thesis using c1 by (simp add: runs_def cond_def Let_def)
    qed
    show ?thesis unfolding eq
      by (rule runs_andthen [OF lock runs_andthen [OF hist]]) (rule runs_at, erule loop)
  qed
qed

section \<open>Writing\<close>

text \<open>\<open>att\<close> has given \<open>es\<close> to the list \<open>r\<close>.\<close>

definition given :: "et_mem \<Rightarrow> (listref \<Rightarrow> nat list) \<Rightarrow> listref \<Rightarrow> nat list \<Rightarrow> et_mem \<Rightarrow> bool" where
  "given s L r es t \<longleftrightarrow> (\<exists>zs. set zs = set (L r) \<union> set es \<and> circulates t (L(r := zs)))
     \<and> same_owners (set es) s t \<and> same_atts s t"

definition held :: "et_mem \<Rightarrow> et_att_id \<Rightarrow> nat list \<Rightarrow> bool" where
  "held s att es \<longleftrightarrow> 0 \<le> att \<and> distinct es \<and> (\<forall>e \<in> set es. int e < nevents s \<and> e_owner (m_events s e) = att)"

lemma held_free:
  assumes "circulates s L" and "held s att es"
  shows "set (L r) \<inter> set es = {}" "e \<in> set es \<Longrightarrow> int e < nevents s \<and> e_owner (m_events s e) \<noteq> ET_SYS"
    "e \<in> set es \<Longrightarrow> pri_of e s \<in> {ET_LOW, ET_HIGH}"
proof -
  have 2: "int e < nevents s \<and> e_owner (m_events s e) \<noteq> ET_SYS" if "e \<in> set es" for e using assms(2) that by (auto simp: held_def)
  then show "set (L r) \<inter> set es = {}" using circulatesD(7) [OF assms(1)] by blast
  show "e \<in> set es \<Longrightarrow> int e < nevents s \<and> e_owner (m_events s e) \<noteq> ET_SYS" by (rule 2)
  show "e \<in> set es \<Longrightarrow> pri_of e s \<in> {ET_LOW, ET_HIGH}" using 2 circulatesD(5) [OF assms(1)] by blast
qed

text \<open>There is always room for the events of an attachment.\<close>

lemma held_room:
  assumes c: "circulates s L" and h: "held s att es"
  shows "int (length (L r) + length es) \<le> nevents s"
proof -
  note D = circulatesD [OF c]
  have "distinct (L r @ es)" using D(1) [of r] h held_free(1) [OF c h] by (auto simp: list_ok_def ev_list_def held_def)
  moreover have "set (L r @ es) \<subseteq> {..<nat (nevents s)}"
    using D(7) h by (auto simp: held_def zless_nat_eq_int_zless)
  ultimately have "length (L r @ es) \<le> nat (nevents s)"
    by (metis card_lessThan card_mono distinct_card finite_lessThan)
  then show ?thesis using D(4) by simp
qed

lemma given_list:
  assumes c: "circulates s L" and h: "held s att es" and fr: "frame r (set (L r) \<union> set es) s t"
    and ok: "list_ok t r zs" and zs: "set zs = set (L r) \<union> set es"
    and fx: "\<not> l_mutex (glist r t)" "fi_first (f_in (gfix (stat_of r) t)) = None"
      "fi_start (f_in (gfix (stat_of r) t)) = 0" "fo_start (f_out (gfix (stat_of r) t)) = 0"
  shows "given s L r es t"
proof -
  have "circulates t (L(r := zs))"
    by (rule circulates_list [OF c fr ok held_free(2) [OF c h] _ _ fx]) (use zs in auto)
  moreover have "same_owners (set es) s t"
    unfolding same_owners_def
  proof (intro allI impI)
    fix e assume e: "e \<notin> set es"
    show "e_owner (m_events t e) = e_owner (m_events s e)"
    proof (cases "e \<in> set (L r)")
      case True
      then show ?thesis using ok zs circulatesD(7) [OF c, of e r] by (simp add: list_ok_def ev_list_def)
    next
      case False
      then show ?thesis using e fr by (simp add: frame_def)
    qed
  qed
  ultimately show ?thesis using zs same_atts_frame [OF fr] by (auto simp: given_def)
qed

lemma nwrite_given:
  assumes c: "circulates s L" and h: "held s att es"
  shows "runs (\<lambda>t. t = s) (et_station_nwrite st es) (\<lambda>status t. status = ET_OK \<and> given s L (ListOut st) es t)"
proof -
  let ?r = "ListOut st"
  have wa: "write_args s (L ?r) es" using h held_free [OF c h] by (auto simp: write_args_def held_def)
  show ?thesis
  proof (rule runs_post [OF runs_chl [OF et_station_nwrite_chl [OF circulates_out_ok [OF c] wa held_room [OF c h]]]], elim conjE, intro conjI)
    fix status t assume o: "out_ok t st (wlist s (L ?r) es (length es))" and rest: "write_rest s st (L ?r) es (length es) t"
    let ?zs = "wlist s (L ?r) es (length es)"
    have zs: "?zs = highs (high (m_events s)) (L ?r) @ highs (high (m_events s)) es
        @ lows (high (m_events s)) (L ?r) @ lows (high (m_events s)) es"
      using foldl_ins [of "high (m_events s)" "L ?r" es] circulates_out_ok [OF c, of st] by (simp add: out_ok_def out_list_def Let_def)
    have set: "set ?zs = set (L ?r) \<union> set es" unfolding zs by (rule set_written)
    have fr: "frame ?r (set (L ?r) \<union> set es) s t" and fi: "f_in (gfix st t) = f_in (gfix st s)"
      using rest by (simp_all add: write_rest_def)
    have "int e < nevents t" if "e \<in> set ?zs" for e
      using that set frame_nevents [OF fr] circulatesD(7) [OF c] held_free(2) [OF c h] by auto
    then have "list_ok t ?r ?zs"
      using o by (auto simp: list_ok_def ev_list_def out_ok_def out_list_def Let_def)
    then show "given s L ?r es t"
      by (rule given_list [OF c h fr _ set]) (use o fi c in \<open>auto simp: out_ok_def circulates_def fix_idle_def\<close>)
  qed
qed

lemma ndump_given:
  assumes c: "circulates s L" and h: "held s att es"
  shows "runs (\<lambda>t. t = s) (et_station_ndump es) (\<lambda>status t. status = ET_OK \<and> given s L (ListIn ET_GRANDCENTRAL) es t)"
proof -
  let ?r = "ListIn ET_GRANDCENTRAL"
  obtain l t where t: "et_station_ndump es s = (l, Done ET_OK t)" "in_ok t ET_GRANDCENTRAL (L ?r @ es)"
    "frame ?r (set (L ?r) \<union> set es) s t" "f_out (gfix ET_GRANDCENTRAL t) = f_out (gfix ET_GRANDCENTRAL s)"
    using et_station_ndump_run [OF circulates_in_ok [OF c] _ held_free(1) [OF c h] held_room [OF c h]] h
    by (auto simp: held_def)
  have "int e < nevents t \<and> pri_of e t \<in> {ET_LOW, ET_HIGH}" if "e \<in> set (L ?r @ es)" for e
    using that frame_nevents [OF t(3)] circulatesD(7) [OF c, of e ?r] circulatesD(5) [OF c, of e] held_free(2,3) [OF c h, of e]
    by (auto simp: frame_pri [OF t(3)])
  then have "list_ok t ?r (L ?r @ es)" using t(2) by (auto simp: list_ok_def in_ok_def)
  then have "given s L ?r es t"
    by (rule given_list [OF c h t(3)]) (use t(2,4) c in \<open>auto simp: in_ok_def circulates_def fix_idle_def\<close>)
  then show ?thesis by (simp add: runs_def t(1))
qed

end
