(* ===== verification/Et_CallSteps.thy ===== *)
theory Et_CallSteps
  imports Et_Circulate
begin

text \<open>
  The calls of \<^verbatim>\<open>et_event.c\<close> in a system whose events circulate: what a call that returns has moved.
  A call is looked at from the moment from which it need not sleep any more; what other processes do
  before are steps of their own.
\<close>

section \<open>Single events\<close>

lemma write_given:
  assumes c: "circulates s L" and h: "held s att [e]"
  shows "runs (\<lambda>t. t = s) (et_station_write st e) (\<lambda>status t. status = ET_OK \<and> given s L (ListOut st) [e] t)"
  using nwrite_given [OF c h, of st] write_is_nwrite [OF circulates_out_ok [OF c] held_free(3) [OF c h], of e st]
  by (simp add: runs_def)

lemma dump_given:
  assumes c: "circulates s L" and h: "held s att [e]"
  shows "runs (\<lambda>t. t = s) (et_station_dump e) (\<lambda>status t. status = ET_OK \<and> given s L (ListIn ET_GRANDCENTRAL) [e] t)"
proof -
  let ?r = "ListIn ET_GRANDCENTRAL"
  have e: "e \<notin> set (L ?r)" "int (length (L ?r) + 1) \<le> nevents s"
    using held_free(1) [OF c h, of ?r] held_room [OF c h, of ?r] by simp_all
  obtain t where t: "snd (et_station_dump e s) = Done ET_OK t" "in_ok t ET_GRANDCENTRAL (L ?r @ [e])"
    "frame ?r (set (L ?r) \<union> {e}) s t" "f_out (gfix ET_GRANDCENTRAL t) = f_out (gfix ET_GRANDCENTRAL s)"
    using et_station_dump_run [OF circulates_in_ok [OF c] e] by blast
  have "int x < nevents t \<and> pri_of x t \<in> {ET_LOW, ET_HIGH}" if "x \<in> set (L ?r @ [e])" for x
    using that frame_nevents [OF t(3)] circulatesD(7) [OF c, of x ?r] circulatesD(5) [OF c, of x] held_free(2,3) [OF c h, of x]
    by (auto simp: frame_pri [OF t(3)])
  then have "list_ok t ?r (L ?r @ [e])" using t(2) by (auto simp: list_ok_def in_ok_def)
  then have "given s L ?r [e] t"
    by (rule given_list [OF c h, rotated]) (use t(2-4) c in \<open>auto simp: in_ok_def circulates_def fix_idle_def\<close>)
  then show ?thesis by (simp add: runs_def t(1))
qed

section \<open>Changes of the events that are held\<close>

definition touch :: "nat set \<Rightarrow> et_mem \<Rightarrow> et_mem \<Rightarrow> bool" where
  "touch E s t \<longleftrightarrow> (\<forall>r. glist r t = glist r s) \<and> (\<forall>st. gfix st t = gfix st s) \<and> same_atts s t
     \<and> (\<forall>e. e \<notin> E \<longrightarrow> m_events t e = m_events s e)
     \<and> (\<forall>e. e_owner (m_events t e) = e_owner (m_events s e) \<and> (pri_of e t = pri_of e s \<or> pri_of e t \<in> {ET_LOW, ET_HIGH}))"

lemma touch_refl [simp]: "touch E s s"
  by (simp add: touch_def same_atts_def)

lemma touch_updates:
  "touch E s t \<Longrightarrow> e \<in> E \<Longrightarrow> (\<And>p. e_owner (f p) = e_owner p \<and> (e_priority (f p) = e_priority p \<or> e_priority (f p) \<in> {ET_LOW, ET_HIGH}))
    \<Longrightarrow> touch E s (upd_event e f t)"
  "touch E s t \<Longrightarrow> (\<And>x. a_stat (g x) = a_stat x \<and> a_status (g x) = a_status x) \<Longrightarrow> touch E s (upd_attach a g t)"
  "touch E s t \<Longrightarrow> touch E s (upd_os c t)"
  "touch E s t \<Longrightarrow> touch E s (upd_sys (sy_ntemps_update k) t)"
proof -
  assume t: "touch E s t"
  { assume e: "e \<in> E" "\<And>p. e_owner (f p) = e_owner p \<and> (e_priority (f p) = e_priority p \<or> e_priority (f p) \<in> {ET_LOW, ET_HIGH})"
    show "touch E s (upd_event e f t)"
      unfolding touch_def
    proof (intro conjI allI impI)
      fix x
      show "pri_of x (upd_event e f t) = pri_of x s \<or> pri_of x (upd_event e f t) \<in> {ET_LOW, ET_HIGH}"
        using t e(2) [of "m_events t e"] by (auto simp: touch_def)
    qed (use t e in \<open>auto simp: touch_def same_atts_def\<close>) }
  { assume "\<And>x. a_stat (g x) = a_stat x \<and> a_status (g x) = a_status x"
    then show "touch E s (upd_attach a g t)" using t by (auto simp: touch_def same_atts_def) }
  show "touch E s (upd_os c t)" using t by (simp add: touch_def same_atts_def)
  show "touch E s (upd_sys (sy_ntemps_update k) t)"
    using t by (simp add: touch_def same_atts_def glist_m_sys gfix_def nevents_def)
qed

lemma touch_trans: "touch E s t \<Longrightarrow> touch E t u \<Longrightarrow> touch E s u"
  by (auto simp: touch_def same_atts_def) (metis+)

lemma touch_mono: "touch E s t \<Longrightarrow> E \<subseteq> F \<Longrightarrow> touch F s t"
  by (auto simp: touch_def)

lemma circulates_touch:
  assumes "circulates s L" and "touch E s t" and "\<And>e. e \<in> E \<Longrightarrow> e_owner (m_events s e) \<noteq> ET_SYS \<and> int e < nevents s"
  shows "circulates t L"
proof (rule circulates_view [OF assms(1)])
  fix e
  show "event_view (m_events t e) = event_view (m_events s e)
      \<or> e_owner (m_events s e) \<noteq> ET_SYS \<and> e_owner (m_events t e) = e_owner (m_events s e) \<and> pri_of e t \<in> {ET_LOW, ET_HIGH}"
  proof (cases "e \<in> E")
    case True
    have "pri_of e t = pri_of e s \<or> pri_of e t \<in> {ET_LOW, ET_HIGH}" "e_owner (m_events t e) = e_owner (m_events s e)"
      using assms(2) by (simp_all add: touch_def)
    then show ?thesis using assms(3) [OF True] circulatesD(5) [OF assms(1), of e] by auto
  next
    case False
    then show ?thesis using assms(2) by (simp add: touch_def)
  qed
qed (use assms(2) in \<open>simp_all add: touch_def same_atts_def\<close>)

section \<open>New events and events got\<close>

abbreviation stays :: "nat set \<Rightarrow> et_mem \<Rightarrow> 'a cmd \<Rightarrow> bool" where
  "stays E s m \<equiv> runs (touch E s) m (\<lambda>_. touch E s)"

lemma stays_rules:
  "stays E s (ret a)" "stays E s m \<Longrightarrow> (\<And>a. stays E s (k a)) \<Longrightarrow> stays E s (bindp m k)"
  "stays E s m' \<Longrightarrow> stays E s n \<Longrightarrow> stays E s (andthen m' n)" "(\<And>x. stays E s (l x)) \<Longrightarrow> stays E s (load f l)"
  "stays E s n \<Longrightarrow> stays E s n' \<Longrightarrow> stays E s (cond b n n')"
  by (auto intro: runs_ret runs_bind runs_andthen runs_load runs_cond runs_pre)

lemma stays_stores:
  "e \<in> E \<Longrightarrow> (\<And>p. e_owner (f p) = e_owner p \<and> (e_priority (f p) = e_priority p \<or> e_priority (f p) \<in> {ET_LOW, ET_HIGH}))
    \<Longrightarrow> stays E s (set_event e f)"
  "(\<And>x. a_stat (g x) = a_stat x \<and> a_status (g x) = a_status x) \<Longrightarrow> stays E s (store (upd_attach a g))"
  "stays E s (store (upd_os c))" "stays E s (store (upd_sys (sy_ntemps_update k)))"
  by (auto intro!: runs_store touch_updates)

lemma stays_make: "e \<in> E \<Longrightarrow> stays E s (et_event_make v e sz)"
  by (auto simp: et_event_make_def block.simps et_init_event_new_def et_init_event_def intro!: stays_rules stays_stores)

lemma stays_try: "e \<in> E \<Longrightarrow> runs (touch E s) (make_try k v sz e []) (\<lambda>r u. touch E s u \<and> snd r = [])"
proof (induction k)
  case (Suc k)
  show ?case
    unfolding make_try.simps
  proof (rule runs_bind [OF stays_make [OF Suc.prems]])
    fix c
    have w: "runs (touch E s) (wait_temps (v_tries v) 0 []) (\<lambda>r u. touch E s u \<and> snd r = [])"
      by (auto intro!: runs_rules)
    have k: "runs (\<lambda>u. touch E s u \<and> snd r = []) (case r of (n, sl) \<Rightarrow> if n \<ge> v_tries v then ret (c, sl) else make_try k v sz e sl)
        (\<lambda>r u. touch E s u \<and> snd r = [])" for r
      using Suc by (cases r; cases "snd r = []") (auto intro!: runs_ret simp: runs_def [of "\<lambda>u. False"])
    show "runs (touch E s) (if c = ET_ERROR_TOOMANY then bindp (wait_temps (v_tries v) 0 []) (\<lambda>(n, sl). if n \<ge> v_tries v
        then ret (c, sl) else make_try k v sz e sl) else ret (c, [])) (\<lambda>r u. touch E s u \<and> snd r = [])"
      using runs_bind [OF w k] by (auto intro!: runs_ret)
  qed
qed (auto intro: runs_blocked)

lemma stays_all: "set es \<subseteq> E \<Longrightarrow> stays E s (make_all v sz [] es)"
proof (induction es)
  case (Cons e es)
  have "runs (\<lambda>u. touch E s u \<and> snd r = []) (case r of (c, sl) \<Rightarrow> if c \<noteq> ET_OK then ret c else make_all v sz sl es) (\<lambda>_. touch E s)" for r
    using Cons by (cases r; cases "snd r = []") (auto intro!: runs_ret simp: runs_def [of "\<lambda>u. False"])
  moreover have "e \<in> E" using Cons.prems by simp
  ultimately show ?case unfolding make_all.simps by (intro runs_bind [OF stays_try])
qed (auto intro: stays_rules)

lemma stays_init: "set es \<subseteq> E \<Longrightarrow> stays E s (init_events sz es)"
  by (induction es) (auto simp: et_init_event_new_def et_init_event_def intro!: stays_rules stays_stores)

lemma stays_prepare: "set es \<subseteq> E \<Longrightarrow> v_sleeps v = [] \<Longrightarrow> stays E s (prepare_events v sz es)"
  by (auto simp: prepare_events_def intro!: stays_rules stays_all stays_init)

lemma stays_new: "set (snd r) \<subseteq> E \<Longrightarrow> v_sleeps v = [] \<Longrightarrow> stays E s (finish_new v att sz r)"
  by (auto simp: finish_new_def split: prod.split intro!: stays_rules stays_prepare stays_stores)

lemma stays_map: "stays E s (map_temps v es)"
  by (induction es) (auto intro!: stays_rules)

lemma stays_get: "stays E s (finish_get v att r)"
  by (auto simp: finish_get_def split: prod.split intro!: stays_rules stays_map stays_stores)

lemma taken_touch:
  assumes t: "taken s L st att es t" and u: "touch (set es) t u" and c: "circulates s L" and att: "0 \<le> att"
  shows "taken s L st att es u"
proof -
  obtain ys where ys: "set (L (ListIn st)) = set es \<union> set ys" "circulates t (L(ListIn st := ys))"
    and own: "\<forall>e \<in> set es. e_owner (m_events t e) = att" "same_owners (set es) s t" "same_atts s t"
    using t by (auto simp: taken_def)
  have "circulates u (L(ListIn st := ys))"
    by (rule circulates_touch [OF ys(2) u]) (use own ys(1) att circulatesD(7) [OF c, of _ "ListIn st"] in \<open>auto simp: same_atts_def\<close>)
  moreover have "e_owner (m_events u e) = e_owner (m_events t e)" for e using u by (simp add: touch_def)
  moreover have "same_atts s u" using own(3) u by (auto simp: touch_def same_atts_def)
  ultimately show ?thesis using ys(1) own(1,2) by (auto simp: taken_def same_owners_def)
qed

text \<open>After a read what the call does keeps the events taken.\<close>

lemma read_then:
  assumes c: "circulates s L" and att: "0 \<le> att"
    and m: "runs (\<lambda>t. t = s) m (read_result s L st att)" and k: "\<And>r t. stays (set (snd r)) t (k r)"
  shows "runs (\<lambda>t. t = s) (bindp m k) (\<lambda>_ u. \<exists>es. taken s L st att es u)"
proof (rule runs_bind [OF m])
  fix r
  show "runs (read_result s L st att r) (k r) (\<lambda>_ u. \<exists>es. taken s L st att es u)"
  proof (rule runs_at)
    fix t assume t: "read_result s L st att r t"
    have "runs (\<lambda>u. u = t) (k r) (\<lambda>_. touch (set (snd r)) t)" by (rule runs_pre [OF k]) simp
    then show "runs (\<lambda>u. u = t) (k r) (\<lambda>_ u. \<exists>es. taken s L st att es u)"
      by (rule runs_post) (use t taken_touch [OF _ _ c att, of st "snd r" t] in \<open>unfold read_result_def, blast\<close>)
  qed
qed

lemma taken_same: "circulates s L \<Longrightarrow> taken s L st att [] s"
  by (rule vain_taken) (simp_all add: same_atts_def)

lemma local_runs: "(usable h = ET_OK \<Longrightarrow> runs P m Q) \<Longrightarrow> (\<And>s a. P s \<Longrightarrow> Q a s) \<Longrightarrow> runs P (local_call h far err m) Q"
  by (auto simp: local_call_def intro!: runs_ret)

lemma mode_legal: "mode_ok mode dt \<Longrightarrow> legal_mode (wait_of mode)"
  by (auto simp: mode_ok_def)

lemma at_rules:
  "runs (\<lambda>t. t = s) (k (f s)) Q \<Longrightarrow> runs (\<lambda>t. t = s) (load f k) Q"
  "(b s \<Longrightarrow> runs (\<lambda>t. t = s) m Q) \<Longrightarrow> (\<not> b s \<Longrightarrow> runs (\<lambda>t. t = s) n Q) \<Longrightarrow> runs (\<lambda>t. t = s) (cond b m n) Q"
  "(d \<Longrightarrow> runs P m Q) \<Longrightarrow> (\<not> d \<Longrightarrow> runs P n Q) \<Longrightarrow> runs P (if d then m else n) Q"
  by (auto simp: runs_def load_def cond_def)

text \<open>The environment of a call that does not sleep.\<close>

abbreviation awake :: "event_env \<Rightarrow> bool" where
  "awake v \<equiv> v_wakes v = [] \<and> v_sleeps v = []"

text \<open>What an active attachment gets from the list of \<open>st\<close>, if anything.\<close>

definition gets :: "et_mem \<Rightarrow> (listref \<Rightarrow> nat list) \<Rightarrow> et_stat_id \<Rightarrow> et_att_id \<Rightarrow> et_mem \<Rightarrow> bool" where
  "gets s L st att u \<longleftrightarrow> (\<exists>es. taken s L st att es u \<and> (es \<noteq> [] \<longrightarrow> 0 \<le> att \<and> \<not> inactive att s))"

lemma gets_same: "circulates s L \<Longrightarrow> gets s L st att s"
  using taken_same unfolding gets_def by blast

lemma gets_ret: "circulates s L \<Longrightarrow> runs (\<lambda>t. t = s) (ret a) (\<lambda>_. gets s L st att)"
  by (rule runs_ret) (simp add: gets_same)

lemma gets_read:
  assumes c: "circulates s L" and a: "\<not> inactive att s" "\<not> att < 0"
    and m: "0 \<le> att \<Longrightarrow> runs (\<lambda>t. t = s) m (read_result s L st att)" and k: "\<And>r t. stays (set (snd r)) t (k r)"
  shows "runs (\<lambda>t. t = s) (bindp m k) (\<lambda>_. gets s L st att)"
  using runs_post [OF read_then [OF c _ m k], of "\<lambda>_. gets s L st att"] a by (simp add: gets_def)

lemma new_group_moves:
  assumes c: "circulates s L" and v: "awake v"
  shows "runs (\<lambda>t. t = s) (et_events_new_group h att mode dt sz num gr v) (\<lambda>_. gets s L ET_GRANDCENTRAL att)"
  unfolding et_events_new_group_def using v
  by (auto intro!: local_runs at_rules gets_ret [OF c] gets_same [OF c] gets_read [OF c] nread_group_result [OF c] mode_legal stays_new)

lemma new_moves:
  assumes c: "circulates s L" and v: "awake v"
  shows "runs (\<lambda>t. t = s) (et_events_new h att mode dt sz num v) (\<lambda>_. gets s L ET_GRANDCENTRAL att)"
  unfolding et_events_new_def using v new_group_moves [OF c v]
  by (auto intro!: local_runs at_rules gets_ret [OF c] gets_same [OF c] gets_read [OF c] nread_result [OF c] mode_legal stays_new)

lemma drop_count: "runs P m (\<lambda>_. Q) \<Longrightarrow> runs P (bindp m (\<lambda>(status, pe, n). ret (status, pe))) (\<lambda>_. Q)"
  by (erule runs_bind) (auto intro: runs_ret)

lemma stays_drop: "stays E s m \<Longrightarrow> stays E s (bindp m (\<lambda>(status, pe, n). ret (status, pe)))"
  by (rule drop_count)

lemma event_new_moves:
  assumes c: "circulates s L" and v: "awake v"
  shows "runs (\<lambda>t. t = s) (et_event_new h att mode dt sz v) (\<lambda>_. gets s L ET_GRANDCENTRAL att)"
  unfolding et_event_new_def et_event_new_group_def using v new_group_moves [OF c v]
  by (auto intro!: local_runs at_rules drop_count gets_ret [OF c] gets_same [OF c] gets_read [OF c] read_result_one [OF c] mode_legal
      stays_drop stays_new)

lemma get_moves:
  assumes c: "circulates s L" and v: "awake v"
  shows "runs (\<lambda>t. t = s) (et_events_get h att mode dt num v) (\<lambda>_. gets s L (station_of att s) att)"
  unfolding et_events_get_def using v
  by (auto intro!: local_runs at_rules gets_ret [OF c] gets_same [OF c] gets_read [OF c] nread_result [OF c] mode_legal stays_get)

lemma event_get_moves:
  assumes c: "circulates s L" and v: "awake v"
  shows "runs (\<lambda>t. t = s) (et_event_get h att mode dt v) (\<lambda>_. gets s L (station_of att s) att)"
  unfolding et_event_get_def using v
  by (auto intro!: local_runs at_rules gets_ret [OF c] gets_same [OF c] gets_read [OF c] read_result_one [OF c] mode_legal
      stays_drop stays_get)

section \<open>Events given back\<close>

text \<open>What the attachment gives to one of its lists: all of \<open>es\<close>, or nothing.\<close>

definition gives :: "et_mem \<Rightarrow> (listref \<Rightarrow> nat list) \<Rightarrow> listref \<Rightarrow> et_att_id \<Rightarrow> nat list \<Rightarrow> et_mem \<Rightarrow> bool" where
  "gives s L r att es u \<longleftrightarrow> circulates u L \<and> same_owners {} s u \<and> same_atts s u
     \<or> held s att es \<and> given s L r es u"

lemma gives_touch:
  assumes c: "circulates s L" and t: "touch (set es) s t" and h: "held s att es"
  shows "gives s L r att es t"
proof -
  have "circulates t L" by (rule circulates_touch [OF c t]) (use held_free(2) [OF c h] in auto)
  then show ?thesis using t by (simp add: gives_def touch_def same_owners_def)
qed

lemma gives_same: "circulates s L \<Longrightarrow> gives s L r att es s"
  by (simp add: gives_def same_owners_def same_atts_def)

lemma gives_ret: "circulates s L \<Longrightarrow> runs (\<lambda>t. t = s) (ret a) (\<lambda>_. gives s L r att es)"
  by (rule runs_ret) (simp add: gives_same)

lemma given_touch: 
  assumes g: "given s L r es t" and u: "touch {} t u"
  shows "given s L r es u"
proof -
  obtain zs where zs: "set zs = set (L r) \<union> set es" "circulates t (L(r := zs))" "same_owners (set es) s t" "same_atts s t"
    using g by (auto simp: given_def)
  have "circulates u (L(r := zs))" by (rule circulates_touch [OF zs(2) u]) simp
  then show ?thesis using zs u by (auto simp: given_def same_owners_def touch_def same_atts_def)
qed

lemma touch_given:
  assumes t: "touch (set es) s t" and g: "given t L r es u"
  shows "given s L r es u"
  using assms by (auto simp: given_def same_owners_def touch_def same_atts_def)

lemma held_touch: "held s att es \<Longrightarrow> touch E s t \<Longrightarrow> held t att es"
  by (simp add: held_def touch_def same_atts_def)

text \<open>
  Giving events: something that touches them first, then the write, then what concerns the statistics;
  a write of events that are held is never refused.
\<close>

lemma gives_write:
  assumes c: "circulates s L" and h: "held s att es" and t: "touch (set es) s t"
    and m: "\<And>t. circulates t L \<Longrightarrow> held t att es \<Longrightarrow> runs (\<lambda>u. u = t) m (\<lambda>status u. status = ET_OK \<and> given t L r es u)"
    and k: "\<And>u. stays {} u (k ET_OK)"
  shows "runs (\<lambda>u. u = t) (bindp m k) (\<lambda>_. gives s L r att es)"
proof -
  have ct: "circulates t L" by (rule circulates_touch [OF c t]) (use held_free(2) [OF c h] in auto)
  show ?thesis
  proof (rule runs_bind [OF m [OF ct held_touch [OF h t]]])
    fix status
    show "runs (\<lambda>u. status = ET_OK \<and> given t L r es u) (k status) (\<lambda>_. gives s L r att es)"
    proof (rule runs_at)
      fix u assume u: "status = ET_OK \<and> given t L r es u"
      then have su: "given s L r es u" using touch_given [OF t] by blast
      have "runs (\<lambda>x. x = u) (k ET_OK) (\<lambda>_. touch {} u)" by (rule runs_pre [OF k]) simp
      then show "runs (\<lambda>x. x = u) (k status) (\<lambda>_. gives s L r att es)"
        using u given_touch [OF su] h by (auto simp: gives_def elim: runs_post)
    qed
  qed
qed

lemma stays_unmap: "stays E s k \<Longrightarrow> stays E s (unmap_then v e k)"
  by (auto simp: unmap_then_def intro!: stays_rules stays_stores)

lemma stays_age: "set es \<subseteq> E \<Longrightarrow> stays E s (age_events v es)"
  by (induction es) (auto intro!: stays_rules stays_stores stays_unmap)

lemma stays_remove: "stays E s (remove_temps v es n)"
  by (induction es arbitrary: n) (auto intro!: stays_rules stays_stores)

lemma at_touch: "(\<And>t. touch E s t \<Longrightarrow> runs (\<lambda>u. u = t) m Q) \<Longrightarrow> runs (touch E s) m Q"
  by (rule runs_at)

text \<open>A call that touches the events first.\<close>

lemma touch_then:
  assumes "stays (set es) s m" and "\<And>a t. touch (set es) s t \<Longrightarrow> runs (\<lambda>u. u = t) (k a) Q"
  shows "runs (\<lambda>u. u = s) (bindp m k) Q"
proof (rule runs_bind)
  show "runs (\<lambda>u. u = s) m (\<lambda>_. touch (set es) s)" by (rule runs_pre [OF assms(1)]) auto
qed (rule at_touch, rule assms(2))

lemma put_moves:
  assumes c: "circulates s L" and es: "distinct es" "\<forall>e \<in> set es. int e < nevents s"
  shows "runs (\<lambda>t. t = s) (et_events_put h att es v) (\<lambda>_. gives s L (ListOut (station_of att s)) att es)"
proof -
  let ?Q = "\<lambda>_. gives s L (ListOut (station_of att s)) att es"
  have body: "runs (\<lambda>u. u = t) (if status \<noteq> ET_OK then ret status
            else load (station_of att) (\<lambda>st. bindp (et_station_nwrite st es) (\<lambda>status.
                if status \<noteq> ET_OK then andthen (unage_events es) (ret status)
                else andthen (store (upd_attach att (a_events_put_update (\<lambda>n. n + of_nat (length es))))) (ret ET_OK)))) ?Q"
    if h: "held s att es" and t: "touch (set es) s t" for status t
  proof -
    have "station_of att t = station_of att s" using t by (simp add: touch_def same_atts_def)
    then show ?thesis
      using gives_touch [OF c t h] nwrite_given
      by (auto intro!: at_rules runs_ret gives_write [OF c h t] stays_rules stays_stores)
  qed
  show ?thesis
    unfolding et_events_put_def
    by (auto simp: may_put_def held_def es intro!: local_runs at_rules gives_ret [OF c] gives_same [OF c] touch_then [OF stays_age] body)
qed

lemma unmap_at:
  assumes "runs (\<lambda>u. u = s) (ret ET_ERROR) Q" and "\<And>t. touch {e} s t \<Longrightarrow> runs (\<lambda>u. u = t) k Q"
  shows "runs (\<lambda>u. u = s) (unmap_then v e k) Q"
proof -
  have "runs (\<lambda>u. u = s) (andthen (load (\<lambda>s. e_filename (m_events s e)) (\<lambda>f. store (upd_os (Munmap f)))) k) Q"
    by (rule runs_andthen [where R = "touch {e} s"])
      (auto intro!: at_rules(1) runs_store touch_updates at_touch [OF assms(2)])
  then show ?thesis using assms by (auto simp: unmap_then_def intro!: at_rules)
qed

lemma event_put_moves:
  assumes c: "circulates s L" and e: "int e < nevents s"
  shows "runs (\<lambda>t. t = s) (et_event_put h att e v) (\<lambda>_. gives s L (ListOut (station_of att s)) att [e])"
proof -
  let ?Q = "\<lambda>_. gives s L (ListOut (station_of att s)) att [e]"
  let ?k = "load (station_of att) (\<lambda>st. load (\<lambda>s. e_age (m_events s e)) (\<lambda>age.
              andthen (set_event e (e_age_update (\<lambda>_. ET_EVENT_USED)))
                (bindp (et_station_write st e) (\<lambda>status.
                  if status \<noteq> ET_OK then andthen (set_event e (e_age_update (\<lambda>_. age))) (ret status)
                  else andthen (store (upd_attach att (a_events_put_update (\<lambda>n. n + 1)))) (ret ET_OK)))))"
  have body: "runs (\<lambda>u. u = t) ?k ?Q" if h: "held s att [e]" and t: "touch {e} s t" for t
  proof -
    have "station_of att t = station_of att s" using t by (simp add: touch_def same_atts_def)
    moreover have t': "touch (set [e]) s (upd_event e (e_age_update (\<lambda>_. ET_EVENT_USED)) t)"
      by (intro touch_updates(1)) (use t in auto)
    ultimately show ?thesis
      using write_given
      by (auto simp: andthen_def [of "set_event e f" for f] intro!: at_rules runs_bind [OF runs_store, where R = "\<lambda>_ u. u = x" for x] gives_write [OF c h t'] stays_rules stays_stores)
  qed
  show ?thesis
    unfolding et_event_put_def
    by (intro at_rules(3) local_runs at_rules(2) gives_ret [OF c] unmap_at body gives_same [OF c]) (simp_all add: may_put_def held_def e gives_same [OF c])
qed

lemma dump_moves:
  assumes c: "circulates s L" and es: "distinct es" "\<forall>e \<in> set es. int e < nevents s"
  shows "runs (\<lambda>t. t = s) (et_events_dump h att es v) (\<lambda>_. gives s L (ListIn ET_GRANDCENTRAL) att es)"
proof -
  let ?Q = "\<lambda>_. gives s L (ListIn ET_GRANDCENTRAL) att es"
  have body: "runs (\<lambda>u. u = t) (case r of (status, ntemps) \<Rightarrow> 
            if status \<noteq> ET_OK then ret ET_ERROR
            else bindp (et_station_ndump es) (\<lambda>status.
              if status \<noteq> ET_OK then ret status
              else block [whenp (\<lambda>_. ntemps > 0) (store (upd_sys (sy_ntemps_update (\<lambda>n. n - ntemps)))),
                  store (upd_attach att (a_events_dump_update (\<lambda>n. n + of_nat (length es))))] (ret ET_OK))) ?Q"
    if h: "held s att es" and t: "touch (set es) s t" for r t
    using gives_touch [OF c t h] ndump_given
    by (cases r) (auto simp: block.simps whenp_def intro!: at_rules runs_ret gives_write [OF c h t] stays_rules stays_stores)
  show ?thesis
    unfolding et_events_dump_def
    by (intro at_rules(3) local_runs at_rules(2) gives_ret [OF c] touch_then [where es = es, OF stays_remove] body)
      (simp_all add: held_def es gives_same [OF c])
qed

lemma event_dump_moves:
  assumes c: "circulates s L" and e: "int e < nevents s"
  shows "runs (\<lambda>t. t = s) (et_event_dump h att e v) (\<lambda>_. gives s L (ListIn ET_GRANDCENTRAL) att [e])"
proof -
  let ?Q = "\<lambda>_. gives s L (ListIn ET_GRANDCENTRAL) att [e]"
  have body: "runs (\<lambda>u. u = t) (case r of (status, temp) \<Rightarrow>
            if status \<noteq> ET_OK then ret ET_ERROR
            else bindp (et_station_dump e) (\<lambda>status.
              if status \<noteq> ET_OK then andthen (set_event e (e_owner_update (\<lambda>_. att))) (ret status)
              else block [whenp (\<lambda>_. temp > 0) (store (upd_sys (sy_ntemps_update (\<lambda>n. n - 1)))),
                  store (upd_attach att (a_events_dump_update (\<lambda>n. n + 1)))] (ret ET_OK))) ?Q"
    if h: "held s att [e]" and t: "touch (set [e]) s t" for r t
    using gives_touch [OF c t h] dump_given
    by (cases r) (auto simp: block.simps whenp_def intro!: at_rules runs_ret gives_write [OF c h t] stays_rules stays_stores)
  show ?thesis
    unfolding et_event_dump_def
    by (intro at_rules(3) local_runs at_rules(2) gives_ret [OF c] touch_then [where es = "[e]", OF stays_remove] body gives_same [OF c]) (simp_all add: held_def e gives_same [OF c])
qed

end
