(* ===== verification/Et_Downstream.thy ===== *)
theory Et_Downstream
  imports Et_CallSteps Et_KeptConductor Et_StationSystem
begin

text \<open>
  A round of a conductor in a system whose events circulate: the events of its output list go to input
  lists of stations behind it, and nothing else moves.
\<close>

section \<open>Where a conductor can put events\<close>

lemma stations_next:
  assumes S: "stations s gs" and k: "k < length gs"
  shows "next_station (hd (gs ! k)) s = (if Suc k < length gs then hd (gs ! Suc k) else ET_GRANDCENTRAL)"
proof -
  note D = stationsD [OF S]
  have "gs = take k gs @ gs ! k # drop (Suc k) gs" using k by (simp add: id_take_nth_drop)
  then have "map hd gs = map hd (take k gs) @ hd (gs ! k) # map hd (drop (Suc k) gs)" by (metis list.simps(9) map_append)
  then obtain a where "dll (next_link s) (prev_link s) a (hd (gs ! k) # map hd (drop (Suc k) gs)) (- 1)"
    using D(6) by (auto simp: dll_append)
  then have n: "next_link s (hd (gs ! k)) = hd (map hd (drop (Suc k) gs) @ [- 1])" by simp
  show ?thesis
  proof (cases "Suc k < length gs")
    case True
    then have d: "drop (Suc k) gs = gs ! Suc k # drop (Suc (Suc k)) gs" by (metis Cons_nth_drop_Suc)
    have "gs ! Suc k \<in> set gs" using True by simp
    then have "hd (gs ! Suc k) \<in> set (concat gs)" using D(3) by (metis concat.simps(1) hd_in_set in_set_conv_decomp set_concat UN_I)
    then have "in_array s (hd (gs ! Suc k))" using D(5) by blast
    then show ?thesis using n True d by (simp add: next_station_def in_array_def)
  next
    case False
    then show ?thesis using n by (simp add: next_station_def)
  qed
qed

text \<open>The stations of the groups behind the \<open>k\<close>-th one, and GrandCentral.\<close>

definition behind :: "et_stat_id list list \<Rightarrow> nat \<Rightarrow> et_stat_id set" where
  "behind gs k = insert ET_GRANDCENTRAL (set (concat (drop (Suc k) gs)))"

definition heads_behind :: "et_stat_id list list \<Rightarrow> nat \<Rightarrow> et_stat_id set" where
  "heads_behind gs k = insert ET_GRANDCENTRAL (hd ` set (drop (Suc k) gs))"

lemma nth_behind: "k < i \<Longrightarrow> i < length gs \<Longrightarrow> gs ! i \<in> set (drop (Suc k) gs)"
  by (auto simp: in_set_conv_nth intro!: exI [of _ "i - Suc k"])

lemma behind_nth: "g \<in> set (drop (Suc k) gs) \<Longrightarrow> \<exists>i. k < i \<and> i < length gs \<and> g = gs ! i"
  by (auto simp: in_set_conv_nth) (metis less_add_Suc1 add_Suc less_diff_conv add.commute)

lemma stations_next_behind: "stations s gs \<Longrightarrow> k \<le> i \<Longrightarrow> i < length gs \<Longrightarrow> next_station (hd (gs ! i)) s \<in> heads_behind gs k"
  using nth_behind [of k "Suc i" gs] by (simp add: stations_next heads_behind_def)

lemma dll_next_in: "dll nx pv a xs b \<Longrightarrow> x \<in> set xs \<Longrightarrow> nx x \<in> insert b (set xs)"
  by (induction xs arbitrary: a) (auto simp: hd_append split: if_splits)

lemma stations_closed:
  assumes S: "stations s gs"
  shows "closed_under (heads_behind gs k) (behind gs k) s"
  unfolding closed_under_def
proof (intro conjI ballI impI)
  have "[] \<notin> set (drop (Suc k) gs)" using stationsD(3) [OF S] by (metis in_set_dropD)
  then show "heads_behind gs k \<subseteq> behind gs k"
    unfolding heads_behind_def behind_def by (auto, metis hd_in_set)
next
  fix st assume "st \<in> heads_behind gs k" "st \<noteq> ET_GRANDCENTRAL"
  then obtain g where g: "g \<in> set (drop (Suc k) gs)" "st = hd g" unfolding heads_behind_def by blast
  then obtain i where "k < i" "i < length gs" "st = hd (gs ! i)" using behind_nth [OF g(1)] by blast
  then show "next_station st s \<in> heads_behind gs k" using stations_next_behind [OF S, of k i] by simp
next
  fix st assume st: "st \<in> behind gs k" and n: "- 1 < s_nextparallel (m_stats s st)"
  have "\<exists>g. st \<in> set g \<and> g \<in> set gs \<and> (g = [ET_GRANDCENTRAL] \<or> g \<in> set (drop (Suc k) gs))"
  proof (cases "st = ET_GRANDCENTRAL")
    case True
    moreover have "[ET_GRANDCENTRAL] \<in> set gs" using stationsD(1,2) [OF S] by (metis hd_in_set)
    ultimately show ?thesis by (metis list.set_intros(1))
  next
    case False
    then obtain g where "g \<in> set (drop (Suc k) gs)" "st \<in> set g" using st by (auto simp: behind_def)
    then have "g \<in> set gs" by (blast dest: in_set_dropD)
    then show ?thesis using \<open>g \<in> set (drop (Suc k) gs)\<close> \<open>st \<in> set g\<close> by blast
  qed
  then obtain g where g: "st \<in> set g" "g \<in> set gs" "g = [ET_GRANDCENTRAL] \<or> g \<in> set (drop (Suc k) gs)" by blast
  have "nextpar_link s st \<in> insert (- 1) (set g)" using stationsD(8) [OF S g(2)] dll_next_in g(1) by blast
  with n have "s_nextparallel (m_stats s st) \<in> set g" by simp
  then show "s_nextparallel (m_stats s st) \<in> behind gs k" using g(3) unfolding behind_def by fastforce
qed

text \<open>What a round leaves alone of a memory, when it puts events into the input lists of \<open>D\<close> only.\<close>

definition downstream :: "et_stat_id set \<Rightarrow> et_mem \<Rightarrow> et_mem \<Rightarrow> bool" where
  "downstream D s t \<longleftrightarrow> (\<forall>st. st \<notin> D \<longrightarrow> glist (ListIn st) t = glist (ListIn st) s) \<and> (\<forall>st. gfix st t = gfix st s)
     \<and> (\<forall>e. e_owner (m_events t e) = e_owner (m_events s e) \<and> pri_of e t = pri_of e s)
     \<and> sy_attach (m_sys t) = sy_attach (m_sys s) \<and> same_stations s t"

lemma same_stations_closed:
  assumes "same_stations s t" and "closed_under H D s"
  shows "closed_under H D t"
proof -
  have "s_nextparallel (m_stats t st) = s_nextparallel (m_stats s st)" "next_station st t = next_station st s" for st
    using assms(1) by (simp_all add: next_station_def same_stations_def)
  then show ?thesis using assms(2) by (simp add: closed_under_def)
qed

lemma same_stations_upd [simp]:
  "same_stations s (upd_list r f s)" "same_stations s (upd_event e g s)" "same_stations s (upd_os c s)"
  "same_stations s (upd_station st (s_waslast_update w) s)" "same_stations s (upd_station st (s_mutex_update b) s)"
  by (rule stations_kept.upd stations_kept.conduct)+

lemma gfix_conduct:
  "gfix i (upd_station st (s_waslast_update w) s) = gfix i s" "gfix i (upd_station st (s_mutex_update b) s) = gfix i s"
  by (simp_all add: gfix_def upd_station_def)

interpretation down: deal_relation "downstream D" H D for H D
proof unfold_locales
  show "downstream D s s" for s by (simp add: downstream_def stations_kept.refl)
  show "downstream D s t \<Longrightarrow> downstream D t u \<Longrightarrow> downstream D s u" for s t u
    using stations_kept.trans [of s t u] by (simp add: downstream_def)
  show "downstream D s t \<Longrightarrow> closed_under H D s \<Longrightarrow> closed_under H D t" for s t
    unfolding downstream_def by (elim conjE) (rule same_stations_closed)
  show "downstream D s (s\<lparr>m_sys := (m_sys s)\<lparr>sy_ntemps := sy_ntemps (m_sys s) - 1\<rparr>\<rparr>)" for s
    using stations_kept.upd_more(3) [of s] by (simp add: downstream_def glist_m_sys gfix_def)
qed (auto simp: downstream_def gfix_conduct)

section \<open>A round of a conductor\<close>

text \<open>A list whose count is the same has not got events.\<close>

lemma same_length_set:
  assumes "list_ok s r xs" and "list_ok t r ys" and "glist r t = glist r s" and "set xs \<subseteq> set ys"
  shows "set ys = set xs"
proof -
  have "distinct xs" "distinct ys" "length ys = length xs" using assms(1-3) by (auto simp: list_ok_def ev_list_def)
  then have "card (set ys) = card (set xs)" by (simp add: distinct_card)
  then show ?thesis using card_subset_eq [of "set ys" "set xs"] assms(4) by simp
qed

text \<open>The system is one in which the conductors come to an end (\<open>stations_route\<close>).\<close>

definition well_laid :: "et_mem \<Rightarrow> et_stat_id list list \<Rightarrow> bool" where
  "well_laid s gs \<longleftrightarrow> station_system s gs \<and> no_rrobin s (drop 2 gs) \<and> \<not> in_parallel s ET_GRANDCENTRAL
     \<and> status_of ET_GRANDCENTRAL s = ET_STATION_ACTIVE"

lemma no_rrobin_drop: "no_rrobin s (drop n gs) \<Longrightarrow> n \<le> m \<Longrightarrow> no_rrobin s (drop m gs)"
  using set_drop_subset_set_drop [of n m gs] by (auto simp: no_rrobin_def)

text \<open>All events of the output list have gone to input lists behind; nothing else has moved.\<close>

definition dealt :: "et_stat_id list list \<Rightarrow> nat \<Rightarrow> et_stat_id \<Rightarrow> (listref \<Rightarrow> nat list) \<Rightarrow> (listref \<Rightarrow> nat list) \<Rightarrow> bool" where
  "dealt gs k st L L' \<longleftrightarrow> L' (ListOut st) = [] \<and> (\<forall>r e. r \<noteq> ListOut st \<longrightarrow> e \<in> set (L r) \<longrightarrow> e \<in> set (L' r))
     \<and> (\<forall>e \<in> set (L (ListOut st)). \<exists>q \<in> behind gs k. e \<in> set (L' (ListIn q)))"

lemma conductor_moves:
  assumes c: "circulates s L" and ne: "L (ListOut st) \<noteq> []" and W: "well_laid s gs"
    and k: "k < length gs" and st: "st \<in> set (gs ! k)"
  obtains t L' where "conductor_deal usr st s = Go t" "circulates t L'" "downstream (behind gs k) s t" "dealt gs k st L L'"
proof -
  have S: "stations s gs" and rr: "no_rrobin s (drop (k + 2) gs)"
    and gc: "\<not> in_parallel s ET_GRANDCENTRAL" "status_of ET_GRANDCENTRAL s = ET_STATION_ACTIVE"
    using W no_rrobin_drop [of s 2 gs "k + 2"] station_systemD(1) [of s gs] by (auto simp: well_laid_def)
  note R = stations_route [OF S k st gc rr]
  have h: "holds s L {}" "unlocked s" using c by (simp_all add: circulates_def)
  obtain t L' where t: "conductor_deal usr st s = Go t" and hold: "holds t L' {}" and un: "unlocked t"
    and L': "L' (ListOut st) = []" "\<And>st'. st' \<noteq> st \<Longrightarrow> L' (ListOut st') = L (ListOut st')"
      "\<And>st'. set (L (ListIn st')) \<subseteq> set (L' (ListIn st'))" "(\<Union>q. set (L' q)) = (\<Union>q. set (L q))"
    using conductor_deal_ok [OF h(1) ne R(1,2), of usr] h(2) by blast
  have dn: "downstream (behind gs k) s t"
  proof -
    have "down.kept (behind gs k) s (conductor_deal usr st s)"
    proof (rule down.kept_conductor_deal [OF stations_closed [OF S]])
      fix u h assume u: "downstream (behind gs k) s u"
        and h: "(if in_parallel u st then first_parallel (max_stations u) st u else Some st) = Some h"
      have su: "same_stations s u" using u by (simp add: downstream_def)
      have fp: "first_parallel n st u = first_parallel n st s" for n
      proof (induction n arbitrary: st)
        case 0 show ?case using su by (subst (1 2) first_parallel.simps) (simp add: same_stations_def)
      next
        case (Suc n) then show ?case using su by (subst (1 2) first_parallel.simps) (simp add: same_stations_def)
      qed
      have "config_of st u = config_of st s" "max_stations u = max_stations s" using su by (simp_all add: same_stations_def)
      then have "Some h = Some (hd (gs ! k))" unfolding h [symmetric] fp R(1) [symmetric] by simp
      then have "h = hd (gs ! k)" by simp
      moreover have "next_station h u = next_station h s" using su by (simp add: next_station_def same_stations_def)
      ultimately show "next_station h u \<in> heads_behind gs k" using stations_next_behind [OF S _ k, of k] by simp
    qed
    then show ?thesis by (simp add: t)
  qed
  have own: "e_owner (m_events t e) = e_owner (m_events s e)" "pri_of e t = pri_of e s" for e using dn by (simp_all add: downstream_def)
  have n: "nevents t = nevents s" using dn by (simp add: downstream_def same_stations_def nevents_def)
  have "circulates t L'"
    unfolding circulates_def
  proof (intro conjI allI impI)
    show "fix_idle t" using c dn by (simp add: circulates_def fix_idle_def downstream_def)
    fix e assume e: "int e < nevents t"
    show "pri_of e t \<in> {ET_LOW, ET_HIGH}" using circulatesD(5) [OF c, of e] e n own by simp
    have "(\<exists>r. e \<in> set (L' r)) = (\<exists>r. e \<in> set (L r))" using L'(4) by (metis (mono_tags) UN_iff UNIV_I)
    then show "(e_owner (m_events t e) = ET_SYS) = (\<exists>r. e \<in> set (L' r))" using circulatesD(6) [OF c, of e] e n own by simp
  qed (fact hold un)+
  moreover have "dealt gs k st L L'"
    unfolding dealt_def
  proof (intro conjI allI impI ballI)
    fix r e assume "r \<noteq> ListOut st" "e \<in> set (L r)"
    then show "e \<in> set (L' r)" using L'(2,3) by (cases r) auto
  next
    fix e assume e: "e \<in> set (L (ListOut st))"
    then obtain r where r: "e \<in> set (L' r)" using L'(4) by blast
    have rn: "r \<noteq> q" if "set (L' q) = set (L q)" "q \<noteq> ListOut st" for q
      using circulatesD(3) [OF c that(2)] that(1) r e by blast
    have "r \<noteq> ListOut p" for p using rn [of "ListOut p"] L'(1) L'(2) [of p] r by (cases "p = st") auto
    then obtain q where q: "r = ListIn q" by (cases r) auto
    have "q \<in> behind gs k"
    proof (rule ccontr)
      assume "q \<notin> behind gs k"
      then have g: "glist (ListIn q) t = glist (ListIn q) s" using dn by (simp add: downstream_def)
      have "set (L' (ListIn q)) = set (L (ListIn q))"
        by (rule same_length_set [OF circulatesD(1) [OF c] _ g L'(3)]) (use hold in \<open>simp add: holds_def\<close>)
      then show False using rn [of "ListIn q"] q by simp
    qed
    then show "\<exists>q \<in> behind gs k. e \<in> set (L' (ListIn q))" using r q by blast
  qed (fact L'(1))
  ultimately show thesis using that t dn by blast
qed

end
