(* ===== verification/Et_CallStations.thy ===== *)
theory Et_CallStations
  imports Et_CallSteps Et_KeptConductor
begin

text \<open>
  The calls of \<^verbatim>\<open>et_event.c\<close> do not see to the stations: a call that does not sleep and returns has left them as they were.
\<close>

section \<open>What the calls leave alone\<close>

text \<open>When \<open>m\<close> starts in \<open>P\<close> and returns, it has come to \<open>Q\<close>.\<close>

definition ends :: "('s \<Rightarrow> bool) \<Rightarrow> ('s, 'a) prog \<Rightarrow> ('a \<Rightarrow> 's \<Rightarrow> bool) \<Rightarrow> bool" where
  "ends P m Q \<longleftrightarrow> (\<forall>s a t. P s \<longrightarrow> snd (m s) = Done a t \<longrightarrow> Q a t)"

lemma ends_bind: "ends P m R \<Longrightarrow> (\<And>a. ends (R a) (k a) Q) \<Longrightarrow> ends P (bindp m k) Q"
  by (fastforce simp: ends_def bind_def split: prod.splits outcome.splits)

abbreviation quiet :: "et_mem \<Rightarrow> 'a cmd \<Rightarrow> bool" where
  "quiet s m \<equiv> ends (same_stations s) m (\<lambda>_. same_stations s)"

lemma quiet_always: "always same_stations m \<Longrightarrow> quiet s m"
  unfolding always_def ends_def outcome_in_def
  by (auto split: outcome.splits) (metis outcome.simps(17) stations_kept.trans)

lemma quiet_bind: "quiet s m \<Longrightarrow> (\<And>a. quiet s (k a)) \<Longrightarrow> quiet s (bindp m k)"
  by (rule ends_bind)

lemma quiet_ret: "quiet s (ret a)"
  by (simp add: ends_def ret_def)

lemma quiet_rules:
  "quiet s m' \<Longrightarrow> quiet s n \<Longrightarrow> quiet s (andthen m' n)"
  "(\<And>x. quiet s (l x)) \<Longrightarrow> quiet s (load f l)" "quiet s n \<Longrightarrow> quiet s n' \<Longrightarrow> quiet s (cond b n n')"
  "quiet s n \<Longrightarrow> quiet s n' \<Longrightarrow> quiet s (if d then n else n')" "quiet s n \<Longrightarrow> quiet s (local_call h far err n)"
proof -
  show "quiet s m' \<Longrightarrow> quiet s n \<Longrightarrow> quiet s (andthen m' n)" unfolding andthen_def by (rule ends_bind)
  show "(\<And>x. quiet s (l x)) \<Longrightarrow> quiet s (load f l)" unfolding ends_def load_def by blast
  show "quiet s n \<Longrightarrow> quiet s n' \<Longrightarrow> quiet s (cond b n n')" unfolding ends_def cond_def by metis
  show "quiet s n \<Longrightarrow> quiet s n' \<Longrightarrow> quiet s (if d then n else n')" by simp
  show "quiet s n \<Longrightarrow> quiet s (local_call h far err n)" by (simp add: local_call_def quiet_ret)
qed

lemma quiet_stores:
  "quiet s (store (upd_event e f))" "quiet s (store (upd_attach a g))" "quiet s (store (upd_os c))"
  "quiet s (store (upd_sys (sy_ntemps_update k)))"
  by (auto intro!: quiet_always stations_kept.always_store stations_kept.upd stations_kept.upd_more simp: same_stations_def)

lemmas quiets = quiet_ret quiet_bind quiet_rules quiet_stores

lemma quiet_make: "quiet s (et_event_make v e sz)"
  by (auto simp: et_event_make_def block.simps intro!: quiets)

lemma quiet_try: "ends (same_stations s) (make_try k v sz e []) (\<lambda>r u. same_stations s u \<and> snd r = [])"
proof (induction k)
  case (Suc k)
  have w: "ends (same_stations s) (wait_temps (v_tries v) 0 []) (\<lambda>r u. same_stations s u \<and> snd r = [])"
    by (auto simp: ends_def cond_def ret_def)
  have k: "ends (\<lambda>u. same_stations s u \<and> snd r = []) (case r of (n, sl) \<Rightarrow> if n \<ge> v_tries v then ret (c, sl) else make_try k v sz e sl)
      (\<lambda>r u. same_stations s u \<and> snd r = [])" for r c
    using Suc by (cases r; cases "snd r = []") (auto simp: ends_def ret_def)
  show ?case
    unfolding make_try.simps
    by (rule ends_bind [OF quiet_make]) (use ends_bind [OF w k] in \<open>auto simp: ends_def [of _ "ret a" for a] ret_def\<close>)
qed (simp add: ends_def blocked_def)

lemma quiet_all: "quiet s (make_all v sz [] es)"
proof (induction es)
  case (Cons e es)
  have "ends (\<lambda>u. same_stations s u \<and> snd r = []) (case r of (c, sl) \<Rightarrow> if c \<noteq> ET_OK then ret c else make_all v sz sl es)
      (\<lambda>_. same_stations s)" for r
    using Cons by (cases r; cases "snd r = []") (auto simp: ends_def ret_def)
  then show ?case unfolding make_all.simps by (rule ends_bind [OF quiet_try])
qed (simp add: quiets)

lemma quiet_init: "quiet s (init_events sz es)"
  by (induction es) (auto simp: block.simps intro!: quiets)

lemma quiet_new: "v_sleeps v = [] \<Longrightarrow> quiet s (finish_new v att sz r)"
  by (cases r) (auto simp: finish_new_def prepare_events_def intro!: quiets quiet_all quiet_init)

lemma quiet_map: "quiet s (map_temps v es)"
  by (induction es) (auto intro!: quiets)

lemma quiet_get: "quiet s (finish_get v att r)"
  by (cases r) (auto simp: finish_get_def intro!: quiets quiet_map)

lemma quiet_reads:
  "quiet s (et_station_read st mode att [])" "quiet s (et_station_nread st mode att [] n)"
  "quiet s (et_station_nread_group st mode att [] n g)" "quiet s (et_station_write st e)" "quiet s (et_station_nwrite st es)"
  "quiet s (et_station_dump e)" "quiet s (et_station_ndump es)"
  by (auto intro!: quiet_always stations_kept.always_read stations_kept.always_nread stations_kept.always_nread_group
      stations_kept.always_write stations_kept.always_nwrite stations_kept.always_ndump stations_kept.always_dump)

lemma quiet_pair: "(\<And>a b. quiet s (k a b)) \<Longrightarrow> quiet s (case r of (a, b) \<Rightarrow> k a b)"
  "(\<And>a b c. quiet s (l a b c)) \<Longrightarrow> quiet s (case q of (a, b, c) \<Rightarrow> l a b c)"
  by (auto split: prod.split)

lemma quiet_news:
  assumes "awake v"
  shows "quiet s (et_events_new_group h att mode dt sz num gr v)" "quiet s (et_events_new h att mode dt sz num v)"
    "quiet s (et_event_new_group h att mode dt sz gr v)" "quiet s (et_event_new h att mode dt sz v)"
  using assms
  by (auto simp: et_events_new_group_def et_events_new_def et_event_new_group_def et_event_new_def
      intro!: quiets quiet_reads quiet_new quiet_pair)

lemma quiet_gets:
  assumes "awake v"
  shows "quiet s (et_events_get h att mode dt num v)" "quiet s (et_event_get h att mode dt v)"
  using assms by (auto simp: et_events_get_def et_event_get_def intro!: quiets quiet_reads quiet_get quiet_pair)

lemma quiet_unmap: "quiet s k \<Longrightarrow> quiet s (unmap_then v e k)"
  by (auto simp: unmap_then_def intro!: quiets)

lemma quiet_age: "quiet s (age_events v es)" "quiet s (unage_events es)" "quiet s (remove_temps v es n)"
  by (induction es arbitrary: n) (auto simp: block.simps intro!: quiets quiet_unmap)

lemma quiet_puts:
  "quiet s (et_events_put h att es v)" "quiet s (et_event_put h att e v)"
  "quiet s (et_events_dump h att es v)" "quiet s (et_event_dump h att e v)"
  by (auto simp: et_events_put_def et_event_put_def et_events_dump_def et_event_dump_def block.simps whenp_def
      simp del: remove_temps.simps intro!: quiets quiet_reads quiet_unmap quiet_age quiet_pair)

end
