(* ===== verification/Et_Transfer.thy ===== *)
theory Et_Transfer
  imports Et_Downstream Et_CallStations
begin

text \<open>
  The transfers of events as a state machine: the calls of \<^verbatim>\<open>et_event.c\<close>, each from where it need not sleep any
  more to its end, the access of an owner to its events, and the rounds of the conductors, in any order.
  In a system in good order every transfer keeps it so, and moves an event from one place to the next.
  The arrays of events that are put or dumped hold events of the system, each once: \<^verbatim>\<open>et_events_put\<close> and
  \<^verbatim>\<open>et_events_dump\<close> do not check this, and an event given twice would be linked to itself.
\<close>

section \<open>Steps\<close>

datatype transfer = Make et_att_id | Get et_att_id | Put et_att_id | Dump et_att_id | Access nat | Deal et_stat_id

inductive transfer_step :: "et_mem \<Rightarrow> transfer \<Rightarrow> et_mem \<Rightarrow> bool" where
  events_new: "awake v \<Longrightarrow> snd (et_events_new h att mode dt sz num v s) = Done r t \<Longrightarrow> transfer_step s (Make att) t"
| events_new_group: "awake v \<Longrightarrow> snd (et_events_new_group h att mode dt sz num gr v s) = Done r t \<Longrightarrow> transfer_step s (Make att) t"
| event_new: "awake v \<Longrightarrow> snd (et_event_new h att mode dt sz v s) = Done r' t \<Longrightarrow> transfer_step s (Make att) t"
| event_new_group: "awake v \<Longrightarrow> snd (et_event_new_group h att mode dt sz gr v s) = Done r' t \<Longrightarrow> transfer_step s (Make att) t"
| events_get: "awake v \<Longrightarrow> snd (et_events_get h att mode dt num v s) = Done r t \<Longrightarrow> transfer_step s (Get att) t"
| event_get: "awake v \<Longrightarrow> snd (et_event_get h att mode dt v s) = Done r' t \<Longrightarrow> transfer_step s (Get att) t"
| events_put: "distinct es \<Longrightarrow> \<forall>e \<in> set es. int e < nevents s \<Longrightarrow> snd (et_events_put h att es v s) = Done c t \<Longrightarrow> transfer_step s (Put att) t"
| event_put: "int e < nevents s \<Longrightarrow> snd (et_event_put h att e v s) = Done c t \<Longrightarrow> transfer_step s (Put att) t"
| events_dump: "distinct es \<Longrightarrow> \<forall>e \<in> set es. int e < nevents s \<Longrightarrow> snd (et_events_dump h att es v s) = Done c t \<Longrightarrow> transfer_step s (Dump att) t"
| event_dump: "int e < nevents s \<Longrightarrow> snd (et_event_dump h att e v s) = Done c t \<Longrightarrow> transfer_step s (Dump att) t"
| access: "int e < nevents s \<Longrightarrow> e_owner (m_events s e) \<noteq> ET_SYS
    \<Longrightarrow> write \<in> {et_event_setpriority pri, et_event_setlength len, et_event_setcontrol con, et_event_setdatastatus d, et_event_setendian mine end'}
    \<Longrightarrow> transfer_step s (Access e) (upd_event e (\<lambda>p. snd (write p)) s)"
| deal: "in_array s st \<Longrightarrow> status_of st s \<noteq> ET_STATION_UNUSED \<Longrightarrow> cnt_of (ListOut st) s \<ge> 1
    \<Longrightarrow> conductor_deal usr st s = Go t \<Longrightarrow> transfer_step s (Deal st) t"

section \<open>Places\<close>

datatype place = Listed listref | Held et_att_id

definition at_place :: "et_mem \<Rightarrow> nat \<Rightarrow> place \<Rightarrow> bool" where
  "at_place s e p = (case p of Listed r \<Rightarrow> e \<in> set (content s r)
     | Held a \<Rightarrow> e_owner (m_events s e) = a \<and> a \<noteq> ET_SYS)"

lemma at_place_iff: "circulates s L \<Longrightarrow> at_place s e p = (case p of Listed r \<Rightarrow> e \<in> set (L r)
     | Held a \<Rightarrow> e_owner (m_events s e) = a \<and> a \<noteq> ET_SYS)"
  using circulates_content [of s L] by (auto simp: at_place_def split: place.split)

lemma place_unique:
  assumes c: "circulates s L" and p: "at_place s e p" "at_place s e q"
  shows "p = q"
  using p circulatesD(3,7) [OF c] unfolding at_place_iff [OF c] by (cases p; cases q) fastforce+

lemma place_exists: "circulates s L \<Longrightarrow> int e < nevents s \<Longrightarrow> \<exists>p. at_place s e p"
  using circulatesD(6) [of s L e]
  by (cases "e_owner (m_events s e) = ET_SYS") (auto simp: at_place_iff intro: exI [of _ "Listed r" for r] exI [of _ "Held a" for a])

lemma gets_place:
  assumes c: "circulates s L" and g: "gets s L st att u" and p: "at_place s e p"
  shows "\<exists>q. at_place u e q \<and> (q = p \<or> p = Listed (ListIn st) \<and> q = Held att \<and> 0 \<le> att \<and> \<not> inactive att s)"
proof -
  obtain es ys where t: "set (L (ListIn st)) = set es \<union> set ys" "circulates u (L(ListIn st := ys))"
    "\<forall>e \<in> set es. e_owner (m_events u e) = att" "same_owners (set es) s u" "es \<noteq> [] \<longrightarrow> 0 \<le> att \<and> \<not> inactive att s"
    using g by (auto simp: gets_def taken_def)
  show ?thesis
  proof (cases "e \<in> set es")
    case True
    then have "p = Listed (ListIn st)" using place_unique [OF c p, of "Listed (ListIn st)"] t(1) by (simp add: at_place_iff [OF c])
    moreover have "at_place u e (Held att)" using True t(3,5) by (auto simp: at_place_def)
    ultimately show ?thesis using True t(5) by (intro exI [of _ "Held att"]) auto
  next
    case False
    have "at_place u e p"
      using p False t(1,4) by (auto simp: at_place_iff [OF c] at_place_iff [OF t(2)] same_owners_def split: place.splits if_splits)
    then show ?thesis by blast
  qed
qed

lemma gives_place:
  assumes c: "circulates s L" and g: "gives s L r att es u" and p: "at_place s e p"
  shows "\<exists>q. at_place u e q \<and> (q = p \<or> p = Held att \<and> q = Listed r)"
  using g unfolding gives_def
proof (elim disjE conjE)
  assume "circulates u L" "same_owners {} s u"
  then have "at_place u e p" using p by (auto simp: at_place_iff [OF c] at_place_iff same_owners_def split: place.splits)
  then show ?thesis by blast
next
  assume h: "held s att es" and g: "given s L r es u"
  obtain zs where z: "set zs = set (L r) \<union> set es" "circulates u (L(r := zs))" "same_owners (set es) s u"
    using g by (auto simp: given_def)
  show ?thesis
  proof (cases "e \<in> set es")
    case True
    then have "at_place s e (Held att)" using h by (auto simp: at_place_def held_def)
    then have "p = Held att" by (rule place_unique [OF c p])
    moreover have "at_place u e (Listed r)" using True z(1) by (simp add: at_place_iff [OF z(2)])
    ultimately show ?thesis by blast
  next
    case False
    have "at_place u e p"
      using p False z(1,3) by (auto simp: at_place_iff [OF c] at_place_iff [OF z(2)] same_owners_def split: place.splits if_splits)
    then show ?thesis by blast
  qed
qed

lemma dealt_place:
  assumes c: "circulates s L" and u: "circulates u L'" "downstream D s u" "dealt gs k st L L'" and p: "at_place s e p"
  shows "\<exists>q. at_place u e q \<and> (p \<noteq> Listed (ListOut st) \<and> q = p \<or> p = Listed (ListOut st) \<and> (\<exists>x \<in> behind gs k. q = Listed (ListIn x)))"
proof (cases "p = Listed (ListOut st)")
  case True
  then have "e \<in> set (L (ListOut st))" using p by (simp add: at_place_iff [OF c])
  then obtain x where "x \<in> behind gs k" "e \<in> set (L' (ListIn x))" using u(3) by (auto simp: dealt_def)
  then show ?thesis using True by (intro exI [of _ "Listed (ListIn x)"]) (auto simp: at_place_iff [OF u(1)])
next
  case False
  then have "at_place u e p"
    using p u(2,3) by (auto simp: at_place_iff [OF c] at_place_iff [OF u(1)] downstream_def dealt_def split: place.splits)
  then show ?thesis using False by blast
qed

section \<open>Systems in good order\<close>

text \<open>The events that are in no list belong to active attachments.\<close>

definition attached :: "et_mem \<Rightarrow> bool" where
  "attached s \<longleftrightarrow> (\<forall>e a. int e < nevents s \<longrightarrow> at_place s e (Held a) \<longrightarrow> 0 \<le> a \<and> \<not> inactive a s)"

definition in_order :: "et_stat_id list list \<Rightarrow> et_mem \<Rightarrow> bool" where
  "in_order gs s \<longleftrightarrow> circulating s \<and> well_laid s gs \<and> attached s"

text \<open>Where a transfer takes an event from where it is.\<close>

inductive hop :: "et_stat_id list list \<Rightarrow> et_mem \<Rightarrow> place \<Rightarrow> place \<Rightarrow> bool" for gs s where
  made: "0 \<le> a \<Longrightarrow> \<not> inactive a s \<Longrightarrow> hop gs s (Listed (ListIn ET_GRANDCENTRAL)) (Held a)"
| got: "0 \<le> a \<Longrightarrow> \<not> inactive a s \<Longrightarrow> hop gs s (Listed (ListIn (station_of a s))) (Held a)"
| put: "hop gs s (Held a) (Listed (ListOut (station_of a s)))"
| dumped: "hop gs s (Held a) (Listed (ListIn ET_GRANDCENTRAL))"
| dealt: "k < length gs \<Longrightarrow> st \<in> set (gs ! k) \<Longrightarrow> x \<in> behind gs k \<Longrightarrow> hop gs s (Listed (ListOut st)) (Listed (ListIn x))"

definition advances :: "et_stat_id list list \<Rightarrow> et_mem \<Rightarrow> et_mem \<Rightarrow> bool" where
  "advances gs s t \<longleftrightarrow> in_order gs t \<and> same_atts s t
     \<and> (\<forall>e p. int e < nevents s \<longrightarrow> at_place s e p \<longrightarrow> (\<exists>q. at_place t e q \<and> (q = p \<or> hop gs s p q)))"

lemma well_laid_same: 
  assumes W: "well_laid s gs" and t: "same_stations s t"
  shows "well_laid t gs"
proof -
  have "config_of st t = config_of st s" "s_data (m_stats t st) = s_data (m_stats s st)" for st
    using t by (simp_all add: same_stations_def)
  then show ?thesis using W station_system_same [OF _ t] by (simp add: well_laid_def no_rrobin_def)
qed

lemma advancesI:
  assumes s: "in_order gs s" and t: "circulates t L'" "same_stations s t" "same_atts s t"
    and hops: "\<And>e p. int e < nevents s \<Longrightarrow> at_place s e p \<Longrightarrow> \<exists>q. at_place t e q \<and> (q = p \<or> hop gs s p q)"
  shows "advances gs s t"
proof -
  have a: "station_of a t = station_of a s" "inactive a t = inactive a s" "nevents t = nevents s" for a
    using t(3) by (simp_all add: same_atts_def)
  have c: "circulates s (content s)" and A: "attached s" "well_laid s gs"
    using s by (simp_all add: in_order_def circulating_def)
  have "0 \<le> a \<and> \<not> inactive a t" if e: "int e < nevents t" and p: "at_place t e (Held a)" for e a
  proof -
    obtain p0 where p0: "at_place s e p0" using place_exists [OF c] e a(3) by auto
    then obtain q where q: "at_place t e q" "q = p0 \<or> hop gs s p0 q" using hops e a(3) by metis
    have "q = Held a" by (rule place_unique [OF t(1) q(1) p])
    then show ?thesis using q(2) p0 A(1) e a by (auto simp: attached_def elim: hop.cases)
  qed
  then have "attached t" using A(1) a by (simp add: attached_def)
  moreover have "circulating t" using t(1) circulating_iff by blast
  ultimately show ?thesis using well_laid_same [OF A(2) t(2)] t(3) hops by (simp add: advances_def in_order_def)
qed

lemma advance_gets:
  assumes s: "in_order gs s" and g: "gets s (content s) st att t" and q: "same_stations s t"
    and st: "st = ET_GRANDCENTRAL \<or> st = station_of att s"
  shows "advances gs s t"
proof -
  have c: "circulates s (content s)" using s by (simp add: in_order_def circulating_def)
  obtain L' where "circulates t L'" "same_atts s t" using g by (auto simp: gets_def taken_def)
  then show ?thesis
    by (rule advancesI [OF s _ q]) (use gets_place [OF c g] st hop.intros(1,2) in metis)
qed

lemma advance_gives:
  assumes s: "in_order gs s" and g: "gives s (content s) r att es t" and q: "same_stations s t"
    and r: "r = ListOut (station_of att s) \<or> r = ListIn ET_GRANDCENTRAL"
  shows "advances gs s t"
proof -
  have c: "circulates s (content s)" using s by (simp add: in_order_def circulating_def)
  obtain L' where "circulates t L'" "same_atts s t" using g by (auto simp: gives_def given_def)
  then show ?thesis
    by (rule advancesI [OF s _ q]) (use gives_place [OF c g] r hop.intros(3,4) in metis)
qed

lemma in_group: "st \<in> set (concat gs) \<Longrightarrow> \<exists>k. k < length gs \<and> st \<in> set (gs ! k)"
  by (auto simp: in_set_conv_nth [of _ gs])

lemma advance_deal:
  assumes s: "in_order gs s" and st: "in_array s st" "status_of st s \<noteq> ET_STATION_UNUSED" "cnt_of (ListOut st) s \<ge> 1"
    and d: "conductor_deal usr st s = Go t"
  shows "advances gs s t" "content t (ListOut st) = []"
proof -
  have c: "circulates s (content s)" and W: "well_laid s gs" using s by (simp_all add: in_order_def circulating_def)
  have "st \<in> set (concat gs)" using station_systemD(4) [OF _ st(1)] st(2) W by (auto simp: well_laid_def)
  then obtain k where k: "k < length gs" "st \<in> set (gs ! k)" using in_group [of st gs] by blast
  have "content s (ListOut st) \<noteq> []"
    using circulatesD(1) [OF c, of "ListOut st"] st(3) by (auto simp: list_ok_def ev_list_def)
  then obtain L' where L': "circulates t L'" "downstream (behind gs k) s t" "dealt gs k st (content s) L'"
    using conductor_moves [OF c _ W k, of usr] d by auto
  show "advances gs s t"
  proof (rule advancesI [OF s L'(1)])
    show "same_atts s t" using L'(2) by (simp add: downstream_def same_atts_def same_stations_def nevents_def)
    show "same_stations s t" using L'(2) by (simp add: downstream_def)
    fix e p assume "at_place s e p"
    then show "\<exists>q. at_place t e q \<and> (q = p \<or> hop gs s p q)"
      using dealt_place [OF c L', of e p] hop.dealt [OF k] by blast
  qed
  show "content t (ListOut st) = []" using L'(1,3) circulates_content by (metis dealt_def)
qed

lemma runs_from: "runs (\<lambda>u. u = s) m Q \<Longrightarrow> snd (m s) = Done a t \<Longrightarrow> Q a t"
  by (erule runs_done) simp_all

lemma quiet_done: "quiet s m \<Longrightarrow> snd (m s) = Done a t \<Longrightarrow> same_stations s t"
  unfolding ends_def using stations_kept.refl by blast

lemma set_keeps:
  assumes "write \<in> {et_event_setpriority pri, et_event_setlength len, et_event_setcontrol con, et_event_setdatastatus d, et_event_setendian mine end'}"
  shows "e_owner (snd (write p)) = e_owner p" "e_priority (snd (write p)) = e_priority p \<or> e_priority (snd (write p)) \<in> {ET_LOW, ET_HIGH}"
  using assms
  by (auto simp: et_event_setpriority_def et_event_setlength_def et_event_setcontrol_def et_event_setdatastatus_def
      et_event_setendian_def split: if_splits)

lemma advance_access:
  assumes s: "in_order gs s" and e: "int e < nevents s" "e_owner (m_events s e) \<noteq> ET_SYS"
    and w: "\<And>p. e_owner (f p) = e_owner p \<and> (e_priority (f p) = e_priority p \<or> e_priority (f p) \<in> {ET_LOW, ET_HIGH})"
  shows "advances gs s (upd_event e f s)"
proof -
  have c: "circulates s (content s)" using s by (simp add: in_order_def circulating_def)
  have t: "touch {e} s (upd_event e f s)" by (rule touch_updates(1) [OF touch_refl _ w]) simp
  have c': "circulates (upd_event e f s) (content s)" by (rule circulates_touch [OF c t]) (use e in auto)
  show ?thesis
  proof (rule advancesI [OF s c'])
    fix x p assume "at_place s x p"
    then have "at_place (upd_event e f s) x p"
      using t by (auto simp: at_place_iff [OF c] at_place_iff [OF c'] touch_def split: place.splits)
    then show "\<exists>q. at_place (upd_event e f s) x q \<and> (q = p \<or> hop gs s p q)" by blast
  qed (use t in \<open>simp_all add: touch_def same_stations_upd\<close>)
qed

lemma event_new_group_moves: "circulates s L \<Longrightarrow> awake v
    \<Longrightarrow> runs (\<lambda>t. t = s) (et_event_new_group h att mode dt sz gr v) (\<lambda>_. gets s L ET_GRANDCENTRAL att)"
  unfolding et_event_new_group_def by (rule drop_count [OF new_group_moves])

lemma step_gets:
  assumes "in_order gs s" and "runs (\<lambda>u. u = s) m (\<lambda>_. gets s (content s) st att)" and "quiet s m" and "snd (m s) = Done a t"
    and "st = ET_GRANDCENTRAL \<or> st = station_of att s"
  shows "advances gs s t"
  by (rule advance_gets [OF assms(1) runs_from [OF assms(2,4)] quiet_done [OF assms(3,4)] assms(5)])

lemma step_gives:
  assumes "in_order gs s" and "runs (\<lambda>u. u = s) m (\<lambda>_. gives s (content s) r att es)" and "quiet s m" and "snd (m s) = Done a t"
    and "r = ListOut (station_of att s) \<or> r = ListIn ET_GRANDCENTRAL"
  shows "advances gs s t"
  by (rule advance_gives [OF assms(1) runs_from [OF assms(2,4)] quiet_done [OF assms(3,4)] assms(5)])

theorem transfer_advances:
  assumes "transfer_step s l t" and s: "in_order gs s"
  shows "advances gs s t"
proof -
  have c: "circulates s (content s)" using s by (simp add: in_order_def circulating_def)
  note D = runs_from
  show ?thesis
    using assms(1)
  proof cases
    case (events_new v h att mode dt sz num r)
    show ?thesis by (rule step_gets [OF s new_moves [OF c events_new(2)] quiet_news(2) [OF events_new(2)] events_new(3)]) simp
  next
    case (events_new_group v h att mode dt sz num gr r)
    show ?thesis by (rule step_gets [OF s new_group_moves [OF c events_new_group(2)] quiet_news(1) [OF events_new_group(2)] events_new_group(3)]) simp
  next
    case (event_new v h att mode dt sz r')
    show ?thesis by (rule step_gets [OF s event_new_moves [OF c event_new(2)] quiet_news(4) [OF event_new(2)] event_new(3)]) simp
  next
    case (event_new_group v h att mode dt sz gr r')
    show ?thesis by (rule step_gets [OF s event_new_group_moves [OF c event_new_group(2)] quiet_news(3) [OF event_new_group(2)] event_new_group(3)]) simp
  next
    case (events_get v h att mode dt num r)
    show ?thesis by (rule step_gets [OF s get_moves [OF c events_get(2)] quiet_gets(1) [OF events_get(2)] events_get(3)]) simp
  next
    case (event_get v h att mode dt r')
    show ?thesis by (rule step_gets [OF s event_get_moves [OF c event_get(2)] quiet_gets(2) [OF event_get(2)] event_get(3)]) simp
  next
    case (events_put es h att v c')
    show ?thesis by (rule step_gives [OF s put_moves [OF c events_put(2,3)] quiet_puts(1) events_put(4)]) simp
  next
    case (event_put e h att v c')
    show ?thesis by (rule step_gives [OF s event_put_moves [OF c event_put(2)] quiet_puts(2) event_put(3)]) simp
  next
    case (events_dump es h att v c')
    show ?thesis by (rule step_gives [OF s dump_moves [OF c events_dump(2,3)] quiet_puts(3) events_dump(4)]) simp
  next
    case (event_dump e h att v c')
    show ?thesis by (rule step_gives [OF s event_dump_moves [OF c event_dump(2)] quiet_puts(4) event_dump(3)]) simp
  next
    case (access e w pri len con d mine end')
    show ?thesis unfolding access(2) by (rule advance_access [OF s access(3,4)]) (use set_keeps [OF access(5)] in blast)
  next
    case (deal st usr)
    then show ?thesis using advance_deal(1) [OF s] by blast
  qed
qed

inductive_cases deal_stepE: "transfer_step s (Deal st) t"

lemma deal_empties: "in_order gs s \<Longrightarrow> transfer_step s (Deal st) t \<Longrightarrow> content t (ListOut st) = []"
  by (erule deal_stepE) (rule advance_deal(2))

section \<open>Runs\<close>

definition run_of :: "(nat \<Rightarrow> et_mem) \<Rightarrow> (nat \<Rightarrow> transfer) \<Rightarrow> bool" where
  "run_of \<sigma> l \<longleftrightarrow> (\<forall>i. transfer_step (\<sigma> i) (l i) (\<sigma> (Suc i)))"

lemma same_atts_trans: "same_atts s t \<Longrightarrow> same_atts t u \<Longrightarrow> same_atts s u"
  by (simp add: same_atts_def)

lemma run_in_order:
  assumes "run_of \<sigma> l" and "in_order gs (\<sigma> 0)"
  shows "in_order gs (\<sigma> i) \<and> same_atts (\<sigma> 0) (\<sigma> i)"
proof (induction i)
  case 0
  then show ?case using assms by (simp add: same_atts_def)
next
  case (Suc i)
  then have "advances gs (\<sigma> i) (\<sigma> (Suc i))" using assms(1) transfer_advances unfolding run_of_def by blast
  then show ?case using Suc same_atts_trans unfolding advances_def by blast
qed

lemma hop_same:
  assumes "same_atts s t" and "hop gs t p q"
  shows "hop gs s p q"
proof -
  have eq: "station_of a t = station_of a s" "a_status (sy_attach (m_sys t) a) = a_status (sy_attach (m_sys s) a)" for a
    using assms(1) by (simp_all add: same_atts_def)
  show ?thesis using assms(2) by cases (auto simp: eq intro: hop.intros)
qed

lemma run_step:
  assumes R: "run_of \<sigma> l" "in_order gs (\<sigma> 0)" and e: "int e < nevents (\<sigma> 0)" and p: "at_place (\<sigma> i) e p"
  shows "\<exists>q. at_place (\<sigma> (Suc i)) e q \<and> (q = p \<or> hop gs (\<sigma> 0) p q)"
proof -
  have s: "in_order gs (\<sigma> i)" "same_atts (\<sigma> 0) (\<sigma> i)" using run_in_order [OF R] by simp_all
  have "advances gs (\<sigma> i) (\<sigma> (Suc i))" using R(1) transfer_advances [OF _ s(1)] unfolding run_of_def by blast
  moreover have "int e < nevents (\<sigma> i)" using e s(2) by (simp add: same_atts_def)
  ultimately obtain q where "at_place (\<sigma> (Suc i)) e q" "q = p \<or> hop gs (\<sigma> i) p q" using p unfolding advances_def by blast
  then show ?thesis using hop_same [OF s(2)] by blast
qed

text \<open>An event that is not for ever at a place goes from there to the next one.\<close>

lemma run_leaves:
  assumes R: "run_of \<sigma> l" "in_order gs (\<sigma> 0)" and e: "int e < nevents (\<sigma> 0)"
    and p: "at_place (\<sigma> i) e p" and j: "i \<le> j" "\<not> at_place (\<sigma> j) e p"
  shows "\<exists>k \<ge> i. \<exists>q. hop gs (\<sigma> 0) p q \<and> at_place (\<sigma> k) e q"
proof -
  have "at_place (\<sigma> j) e p \<or> (\<exists>k \<ge> i. \<exists>q. hop gs (\<sigma> 0) p q \<and> at_place (\<sigma> k) e q)"
    using j(1)
  proof (induction j rule: dec_induct)
    case base
    then show ?case using p by simp
  next
    case (step n)
    have "i \<le> Suc n" using step.hyps by simp
    then show ?case using step run_step [OF R e, of n p] by metis
  qed
  then show ?thesis using j(2) by blast
qed

section \<open>The way to GrandCentral\<close>

text \<open>How far a place is from GrandCentral: three places for each group.\<close>

definition rank :: "et_stat_id list list \<Rightarrow> et_stat_id \<Rightarrow> nat" where
  "rank gs st = length (dropWhile (\<lambda>g. st \<notin> set g) gs)"

fun distance :: "et_stat_id list list \<Rightarrow> et_mem \<Rightarrow> place \<Rightarrow> nat" where
  "distance gs s (Listed (ListIn st)) = 3 * rank gs st + 2"
| "distance gs s (Held a) = 3 * rank gs (station_of a s) + 1"
| "distance gs s (Listed (ListOut st)) = 3 * rank gs st"

lemma rank_nth:
  assumes "distinct (concat gs)" and "k < length gs" and "st \<in> set (gs ! k)"
  shows "rank gs st = length gs - k"
proof -
  have gs: "gs = take k gs @ gs ! k # drop (Suc k) gs" using assms(2) by (simp add: id_take_nth_drop)
  then have "distinct (concat (take k gs) @ gs ! k @ concat (drop (Suc k) gs))" using assms(1) by (metis concat.simps(2) concat_append)
  then have "st \<notin> set g" if "g \<in> set (take k gs)" for g using that assms(3) by auto
  then have "dropWhile (\<lambda>g. st \<notin> set g) (take k gs @ gs ! k # drop (Suc k) gs) = gs ! k # drop (Suc k) gs"
    using assms(3) by (subst dropWhile_append2) auto
  then have "rank gs st = length (gs ! k # drop (Suc k) gs)" using gs by (simp add: rank_def)
  then show ?thesis using assms(2) by simp
qed

lemma hop_closer:
  assumes d: "distinct (concat gs)" and h: "hop gs s p q" and p: "p \<noteq> Listed (ListIn ET_GRANDCENTRAL)" and q: "q \<noteq> Listed (ListIn ET_GRANDCENTRAL)"
  shows "distance gs s q < distance gs s p"
  using h
proof cases
  case (dealt k st x)
  then have "x \<noteq> ET_GRANDCENTRAL" using q by auto
  then obtain g where "g \<in> set (drop (Suc k) gs)" "x \<in> set g" using dealt by (auto simp: behind_def)
  then obtain i where "k < i" "i < length gs" "x \<in> set (gs ! i)" using behind_nth [of g k gs] by blast
  then show ?thesis using dealt rank_nth [OF d, of k st] rank_nth [OF d, of i x] by simp
qed (use p q in simp_all)

theorem run_returns:
  assumes R: "run_of \<sigma> l" "in_order gs (\<sigma> 0)" and e: "int e < nevents (\<sigma> 0)"
    and deals: "\<And>i st. content (\<sigma> i) (ListOut st) \<noteq> [] \<Longrightarrow> \<exists>j \<ge> i. l j = Deal st"
    and leaves: "\<And>i p. at_place (\<sigma> i) e p \<Longrightarrow> (\<And>st. p \<noteq> Listed (ListOut st)) \<Longrightarrow> p \<noteq> Listed (ListIn ET_GRANDCENTRAL)
      \<Longrightarrow> \<exists>j \<ge> i. \<not> at_place (\<sigma> j) e p"
  shows "at_place (\<sigma> i) e p \<Longrightarrow> \<exists>j \<ge> i. at_place (\<sigma> j) e (Listed (ListIn ET_GRANDCENTRAL))"
proof (induction "distance gs (\<sigma> 0) p" arbitrary: p i rule: less_induct)
  case less
  show ?case
  proof (cases "p = Listed (ListIn ET_GRANDCENTRAL)")
    case False
    have "\<exists>j \<ge> i. \<not> at_place (\<sigma> j) e p"
    proof (cases "\<exists>st. p = Listed (ListOut st)")
      case True
      then obtain st where st: "p = Listed (ListOut st)" ..
      then have "content (\<sigma> i) (ListOut st) \<noteq> []" using less.prems by (auto simp: at_place_def)
      then obtain j where j: "j \<ge> i" "l j = Deal st" using deals by blast
      have "transfer_step (\<sigma> j) (Deal st) (\<sigma> (Suc j))" using R(1) j(2) by (metis run_of_def)
      then have "content (\<sigma> (Suc j)) (ListOut st) = []" using deal_empties run_in_order [OF R] by blast
      then show ?thesis using j(1) st by (intro exI [of _ "Suc j"]) (simp add: at_place_def)
    next
      case no: False
      then show ?thesis using leaves [OF less.prems _ False] by blast
    qed
    then obtain k q where k: "k \<ge> i" "hop gs (\<sigma> 0) p q" "at_place (\<sigma> k) e q" using run_leaves [OF R e less.prems] by blast
    show ?thesis
    proof (cases "q = Listed (ListIn ET_GRANDCENTRAL)")
      case True
      then show ?thesis using k by blast
    next
      case far: False
      have "distinct (concat gs)"
        using R(2) station_systemD(1) stationsD(4) unfolding in_order_def well_laid_def by blast
      then have "distance gs (\<sigma> 0) q < distance gs (\<sigma> 0) p" using hop_closer k(2) False far by blast
      then show ?thesis using less.hyps [OF _ k(3)] k(1) by (meson order_trans)
    qed
  qed (use less.prems in blast)
qed

end
