(* ===== verification/Et_TransferSpec.thy ===== *)
theory Et_TransferSpec
  imports Et_Transfer Et_StationSpec
begin

text \<open>
  The properties of the transfers: events are neither lost nor shared by whatever the attachments and the
  conductors do, and in a fair run every event comes back to GrandCentral.
\<close>

section \<open>A concrete system\<close>

text \<open>Two events are in the output list of the last station; behind it there is only GrandCentral.\<close>

definition mem_pair :: et_mem where
  "mem_pair = upd_event 0 (e_next_update (\<lambda>_. Some 1))
     (upd_list (ListOut 2) (\<lambda>l. l\<lparr>l_cnt := 2, l_firstevent := Some 0, l_lastevent := Some 1\<rparr>)
       (mem_line\<lparr>m_sys := (m_sys mem_line)\<lparr>sy_config := sys_config0\<lparr>y_nevents := 2\<rparr>\<rparr>\<rparr>))"

lemma line_sys [simp]:
  "m_sys mem_line = system0\<lparr>sy_nstations := 3, sy_stat_tail := 2\<rparr>" "m_events mem_line = m_events mem0"
  "glist r mem_line = list0" "gfix st mem_line = fix0"
  by (cases r; simp add: mem_line_def glist.simps gfix_def samples)+

abbreviation pair_lists :: "listref \<Rightarrow> nat list" where
  "pair_lists r \<equiv> if r = ListOut 2 then [0, 1] else []"

lemma pair_circulates: "circulates mem_pair pair_lists"
proof -
  have n: "nevents mem_pair = 2" by (simp add: mem_pair_def nevents_def)
  have g: "glist r mem_pair = (if r = ListOut 2 then list0\<lparr>l_cnt := 2, l_firstevent := Some 0, l_lastevent := Some 1\<rparr> else list0)" for r
    by (simp add: mem_pair_def glist_m_sys)
  have f: "gfix st mem_pair = fix0" for st by (simp add: mem_pair_def) (simp add: gfix_def samples)
  have e: "m_events mem_pair x = (m_events mem0 x)\<lparr>e_next := (if x = 0 then Some 1 else None)\<rparr>" for x
    by (simp add: mem_pair_def ev0_def)
  have ev: "int x < 2 \<Longrightarrow> x = 0 \<or> x = 1" for x by linarith
  show ?thesis
    using ev by (auto simp: circulates_def holds_def list_ok_def ev_list_def unlocked_def fix_idle_def n g f e list0_def fix0_def ev0_def pri_sorted_def)
qed

lemma pair_stats [simp]:
  "s_next (m_stats mem_pair i) = s_next (m_stats mem_line i)" "s_prev (m_stats mem_pair i) = s_prev (m_stats mem_line i)"
  "s_nextparallel (m_stats mem_pair i) = -1" "s_prevparallel (m_stats mem_pair i) = -1"
  "s_num (m_stats mem_pair i) = i" "config_of i mem_pair = stat_config0" "status_of i mem_pair = status_of i mem_line"
  "tail_of mem_pair = 2" "sy_nstations (m_sys mem_pair) = 3" "sy_config (m_sys mem_pair) = sys_config0\<lparr>y_nevents := 2\<rparr>"
  by (simp_all add: mem_pair_def upd_event_def upd_list.simps upd_station_def station0_def)

lemma pair_in_order: "in_order [[0], [1], [2]] mem_pair"
proof -
  have "stations mem_pair [[0], [1], [2]]"
    unfolding stations_def by (simp add: in_array_def sys_config0_def)
  then have "station_system mem_pair [[0], [1], [2]]"
    by (rule station_systemI) (auto simp: station0_def)
  then have "well_laid mem_pair [[0], [1], [2]]"
    by (simp add: well_laid_def no_rrobin_def stat_config0_def)
  moreover have "attached mem_pair"
    unfolding attached_def
  proof (intro allI impI)
    fix e a assume "int e < nevents mem_pair" "at_place mem_pair e (Held a)"
    then show "0 \<le> a \<and> \<not> inactive a mem_pair"
      using circulatesD(6) [OF pair_circulates, of e] by (auto simp: at_place_def mem_pair_def nevents_def samples split: if_splits)
  qed
  ultimately show ?thesis using pair_circulates circulating_iff by (auto simp: in_order_def)
qed

text \<open>The round of the conductor of the last station.\<close>

lemma pair_deal:
  obtains t where "transfer_step mem_pair (Deal 2) t" "\<forall>e < 2. at_place t e (Listed (ListIn ET_GRANDCENTRAL))"
    "nevents t = 2" "conductor_deal (\<lambda>_ _. True) 2 mem_pair = Go t"
proof -
  have W: "well_laid mem_pair [[0], [1], [2]]" using pair_in_order by (simp add: in_order_def)
  obtain t L' where t: "conductor_deal (\<lambda>_ _. True) 2 mem_pair = Go t" "circulates t L'" "downstream (behind [[0], [1], [2]] 2) mem_pair t"
    "dealt [[0], [1], [2]] 2 2 pair_lists L'"
    by (rule conductor_moves [OF pair_circulates _ W, of 2 2 "\<lambda>_ _. True"]) simp_all
  have "cnt_of (ListOut 2) mem_pair = 2" by (simp add: mem_pair_def)
  then have "transfer_step mem_pair (Deal 2) t"
    by (intro transfer_step.deal [OF _ _ _ t(1)]) (simp_all add: in_array_def sys_config0_def)
  moreover have "\<forall>e < 2. at_place t e (Listed (ListIn ET_GRANDCENTRAL))"
    using t(4) by (auto simp: at_place_iff [OF t(2)] dealt_def behind_def less_2_cases_iff)
  moreover have "nevents t = 2" using t(3) by (simp add: downstream_def same_stations_def nevents_def)
  ultimately show thesis using that t(1) by blast
qed

section \<open>Properties\<close>

text \<open>C39: from a system in good order (every list well formed, its events owned by the system; round robin
  groups only directly behind GrandCentral; GrandCentral active and serial) any sequence of transfers - calls of
  et_event.c for new events, to get, put and dump events, with whatever outcomes, accesses of owners to
  their events, and rounds of the conductors - leads to a system in good order again, in which every event is in exactly
  one place: one list, or in the hands of one active attachment.  The callers are free in their arguments but for one duty that
  the code leaves to them: the array of a put or a dump holds events of the system, and none of them twice.\<close>

theorem transfers_keep_events:
  assumes "in_order gs s" and "(\<lambda>s t. \<exists>l. transfer_step s l t)\<^sup>*\<^sup>* s t"
  shows "in_order gs t \<and> nevents t = nevents s \<and> (\<forall>e. int e < nevents t \<longrightarrow> (\<exists>!p. at_place t e p))"
proof -
  have *: "in_order gs t \<and> same_atts s t"
    using assms(2)
  proof (induction rule: rtranclp_induct)
    case base
    then show ?case using assms(1) by (simp add: same_atts_def)
  next
    case (step t u)
    then obtain l where "transfer_step t l u" by blast
    then have "advances gs t u" using transfer_advances step.IH by blast
    then show ?case using step.IH same_atts_trans unfolding advances_def by blast
  qed
  then have "circulates t (content t)" by (simp add: in_order_def circulating_def)
  then have "\<forall>e. int e < nevents t \<longrightarrow> (\<exists>!p. at_place t e p)" using place_exists place_unique by metis
  then show ?thesis using * by (simp add: same_atts_def)
qed

lemma transfers_keep_events_witness:
  "\<exists>t. conductor_deal (\<lambda>_ _. True) 2 mem_pair = Go t \<and> in_order [[0], [1], [2]] t \<and> (\<exists>!p. at_place t 1 p)"
proof -
  obtain t where t: "transfer_step mem_pair (Deal 2) t" "nevents t = 2" "conductor_deal (\<lambda>_ _. True) 2 mem_pair = Go t"
    by (rule pair_deal) blast
  have "(\<lambda>s t. \<exists>l. transfer_step s l t)\<^sup>*\<^sup>* mem_pair t" using t(1) by blast
  from transfers_keep_events [OF pair_in_order this] show ?thesis using t(2,3) by auto
qed

text \<open>C40: in a run of transfers from a system in good order every event comes back to the input list of GrandCentral,
  again and again, when the conductor of a station whose output list is not empty gets its turn some time, an
  attachment that holds an event gives it back some time, and an event in the input list of another station is got by an
  attachment some time.\<close>

theorem events_return:
  assumes "run_of \<sigma> l" and "in_order gs (\<sigma> 0)" and "int e < nevents (\<sigma> 0)"
    and conductors: "\<And>i st. content (\<sigma> i) (ListOut st) \<noteq> [] \<Longrightarrow> \<exists>j \<ge> i. l j = Deal st"
    and readers: "\<And>i st. st \<noteq> ET_GRANDCENTRAL \<Longrightarrow> at_place (\<sigma> i) e (Listed (ListIn st))
      \<Longrightarrow> \<exists>j \<ge> i. \<not> at_place (\<sigma> j) e (Listed (ListIn st))"
    and owners: "\<And>i a. at_place (\<sigma> i) e (Held a) \<Longrightarrow> \<exists>j \<ge> i. \<not> at_place (\<sigma> j) e (Held a)"
  shows "\<forall>i. \<exists>j \<ge> i. at_place (\<sigma> j) e (Listed (ListIn ET_GRANDCENTRAL))"
proof
  fix i
  have i: "in_order gs (\<sigma> i)" "same_atts (\<sigma> 0) (\<sigma> i)" using run_in_order [OF assms(1,2)] by simp_all
  then have "circulates (\<sigma> i) (content (\<sigma> i))" "int e < nevents (\<sigma> i)"
    using assms(3) by (simp_all add: in_order_def circulating_def same_atts_def)
  then obtain p where p: "at_place (\<sigma> i) e p" using place_exists by blast
  have leaves: "\<exists>j \<ge> i. \<not> at_place (\<sigma> j) e p"
    if "at_place (\<sigma> i) e p" "\<And>st. p \<noteq> Listed (ListOut st)" "p \<noteq> Listed (ListIn ET_GRANDCENTRAL)" for i p
  proof (cases p)
    case (Listed r)
    then show ?thesis using readers that by (cases r) auto
  next
    case (Held a)
    then show ?thesis using owners that(1) by blast
  qed
  show "\<exists>j \<ge> i. at_place (\<sigma> j) e (Listed (ListIn ET_GRANDCENTRAL))"
    by (rule run_returns [OF assms(1-3) _ _ p]) (erule conductors, rule leaves)
qed

lemma events_return_witness:
  "\<exists>\<sigma> l. run_of \<sigma> l \<and> \<sigma> 0 = mem_pair \<and> at_place (\<sigma> 0) 1 (Listed (ListOut 2)) \<and> l 0 = Deal 2
     \<and> (\<exists>j. at_place (\<sigma> j) 1 (Listed (ListIn ET_GRANDCENTRAL)))"
proof -
  obtain t where t: "transfer_step mem_pair (Deal 2) t" "\<forall>e < 2. at_place t e (Listed (ListIn ET_GRANDCENTRAL))" "nevents t = 2"
    by (rule pair_deal)
  define \<sigma> where "\<sigma> i = (if i = (0 :: nat) then mem_pair else t)" for i
  define l where "l i = (if i = (0 :: nat) then Deal 2 else Put 0)" for i
  define v :: event_env where "v = \<lparr>v_far = (0, [], 0), v_wakes = [], v_alive = True, v_sleeps = [], v_tries = 0,
    v_create = (\<lambda>_. True), v_attach = (\<lambda>_. True), v_munmap = (\<lambda>_. True), v_remove = (\<lambda>_. True)\<rparr>"
  have "snd (et_events_put local_id 0 [] v t) = Done ET_OK t" by (simp add: et_events_put_def ret_def)
  then have "transfer_step t (Put 0) t" using transfer_step.events_put [of "[]" t local_id 0 v ET_OK t] by simp
  then have R: "run_of \<sigma> l" using t(1) by (simp add: run_of_def \<sigma>_def l_def)
  have "in_order [[0], [1], [2]] t" using transfer_advances [OF t(1) pair_in_order] by (simp add: advances_def)
  then have ct: "circulates t (content t)" by (simp add: in_order_def circulating_def)
  have at: "p = Listed (ListIn ET_GRANDCENTRAL)" if "e < 2" "at_place t e p" for e p
    using place_unique [OF ct that(2)] t(2) that(1) by blast
  have pair: "content mem_pair = pair_lists" using circulates_content [OF pair_circulates] by simp
  have none: "content t (ListOut st) = []" for st
  proof (rule ccontr)
    assume "content t (ListOut st) \<noteq> []"
    then obtain e where e: "e \<in> set (content t (ListOut st))" by (cases "content t (ListOut st)") auto
    then have "e < 2" "at_place t e (Listed (ListOut st))" using circulatesD(7) [OF ct e] t(3) by (simp_all add: at_place_def)
    then show False using at by blast
  qed
  have "\<forall>i. \<exists>j \<ge> i. at_place (\<sigma> j) 1 (Listed (ListIn ET_GRANDCENTRAL))"
  proof (rule events_return [OF R, of "[[0], [1], [2]]" 1])
    show "in_order [[0], [1], [2]] (\<sigma> 0)" "int 1 < nevents (\<sigma> 0)" by (simp_all add: \<sigma>_def pair_in_order nevents_def)
    show "\<exists>j \<ge> i. l j = Deal st" if "content (\<sigma> i) (ListOut st) \<noteq> []" for i st
      using that none pair by (cases "i = 0") (auto simp: \<sigma>_def l_def split: if_splits)
    show "\<exists>j \<ge> i. \<not> at_place (\<sigma> j) 1 (Listed (ListIn st))" if "st \<noteq> ET_GRANDCENTRAL" "at_place (\<sigma> i) 1 (Listed (ListIn st))" for i st
      using that at [of 1 "Listed (ListIn st)"] by (intro exI [of _ "Suc i"]) (auto simp: \<sigma>_def)
    show "\<exists>j \<ge> i. \<not> at_place (\<sigma> j) 1 (Held a)" if "at_place (\<sigma> i) 1 (Held a)" for i a
      using at [of 1 "Held a"] by (intro exI [of _ "Suc i"]) (auto simp: \<sigma>_def)
  qed
  then obtain j where "at_place (\<sigma> j) 1 (Listed (ListIn ET_GRANDCENTRAL))" by blast
  moreover have "at_place (\<sigma> 0) 1 (Listed (ListOut 2))" by (simp add: at_place_def pair \<sigma>_def)
  moreover have "\<sigma> 0 = mem_pair" "l 0 = Deal 2" by (simp_all add: \<sigma>_def l_def)
  ultimately show ?thesis using R by blast
qed

end
