(* ===== verification/Cmsg_Base64.thy ===== *)
theory Cmsg_Base64
  imports Poker_Prelude
begin

text \<open>
  The base64 encoding of binary data in cMsg messages
  (\<^verbatim>\<open>src/src/external/cMsg-3.6/src/libsrc/encode.c\<close>).

  Binary data are lists of bytes, encoded data are strings; the pointers into the output are its
  length so far.  \<^verbatim>\<open>char\<close> is signed, so that a character above 127 is negative there.  The lengths
  are below the range of \<^verbatim>\<open>unsigned int\<close> except in the two estimates, whose arithmetic is written
  out as the source has it.
\<close>

unbundle bit_operations_syntax

section \<open>The alphabet\<close>

definition base64_chars :: string where
  "base64_chars = ''ABCDEFGHIJKLMNOPQRSTUVWXYZabcdefghijklmnopqrstuvwxyz0123456789+/''"

definition b64lookup :: "int list" where
  "b64lookup = replicate 43 (- 1) @ [62] @ replicate 3 (- 1) @ [63] @ [52, 53, 54, 55, 56, 57, 58, 59, 60, 61]
     @ replicate 7 (- 1) @ [0, 1, 2, 3, 4, 5, 6, 7, 8, 9, 10, 11, 12, 13, 14, 15, 16, 17, 18, 19, 20, 21, 22, 23, 24, 25]
     @ replicate 6 (- 1) @ [26, 27, 28, 29, 30, 31, 32, 33, 34, 35, 36, 37, 38, 39, 40, 41, 42, 43, 44, 45, 46, 47,
       48, 49, 50, 51] @ replicate 5 (- 1)"

abbreviation (input) "newline \<equiv> CHR 0x0A"

section \<open>Encoding\<close>

text \<open>The character for the six bits of \<open>buf\<close> from bit \<open>k\<close> on.\<close>

definition base64_char :: "32 word \<Rightarrow> nat \<Rightarrow> char" where
  "base64_char buf k = base64_chars ! unat (drop_bit k buf AND 0x3f)"

text \<open>
  The loop over the bytes; \<open>out\<close> is what has been written.  At its end \<^verbatim>\<open>pos\<close>, \<^verbatim>\<open>buf\<close>, the output
  and \<^verbatim>\<open>oldEnd\<close> are returned.
\<close>

fun b64_encode_loop ::
  "bool \<Rightarrow> 8 word list \<Rightarrow> int \<Rightarrow> 32 word \<Rightarrow> string \<Rightarrow> nat \<Rightarrow> nat \<Rightarrow> int \<times> 32 word \<times> string \<times> nat" where
  "b64_encode_loop br [] pos buf out lend oldEnd = (pos, buf, out, oldEnd)"
| "b64_encode_loop br (c # cs) pos buf out lend oldEnd = (let
       buf1 = buf OR push_bit (nat (8 * pos)) (ucast c);
       pos1 = pos - 1;
       (out2, pos2, buf2) = (if pos1 < 0
         then (out @ [base64_char buf1 18, base64_char buf1 12, base64_char buf1 6, base64_char buf1 0], 2, 0)
         else (out, pos1, buf1))
     in if br \<and> length out2 \<ge> lend
        then let out3 = out2 @ [newline] in b64_encode_loop br cs pos2 buf2 out3 (length out3 + 76) (length out3)
        else b64_encode_loop br cs pos2 buf2 out2 lend oldEnd)"

definition cMsg_b64_encode :: "8 word list \<Rightarrow> bool \<Rightarrow> string" where
  "cMsg_b64_encode src br = (case b64_encode_loop br src 2 0 [] 76 0 of (pos, buf, out, oldEnd) \<Rightarrow>
     let out1 = (if pos \<noteq> 2
           then out @ [base64_char buf 18, base64_char buf 12, if pos = 0 then base64_char buf 6 else CHR ''='', CHR ''='']
           else out)
     in if br \<and> length out1 > oldEnd then out1 @ [newline] else out1)"

section \<open>Decoding\<close>

definition b64_space :: "char \<Rightarrow> bool" where
  "b64_space c \<longleftrightarrow> c \<in> {CHR '' '', CHR 0x09, newline, CHR 0x0D}"

text \<open>The value that the table has for a character, or a negative one.\<close>

definition b64_value :: "char \<Rightarrow> int" where
  "b64_value c = (let v = of_char c :: nat in if 0 < v \<and> v < 127 then b64lookup ! v else - 1)"

definition b64_store :: "nat \<Rightarrow> 32 word \<Rightarrow> 8 word list \<Rightarrow> 8 word list" where
  "b64_store fin buf out = (let
       out = out @ [ucast (drop_bit 16 buf)];
       out = (if fin = 0 \<or> fin > 1 then out @ [ucast (drop_bit 8 buf)] else out)
     in if fin = 0 \<or> fin > 2 then out @ [ucast buf] else out)"

text \<open>The result with the bytes stored so far, also behind an error.\<close>

fun b64_decode_loop :: "string \<Rightarrow> 32 word \<Rightarrow> nat \<Rightarrow> nat \<Rightarrow> 8 word list \<Rightarrow> int \<times> 8 word list" where
  "b64_decode_loop [] buf pos fin out = (if pos \<noteq> 0 then - 3 else int (length out), out)"
| "b64_decode_loop (c # cs) buf pos fin out =
     (if b64_space c then b64_decode_loop cs buf pos fin out
      else let b = (if c = CHR ''='' then 0 else b64_value c);
               fin1 = (if c = CHR ''='' \<and> fin = 0 then (if pos = 2 then 1 else 2) else fin);
               buf1 = push_bit 6 buf + word_of_int b
        in if c = CHR ''='' \<and> fin = 0 \<and> pos \<noteq> 2 \<and> pos \<noteq> 3 then (- 1, out)
           else if b < 0 then (- 2, out)
           else if pos + 1 = 4 then b64_decode_loop cs 0 0 fin1 (b64_store fin1 buf1 out)
           else b64_decode_loop cs buf1 (pos + 1) fin1 out)"

definition cMsg_b64_decode :: "string \<Rightarrow> int \<times> 8 word list" where
  "cMsg_b64_decode src = b64_decode_loop src 0 0 0 []"

section \<open>Lengths\<close>

fun b64_decode_count :: "string \<Rightarrow> nat \<Rightarrow> nat \<Rightarrow> nat \<Rightarrow> nat" where
  "b64_decode_count [] pos fin n = n"
| "b64_decode_count (c # cs) pos fin n =
     (if b64_space c then b64_decode_count cs pos fin n
      else let fin1 = (if c = CHR ''='' \<and> fin = 0 then (if pos = 2 then 1 else if pos = 3 then 2 else 0) else fin)
        in if pos + 1 = 4
           then b64_decode_count cs 0 fin1
             (n + 1 + (if fin1 = 0 \<or> fin1 > 1 then 1 else 0) + (if fin1 = 0 \<or> fin1 > 2 then 1 else 0))
           else b64_decode_count cs (pos + 1) fin1 n)"

definition cMsg_b64_decode_len :: "string \<Rightarrow> nat" where
  "cMsg_b64_decode_len src = b64_decode_count src 0 0 0"

fun b64_encode_count :: "bool \<Rightarrow> nat \<Rightarrow> int \<Rightarrow> nat \<Rightarrow> nat \<Rightarrow> nat \<Rightarrow> int \<times> nat \<times> nat" where
  "b64_encode_count br 0 pos n lend oldEnd = (pos, n, oldEnd)"
| "b64_encode_count br (Suc k) pos n lend oldEnd = (let
       (n1, pos1) = (if pos - 1 < 0 then (n + 4, 2) else (n, pos - 1))
     in if br \<and> n1 \<ge> lend then b64_encode_count br k pos1 (n1 + 1) (n1 + 1 + 76) (n1 + 1)
        else b64_encode_count br k pos1 n1 lend oldEnd)"

definition cMsg_b64_encode_len :: "nat \<Rightarrow> bool \<Rightarrow> nat" where
  "cMsg_b64_encode_len len br = (case b64_encode_count br len 2 0 76 0 of (pos, n, oldEnd) \<Rightarrow>
     let n1 = (if pos \<noteq> 2 then n + 4 else n) in if br \<and> n1 > oldEnd then n1 + 1 else n1)"

definition cMsg_b64_encode_len_est :: "32 word \<Rightarrow> 32 word" where
  "cMsg_b64_encode_len_est srclen = (srclen + 2) * 4 div 3 + srclen div (76 * 3 div 4) + 1"

definition cMsg_b64_decode_len_est :: "32 word \<Rightarrow> 32 word" where
  "cMsg_b64_decode_len_est srclen = drop_bit 2 (srclen * 3)"

section \<open>Bits\<close>

text \<open>Three bytes together.\<close>

definition b64_word :: "8 word \<Rightarrow> 8 word \<Rightarrow> 8 word \<Rightarrow> 32 word" where
  "b64_word a b c = push_bit 16 (ucast a) OR push_bit 8 (ucast b) OR ucast c"

lemma bit_b64_word: "n < 32 \<Longrightarrow> bit (b64_word a b c) n =
   (if n < 8 then bit c n else if n < 16 then bit b (n - 8) else if n < 24 then bit a (n - 16) else False)"
  by (auto simp: b64_word_def bit_simps dest: bit_imp_le_length)

lemma b64_word_bytes:
  "ucast (drop_bit 16 (b64_word a b c)) = a" "ucast (drop_bit 8 (b64_word a b c)) = b" "ucast (b64_word a b c) = c"
  by (rule bit_word_eqI; simp add: bit_ucast_iff bit_drop_bit_eq bit_b64_word)+

lemma six_mask: "(0x3f :: 32 word) = mask 6"
  by (simp add: mask_eq_exp_minus_1)

lemma b64_word_top: "drop_bit 18 (b64_word a b c) AND 0x3f = drop_bit 18 (b64_word a b c)"
  unfolding six_mask by (rule bit_word_eqI) (auto simp: bit_simps b64_word_def dest: bit_imp_le_length)

lemma b64_word_step: "push_bit 6 (drop_bit (k + 6) w) + (drop_bit k w AND 0x3f) = drop_bit k (w :: 32 word)"
proof -
  have "drop_bit k w AND 0x3f = take_bit 6 (drop_bit k w)" by (simp add: six_mask take_bit_eq_mask)
  moreover have "drop_bit (k + 6) w = drop_bit 6 (drop_bit k w)" by (simp add: drop_bit_drop_bit add.commute)
  ultimately show ?thesis using bits_ident [of 6 "drop_bit k w"] by simp
qed

lemma base64_table:
  "\<forall>i \<in> set [0..<64]. \<not> b64_space (base64_chars ! i) \<and> base64_chars ! i \<noteq> CHR ''='' \<and> base64_chars ! i \<noteq> newline
     \<and> b64_value (base64_chars ! i) = int i"
  by code_simp

lemma unat_six: "unat (x AND 0x3f :: 32 word) < 64"
proof -
  have "x AND 0x3f = take_bit 6 x" by (simp add: six_mask take_bit_eq_mask)
  then show ?thesis using take_bit_nat_less_exp [of 6 "unat x"] by (simp add: unsigned_take_bit_eq)
qed

lemma not_space [simp]: "\<not> b64_space CHR ''=''"
  by (simp add: b64_space_def)

lemma base64_char_facts [simp]:
  "\<not> b64_space (base64_char w k)" "base64_char w k \<noteq> CHR ''=''" "base64_char w k \<noteq> newline"
  "b64_value (base64_char w k) = uint (drop_bit k w AND 0x3f)"
  using base64_table unat_six [of "drop_bit k w"] by (auto simp: base64_char_def)

section \<open>The text of an encoding\<close>

fun b64_groups :: "8 word list \<Rightarrow> string" where
  "b64_groups (a # b # c # r) = (let w = b64_word a b c in
     [base64_char w 18, base64_char w 12, base64_char w 6, base64_char w 0] @ b64_groups r)"
| "b64_groups [a, b] = (let w = b64_word a b 0 in [base64_char w 18, base64_char w 12, base64_char w 6, CHR ''=''])"
| "b64_groups [a] = (let w = b64_word a 0 0 in [base64_char w 18, base64_char w 12, CHR ''='', CHR ''=''])"
| "b64_groups [] = []"

definition b64_tail :: "int \<Rightarrow> 32 word \<Rightarrow> string" where
  "b64_tail pos buf = (if pos \<noteq> 2
     then [base64_char buf 18, base64_char buf 12, if pos = 0 then base64_char buf 6 else CHR ''='', CHR ''='']
     else [])"

abbreviation no_breaks :: "string \<Rightarrow> string" where
  "no_breaks \<equiv> filter (\<lambda>c. c \<noteq> newline)"

lemma encode_loop_groups:
  "b64_encode_loop br src 2 0 out lend old = (pos, buf, out', old')
   \<Longrightarrow> no_breaks (out' @ b64_tail pos buf) = no_breaks out @ b64_groups src"
proof (induction src arbitrary: out lend old rule: b64_groups.induct)
  case (1 a b c r)
  then show ?case
    by (auto simp: Let_def b64_word_def or.assoc split: if_splits)
qed (auto simp: Let_def b64_word_def b64_tail_def or.assoc split: if_splits)

lemma encode_groups: "no_breaks (cMsg_b64_encode src br) = b64_groups src"
proof -
  obtain pos buf out old where r: "b64_encode_loop br src 2 0 [] 76 0 = (pos, buf, out, old)"
    by (cases "b64_encode_loop br src 2 0 [] 76 0")
  then have "cMsg_b64_encode src br = (let o1 = out @ b64_tail pos buf in if br \<and> length o1 > old then o1 @ [newline] else o1)"
    by (simp add: cMsg_b64_encode_def b64_tail_def Let_def)
  then show ?thesis using encode_loop_groups [OF r] by (simp add: Let_def)
qed

lemma groups_no_space: "filter (\<lambda>c. \<not> b64_space c) (b64_groups src) = b64_groups src"
  by (induction src rule: b64_groups.induct) (simp_all add: Let_def)

lemma encode_text: "filter (\<lambda>c. \<not> b64_space c) (cMsg_b64_encode src br) = b64_groups src"
proof -
  have "(\<lambda>c. \<not> b64_space c) = (\<lambda>c. c \<noteq> newline \<and> \<not> b64_space c)" by (auto simp: b64_space_def)
  then have "filter (\<lambda>c. \<not> b64_space c) (cMsg_b64_encode src br)
      = filter (\<lambda>c. \<not> b64_space c) (no_breaks (cMsg_b64_encode src br))"
    by (metis filter_filter)
  then show ?thesis by (simp only: encode_groups groups_no_space)
qed

section \<open>Decoding it\<close>

lemma decode_spaces: "b64_decode_loop (filter (\<lambda>c. \<not> b64_space c) cs) buf pos fin out = b64_decode_loop cs buf pos fin out"
  by (induction cs arbitrary: buf pos fin out) (simp_all add: Let_def)

lemma count_spaces: "b64_decode_count (filter (\<lambda>c. \<not> b64_space c) cs) pos fin n = b64_decode_count cs pos fin n"
  by (induction cs arbitrary: pos fin n) (simp_all add: Let_def)

lemma word_of_six: "word_of_int (uint (x :: 32 word)) = x"
  by simp

lemma decode_groups: "b64_decode_loop (b64_groups src) 0 0 0 out = (int (length (out @ src)), out @ src)"
proof (induction src arbitrary: out rule: b64_groups.induct)
  case (1 a b c r)
  let ?w = "b64_word a b c"
  show ?case using 1 [OF refl] b64_word_step [of 12 ?w] b64_word_step [of 6 ?w] b64_word_step [of 0 ?w]
    by (simp add: Let_def b64_word_top b64_store_def b64_word_bytes)
next
  case (2 a b)
  let ?w = "b64_word a b 0"
  have "drop_bit 0 ?w AND 0x3f = 0" unfolding six_mask by (rule bit_word_eqI) (simp add: bit_simps bit_b64_word)
  then show ?case using b64_word_step [of 12 ?w] b64_word_step [of 6 ?w] b64_word_step [of 0 ?w]
    by (simp add: Let_def b64_word_top b64_store_def b64_word_bytes)
next
  case (3 a)
  let ?w = "b64_word a 0 0"
  have "drop_bit 0 ?w AND 0x3f = 0" "drop_bit 6 ?w AND 0x3f = 0"
    unfolding six_mask by (rule bit_word_eqI; auto simp: bit_simps b64_word_def dest: bit_imp_le_length)+
  then show ?case using b64_word_step [of 12 ?w] b64_word_step [of 6 ?w] b64_word_step [of 0 ?w]
    by (simp add: Let_def b64_word_top b64_store_def b64_word_bytes)
qed simp

lemma count_groups: "b64_decode_count (b64_groups src) 0 0 n = n + length src"
  by (induction src arbitrary: n rule: b64_groups.induct) (simp_all add: Let_def)

lemma encode_count: "(case b64_encode_loop br src pos buf out lend old of (p, b, o', e) \<Rightarrow> (p, length o', e))
  = b64_encode_count br (length src) pos (length out) lend old"
proof (induction src arbitrary: br pos buf out lend old)
  case (Cons c cs)
  have four: "Suc (Suc (Suc (Suc n))) = 4 + n" for n by simp
  show ?case by (simp add: Let_def Cons.IH four add.commute [of "length out" 5])
qed simp

lemma encode_len: "cMsg_b64_encode_len (length src) br = length (cMsg_b64_encode src br)"
proof -
  obtain pos buf out old where r: "b64_encode_loop br src 2 0 [] 76 0 = (pos, buf, out, old)"
    by (cases "b64_encode_loop br src 2 0 [] 76 0")
  then have "b64_encode_count br (length src) 2 0 76 0 = (pos, length out, old)"
    using encode_count [of br src 2 0 "[]" 76 0] by simp
  then show ?thesis using r by (auto simp: cMsg_b64_encode_len_def cMsg_b64_encode_def Let_def)
qed

section \<open>Properties\<close>

text \<open>C37: Decoding an encoding, with or without line breaks, gives the bytes back and their number as result; the two
  routines that count beforehand, \<^verbatim>\<open>cMsg_b64_encode_len\<close> and \<^verbatim>\<open>cMsg_b64_decode_len\<close>, tell exactly how many
  characters and bytes are stored.\<close>

theorem cMsg_b64_roundtrip:
  "cMsg_b64_decode (cMsg_b64_encode src br) = (int (length src), src)
   \<and> cMsg_b64_encode_len (length src) br = length (cMsg_b64_encode src br)
   \<and> cMsg_b64_decode_len (cMsg_b64_encode src br) = length src"
proof -
  have "cMsg_b64_decode (cMsg_b64_encode src br) = b64_decode_loop (b64_groups src) 0 0 0 []"
    by (simp add: cMsg_b64_decode_def decode_spaces flip: encode_text [of src br])
  moreover have "cMsg_b64_decode_len (cMsg_b64_encode src br) = b64_decode_count (b64_groups src) 0 0 0"
    by (simp add: cMsg_b64_decode_len_def count_spaces flip: encode_text [of src br])
  ultimately show ?thesis by (simp add: decode_groups count_groups encode_len)
qed

end
