(* ===== verification/Cmsg_Hash.thy ===== *)
theory Cmsg_Hash
  imports Poker_Prelude
begin

text \<open>
  The hash tables of cMsg, from strings to pointers (\<^verbatim>\<open>src/src/external/cMsg-3.6/src/libsrc/hash.c\<close>).

  A bucket is the list of its nodes, in the order of their links; the pointers stored are of any
  type.  Memory is there when it is asked for.  A table has at most \<open>2 ^ 29\<close> buckets, so that the
  number of buckets is in the range of \<^verbatim>\<open>int\<close> and \<^verbatim>\<open>downshift\<close> is not negative.
\<close>

section \<open>Tables\<close>

record 'a hashTable =
  ht_bucket :: "(string \<times> 'a) list list"
  ht_size :: int
  ht_entries :: int
  ht_downshift :: nat
  ht_mask :: "32 word"

text \<open>The value of a \<^verbatim>\<open>char\<close>, which is signed.\<close>

definition schar :: "char \<Rightarrow> int" where
  "schar c = (let v = of_char c in if v < 128 then v else v - 256)"

definition hash_sum :: "string \<Rightarrow> 32 word" where
  "hash_sum key = foldl (\<lambda>i c. push_bit 3 i + word_of_int (schar c - 48)) 0 key"

definition hash :: "'a hashTable \<Rightarrow> string \<Rightarrow> nat" where
  "hash t key = (let hashvalue = and (signed_drop_bit (ht_downshift t) (hash_sum key * 1103515249)) (ht_mask t)
     in if sint hashvalue < 0 then 0 else unat hashvalue)"

text \<open>The number of buckets is the next power of 2.\<close>

function hash_grow :: "int \<Rightarrow> int \<Rightarrow> 32 word \<Rightarrow> nat \<Rightarrow> int \<times> 32 word \<times> nat" where
  "hash_grow buckets sz msk down =
     (if sz < buckets \<and> 0 < sz then hash_grow buckets (2 * sz) (2 * msk + 1) (down - 1) else (sz, msk, down))"
  by auto
termination by (relation "measure (\<lambda>(b, sz, _, _). nat (b - sz))") auto

declare hash_grow.simps [simp del]

definition hashInit :: "int \<Rightarrow> 'a hashTable" where
  "hashInit buckets = (case hash_grow (if buckets \<le> 0 then 16 else buckets) 2 1 29 of (sz, msk, down) \<Rightarrow>
     \<lparr>ht_bucket = replicate (nat sz) [], ht_size = sz, ht_entries = 0, ht_downshift = down, ht_mask = msk\<rparr>)"

text \<open>A node is put before the others of the bucket \<open>h\<close>.\<close>

definition put_node :: "nat \<Rightarrow> string \<Rightarrow> 'a \<Rightarrow> 'a hashTable \<Rightarrow> 'a hashTable" where
  "put_node h key d t = t\<lparr>ht_bucket := (ht_bucket t)[h := (key, d) # ht_bucket t ! h], ht_entries := ht_entries t + 1\<rparr>"

definition rehash :: "(string \<times> 'a) list \<Rightarrow> 'a hashTable \<Rightarrow> 'a hashTable" where
  "rehash ns t = fold (\<lambda>(key, d) t. put_node (hash t key) key d t) ns t"

definition rebuild_table :: "'a hashTable \<Rightarrow> 'a hashTable" where
  "rebuild_table t = rehash (concat (ht_bucket t)) (hashInit (2 * ht_size t))"

text \<open>The table is expanded while it is half full.\<close>

partial_function (option) hash_expand :: "'a hashTable \<Rightarrow> 'a hashTable option" where
  "hash_expand t = (if 2 * ht_entries t \<ge> ht_size t then hash_expand (rebuild_table t) else Some t)"

section \<open>Operations\<close>

definition hashLookup :: "'a hashTable \<Rightarrow> string \<Rightarrow> int \<times> 'a option" where
  "hashLookup t key = (case find (\<lambda>n. fst n = key) (ht_bucket t ! hash t key) of
     Some n \<Rightarrow> (1, Some (snd n)) | None \<Rightarrow> (0, None))"

definition hashInsertTry :: "'a hashTable \<Rightarrow> string \<Rightarrow> 'a \<Rightarrow> (int \<times> 'a hashTable) option" where
  "hashInsertTry t key d = (let h = hash t key in
     case find (\<lambda>n. fst n = key) (ht_bucket t ! h) of Some _ \<Rightarrow> Some (0, t)
     | None \<Rightarrow> map_option (\<lambda>t. (1, put_node h key d t)) (hash_expand t))"

text \<open>The node with the key gets new data.\<close>

fun set_data :: "string \<Rightarrow> 'a \<Rightarrow> (string \<times> 'a) list \<Rightarrow> (string \<times> 'a) list" where
  "set_data key d [] = []"
| "set_data key d (n # ns) = (if fst n = key then (key, d) # ns else n # set_data key d ns)"

definition hashInsert :: "'a hashTable \<Rightarrow> string \<Rightarrow> 'a \<Rightarrow> ((int \<times> 'a option) \<times> 'a hashTable) option" where
  "hashInsert t key d = (let h = hash t key in
     case find (\<lambda>n. fst n = key) (ht_bucket t ! h) of
       Some n \<Rightarrow> Some ((1, Some (snd n)), t\<lparr>ht_bucket := (ht_bucket t)[h := set_data key d (ht_bucket t ! h)]\<rparr>)
     | None \<Rightarrow> map_option (\<lambda>t. ((0, None), put_node h key d t)) (hash_expand t))"

fun remove_node :: "string \<Rightarrow> (string \<times> 'a) list \<Rightarrow> (string \<times> 'a) list" where
  "remove_node key [] = []"
| "remove_node key (n # ns) = (if fst n = key then ns else n # remove_node key ns)"

definition hashRemove :: "'a hashTable \<Rightarrow> string \<Rightarrow> (int \<times> 'a option) \<times> 'a hashTable" where
  "hashRemove t key = (let h = hash t key in
     case find (\<lambda>n. fst n = key) (ht_bucket t ! h) of None \<Rightarrow> ((0, None), t)
     | Some n \<Rightarrow> ((1, Some (snd n)), t\<lparr>ht_bucket := (ht_bucket t)[h := remove_node key (ht_bucket t ! h)],
         ht_entries := ht_entries t - 1\<rparr>))"

text \<open>
  The array with all nodes has as many places as the table counts entries: \<open>None\<close> is a store
  behind its end, and a place \<open>None\<close> is one that nothing is stored to.
\<close>

definition all_nodes :: "'a hashTable \<Rightarrow> (string \<times> 'a) option list option" where
  "all_nodes t = (let ns = concat (ht_bucket t); n = nat (ht_entries t) in
     if length ns > n then None else Some (map Some ns @ replicate (n - length ns) None))"

definition hashGetAll :: "'a hashTable \<Rightarrow> (int \<times> (string \<times> 'a) option list) option" where
  "hashGetAll t = (if ht_entries t > 0 then map_option (\<lambda>ns. (1, ns)) (all_nodes t) else Some (1, []))"

text \<open>\<open>give\<close>: the caller asks for the nodes.\<close>

definition hashClear :: "'a hashTable \<Rightarrow> bool \<Rightarrow> ((int \<times> (string \<times> 'a) option list) \<times> 'a hashTable) option" where
  "hashClear t give = (let cleared = t\<lparr>ht_bucket := map (\<lambda>_. []) (ht_bucket t), ht_entries := 0\<rparr> in
     if give \<and> ht_entries t \<le> 0 then Some ((1, []), t\<lparr>ht_entries := 0\<rparr>)
     else if give then map_option (\<lambda>ns. ((1, ns), cleared)) (all_nodes t)
     else Some ((1, []), cleared))"

definition hashDestroy :: "'a hashTable \<Rightarrow> bool \<Rightarrow> ((int \<times> (string \<times> 'a) option list) \<times> 'a hashTable) option" where
  "hashDestroy t give = map_option (\<lambda>(r, t). (r, t\<lparr>ht_bucket := [], ht_size := 0, ht_entries := 0, ht_downshift := 0,
     ht_mask := 0\<rparr>)) (hashClear t give)"

definition hashSize :: "'a hashTable \<Rightarrow> int" where
  "hashSize t = ht_entries t"

section \<open>Well-formed tables\<close>

text \<open>
  Every node is in the bucket of its key, no key occurs twice, and the entries are counted;
  \<open>hash_wf\<close> says in addition that no more than half of the buckets are needed.
\<close>

definition hash_shape :: "nat \<Rightarrow> 'a hashTable \<Rightarrow> bool" where
  "hash_shape k t \<longleftrightarrow> k < 29 \<and> ht_size t = 2 ^ Suc k \<and> ht_mask t = mask (Suc k) \<and> ht_downshift t = 29 - k
     \<and> length (ht_bucket t) = 2 ^ Suc k"

definition hash_placed :: "'a hashTable \<Rightarrow> bool" where
  "hash_placed t \<longleftrightarrow> (\<exists>k. hash_shape k t) \<and> ht_entries t = int (length (concat (ht_bucket t)))
     \<and> (\<forall>i < length (ht_bucket t). \<forall>n \<in> set (ht_bucket t ! i). hash t (fst n) = i)
     \<and> (\<forall>i < length (ht_bucket t). distinct (map fst (ht_bucket t ! i)))"

definition hash_wf :: "'a hashTable \<Rightarrow> bool" where
  "hash_wf t \<longleftrightarrow> hash_placed t \<and> 2 * ht_entries t \<le> ht_size t"

text \<open>The map that a table stands for.\<close>

definition hash_map :: "'a hashTable \<Rightarrow> string \<Rightarrow> 'a option" where
  "hash_map t = map_of (concat (ht_bucket t))"

lemma hash_bound:
  assumes "hash_shape k t"
  shows "hash t key < length (ht_bucket t)"
proof -
  let ?v = "and (signed_drop_bit (ht_downshift t) (hash_sum key * 1103515249)) (ht_mask t)"
  have "?v = take_bit (Suc k) (signed_drop_bit (ht_downshift t) (hash_sum key * 1103515249))"
    using assms by (simp add: hash_shape_def take_bit_eq_mask)
  then have "unat ?v < 2 ^ Suc k" by (metis take_bit_nat_less_exp unsigned_take_bit_eq)
  then show ?thesis using assms by (simp add: hash_def hash_shape_def Let_def del: power_Suc)
qed

lemma hash_same: "ht_downshift t' = ht_downshift t \<Longrightarrow> ht_mask t' = ht_mask t \<Longrightarrow> hash t' = hash t"
  by (simp add: hash_def fun_eq_iff)

lemma map_of_concat:
  "i < length bs \<Longrightarrow> (\<And>j. j < length bs \<Longrightarrow> j \<noteq> i \<Longrightarrow> key \<notin> fst ` set (bs ! j))
   \<Longrightarrow> map_of (concat bs) key = map_of (bs ! i) key"
proof (induction bs arbitrary: i)
  case (Cons b bs)
  have *: "key \<notin> fst ` set (bs ! j)" if "j < length bs" "Suc j \<noteq> i" for j using Cons.prems(2) [of "Suc j"] that by simp
  show ?case
  proof (cases i)
    case 0
    then have "key \<notin> fst ` set (concat bs)" using * by (auto simp: in_set_conv_nth [of _ bs]) (metis * fst_conv imageI nat.distinct(1))
    then have "map_of (concat bs) key = None" by (simp add: map_of_eq_None_iff)
    then show ?thesis using 0 by (simp add: map_add_def split: option.splits)
  next
    case (Suc k)
    then have "key \<notin> fst ` set b" using Cons.prems(2) [of 0] by simp
    then have "map_of b key = None" by (simp add: map_of_eq_None_iff)
    moreover have "map_of (concat bs) key = map_of (bs ! k) key"
      by (rule Cons.IH) (use Cons.prems(1) Suc * in auto)
    ultimately show ?thesis using Suc by (simp add: map_add_def split: option.splits)
  qed
qed simp

lemma placed_map: "hash_placed t \<Longrightarrow> hash_map t key = map_of (ht_bucket t ! hash t key) key"
proof -
  assume p: "hash_placed t"
  then obtain k where "hash_shape k t" by (auto simp: hash_placed_def)
  from hash_bound [OF this] show ?thesis
    unfolding hash_map_def by (rule map_of_concat) (use p in \<open>auto simp: hash_placed_def\<close>)
qed

lemma find_map_of: "find (\<lambda>n. fst n = key) ns = map_option (\<lambda>d. (key, d)) (map_of ns key)"
  by (induction ns) auto

lemma length_concat_update:
  "i < length bs \<Longrightarrow> length (concat (bs[i := b])) + length (bs ! i) = length (concat bs) + length b"
proof (induction bs arbitrary: i)
  case (Cons c bs)
  then show ?case by (cases i) auto
qed simp

text \<open>A bucket is changed.\<close>

lemma change_bucket:
  assumes p: "hash_placed t" and h: "h = hash t key" and d: "distinct (map fst b)"
    and b: "\<And>n. n \<in> set b \<Longrightarrow> fst n = key \<or> n \<in> set (ht_bucket t ! h)"
    and t': "t' = t\<lparr>ht_bucket := (ht_bucket t)[h := b], ht_entries := ht_entries t + int (length b) - int (length (ht_bucket t ! h))\<rparr>"
    and m: "\<And>k. k \<noteq> key \<Longrightarrow> map_of b k = map_of (ht_bucket t ! h) k"
  shows "hash_placed t' \<and> hash_map t' = (hash_map t)(key := map_of b key)"
proof -
  obtain k where k: "hash_shape k t" using p by (auto simp: hash_placed_def)
  have hs: "hash t' = hash t" using t' by (intro hash_same) simp_all
  have i: "h < length (ht_bucket t)" using hash_bound [OF k] h by simp
  have "hash_shape k t'" using k t' by (simp add: hash_shape_def)
  moreover have "hash t (fst n) = h" if "n \<in> set b" for n
    using b [OF that] p i h by (auto simp: hash_placed_def)
  ultimately have P: "hash_placed t'"
    using p d i length_concat_update [OF i, of b]
    unfolding hash_placed_def hs by (auto simp: t' nth_list_update)
  have "hash_map t' x = ((hash_map t)(key := map_of b key)) x" for x
  proof -
    have "hash_map t' x = map_of ((ht_bucket t)[h := b] ! hash t x) x" unfolding placed_map [OF P] hs by (simp add: t')
    then show ?thesis using i m [of x] h by (simp add: placed_map [OF p] nth_list_update)
  qed
  then show ?thesis using P by blast
qed

lemma put_node_ok:
  assumes p: "hash_placed t" and n: "hash_map t key = None"
  shows "hash_placed (put_node (hash t key) key d t) \<and> hash_map (put_node (hash t key) key d t) = (hash_map t)(key \<mapsto> d)"
proof -
  let ?b = "(key, d) # ht_bucket t ! hash t key"
  obtain k where k: "hash_shape k t" using p by (auto simp: hash_placed_def)
  have "key \<notin> fst ` set (ht_bucket t ! hash t key)" using n by (simp add: placed_map [OF p] map_of_eq_None_iff)
  then have "distinct (map fst ?b)" using p hash_bound [OF k, of key] by (auto simp: hash_placed_def)
  then have "hash_placed (put_node (hash t key) key d t)
      \<and> hash_map (put_node (hash t key) key d t) = (hash_map t)(key := map_of ?b key)"
    by (rule change_bucket [OF p refl]) (auto simp: put_node_def)
  then show ?thesis by simp
qed

section \<open>Expanding\<close>

lemma hash_grow_shape:
  assumes "0 < m" and "m + k \<le> 28"
  shows "hash_grow (2 ^ Suc (m + k)) (2 ^ Suc k) (mask (Suc k)) (29 - k) = (2 ^ Suc (m + k), mask (Suc (m + k)), 29 - (m + k))"
  using assms
proof (induction m arbitrary: k)
  case (Suc m)
  have "2 * mask (Suc k) + 1 = (mask (Suc (Suc k)) :: 32 word)" by (simp add: mask_eq_exp_minus_1 algebra_simps)
  moreover have "(2 :: int) ^ Suc k < 2 ^ Suc (Suc m + k)" by (rule power_strict_increasing) simp_all
  ultimately have *: "hash_grow (2 ^ Suc (Suc m + k)) (2 ^ Suc k) (mask (Suc k)) (29 - k)
      = hash_grow (2 ^ Suc (m + Suc k)) (2 ^ Suc (Suc k)) (mask (Suc (Suc k))) (29 - Suc k)"
    by (subst hash_grow.simps) simp
  show ?case
  proof (cases m)
    case 0
    then show ?thesis unfolding * by (subst hash_grow.simps) simp
  next
    case (Suc m')
    then show ?thesis unfolding * using Suc.prems Suc.IH [of "Suc k"] by simp
  qed
qed simp

lemma hashInit_shape:
  assumes "k \<le> 28" "0 < k"
  shows "hash_shape k (hashInit (2 ^ Suc k))" "concat (ht_bucket (hashInit (2 ^ Suc k))) = []"
    "ht_entries (hashInit (2 ^ Suc k)) = 0"
proof -
  have "hash_grow (2 ^ Suc k) 2 1 29 = (2 ^ Suc k, mask (Suc k), 29 - k)"
    using hash_grow_shape [of k 0] assms by (simp add: mask_eq_exp_minus_1)
  moreover have "\<not> (2 :: int) ^ Suc k \<le> 0" by (simp add: not_le)
  ultimately show "hash_shape k (hashInit (2 ^ Suc k))" "concat (ht_bucket (hashInit (2 ^ Suc k))) = []"
    "ht_entries (hashInit (2 ^ Suc k)) = 0"
    using assms by (simp_all add: hashInit_def hash_shape_def nat_power_eq del: power_Suc)
qed

lemma rehash_ok:
  assumes "hash_placed t" and "distinct (map fst ns)" and "\<And>n. n \<in> set ns \<Longrightarrow> hash_map t (fst n) = None"
  shows "hash_placed (rehash ns t) \<and> hash_map (rehash ns t) = hash_map t ++ map_of ns
    \<and> ht_size (rehash ns t) = ht_size t \<and> ht_entries (rehash ns t) = ht_entries t + int (length ns)"
  using assms
proof (induction ns arbitrary: t)
  case Nil
  then show ?case by (simp add: rehash_def)
next
  case (Cons n ns)
  obtain key d where n: "n = (key, d)" by (cases n)
  let ?t = "put_node (hash t key) key d t"
  have 1: "hash_placed ?t" "hash_map ?t = (hash_map t)(key \<mapsto> d)"
    using put_node_ok [OF Cons.prems(1), of key d] Cons.prems(3) [of n] n by auto
  have "hash_map ?t (fst x) = None" if "x \<in> set ns" for x
    using that Cons.prems(2) Cons.prems(3) [of x] 1(2) n by (auto simp: rev_image_eqI)
  then have 2: "hash_placed (rehash ns ?t) \<and> hash_map (rehash ns ?t) = hash_map ?t ++ map_of ns
      \<and> ht_size (rehash ns ?t) = ht_size ?t \<and> ht_entries (rehash ns ?t) = ht_entries ?t + int (length ns)"
    using Cons.IH [OF 1(1)] Cons.prems(2) by simp
  have "key \<notin> fst ` set ns" using Cons.prems(2) n by simp
  then have "map_of ns key = None" by (simp add: map_of_eq_None_iff)
  define N where "N = map_of (n # ns)"
  from \<open>map_of ns key = None\<close> have M: "hash_map ?t ++ map_of ns = hash_map t ++ N"
    by (auto simp: N_def 1(2) n fun_eq_iff map_add_def split: option.splits)
  have R: "rehash (n # ns) t = rehash ns ?t" by (simp add: rehash_def n)
  have "ht_size ?t = ht_size t" "ht_entries ?t = ht_entries t + 1" by (simp_all add: put_node_def)
  then show ?case unfolding R N_def [symmetric] using 2 M by simp
qed

lemma placed_distinct: "hash_placed t \<Longrightarrow> distinct (map fst (concat (ht_bucket t)))"
proof -
  assume p: "hash_placed t"
  have "distinct (map fst (concat bs))" if "\<forall>i < length bs. distinct (map fst (bs ! i))"
    "\<forall>i < length bs. \<forall>n \<in> set (bs ! i). f (fst n) = i + z" for bs :: "(string \<times> 'b) list list" and f z
    using that
  proof (induction bs arbitrary: z)
    case (Cons b bs)
    have tail: "distinct (map fst (bs ! i))" "n \<in> set (bs ! i) \<Longrightarrow> f (fst n) = i + Suc z" if "i < length bs" for i n
      using Cons.prems(1) [rule_format, of "Suc i"] Cons.prems(2) [rule_format, of "Suc i" n] that by auto
    have head: "distinct (map fst b)" "n \<in> set b \<Longrightarrow> f (fst n) = z" for n
      using Cons.prems(1) [rule_format, of 0] Cons.prems(2) [rule_format, of 0 n] by auto
    have "distinct (map fst (concat bs))" by (rule Cons.IH [of "Suc z"]) (use tail in auto)
    moreover have "f (fst n) \<noteq> z" if e: "n \<in> set (concat bs)" for n
    proof -
      obtain c where "c \<in> set bs" "n \<in> set c" using e by auto
      then obtain i where "i < length bs" "n \<in> set (bs ! i)" by (metis in_set_conv_nth)
      then show ?thesis using tail(2) [of i n] by simp
    qed
    then have "set (map fst b) \<inter> set (map fst (concat bs)) = {}" using head(2) by force
    ultimately show ?case using head(1) unfolding concat.simps map_append distinct_append by blast
  qed simp
  from this [of "ht_bucket t" "hash t" 0] p show ?thesis by (simp add: hash_placed_def)
qed

lemma rebuild_ok:
  assumes "hash_placed t" and "ht_size t \<le> 2 ^ 28"
  shows "hash_placed (rebuild_table t) \<and> hash_map (rebuild_table t) = hash_map t
    \<and> ht_size (rebuild_table t) = 2 * ht_size t \<and> ht_entries (rebuild_table t) = ht_entries t"
proof -
  obtain k where k: "hash_shape k t" using assms(1) by (auto simp: hash_placed_def)
  then have s: "ht_size t = 2 ^ Suc k" by (simp add: hash_shape_def)
  have "(2 :: int) ^ Suc k \<le> 2 ^ 28" using s assms(2) by simp
  then have k28: "Suc k \<le> 28" using power_le_imp_le_exp [of "2 :: int" "Suc k" 28] by simp
  define u :: "'a hashTable" where "u = hashInit (2 ^ Suc (Suc k))"
  have I: "hash_shape (Suc k) u" "concat (ht_bucket u) = []" "ht_entries u = 0"
    unfolding u_def by (rule hashInit_shape [OF k28 zero_less_Suc])+
  have "ht_bucket u ! i = []" if "i < length (ht_bucket u)" for i
    using I(2) nth_mem [OF that] by (auto simp: concat_eq_Nil_conv)
  then have 1: "hash_placed u" unfolding hash_placed_def using I(1,3) unfolding I(2) by auto
  have e: "hash_map u = Map.empty" unfolding hash_map_def I(2) by simp
  have "map_of (concat (ht_bucket t)) = hash_map t" by (simp add: hash_map_def)
  with rehash_ok [OF 1 placed_distinct [OF assms(1)]] e
  have "hash_placed (rehash (concat (ht_bucket t)) u) \<and> hash_map (rehash (concat (ht_bucket t)) u) = hash_map t
      \<and> ht_size (rehash (concat (ht_bucket t)) u) = ht_size u
      \<and> ht_entries (rehash (concat (ht_bucket t)) u) = ht_entries u + int (length (concat (ht_bucket t)))"
    by simp
  moreover have "hashInit (2 * ht_size t) = u" using s by (simp add: u_def)
  moreover have "ht_size u = 2 ^ Suc (Suc k)" "ht_entries u = 0" using I by (simp_all add: hash_shape_def)
  moreover have "ht_entries t = int (length (concat (ht_bucket t)))" using assms(1) by (simp add: hash_placed_def)
  ultimately show ?thesis using s unfolding rebuild_table_def by simp
qed


text \<open>A table that has become half full is rebuilt once.\<close>

lemma expand_ok:
  assumes "hash_wf t" and "ht_size t \<le> 2 ^ 28"
  shows "\<exists>u. hash_expand t = Some u \<and> hash_placed u \<and> hash_map u = hash_map t \<and> ht_entries u = ht_entries t
    \<and> 2 * ht_entries u < ht_size u \<and> (u = t \<longleftrightarrow> 2 * ht_entries t < ht_size t)"
proof (cases "2 * ht_entries t < ht_size t")
  case True
  then show ?thesis using assms(1) by (subst hash_expand.simps) (auto simp: hash_wf_def)
next
  case False
  let ?u = "rebuild_table t"
  have p: "hash_placed t" "2 * ht_entries t = ht_size t" using assms(1) False by (auto simp: hash_wf_def)
  note r = rebuild_ok [OF p(1) assms(2)]
  have "0 < ht_size t" using p(1) by (auto simp: hash_placed_def hash_shape_def)
  then have "2 * ht_entries ?u < ht_size ?u" "?u \<noteq> t" using r p(2) by auto
  then have "hash_expand t = Some ?u" using False by (subst hash_expand.simps, subst hash_expand.simps) simp
  then show ?thesis using r False \<open>2 * ht_entries ?u < ht_size ?u\<close> \<open>?u \<noteq> t\<close> by auto
qed

section \<open>The operations on the map\<close>

lemma lookup_map: "hash_placed t \<Longrightarrow> hashLookup t key = (case hash_map t key of Some d \<Rightarrow> (1, Some d) | None \<Rightarrow> (0, None))"
  by (simp add: hashLookup_def find_map_of placed_map split: option.splits)

lemma set_data_facts:
  "map fst (set_data key d ns) = map fst ns" "length (set_data key d ns) = length ns"
  "n \<in> set (set_data key d ns) \<Longrightarrow> fst n = key \<or> n \<in> set ns"
  "map_of (set_data key d ns) k = (if k = key \<and> key \<in> fst ` set ns then Some d else map_of ns k)"
  by (induction ns) (auto split: if_splits)

lemma remove_node_set: "n \<in> set (remove_node key ns) \<Longrightarrow> n \<in> set ns"
  by (induction ns) (auto split: if_splits)

lemma remove_node_length: "map_of ns key \<noteq> None \<Longrightarrow> length ns = Suc (length (remove_node key ns))"
  by (induction ns) (auto split: if_splits)

lemma remove_node_distinct: "distinct (map fst ns) \<Longrightarrow> distinct (map fst (remove_node key ns))"
  by (induction ns) (auto dest: remove_node_set)

lemma remove_node_map: "distinct (map fst ns) \<Longrightarrow> map_of (remove_node key ns) k = (if k = key then None else map_of ns k)"
  by (induction ns) (auto simp: map_of_eq_None_iff rev_image_eqI)

lemma placed_bucket: "hash_placed t \<Longrightarrow> distinct (map fst (ht_bucket t ! hash t key))"
  using hash_bound [of _ t key] by (auto simp: hash_placed_def)

lemma remove_map:
  assumes "hash_wf t"
  shows "hash_wf (snd (hashRemove t key)) \<and> hash_map (snd (hashRemove t key)) = (hash_map t)(key := None)
    \<and> fst (hashRemove t key) = hashLookup t key"
proof (cases "hash_map t key")
  case None
  have p: "hash_placed t" using assms by (simp add: hash_wf_def)
  then show ?thesis using assms None
    by (auto simp: hashRemove_def find_map_of hashLookup_def placed_map [symmetric] Let_def)
next
  case (Some d)
  have p: "hash_placed t" using assms by (simp add: hash_wf_def)
  let ?b = "ht_bucket t ! hash t key"
  have m: "map_of ?b key = Some d" using Some by (simp add: placed_map [OF p])
  then have l: "length ?b = Suc (length (remove_node key ?b))" by (intro remove_node_length) simp
  let ?t = "t\<lparr>ht_bucket := (ht_bucket t)[hash t key := remove_node key ?b], ht_entries := ht_entries t - 1\<rparr>"
  have "hash_placed ?t \<and> hash_map ?t = (hash_map t)(key := map_of (remove_node key ?b) key)"
    by (rule change_bucket [OF p refl remove_node_distinct [OF placed_bucket [OF p]]])
      (use remove_node_map [OF placed_bucket [OF p, of key]] l in \<open>auto dest: remove_node_set\<close>)
  moreover have "hashRemove t key = ((1, Some d), ?t)" "hashLookup t key = (1, Some d)"
    using m by (simp_all add: hashRemove_def hashLookup_def find_map_of Let_def)
  ultimately show ?thesis
    using assms remove_node_map [OF placed_bucket [OF p]] by (simp add: hash_wf_def)
qed

lemma insert_present:
  assumes "hash_wf t" and "hash_map t key = Some old"
  shows "\<exists>u. hashInsert t key d = Some ((1, Some old), u) \<and> hash_wf u \<and> hash_map u = (hash_map t)(key \<mapsto> d)
    \<and> hashInsertTry t key d = Some (0, t)"
proof -
  have p: "hash_placed t" using assms by (simp add: hash_wf_def)
  let ?b = "ht_bucket t ! hash t key"
  have m: "map_of ?b key = Some old" using assms(2) by (simp add: placed_map [OF p])
  let ?u = "t\<lparr>ht_bucket := (ht_bucket t)[hash t key := set_data key d ?b]\<rparr>"
  have "key \<in> fst ` set ?b" using m by (force dest: map_of_SomeD)
  moreover have "hash_placed ?u \<and> hash_map ?u = (hash_map t)(key := map_of (set_data key d ?b) key)"
    by (rule change_bucket [OF p refl])
      (use placed_bucket [OF p, of key] in \<open>auto simp: set_data_facts(1,2,4) dest: set_data_facts(3)\<close>)
  ultimately have "hash_wf ?u \<and> hash_map ?u = (hash_map t)(key \<mapsto> d)"
    using assms(1) by (simp add: hash_wf_def set_data_facts)
  then show ?thesis using m by (simp add: hashInsert_def hashInsertTry_def find_map_of Let_def)
qed

lemma even_size: "hash_placed t \<Longrightarrow> even (ht_size t)"
  by (auto simp: hash_placed_def hash_shape_def)

lemma insert_absent:
  assumes w: "hash_wf t" and n: "hash_map t key = None" and sz: "ht_size t \<le> 2 ^ 28"
  shows "\<exists>u. hashInsert t key d = Some ((0, None), u) \<and> hashInsertTry t key d = Some (1, u)
    \<and> (\<forall>k. k \<noteq> key \<longrightarrow> hashLookup u k = hashLookup t k)
    \<and> (hashLookup u key = (1, Some d) \<longleftrightarrow> hash u key = hash t key)
    \<and> (2 * ht_entries t < ht_size t \<longrightarrow> hash_wf u \<and> hash_map u = (hash_map t)(key \<mapsto> d))"
proof -
  have p: "hash_placed t" using w by (simp add: hash_wf_def)
  obtain v where v: "hash_expand t = Some v" "hash_placed v" "hash_map v = hash_map t" "ht_entries v = ht_entries t"
    "2 * ht_entries v < ht_size v" "v = t \<longleftrightarrow> 2 * ht_entries t < ht_size t"
    using expand_ok [OF w sz] by blast
  let ?h = "hash t key" let ?u = "put_node ?h key d v"
  have nt: "map_of (ht_bucket t ! ?h) key = None" using n by (simp add: placed_map [OF p])
  then have i: "hashInsert t key d = Some ((0, None), ?u)" "hashInsertTry t key d = Some (1, ?u)"
    using v(1) by (simp_all add: hashInsert_def hashInsertTry_def find_map_of Let_def)
  have hs: "hash ?u = hash v" by (intro hash_same) (simp_all add: put_node_def)
  obtain k j where k: "hash_shape k t" "hash_shape j v" using p v(2) by (auto simp: hash_placed_def)
  have "length (ht_bucket t) \<le> length (ht_bucket v)"
    using v(4,5,6) w k by (cases "v = t") (auto simp: hash_wf_def hash_shape_def)
  then have b: "?h < length (ht_bucket v)" using hash_bound [OF k(1), of key] by linarith
  have look: "find (\<lambda>n. fst n = x) (ht_bucket ?u ! hash ?u x)
      = (if x = key \<and> hash v key = ?h then Some (key, d) else find (\<lambda>n. fst n = x) (ht_bucket v ! hash v x))" for x
    using b unfolding hs by (auto simp: put_node_def nth_list_update)
  have "hashLookup ?u x = hashLookup t x" if "x \<noteq> key" for x
    using that lookup_map [OF v(2), of x] lookup_map [OF p, of x] v(3) look [of x] by (simp add: hashLookup_def)
  moreover have "find (\<lambda>n. fst n = key) (ht_bucket v ! hash v key) = None"
    using n v(3) by (simp add: find_map_of flip: placed_map [OF v(2)])
  then have "hashLookup ?u key = (1, Some d) \<longleftrightarrow> hash ?u key = hash t key"
    using look [of key] hs by (simp add: hashLookup_def)
  moreover have "hash_wf ?u \<and> hash_map ?u = (hash_map t)(key \<mapsto> d)" if r: "2 * ht_entries t < ht_size t"
  proof -
    have "v = t" using v(6) r by simp
    then show ?thesis using put_node_ok [OF p n, of d] r even_size [OF p]
      by (auto simp: hash_wf_def put_node_def elim!: evenE)
  qed
  ultimately show ?thesis using i by (intro exI [of _ ?u]) simp
qed

section \<open>Properties\<close>

text \<open>A table with one entry, and the table that an insertion into it makes.\<close>

definition table1 :: "nat hashTable" where
  "table1 = \<lparr>ht_bucket = [[(''a'', 1)], []], ht_size = 2, ht_entries = 1, ht_downshift = 29, ht_mask = 1\<rparr>"

definition table2 :: "nat hashTable" where
  "table2 = \<lparr>ht_bucket = [[], [(''a'', 1)], [], []], ht_size = 4, ht_entries = 1, ht_downshift = 28, ht_mask = 3\<rparr>"

lemma table1_wf: "hash_wf table1"
proof -
  have "hash table1 ''a'' = 0" by code_simp
  then show ?thesis
    by (auto simp: hash_wf_def hash_placed_def hash_shape_def table1_def less_Suc_eq mask_eq_exp_minus_1 intro: exI [of _ 0])
qed

lemma table1_expand: "hash_expand table1 = Some table2"
proof -
  have "rebuild_table table1 = table2" by code_simp
  then show ?thesis
    by (subst hash_expand.simps, subst hash_expand.simps) (simp add: table1_def table2_def)
qed

text \<open>C38: The operations on a table in good order are those on a map.  Looking a key up and removing it always are, and so
  are \<^verbatim>\<open>hashInsert\<close> for a key of the table and for any key as long as less than half of the buckets are needed.
  When an insertion makes the table grow, however, the new node goes into the bucket that the key had before:
  the other keys are found as ever, the new one only if its bucket has the same number as before.\<close>

theorem hash_table_map:
  assumes w: "hash_wf t" and sz: "ht_size t \<le> 2 ^ 28"
  shows "hashLookup t key = (case hash_map t key of Some d \<Rightarrow> (1, Some d) | None \<Rightarrow> (0, None))
    \<and> hash_wf (snd (hashRemove t key)) \<and> hash_map (snd (hashRemove t key)) = (hash_map t)(key := None)
    \<and> (\<exists>r u. hashInsert t key d = Some (r, u) \<and> (\<forall>k. k \<noteq> key \<longrightarrow> hashLookup u k = hashLookup t k)
        \<and> (hash_map t key \<noteq> None \<or> 2 * ht_entries t < ht_size t \<longrightarrow> hash_wf u \<and> hash_map u = (hash_map t)(key \<mapsto> d))
        \<and> (hash_map t key = None \<longrightarrow> (hashLookup u key = (1, Some d) \<longleftrightarrow> hash u key = hash t key)))"
proof -
  have p: "hash_placed t" using w by (simp add: hash_wf_def)
  have "\<exists>r u. hashInsert t key d = Some (r, u) \<and> (\<forall>k. k \<noteq> key \<longrightarrow> hashLookup u k = hashLookup t k)
        \<and> (hash_map t key \<noteq> None \<or> 2 * ht_entries t < ht_size t \<longrightarrow> hash_wf u \<and> hash_map u = (hash_map t)(key \<mapsto> d))
        \<and> (hash_map t key = None \<longrightarrow> (hashLookup u key = (1, Some d) \<longleftrightarrow> hash u key = hash t key))"
  proof (cases "hash_map t key")
    case None
    then show ?thesis using insert_absent [OF w None sz, of d] by auto
  next
    case (Some old)
    from insert_present [OF w this, of d] obtain u where u: "hashInsert t key d = Some ((1, Some old), u)"
      "hash_wf u" "hash_map u = (hash_map t)(key \<mapsto> d)" by blast
    then have "hash_placed u" by (simp add: hash_wf_def)
    then have "hashLookup u k = hashLookup t k" if "k \<noteq> key" for k
      using that u(3) by (simp add: lookup_map p)
    then show ?thesis using u Some by auto
  qed
  then show ?thesis using lookup_map [OF p] remove_map [OF w] by blast
qed

theorem hash_table_map_witness:
  "\<exists>r u. hashInsert table1 ''b'' 2 = Some (r, u) \<and> hashLookup u ''a'' = (1, Some 1) \<and> hashLookup u ''b'' \<noteq> (1, Some 2)"
proof -
  have h: "hash table1 ''b'' = 0" "hash table2 ''b'' = 1" "hash_map table1 ''b'' = None"
    "hashLookup table1 ''a'' = (1, Some 1)" by code_simp+
  have "find (\<lambda>n. fst n = ''b'') (ht_bucket table1 ! hash table1 ''b'') = None" by code_simp
  then have i: "hashInsert table1 ''b'' 2 = Some ((0, None), put_node 0 ''b'' 2 table2)"
    by (simp add: hashInsert_def Let_def h table1_expand)
  have "hash (put_node 0 ''b'' 2 table2) = hash table2" by (intro hash_same) (simp_all add: put_node_def)
  moreover have "ht_size table1 \<le> 2 ^ 28" by (simp add: table1_def)
  note hash_table_map [OF table1_wf this, of "''b''" 2]
  ultimately show ?thesis using i h by auto
qed

end
