(* ===== verification/Spec2Isabelle.thy ===== *)
theory Spec2Isabelle
  imports Et_ReadWriteSpec Et_Dump Et_StationRoute Et_StationSpec Et_SystemLists Et_ConductorSpec Et_StatConfig Et_SysConfig Et_OpenConfig Et_TransferSpec Cmsg_Base64 Cmsg_Hash
begin

text \<open>
  \<^bold>\<open>Verification of the event transfer system of POKER-RECO.\<close>

  POKER-RECO reconstructs data of a particle physics experiment.  Its C code is the data transport
  that the reconstruction and the monitoring are fed by: ET, a system that hands events from
  producers to consumers through shared memory (\<^verbatim>\<open>src/src/external/et/src/libsrc\<close>), and cMsg, a
  messaging client (\<^verbatim>\<open>src/src/external/cMsg-3.6/src/libsrc\<close>).  This development models the core of
  ET and two libraries of cMsg.

  \<^bold>\<open>How an ET system works.\<close>  A fixed number of events and an array of stations live in shared
  memory.  Every station has an input list and an output list of events, both linked by indices.  The
  stations form a list of groups of parallel stations whose first member is GrandCentral.  A process
  that is attached to a station reads events from its input list and later writes them to its output
  list.  A thread per station (its conductor) takes the events of the output list and puts each of
  them into the input list of the next station behind it that selects it, and at last into that of
  GrandCentral, where new events are taken from.  Processes may die at any time, also inside a list
  routine; the system process then repairs the lists and recovers the events.

  \<^bold>\<open>Theories and sources\<close> (file names without a directory are those of ET)

  \<^item> \<open>Poker_Prelude\<close>: vocabulary.  A C routine that updates shared memory is a \<open>cmd\<close>, a program that
    yields a result, a fault, a state in which it waits for ever, or an endless loop, and that may be
    cut off behind any of its assignments.  Loops are defined by recursion over what they run through,
    by \<open>partial_function (option)\<close> where the links followed may form a cycle (not returning is
    \<open>None\<close>), or with the list of what a waiting process meets as bound.
  \<^item> \<open>Et_Memory\<close>: \<^verbatim>\<open>et.h\<close> and \<^verbatim>\<open>et_private.h\<close>; the structures as records, the memory of a system
    \<open>et_mem\<close> with arrays of events, stations, attachments and the records of unfinished list
    operations.
  \<^item> \<open>Et_StationLists\<close>, \<open>Et_Repair\<close>, \<open>Et_Llist\<close>, \<open>Et_Restore\<close>: \<^verbatim>\<open>et_readwrite.c\<close>; the routines
    that read, write and dump the lists of a station, their repair, the lists of the conductor, the
    recovery of the events of a dead attachment.  \<open>Et_PriorityOrder\<close> and \<open>Et_ListFacts\<close> hold the
    abstract lists, \<open>Et_StationWrite\<close>, \<open>Et_StationRead\<close>, \<open>Et_ReadRepair\<close>, \<open>Et_Dump\<close>, \<open>Et_LlistSpec\<close>
    and \<open>Et_RestoreSpec\<close> the proofs, \<open>Et_Samples\<close> concrete memories.
    Properties: \<open>Et_ReadWriteSpec\<close> (C1 to C8) and \<open>Et_SystemLists\<close> (C21 to C23).
  \<^item> \<open>Et_StatConfig\<close>, \<open>Et_SysConfig\<close>, \<open>Et_OpenConfig\<close>: \<^verbatim>\<open>et_statconfig.c\<close>, \<^verbatim>\<open>et_sysconfig.c\<close>,
    \<^verbatim>\<open>et_openconfig.c\<close> and the check of a system configuration; \<open>Et_Address\<close>: addresses, from
    \<^verbatim>\<open>etCommonNetwork.c\<close>.  \<open>Et_ConfigInterface\<close> states the contract of a setter and its getter as a
    locale, interpreted for each field.  Properties: C9 and C11 to C20, in these theories.
  \<^item> \<open>Et_Conductor\<close>, \<open>Et_EqualCue\<close>, \<open>Et_ShellSort\<close>: \<^verbatim>\<open>et_conductor\<close>, \<^verbatim>\<open>et_condition\<close> and
    \<^verbatim>\<open>shellSort\<close> of \<^verbatim>\<open>et_system.c\<close>.  \<open>Et_Holdings\<close> says where the events are (\<open>holds\<close>); \<open>Et_ConductorFacts\<close>,
    \<open>Et_ConductorSteps\<close>, \<open>Et_ConductorGroups\<close> and \<open>Et_ConductorRound\<close> prove that each step of a round
    moves events and does nothing else (\<open>step_ok\<close>).  Properties: \<open>Et_ConductorSpec\<close> (C24 to C28).
  \<^item> \<open>Et_StationChain\<close>, \<open>Et_Station\<close>, \<open>Et_StationInfo\<close>: \<^verbatim>\<open>et_station.c\<close>; \<open>Et_Init\<close> and \<open>Et_Start\<close>:
    \<^verbatim>\<open>et_init.c\<close> and the start of a system in \<^verbatim>\<open>et_system.c\<close>; \<open>Et_Fix\<close>: the repair of the lists of stations
    there.  The abstract view is a list of groups (\<open>stations s gs\<close>, \<open>Et_StationGroups\<close>,
    \<open>Et_StationPlaces\<close>, \<open>Et_StationRoute\<close>); \<open>Et_StationSystem\<close> and \<open>Et_StationSteps\<close> state the invariant of
    a running system, \<open>Et_StartFacts\<close>, \<open>Et_StationFaults\<close>, \<open>Et_FixLinks\<close>, \<open>Et_FixCrash\<close> and
    \<open>Et_FixStations\<close> hold proofs.  The locales of \<open>Et_Kept\<close> and \<open>Et_KeptConductor\<close> say once which
    relations between memories the event routines and the conductors keep; they are interpreted on
    what the stations need, and on \<open>only_list\<close> and \<open>same_apart\<close>, by which C1 and C21 say that nothing
    else changes.  What \<open>reachable\<close> includes is said at \<open>station_step\<close> and in C33: removing or detaching at a
    station that is not in use and \<^verbatim>\<open>et_station_setposition\<close> (C35) are left out.
    Properties: \<open>Et_StationSpec\<close> (C29 to C36).
  \<^item> \<open>Et_Event\<close>: \<^verbatim>\<open>et_event.c\<close>, the calls with which attachments obtain events and give them back.
    \<open>Et_SingleCalls\<close> (with C10) and \<open>Et_GroupRead\<close> complete what is known of the list routines below them;
    \<open>Et_Circulate\<close> states that all events circulate (\<open>circulates s L\<close>) and what reading and writing move,
    \<open>Et_CallSteps\<close> and \<open>Et_CallStations\<close> what each call moves and leaves alone, \<open>Et_Downstream\<close> where a
    round of a conductor can put events (an instance of the locale \<open>deal_relation\<close>).  \<open>Et_Transfer\<close> puts them
    together as a step relation on memories.  A call is a step from where it need not sleep any more; the
    steps of other processes meanwhile are steps of their own.  Properties: \<open>Et_TransferSpec\<close> (C39: no event
    is lost or shared, as long as no caller gives an event twice in one array; C40: in a fair run every event comes back to GrandCentral).
  \<^item> \<open>Cmsg_Base64\<close>: \<^verbatim>\<open>encode.c\<close> of cMsg (C37); \<open>Cmsg_Hash\<close>: \<^verbatim>\<open>hash.c\<close> of cMsg (C38).

  \<^bold>\<open>Assumptions and bounds.\<close>  Pointers that the documentation asks for are given, and memory is there
  when it is asked for.  A routine that holds a mutex runs alone on what the mutex protects, so that a
  routine is one program; what other processes do while it sleeps is an argument of it.  Clocks and the
  answers of sockets are arguments too.  Numbers of events, stations and attachments are within the
  arrays and within the range of \<^verbatim>\<open>int\<close>; priorities, statistics and control words are unbounded
  integers where no wrap-around can be reached, and words of their width elsewhere.  Where an \<^verbatim>\<open>int\<close> can
  overflow, in the sum of the sizes of the groups and in the numbers of an address, it is cut to 32 bits (\<open>c_int\<close>,
  two's complement; a \<^verbatim>\<open>long\<close> has 64 bits).  Hash tables have at
  most \<open>2 ^ 29\<close> buckets and base64 texts are shorter than the range of \<^verbatim>\<open>unsigned int\<close>, except in the two
  estimates of a length.  Where a definition has fuel the theorems say that the fuel given is enough.

  \<^bold>\<open>Not modelled.\<close>  Remote clients, the TCP server, UDP discovery and the Java interface
  (\<^verbatim>\<open>et_remote.c\<close>, \<^verbatim>\<open>et_server.c\<close>, \<^verbatim>\<open>et_network.c\<close>, \<^verbatim>\<open>etCommonNetwork.c\<close> but for addresses, \<^verbatim>\<open>et_jni.c\<close>)
  are exchanges over sockets; opening and mapping of files, threads, signals and heartbeats
  (\<^verbatim>\<open>et_local.c\<close>, \<^verbatim>\<open>et_mem.c\<close>, the rest of \<^verbatim>\<open>et_system.c\<close>) are calls of the operating system.  Of cMsg
  the client and the server are networking as well.  JANA, RootSpy, the readers of data files,
  and the reconstruction and its plugins are C++ written against ROOT and threads.
\<close>

end
